(* ===== verification/Nachos_Prelude.thy ===== *)
theory Nachos_Prelude
  imports Main "HOL-Library.Word"
begin

text \<open>
  Shared vocabulary of the development: the faults a kernel routine can stop with, the
  sequencing of fallible steps, C integer division, the rounding macros of
  \<^verbatim>\<open>code/threads/utility.h\<close>, the little-endian byte layout of machine words on the i386 host
  (\<^verbatim>\<open>code/Makefile.dep\<close> selects \<^verbatim>\<open>HOST_i386\<close>), and the list lemmas the components share.
\<close>

unbundle bit_operations_syntax

section \<open>Faults and sequencing\<close>

text \<open>
  \<open>AssertFailed\<close>: the condition of an \<^verbatim>\<open>ASSERT\<close> is false, so \<^verbatim>\<open>Abort()\<close> ends the simulator
  (\<^verbatim>\<open>utility.h\<close>). \<open>BadAccess\<close>: the code reads or writes through a null pointer or outside an
  array, or divides by zero, where C++ gives no meaning. \<open>Blocked\<close>: the only running thread waits on
  a semaphore that nobody can signal. \<open>Diverges\<close>: a loop of the source never ends. \<open>Exited\<close>: the
  simulator ended by \<^verbatim>\<open>Exit(0)\<close>.
\<close>

datatype fault = AssertFailed | BadAccess | Blocked | Diverges | Exited

type_synonym 'a result = "fault + 'a"

definition bindE :: "'a result \<Rightarrow> ('a \<Rightarrow> 'b result) \<Rightarrow> 'b result" where
  "bindE m f = (case m of Inl e \<Rightarrow> Inl e | Inr x \<Rightarrow> f x)"

definition ASSERT :: "bool \<Rightarrow> 'a result \<Rightarrow> 'a result" where
  "ASSERT c k = (if c then k else Inl AssertFailed)"

named_theorems fault_simps \<open>rewriting of sequenced fallible steps\<close>
named_theorems byte_simps \<open>layout of integers and structures in bytes\<close>
named_theorems list_upd_simps \<open>reading back updated arrays\<close>

lemma bindE_Inr [simp, fault_simps]: "bindE (Inr x) f = f x"
  by (simp add: bindE_def)

lemma bindE_Inl [simp, fault_simps]: "bindE (Inl e) f = Inl e"
  by (simp add: bindE_def)

lemma bindE_cong [fundef_cong]:
  "m = m' \<Longrightarrow> (\<And>x. m' = Inr x \<Longrightarrow> f x = f' x) \<Longrightarrow> bindE m f = bindE m' f'"
  by (auto simp: bindE_def split: sum.splits)

lemma bindE_eq_Inr: "bindE m f = Inr y \<longleftrightarrow> (\<exists>x. m = Inr x \<and> f x = Inr y)"
  by (auto simp: bindE_def split: sum.splits)

lemma bindE_eq_Inl:
  "bindE m f = Inl e \<longleftrightarrow> m = Inl e \<or> (\<exists>x. m = Inr x \<and> f x = Inl e)"
  by (auto simp: bindE_def split: sum.splits)

lemma bindE_assoc [fault_simps]: "bindE (bindE m f) g = bindE m (\<lambda>x. bindE (f x) g)"
  by (simp add: bindE_def split: sum.splits)

lemma bindE_InrE [elim]:
  assumes "bindE m f = Inr y"
  obtains x where "m = Inr x" "f x = Inr y"
  using assms by (auto simp: bindE_eq_Inr)

lemma ASSERT_True [simp, fault_simps]: "ASSERT True k = k"
  by (simp add: ASSERT_def)

lemma ASSERT_False [simp, fault_simps]: "ASSERT False k = Inl AssertFailed"
  by (simp add: ASSERT_def)

lemma ASSERT_eq_Inr: "ASSERT c k = Inr y \<longleftrightarrow> c \<and> k = Inr y"
  by (simp add: ASSERT_def)

lemma ASSERT_cong [fundef_cong]:
  "c = c' \<Longrightarrow> (c' \<Longrightarrow> k = k') \<Longrightarrow> ASSERT c k = ASSERT c' k'"
  by (simp add: ASSERT_def)

text \<open>
  A counted loop whose body may fault: \<open>foldE f xs s\<close> runs \<open>f\<close> for the successive values
  \<open>xs\<close> of the loop variable, and stops at the first fault.
\<close>

fun foldE :: "('x \<Rightarrow> 's \<Rightarrow> 's result) \<Rightarrow> 'x list \<Rightarrow> 's \<Rightarrow> 's result" where
  "foldE f [] s = Inr s"
| "foldE f (x # xs) s = bindE (f x s) (foldE f xs)"

lemma foldE_append: "foldE f (xs @ ys) s = bindE (foldE f xs s) (foldE f ys)"
  by (induction xs arbitrary: s) (auto simp: bindE_def split: sum.splits)

lemma foldE_fold:
  "(\<And>x s. x \<in> set xs \<Longrightarrow> I s \<Longrightarrow> f x s = Inr (g x s) \<and> I (g x s)) \<Longrightarrow> I s \<Longrightarrow>
    foldE f xs s = Inr (fold g xs s) \<and> I (fold g xs s)"
  by (induction xs arbitrary: s) auto

lemma foldE_cong [fundef_cong]:
  "xs = ys \<Longrightarrow> s = t \<Longrightarrow> (\<And>x u. x \<in> set ys \<Longrightarrow> f x u = g x u) \<Longrightarrow> foldE f xs s = foldE g ys t"
proof (induction xs arbitrary: s ys t)
  case (Cons x xs)
  then show ?case by (auto simp: bindE_def split: sum.splits)
qed simp

section \<open>What holds of a result\<close>

text \<open>\<open>gives R r\<close>: if \<open>r\<close> is a value, it satisfies \<open>R\<close>.\<close>

definition gives :: "('a \<Rightarrow> bool) \<Rightarrow> 'a result \<Rightarrow> bool" where
  "gives R r \<longleftrightarrow> (\<forall>x. r = Inr x \<longrightarrow> R x)"

lemma gives_Inr [simp]: "gives R (Inr x) = R x"
  by (simp add: gives_def)

lemma gives_Inl [simp]: "gives R (Inl e)"
  by (simp add: gives_def)

lemma gives_bindE [simp]: "gives R (bindE r f) = gives (\<lambda>x. gives R (f x)) r"
  by (cases r) simp_all

lemma gives_ASSERT [simp]: "gives R (ASSERT c r) = (c \<longrightarrow> gives R r)"
  by (cases c) simp_all

lemma givesD: "gives R r \<Longrightarrow> r = Inr x \<Longrightarrow> R x"
  by (simp add: gives_def)

lemma gives_mono: "gives R r \<Longrightarrow> (\<And>x. R x \<Longrightarrow> R' x) \<Longrightarrow> gives R' r"
  by (simp add: gives_def)

lemma gives_foldE:
  "(\<And>x s. x \<in> set xs \<Longrightarrow> R s \<Longrightarrow> gives R (f x s)) \<Longrightarrow> R s \<Longrightarrow> gives R (foldE f xs s)"
proof (induction xs arbitrary: s)
  case (Cons x xs)
  then have "gives R (f x s)" by simp
  then have "gives (\<lambda>s. gives R (foldE f xs s)) (f x s)" by (rule gives_mono) (rule Cons.IH, use Cons.prems in auto)
  then show ?case by simp
qed simp

text \<open>A step of a thread is done or has to wait: no check fails.\<close>

definition done_or_waits :: "'a result \<Rightarrow> bool" where
  "done_or_waits r \<longleftrightarrow> (case r of Inr _ \<Rightarrow> True | Inl f \<Rightarrow> f = Blocked)"

lemma done_or_waits_simps [simp]: "done_or_waits (Inr x)" "done_or_waits (Inl Blocked)"
  "done_or_waits (bindE r (\<lambda>x. Inr (g x))) = done_or_waits r"
  by (cases r; simp add: done_or_waits_def)+

section \<open>C integers\<close>

text \<open>
  Division of C integers truncates towards zero and \<^verbatim>\<open>a % b\<close> has the sign of \<^verbatim>\<open>a\<close>. Division by
  zero never occurs in the arithmetic below: every divisor is a positive constant.
\<close>

definition c_div :: "int \<Rightarrow> int \<Rightarrow> int" where
  "c_div a b = sgn a * sgn b * (\<bar>a\<bar> div \<bar>b\<bar>)"

definition c_mod :: "int \<Rightarrow> int \<Rightarrow> int" where
  "c_mod a b = a - c_div a b * b"

lemma c_div_nonneg [simp]: "0 \<le> a \<Longrightarrow> 0 < b \<Longrightarrow> c_div a b = a div b"
  by (cases "a = 0") (simp_all add: c_div_def sgn_if)

lemma c_mod_nonneg [simp]: "0 \<le> a \<Longrightarrow> 0 < b \<Longrightarrow> c_mod a b = a mod b"
  by (simp add: c_mod_def minus_div_mult_eq_mod)

text \<open>A 32-bit word read as a signed number.\<close>

lemma sint_cases: "sint (w :: 32 word) = (if uint w < 2 ^ 31 then uint w else uint w - 2 ^ 32)"
proof -
  have b: "0 \<le> uint w" "uint w < 2 ^ 32" using uint_lt2p [of w] by simp_all
  have s: "sint w = (uint w + 2 ^ 31) mod 2 ^ 32 - 2 ^ 31"
    using signed_take_bit_eq_take_bit_shift [of 31 "uint w"] by (simp add: sint_uint take_bit_int_def)
  show ?thesis
  proof (cases "uint w < 2 ^ 31")
    case False
    have "(uint w + 2 ^ 31) mod 2 ^ 32 = ((uint w - 2 ^ 31) + 2 ^ 32) mod 2 ^ 32" by (simp add: algebra_simps)
    also have "\<dots> = uint w - 2 ^ 31"
      using False b by (simp only: mod_add_self2) (rule mod_pos_pos_trivial; simp)
    finally show ?thesis using s False by simp
  qed (use s b in simp)
qed

lemma sint_small:
  assumes "unat (w :: 32 word) < 2 ^ 31"
  shows "sint w = int (unat w)"
proof -
  have "int (unat w) < int (2 ^ 31)" using assms by (simp only: of_nat_less_iff)
  then show ?thesis by (simp add: sint_cases)
qed

text \<open>Conversion of an \<^verbatim>\<open>int\<close> to \<^verbatim>\<open>unsigned int\<close>, as in comparisons with \<^verbatim>\<open>sizeof\<close> expressions.\<close>

definition u32 :: "int \<Rightarrow> int" where
  "u32 i = i mod 2 ^ 32"

lemma u32_nonneg [simp]: "0 \<le> i \<Longrightarrow> i < 2 ^ 32 \<Longrightarrow> u32 i = i"
  by (simp add: u32_def)

definition divRoundDown :: "int \<Rightarrow> int \<Rightarrow> int" where
  "divRoundDown n s = c_div n s"

definition divRoundUp :: "int \<Rightarrow> int \<Rightarrow> int" where
  "divRoundUp n s = c_div n s + (if c_mod n s > 0 then 1 else 0)"

lemma divRoundUp_least:
  assumes "0 \<le> n" "0 < s"
  shows "divRoundUp n s \<le> k \<longleftrightarrow> n \<le> k * s"
proof -
  have m: "0 \<le> n mod s" "n mod s < s" and eq: "n = n div s * s + n mod s"
    using assms by auto
  show ?thesis
  proof (cases "n mod s = 0")
    case True
    then have "n \<le> k * s \<longleftrightarrow> n div s * s \<le> k * s" using eq by simp
    with True assms show ?thesis by (simp add: divRoundUp_def)
  next
    case False
    have "n \<le> k * s \<longleftrightarrow> n div s < k"
    proof
      assume "n \<le> k * s"
      with False eq m have "n div s * s < k * s" by linarith
      with assms show "n div s < k" by simp
    next
      assume "n div s < k"
      then have "(n div s + 1) * s \<le> k * s" using assms by (intro mult_right_mono) auto
      then have "n div s * s + s \<le> k * s" by (simp add: distrib_right)
      with eq m show "n \<le> k * s" by linarith
    qed
    moreover have "0 < n mod s" using False m by linarith
    ultimately show ?thesis using assms by (auto simp: divRoundUp_def)
  qed
qed

section \<open>Bytes\<close>

type_synonym byte = "8 word"

text \<open>A 32-bit word as the four bytes an i386 stores at increasing addresses, and back.\<close>

definition word_bytes :: "32 word \<Rightarrow> byte list" where
  "word_bytes w = [ucast w, ucast (drop_bit 8 w), ucast (drop_bit 16 w), ucast (drop_bit 24 w)]"

definition bytes_word :: "byte list \<Rightarrow> 32 word" where
  "bytes_word bs = (ucast (bs ! 0) OR push_bit 8 (ucast (bs ! 1))) OR
     (push_bit 16 (ucast (bs ! 2)) OR push_bit 24 (ucast (bs ! 3)))"

lemma length_word_bytes [simp, byte_simps]: "length (word_bytes w) = 4"
  by (simp add: word_bytes_def)

lemma bytes_word_bytes [simp, byte_simps]: "bytes_word (word_bytes w) = w"
proof (rule bit_word_eqI)
  fix n assume "n < LENGTH(32)"
  then consider "n < 8" | "8 \<le> n" "n < 16" | "16 \<le> n" "n < 24" | "24 \<le> n" "n < 32"
    by fastforce
  then show "bit (bytes_word (word_bytes w)) n = bit w n"
    by cases (auto simp: bytes_word_def word_bytes_def bit_simps)
qed

lemma word_bytes_word [simp, byte_simps]:
  assumes "length bs = 4"
  shows "word_bytes (bytes_word bs) = bs"
proof -
  obtain a b c d where bs: "bs = [a, b, c, d]" using assms by (auto simp: numeral_eq_Suc length_Suc_conv)
  have "ucast (bytes_word bs) = a" "ucast (drop_bit 8 (bytes_word bs)) = b"
    "ucast (drop_bit 16 (bytes_word bs)) = c" "ucast (drop_bit 24 (bytes_word bs)) = d"
    by (rule bit_word_eqI; auto simp: bs bytes_word_def bit_simps dest: bit_imp_le_length)+
  then show ?thesis by (simp add: word_bytes_def bs)
qed

text \<open>A C \<^verbatim>\<open>int\<close> in memory: its two's complement.\<close>

definition int_bytes :: "int \<Rightarrow> byte list" where
  "int_bytes i = word_bytes (word_of_int i)"

definition bytes_int :: "byte list \<Rightarrow> int" where
  "bytes_int bs = sint (bytes_word bs)"

definition in_int32 :: "int \<Rightarrow> bool" where
  "in_int32 i \<longleftrightarrow> - (2 ^ 31) \<le> i \<and> i < 2 ^ 31"

lemma length_int_bytes [simp, byte_simps]: "length (int_bytes i) = 4"
  by (simp add: int_bytes_def)

lemma bytes_int_bytes [simp, byte_simps]: "in_int32 i \<Longrightarrow> bytes_int (int_bytes i) = i"
  by (simp add: bytes_int_def int_bytes_def in_int32_def sint_word_ariths signed_take_bit_int_eq_self sint_sbintrunc')

lemma int_bytes_int [simp, byte_simps]: "length bs = 4 \<Longrightarrow> int_bytes (bytes_int bs) = bs"
  by (simp add: bytes_int_def int_bytes_def)

lemma in_int32_bytes_int [simp]: "in_int32 (bytes_int bs)"
  using sint_ge [of "bytes_word bs"] sint_lt [of "bytes_word bs"]
  by (simp add: bytes_int_def in_int32_def)

section \<open>Arrays\<close>

text \<open>
  \<open>blit src dst k\<close> copies all of \<open>src\<close> over \<open>dst\<close> from index \<open>k\<close> on, as \<^verbatim>\<open>bcopy\<close> and
  \<^verbatim>\<open>memcpy\<close> do into a large enough destination; \<open>slice k n xs\<close> is the block of \<open>n\<close> elements at
  \<open>k\<close>.
\<close>

definition slice :: "nat \<Rightarrow> nat \<Rightarrow> 'a list \<Rightarrow> 'a list" where
  "slice k n xs = take n (drop k xs)"

definition blit :: "'a list \<Rightarrow> 'a list \<Rightarrow> nat \<Rightarrow> 'a list" where
  "blit src dst k = take k dst @ src @ drop (k + length src) dst"

lemma length_slice [simp, list_upd_simps]: "k + n \<le> length xs \<Longrightarrow> length (slice k n xs) = n"
  by (simp add: slice_def)

lemma length_blit [simp, list_upd_simps]:
  "k + length src \<le> length dst \<Longrightarrow> length (blit src dst k) = length dst"
  by (simp add: blit_def)

lemma nth_slice [list_upd_simps]: "k + n \<le> length xs \<Longrightarrow> i < n \<Longrightarrow> slice k n xs ! i = xs ! (k + i)"
  by (simp add: slice_def)

lemma nth_blit [list_upd_simps]:
  assumes "k + length src \<le> length dst" "i < length dst"
  shows "blit src dst k ! i = (if k \<le> i \<and> i < k + length src then src ! (i - k) else dst ! i)"
  using assms by (auto simp: blit_def nth_append min_def)

lemma slice_blit_same [list_upd_simps]:
  "k + length src \<le> length dst \<Longrightarrow> slice k (length src) (blit src dst k) = src"
  by (simp add: slice_def blit_def)

lemma slice_blit_other [list_upd_simps]:
  assumes "k + length src \<le> length dst" "j + n \<le> length dst" "j + n \<le> k \<or> k + length src \<le> j"
  shows "slice j n (blit src dst k) = slice j n dst"
  using assms by (intro nth_equalityI) (auto simp: nth_slice nth_blit)

section \<open>Threads at control points\<close>

text \<open>How many of the threads \<open>T\<close> are at one of the points \<open>P\<close> of their program.\<close>

definition count_at :: "'t set \<Rightarrow> ('t \<Rightarrow> 'p) \<Rightarrow> 'p set \<Rightarrow> nat" where
  "count_at T pc P = card {t \<in> T. pc t \<in> P}"

lemma count_at_upd:
  assumes "finite T" "t \<in> T"
  shows "count_at T (pc(t := q)) P + (if pc t \<in> P then 1 else 0) = count_at T pc P + (if q \<in> P then 1 else 0)"
proof -
  let ?A = "{u \<in> T - {t}. pc u \<in> P}"
  have f: "finite ?A" "t \<notin> ?A" using assms(1) by auto
  have "{u \<in> T. (pc(t := q)) u \<in> P} = (if q \<in> P then insert t ?A else ?A)" using assms(2) by auto
  moreover have "{u \<in> T. pc u \<in> P} = (if pc t \<in> P then insert t ?A else ?A)" using assms(2) by auto
  ultimately show ?thesis using f by (simp add: count_at_def)
qed

lemma int_count_at_upd:
  "finite T \<Longrightarrow> t \<in> T \<Longrightarrow>
    int (count_at T (pc(t := q)) P) = int (count_at T pc P) - (if pc t \<in> P then 1 else 0) + (if q \<in> P then 1 else 0)"
  using count_at_upd [of T t pc q P] by (auto split: if_splits)

lemma count_at_other: "t \<notin> T \<Longrightarrow> count_at T (pc(t := q)) P = count_at T pc P"
  unfolding count_at_def by (intro arg_cong [of _ _ card]) auto

lemma count_at_pos: "finite T \<Longrightarrow> t \<in> T \<Longrightarrow> pc t \<in> P \<Longrightarrow> 0 < count_at T pc P"
  by (auto simp: count_at_def card_gt_0_iff)

lemma count_at_ex: "0 < count_at T pc P \<Longrightarrow> \<exists>t \<in> T. pc t \<in> P"
  by (auto simp: count_at_def card_gt_0_iff)

lemma count_at_none: "(\<And>t. t \<in> T \<Longrightarrow> pc t \<notin> P) \<Longrightarrow> count_at T pc P = 0"
  by (auto simp: count_at_def card_eq_0_iff)

lemma count_at_one:
  assumes "finite T" "count_at T pc P \<le> 1" "t \<in> T" "pc t \<in> P" "u \<in> T" "pc u \<in> P"
  shows "t = u"
proof (rule ccontr)
  assume "t \<noteq> u"
  then have "card {t, u} = 2" by simp
  moreover have "card {t, u} \<le> count_at T pc P" unfolding count_at_def by (rule card_mono) (use assms in auto)
  ultimately show False using assms(2) by simp
qed

section \<open>Results that are not divergence\<close>

text \<open>\<open>ends r\<close>: the call returns or stops with a fault of its own, but does not run forever or out of fuel.\<close>

definition ends :: "'a result \<Rightarrow> bool" where
  "ends r \<longleftrightarrow> r \<noteq> Inl Diverges"

named_theorems ends_rules \<open>calls that end\<close>

lemma ends_basic [ends_rules]:
  "ends (Inr x)" "ends (Inl AssertFailed)" "ends (Inl BadAccess)" "ends (Inl Blocked)" "ends (Inl Exited)"
  by (simp_all add: ends_def)

lemma ends_bindE [ends_rules]: "ends m \<Longrightarrow> (\<And>x. ends (f x)) \<Longrightarrow> ends (bindE m f)"
  by (cases m) (auto simp: ends_def)

lemma ends_bindE_Inr: "ends m \<Longrightarrow> (\<And>x. m = Inr x \<Longrightarrow> ends (f x)) \<Longrightarrow> ends (bindE m f)"
  by (cases m) (auto simp: ends_def)

lemma ends_ASSERT [ends_rules]: "ends m \<Longrightarrow> ends (ASSERT c m)"
  by (simp add: ASSERT_def ends_def)

lemma ends_foldE [ends_rules]: "(\<And>x s. ends (f x s)) \<Longrightarrow> ends (foldE f xs s)"
  by (induction xs arbitrary: s) (auto intro: ends_rules)

lemma ends_if [ends_rules]: "ends a \<Longrightarrow> ends b \<Longrightarrow> ends (if c then a else b)"
  by simp

lemma ends_case_prod [ends_rules]: "(\<And>a b. ends (f a b)) \<Longrightarrow> ends (case p of (a, b) \<Rightarrow> f a b)"
  by (cases p) simp

lemma ends_case_option [ends_rules]: "ends a \<Longrightarrow> (\<And>x. ends (f x)) \<Longrightarrow> ends (case v of None \<Rightarrow> a | Some x \<Rightarrow> f x)"
  by (cases v) simp_all

end
