(* ===== verification/Bit_Map.thy ===== *)
theory Bit_Map
  imports Nachos_Prelude
begin

text \<open>
  The bitmap of \<^verbatim>\<open>code/userprog/bitmap.h\<close> and \<^verbatim>\<open>bitmap.cc\<close>, which hands out disk sectors
  and physical pages. The bits live in 32-bit words, as in the source; \<open>bits\<close> reads them as a list
  of booleans and every routine is shown to act on that list. The interface the file headers rely on
  is the locale \<open>bit_allocator\<close>, interpreted on the routines of the class.
\<close>

section \<open>The class\<close>

definition BitsInWord :: int where
  "BitsInWord = 32"

record BitMap =
  numBits :: int
  numWords :: int
  map_words :: "32 word list"

text \<open>\<^verbatim>\<open>map[i]\<close>, for reading and for writing.\<close>

definition get_word :: "BitMap \<Rightarrow> int \<Rightarrow> 32 word result" where
  "get_word b i = (if 0 \<le> i \<and> i < int (length (map_words b))
     then Inr (map_words b ! nat i) else Inl BadAccess)"

definition set_word :: "BitMap \<Rightarrow> int \<Rightarrow> 32 word \<Rightarrow> BitMap result" where
  "set_word b i w = (if 0 \<le> i \<and> i < int (length (map_words b))
     then Inr (b\<lparr>map_words := (map_words b)[nat i := w]\<rparr>) else Inl BadAccess)"

definition bit_mask :: "int \<Rightarrow> 32 word" where
  "bit_mask which = push_bit (nat (c_mod which BitsInWord)) 1"

definition Mark :: "BitMap \<Rightarrow> int \<Rightarrow> BitMap result" where
  "Mark b which = ASSERT (which \<ge> 0 \<and> which < numBits b)
     (bindE (get_word b (c_div which BitsInWord)) (\<lambda>w.
        set_word b (c_div which BitsInWord) (w OR bit_mask which)))"

definition Clear :: "BitMap \<Rightarrow> int \<Rightarrow> BitMap result" where
  "Clear b which = ASSERT (which \<ge> 0 \<and> which < numBits b)
     (bindE (get_word b (c_div which BitsInWord)) (\<lambda>w.
        set_word b (c_div which BitsInWord) (w AND NOT (bit_mask which))))"

definition Test :: "BitMap \<Rightarrow> int \<Rightarrow> bool result" where
  "Test b which = ASSERT (which \<ge> 0 \<and> which < numBits b)
     (bindE (get_word b (c_div which BitsInWord)) (\<lambda>w. Inr (w AND bit_mask which \<noteq> 0)))"

text \<open>The constructor: the words come from \<^verbatim>\<open>new\<close> with arbitrary contents \<open>junk\<close>.\<close>

definition new_BitMap :: "(nat \<Rightarrow> 32 word) \<Rightarrow> int \<Rightarrow> BitMap result" where
  "new_BitMap junk nitems =
     foldE (\<lambda>i b. Clear b i) [0..nitems - 1]
       \<lparr>numBits = nitems, numWords = divRoundUp nitems BitsInWord,
        map_words = map junk [0..<nat (divRoundUp nitems BitsInWord)]\<rparr>"

fun Find_loop :: "BitMap \<Rightarrow> int list \<Rightarrow> (BitMap \<times> int) result" where
  "Find_loop b [] = Inr (b, - 1)"
| "Find_loop b (i # is) = bindE (Test b i) (\<lambda>t.
     if \<not> t then bindE (Mark b i) (\<lambda>b'. Inr (b', i)) else Find_loop b is)"

definition Find :: "BitMap \<Rightarrow> (BitMap \<times> int) result" where
  "Find b = Find_loop b [0..numBits b - 1]"

definition NumClear :: "BitMap \<Rightarrow> int result" where
  "NumClear b = foldE (\<lambda>i count. bindE (Test b i) (\<lambda>t. Inr (if \<not> t then count + 1 else count)))
     [0..numBits b - 1] 0"

text \<open>\<^verbatim>\<open>Print\<close>: the bits it prints, in order.\<close>

definition Print_bits :: "BitMap \<Rightarrow> int list result" where
  "Print_bits b = foldE (\<lambda>i out. bindE (Test b i) (\<lambda>t. Inr (if t then out @ [i] else out)))
     [0..numBits b - 1] []"

definition FindN_flag :: "BitMap \<Rightarrow> int \<Rightarrow> int \<Rightarrow> bool result" where
  "FindN_flag b i cnt = foldE (\<lambda>j flag. bindE (Test b (i + j)) (\<lambda>t. Inr (if t then False else flag)))
     [0..cnt - 1] True"

fun FindN_loop :: "BitMap \<Rightarrow> int \<Rightarrow> int list \<Rightarrow> (BitMap \<times> int) result" where
  "FindN_loop b cnt [] = Inr (b, - 1)"
| "FindN_loop b cnt (i # is) = bindE (FindN_flag b i cnt) (\<lambda>flag.
     if flag then bindE (foldE (\<lambda>j b. Mark b (i + j)) [0..cnt - 1] b) (\<lambda>b'. Inr (b', i))
     else FindN_loop b cnt is)"

definition FindN :: "BitMap \<Rightarrow> int \<Rightarrow> (BitMap \<times> int) result" where
  "FindN b cnt = FindN_loop b cnt [0..numBits b - 1]"

text \<open>
  \<^verbatim>\<open>FetchFrom\<close> and \<^verbatim>\<open>WriteBack\<close> move the words of \<^verbatim>\<open>map\<close> between memory and a file as
  \<^verbatim>\<open>numWords * sizeof(unsigned)\<close> bytes: \<open>BitMap_bytes\<close> is the buffer they pass, and
  \<open>BitMap_of_bytes\<close> what a read of such a buffer makes of the object. The file operations that
  carry the buffers are those of the open files.
\<close>

definition BitMap_bytes :: "BitMap \<Rightarrow> byte list" where
  "BitMap_bytes b = concat (map word_bytes (map_words b))"

definition BitMap_of_bytes :: "BitMap \<Rightarrow> byte list \<Rightarrow> BitMap" where
  "BitMap_of_bytes b bs = b\<lparr>map_words :=
     map (\<lambda>k. bytes_word (slice (4 * k) 4 bs)) [0..<length (map_words b)]\<rparr>"

section \<open>The bits of a bitmap\<close>

definition wf_bitmap :: "BitMap \<Rightarrow> bool" where
  "wf_bitmap b \<longleftrightarrow> 0 \<le> numBits b \<and> numWords b = divRoundUp (numBits b) BitsInWord \<and>
     int (length (map_words b)) = numWords b"

definition bits :: "BitMap \<Rightarrow> bool list" where
  "bits b = map (\<lambda>i. bit (map_words b ! (i div 32)) (i mod 32)) [0..<nat (numBits b)]"

lemma length_bits [simp]: "length (bits b) = nat (numBits b)"
  by (simp add: bits_def)

lemma nth_bits: "i < nat (numBits b) \<Longrightarrow> bits b ! i = bit (map_words b ! (i div 32)) (i mod 32)"
  by (simp add: bits_def)

lemma wf_bitmap_index:
  assumes "wf_bitmap b" "0 \<le> i" "i < numBits b"
  shows "i div 32 < int (length (map_words b))"
proof -
  have "\<not> divRoundUp (numBits b) 32 \<le> i div 32"
  proof
    assume "divRoundUp (numBits b) 32 \<le> i div 32"
    then have "numBits b \<le> (i div 32) * 32" using assms divRoundUp_least [of "numBits b" 32] by simp
    with assms show False by linarith
  qed
  with assms show ?thesis by (simp add: wf_bitmap_def BitsInWord_def)
qed

lemma bit_mask_test:
  fixes w :: "32 word"
  shows "w AND push_bit n 1 \<noteq> 0 \<longleftrightarrow> bit w n"
  by (simp add: and_exp_eq_0_iff_not_bit)

lemma Test_bits:
  assumes "wf_bitmap b"
  shows "Test b i = (if 0 \<le> i \<and> i < numBits b then Inr (bits b ! nat i) else Inl AssertFailed)"
  using assms wf_bitmap_index [OF assms, of i]
  by (auto simp: Test_def get_word_def bit_mask_def BitsInWord_def ASSERT_def nth_bits
      bit_mask_test nat_div_distrib nat_mod_distrib simp del: push_bit_of_1)

lemma bits_set_word:
  assumes "wf_bitmap b" "i < nat (numBits b)"
    and w: "\<And>m. m < 32 \<Longrightarrow> bit w m \<longleftrightarrow> (if m = i mod 32 then v else bit (map_words b ! (i div 32)) m)"
  shows "bits (b\<lparr>map_words := (map_words b)[i div 32 := w]\<rparr>) = (bits b)[i := v]"
proof (rule nth_equalityI)
  fix k assume "k < length (bits (b\<lparr>map_words := (map_words b)[i div 32 := w]\<rparr>))"
  then have k: "k < nat (numBits b)" by simp
  have "int i < numBits b" using assms(2) by linarith
  then have len: "i div 32 < length (map_words b)"
    using wf_bitmap_index [OF assms(1), of "int i"] zdiv_int [of i 32] by simp
  have "k = i \<longleftrightarrow> k div 32 = i div 32 \<and> k mod 32 = i mod 32" by (metis mod_div_mult_eq)
  with k assms(2) w [of "k mod 32"] len
  show "bits (b\<lparr>map_words := (map_words b)[i div 32 := w]\<rparr>) ! k = (bits b)[i := v] ! k"
    by (auto simp: nth_bits nth_list_update)
qed simp

lemma wf_bitmap_upd: "wf_bitmap b \<Longrightarrow> wf_bitmap (b\<lparr>map_words := (map_words b)[i := w]\<rparr>)"
  by (simp add: wf_bitmap_def)

text \<open>\<open>updates b b' i v\<close>: the routine left \<open>b'\<close>, which differs from \<open>b\<close> in bit \<open>i\<close> only.\<close>

definition updates :: "BitMap \<Rightarrow> BitMap \<Rightarrow> bool list \<Rightarrow> bool" where
  "updates b b' bs \<longleftrightarrow> wf_bitmap b' \<and> numBits b' = numBits b \<and> bits b' = bs"

lemma Mark_bits:
  assumes "wf_bitmap b" "0 \<le> i" "i < numBits b"
  obtains b' where "Mark b i = Inr b'" "updates b b' ((bits b)[nat i := True])"
proof -
  let ?w = "map_words b ! nat (i div 32) OR push_bit (nat (i mod 32)) 1"
  let ?b = "b\<lparr>map_words := (map_words b)[nat (i div 32) := ?w]\<rparr>"
  have "Mark b i = Inr ?b" using assms wf_bitmap_index [OF assms]
    by (simp add: Mark_def get_word_def set_word_def bit_mask_def BitsInWord_def)
  moreover have "bits ?b = (bits b)[nat i := True]"
    using assms bits_set_word [OF assms(1), of "nat i" ?w True]
    by (auto simp: bit_simps nat_div_distrib nat_mod_distrib)
  ultimately show ?thesis using that assms(1) by (simp add: updates_def wf_bitmap_upd)
qed

lemma Clear_bits:
  assumes "wf_bitmap b" "0 \<le> i" "i < numBits b"
  obtains b' where "Clear b i = Inr b'" "updates b b' ((bits b)[nat i := False])"
proof -
  let ?w = "map_words b ! nat (i div 32) AND NOT (push_bit (nat (i mod 32)) 1)"
  let ?b = "b\<lparr>map_words := (map_words b)[nat (i div 32) := ?w]\<rparr>"
  have "Clear b i = Inr ?b" using assms wf_bitmap_index [OF assms]
    by (simp add: Clear_def get_word_def set_word_def bit_mask_def BitsInWord_def)
  moreover have "bits ?b = (bits b)[nat i := False]"
    using assms bits_set_word [OF assms(1), of "nat i" ?w False]
    by (auto simp: bit_simps nat_div_distrib nat_mod_distrib)
  ultimately show ?thesis using that assms(1) by (simp add: updates_def wf_bitmap_upd)
qed

lemma Mark_Clear_range:
  "\<not> (0 \<le> i \<and> i < numBits b) \<Longrightarrow> Mark b i = Inl AssertFailed \<and> Clear b i = Inl AssertFailed"
  by (auto simp: Mark_def Clear_def ASSERT_def)

section \<open>The routines on the bit list\<close>

lemma upto_map_int: "[0..n - 1] = map int [0..<nat n]"
  by (rule nth_equalityI) auto

lemma replicate_upd:
  assumes "k < length xs"
  shows "(replicate k v @ drop k xs)[k := v] = replicate (Suc k) v @ drop (Suc k) xs"
proof -
  from assms have "drop k xs = xs ! k # drop (Suc k) xs" by (simp add: Cons_nth_drop_Suc)
  then show ?thesis by (simp add: list_update_append replicate_app_Cons_same)
qed

lemma new_BitMap_bits:
  assumes "0 \<le> n"
  obtains b where "new_BitMap junk n = Inr b" "wf_bitmap b" "numBits b = n"
    "bits b = replicate (nat n) False"
proof -
  let ?b0 = "\<lparr>numBits = n, numWords = divRoundUp n BitsInWord,
        map_words = map junk [0..<nat (divRoundUp n BitsInWord)]\<rparr>"
  have "0 \<le> divRoundUp n BitsInWord"
    using assms by (simp add: divRoundUp_def BitsInWord_def pos_imp_zdiv_nonneg_iff)
  then have wf0: "wf_bitmap ?b0" using assms by (simp add: wf_bitmap_def)
  have "\<exists>b. foldE (\<lambda>i b. Clear b i) (map int [0..<k]) ?b0 = Inr b \<and>
          updates ?b0 b (replicate k False @ drop k (bits ?b0))" if "k \<le> nat n" for k
    using that
  proof (induction k)
    case 0 then show ?case using wf0 by (simp add: updates_def)
  next
    case (Suc k)
    then obtain b where b: "foldE (\<lambda>i b. Clear b i) (map int [0..<k]) ?b0 = Inr b"
      "updates ?b0 b (replicate k False @ drop k (bits ?b0))" by auto
    from Suc.prems b(2) obtain b' where b': "Clear b (int k) = Inr b'"
      "updates b b' ((bits b)[nat (int k) := False])"
      by (elim Clear_bits [of b "int k", rotated 3]) (auto simp: updates_def)
    have "(replicate k False @ drop k (bits ?b0))[k := False] =
        replicate (Suc k) False @ drop (Suc k) (bits ?b0)"
      using Suc.prems by (intro replicate_upd) simp
    with b b' show ?case by (auto simp: foldE_append updates_def)
  qed
  from this [of "nat n"] show ?thesis
    using that by (auto simp: new_BitMap_def upto_map_int updates_def)
qed

lemma Find_loop_skip:
  "(\<And>i. i \<in> set is \<Longrightarrow> Test b i = Inr True) \<Longrightarrow> Find_loop b (is @ js) = Find_loop b js"
  by (induction "is") auto

lemma Find_full:
  assumes "wf_bitmap b" "False \<notin> set (bits b)"
  shows "Find b = Inr (b, - 1)"
proof -
  have "Find_loop b ([0..numBits b - 1] @ []) = Find_loop b []"
    using assms by (intro Find_loop_skip) (auto simp: Test_bits in_set_conv_nth)
  then show ?thesis by (simp add: Find_def)
qed

lemma Find_first:
  assumes "wf_bitmap b" "k < length (bits b)" "\<not> bits b ! k" "\<And>j. j < k \<Longrightarrow> bits b ! j"
  obtains b' where "Find b = Inr (b', int k)" "updates b b' ((bits b)[k := True])"
proof -
  have split: "[0..numBits b - 1] = [0..int k - 1] @ int k # [int k + 1..numBits b - 1]"
    using assms(2) by (intro upto_split3) auto
  have "Test b i = Inr True" if "i \<in> set [0..int k - 1]" for i
    using that assms by (auto simp: Test_bits)
  moreover obtain b' where "Mark b (int k) = Inr b'" "updates b b' ((bits b)[k := True])"
    using assms(1,2) by (auto elim: Mark_bits [of b "int k"])
  moreover have "Test b (int k) = Inr False" using assms by (auto simp: Test_bits)
  moreover have "Find b = Find_loop b (int k # [int k + 1..numBits b - 1])"
    unfolding Find_def split by (rule Find_loop_skip) fact
  ultimately show ?thesis using that by simp
qed

lemma Find_free:
  assumes "wf_bitmap b" "False \<in> set (bits b)"
  obtains k b' where "Find b = Inr (b', int k)" "updates b b' ((bits b)[k := True])"
    "k < length (bits b)" "\<not> bits b ! k" "\<And>j. j < k \<Longrightarrow> bits b ! j"
proof -
  let ?P = "\<lambda>k. k < length (bits b) \<and> \<not> bits b ! k"
  obtain n where "?P n" using assms(2) by (auto simp: in_set_conv_nth)
  then have "?P (LEAST k. ?P k)" by (rule LeastI)
  moreover have "bits b ! j" if "j < (LEAST k. ?P k)" for j
    using not_less_Least [OF that] that calculation by auto
  ultimately show ?thesis using Find_first [OF assms(1)] that by blast
qed

lemma NumClear_bits:
  assumes "wf_bitmap b"
  shows "NumClear b = Inr (int (count_list (bits b) False))"
proof -
  have "foldE (\<lambda>i count. bindE (Test b i) (\<lambda>t. Inr (if \<not> t then count + 1 else count))) (map int is) c
      = Inr (c + int (count_list (map ((!) (bits b)) is) False))"
    if "set is \<subseteq> {0..<nat (numBits b)}" for "is" c
    using that by (induction "is" arbitrary: c) (auto simp: Test_bits assms)
  from this [of "[0..<nat (numBits b)]" 0] show ?thesis
    using map_nth [of "bits b"] by (simp add: NumClear_def upto_map_int)
qed

lemma Print_bits_set:
  assumes "wf_bitmap b"
  shows "Print_bits b = Inr (map int (filter ((!) (bits b)) [0..<length (bits b)]))"
proof -
  have "foldE (\<lambda>i out. bindE (Test b i) (\<lambda>t. Inr (if t then out @ [i] else out))) (map int is) out
      = Inr (out @ map int (filter ((!) (bits b)) is))"
    if "set is \<subseteq> {0..<nat (numBits b)}" for "is" out
    using that by (induction "is" arbitrary: out) (auto simp: Test_bits assms)
  from this [of "[0..<nat (numBits b)]" "[]"] show ?thesis
    by (simp add: Print_bits_def upto_map_int)
qed

text \<open>A run of \<open>n\<close> clear bits at \<open>i\<close>.\<close>

definition run_at :: "bool list \<Rightarrow> nat \<Rightarrow> nat \<Rightarrow> bool" where
  "run_at bs n i \<longleftrightarrow> i + n \<le> length bs \<and> (\<forall>j<n. \<not> bs ! (i + j))"

lemma FindN_flag_inside:
  assumes "wf_bitmap b" "i + n \<le> length (bits b)"
  shows "FindN_flag b (int i) (int n) = Inr (run_at (bits b) n i)"
proof -
  have "foldE (\<lambda>j flag. bindE (Test b (int i + j)) (\<lambda>t. Inr (if t then False else flag)))
      (map int [0..<m]) True = Inr (\<forall>j<m. \<not> bits b ! (i + j))" if "m \<le> n" for m
    using that
  proof (induction m)
    case (Suc m)
    with assms show ?case
      by (auto simp: foldE_append Test_bits less_Suc_eq nat_add_distrib)
  qed simp
  from this [of n] assms(2) show ?thesis by (simp add: FindN_flag_def upto_map_int run_at_def)
qed

lemma FindN_flag_outside:
  assumes "wf_bitmap b" "i \<le> length (bits b)" "length (bits b) < i + n"
  shows "FindN_flag b (int i) (int n) = Inl AssertFailed"
proof -
  let ?f = "\<lambda>j flag. bindE (Test b (int i + j)) (\<lambda>t. Inr (if t then False else flag))"
  let ?k = "numBits b - int i"
  have k: "int i \<le> numBits b" "int (nat ?k) = ?k" "i + nat ?k \<le> length (bits b)"
    using assms(1,2) by (auto simp: wf_bitmap_def)
  have "[0..int n - 1] = [0..?k - 1] @ ?k # [?k + 1..int n - 1]"
    using assms(3) k(1) by (intro upto_split3) auto
  moreover have "\<exists>v. foldE ?f (map int [0..<nat ?k]) True = Inr v"
    using FindN_flag_inside [OF assms(1) k(3)] unfolding FindN_flag_def k(2) upto_map_int by blast
  ultimately show ?thesis
    using assms(1) by (auto simp: FindN_flag_def foldE_append upto_map_int Test_bits)
qed

lemma FindN_loop_skip:
  "(\<And>i. i \<in> set is \<Longrightarrow> FindN_flag b i cnt = Inr False) \<Longrightarrow>
    FindN_loop b cnt (is @ js) = FindN_loop b cnt js"
  by (induction "is") auto

lemma Mark_run:
  assumes "wf_bitmap b" "i + n \<le> length (bits b)"
  obtains b' where "foldE (\<lambda>j b. Mark b (int i + j)) [0..int n - 1] b = Inr b'"
    "updates b b' (blit (replicate n True) (bits b) i)"
proof -
  have "\<exists>b'. foldE (\<lambda>j b. Mark b (int i + j)) (map int [0..<m]) b = Inr b' \<and>
      updates b b' (blit (replicate m True) (bits b) i)" if "m \<le> n" for m
    using that
  proof (induction m)
    case 0 then show ?case using assms(1) by (simp add: updates_def blit_def)
  next
    case (Suc m)
    then obtain b1 where b1: "foldE (\<lambda>j b. Mark b (int i + j)) (map int [0..<m]) b = Inr b1"
      "updates b b1 (blit (replicate m True) (bits b) i)" by auto
    have "0 \<le> int (i + m)" "int (i + m) < numBits b1"
      using Suc.prems assms b1(2) by (auto simp: updates_def)
    then obtain b2 where b2: "Mark b1 (int (i + m)) = Inr b2"
      "updates b1 b2 ((bits b1)[nat (int (i + m)) := True])"
      using b1(2) Mark_bits unfolding updates_def by metis
    have "(blit (replicate m True) (bits b) i)[i + m := True] = blit (replicate (Suc m) True) (bits b) i"
      using Suc.prems assms(2)
      by (intro nth_equalityI) (auto simp: nth_blit nth_list_update length_blit simp del: replicate_Suc)
    with b1 b2 show ?case by (auto simp: foldE_append updates_def nat_int_add)
  qed
  from this [of n] show ?thesis using that by (auto simp: upto_map_int)
qed

lemma FindN_first_run:
  assumes wf: "wf_bitmap b" and n: "0 < n" and run: "run_at (bits b) n i"
    and first: "\<And>k. k < i \<Longrightarrow> \<not> run_at (bits b) n k"
  obtains b' where "FindN b (int n) = Inr (b', int i)"
    "updates b b' (blit (replicate n True) (bits b) i)"
proof -
  have in_b: "i + n \<le> length (bits b)" using run by (simp add: run_at_def)
  have split: "[0..numBits b - 1] = [0..int i - 1] @ int i # [int i + 1..numBits b - 1]"
    using n in_b by (intro upto_split3) auto
  have "FindN_flag b k (int n) = Inr False" if "k \<in> set [0..int i - 1]" for k
    using that FindN_flag_inside [OF wf, of "nat k" n] first [of "nat k"] in_b by auto
  then have "FindN b (int n) = FindN_loop b (int n) (int i # [int i + 1..numBits b - 1])"
    unfolding FindN_def split by (rule FindN_loop_skip)
  moreover obtain b' where "foldE (\<lambda>j b. Mark b (int i + j)) [0..int n - 1] b = Inr b'"
    "updates b b' (blit (replicate n True) (bits b) i)" using Mark_run [OF wf in_b] by blast
  moreover have "FindN_flag b (int i) (int n) = Inr True"
    using FindN_flag_inside [OF wf in_b] run by simp
  ultimately show ?thesis using that by simp
qed

lemma FindN_no_run:
  assumes wf: "wf_bitmap b" and n: "1 < n" and pos: "0 < numBits b"
    and none: "\<And>k. \<not> run_at (bits b) n k"
  shows "FindN b (int n) = Inl AssertFailed"
proof -
  define k where "k = Suc (length (bits b)) - n"
  have "int k \<le> numBits b - 1" using n pos by (auto simp: k_def)
  then have split: "[0..numBits b - 1] = [0..int k - 1] @ int k # [int k + 1..numBits b - 1]"
    by (intro upto_split3) auto
  have "FindN_flag b i (int n) = Inr False" if "i \<in> set [0..int k - 1]" for i
    using that FindN_flag_inside [OF wf, of "nat i" n] none by (auto simp: k_def)
  then have "FindN b (int n) = FindN_loop b (int n) (int k # [int k + 1..numBits b - 1])"
    unfolding FindN_def split by (rule FindN_loop_skip)
  moreover have "FindN_flag b (int k) (int n) = Inl AssertFailed"
    using n pos by (intro FindN_flag_outside [OF wf]) (auto simp: k_def)
  ultimately show ?thesis by simp
qed

lemma FindN_none:
  assumes wf: "wf_bitmap b" and none: "\<And>k. \<not> run_at (bits b) 1 k"
  shows "FindN b 1 = Inr (b, - 1)"
proof -
  have "FindN_flag b i 1 = Inr False" if "i \<in> set [0..numBits b - 1]" for i
    using that FindN_flag_inside [OF wf, of "nat i" 1] none by auto
  then have "FindN b 1 = FindN_loop b 1 []" unfolding FindN_def using FindN_loop_skip [of "[0..numBits b - 1]" b 1 "[]"] by simp
  then show ?thesis by simp
qed

lemma FindN_nonpos: "cnt \<le> 0 \<Longrightarrow> 0 < numBits b \<Longrightarrow> FindN b cnt = Inr (b, 0)"
  by (simp add: FindN_def FindN_flag_def upto.simps [of 0 "numBits b - 1"])

section \<open>The bitmap in a file\<close>

lemma length_concat_words [simp]: "length (concat (map word_bytes ws)) = 4 * length ws"
  by (induction ws) auto

lemma slice_concat_words:
  "k < length ws \<Longrightarrow> slice (4 * k) 4 (concat (map word_bytes ws) @ rest) = word_bytes (ws ! k)"
proof (induction ws arbitrary: k)
  case (Cons w ws)
  then show ?case
    by (cases k) (auto simp: slice_def drop_append)
qed simp

lemma BitMap_of_bytes_bytes:
  assumes "length (map_words c) = length (map_words b)"
  shows "BitMap_of_bytes c (BitMap_bytes b @ rest) = c\<lparr>map_words := map_words b\<rparr>"
proof -
  have "map (\<lambda>k. bytes_word (slice (4 * k) 4 (BitMap_bytes b @ rest))) [0..<length (map_words b)]
      = map ((!) (map_words b)) [0..<length (map_words b)]"
    by (intro map_cong) (auto simp: BitMap_bytes_def slice_concat_words)
  then show ?thesis by (simp add: BitMap_of_bytes_def assms map_nth)
qed

section \<open>Allocation and release of several units\<close>

text \<open>
  The loops of the clients: \<open>find_n\<close> is \<open>n\<close> successive calls of \<^verbatim>\<open>Find\<close> and keeps what they
  return, \<open>release\<close> tests and clears the units of a list in turn
  (\<^verbatim>\<open>ASSERT(freeMap->Test(s)); freeMap->Clear(s);\<close>). Both take the routines as arguments.
\<close>

fun find_n :: "('s \<Rightarrow> ('s \<times> int) result) \<Rightarrow> nat \<Rightarrow> 's \<Rightarrow> ('s \<times> int list) result" where
  "find_n fnd 0 s = Inr (s, [])"
| "find_n fnd (Suc n) s = bindE (fnd s) (\<lambda>(s', i). bindE (find_n fnd n s') (\<lambda>(s'', is). Inr (s'', i # is)))"

definition release ::
  "('s \<Rightarrow> int \<Rightarrow> bool result) \<Rightarrow> ('s \<Rightarrow> int \<Rightarrow> 's result) \<Rightarrow> int list \<Rightarrow> 's \<Rightarrow> 's result" where
  "release test clear is s = foldE (\<lambda>i s. bindE (test s i) (\<lambda>t. ASSERT t (clear s i))) is s"

definition set_bits :: "bool \<Rightarrow> nat list \<Rightarrow> bool list \<Rightarrow> bool list" where
  "set_bits v ks bs = map (\<lambda>i. if i \<in> set ks then v else bs ! i) [0..<length bs]"

lemma length_set_bits [simp]: "length (set_bits v ks bs) = length bs"
  by (simp add: set_bits_def)

lemma nth_set_bits [simp]: "i < length bs \<Longrightarrow> set_bits v ks bs ! i = (if i \<in> set ks then v else bs ! i)"
  by (simp add: set_bits_def)

lemma set_bits_Nil [simp]: "set_bits v [] bs = bs"
  by (rule nth_equalityI) auto

lemma set_bits_Cons: "set_bits v (k # ks) bs = set_bits v ks (bs[k := v])"
  by (rule nth_equalityI) (auto simp: nth_list_update)

lemma set_bits_append: "set_bits v (ks @ ls) bs = set_bits v ls (set_bits v ks bs)"
  by (rule nth_equalityI) auto

lemma set_bits_undo:
  assumes "\<forall>k \<in> set ks. k < length bs \<and> bs ! k = (\<not> v)"
  shows "set_bits (\<not> v) ks (set_bits v ks bs) = bs"
  using assms by (intro nth_equalityI) auto

lemma count_False_mark:
  "k < length bs \<Longrightarrow> \<not> bs ! k \<Longrightarrow> count_list (bs[k := True]) False + 1 = count_list bs False"
proof (induction bs arbitrary: k)
  case (Cons b bs)
  then show ?case by (cases k) auto
qed simp

locale bit_allocator =
  fixes ok :: "'s \<Rightarrow> bool" and bs :: "'s \<Rightarrow> bool list"
    and fnd :: "'s \<Rightarrow> ('s \<times> int) result"
    and test :: "'s \<Rightarrow> int \<Rightarrow> bool result" and clear :: "'s \<Rightarrow> int \<Rightarrow> 's result"
  assumes find_none: "ok s \<Longrightarrow> False \<notin> set (bs s) \<Longrightarrow> fnd s = Inr (s, - 1)"
    and find_some: "ok s \<Longrightarrow> False \<in> set (bs s) \<Longrightarrow> \<exists>k s'. fnd s = Inr (s', int k) \<and> ok s' \<and>
      k < length (bs s) \<and> \<not> bs s ! k \<and> bs s' = (bs s)[k := True]"
    and test_bs: "ok s \<Longrightarrow> k < length (bs s) \<Longrightarrow> test s (int k) = Inr (bs s ! k)"
    and clear_bs: "ok s \<Longrightarrow> k < length (bs s) \<Longrightarrow>
      \<exists>s'. clear s (int k) = Inr s' \<and> ok s' \<and> bs s' = (bs s)[k := False]"
begin

lemma find_n_full: "ok s \<Longrightarrow> False \<notin> set (bs s) \<Longrightarrow> find_n fnd n s = Inr (s, replicate n (- 1))"
  by (induction n) (auto simp: find_none)

text \<open>
  \<open>n\<close> calls give the free units one by one, each once, and \<^verbatim>\<open>-1\<close> for every call after the last
  free unit is gone.
\<close>

lemma find_n_bs:
  assumes "ok s"
  shows "\<exists>s' ks. find_n fnd n s = Inr (s', map int ks @ replicate (n - length ks) (- 1)) \<and> ok s' \<and>
    length ks = min n (count_list (bs s) False) \<and> distinct ks \<and>
    (\<forall>k \<in> set ks. k < length (bs s) \<and> \<not> bs s ! k) \<and> bs s' = set_bits True ks (bs s)"
  using assms
proof (induction n arbitrary: s)
  case 0
  then show ?case by auto
next
  case (Suc n)
  show ?case
  proof (cases "False \<in> set (bs s)")
    case False
    then show ?thesis using Suc.prems find_n_full [of s "Suc n"]
      by (intro exI [of _ s] exI [of _ "[]"]) auto
  next
    case True
    then obtain k s1 where k: "fnd s = Inr (s1, int k)" "ok s1" "k < length (bs s)" "\<not> bs s ! k"
      "bs s1 = (bs s)[k := True]" using find_some [OF Suc.prems] by auto
    from Suc.IH [OF k(2)] obtain s2 ks where
      ks: "find_n fnd n s1 = Inr (s2, map int ks @ replicate (n - length ks) (- 1))" "ok s2"
      "length ks = min n (count_list (bs s1) False)" "distinct ks"
      "\<forall>k \<in> set ks. k < length (bs s1) \<and> \<not> bs s1 ! k" "bs s2 = set_bits True ks (bs s1)" by blast
    have "k \<notin> set ks" "\<forall>j \<in> set ks. j < length (bs s) \<and> \<not> bs s ! j"
      using ks(5) k(3,5) by (auto simp: nth_list_update split: if_splits)
    moreover have "Suc (length ks) = min (Suc n) (count_list (bs s) False)"
      using ks(3) k(5) count_False_mark [OF k(3,4)] by auto
    ultimately show ?thesis using k ks
      by (intro exI [of _ s2] exI [of _ "k # ks"]) (auto simp: set_bits_Cons)
  qed
qed

lemma find_n_enough:
  assumes "ok s" "n \<le> count_list (bs s) False"
  obtains s' ks where "find_n fnd n s = Inr (s', map int ks)" "ok s'" "length ks = n" "distinct ks"
    "\<forall>k \<in> set ks. k < length (bs s) \<and> \<not> bs s ! k" "bs s' = set_bits True ks (bs s)"
  using find_n_bs [OF assms(1), of n] assms(2) by (auto simp: min_def)

lemma release_bs:
  assumes "ok s" "distinct ks" "\<forall>k \<in> set ks. k < length (bs s) \<and> bs s ! k"
  shows "\<exists>s'. release test clear (map int ks) s = Inr s' \<and> ok s' \<and> bs s' = set_bits False ks (bs s)"
  using assms
proof (induction ks arbitrary: s)
  case Nil
  then show ?case by (simp add: release_def)
next
  case (Cons k ks)
  then obtain s1 where s1: "clear s (int k) = Inr s1" "ok s1" "bs s1 = (bs s)[k := False]"
    using clear_bs [of s k] by auto
  have "\<exists>s'. release test clear (map int ks) s1 = Inr s' \<and> ok s' \<and> bs s' = set_bits False ks (bs s1)"
    using Cons.prems s1 by (intro Cons.IH) (auto simp: nth_list_update)
  with Cons.prems s1 show ?case by (auto simp: release_def test_bs set_bits_Cons)
qed

text \<open>What was found can be released, and that gives the old allocation state back.\<close>

lemma find_n_release:
  assumes "ok s" "n \<le> count_list (bs s) False"
  shows "\<exists>s' s'' is. find_n fnd n s = Inr (s', is) \<and> length is = n \<and> distinct is \<and>
    release test clear is s' = Inr s'' \<and> ok s'' \<and> bs s'' = bs s"
proof -
  from find_n_enough [OF assms] obtain s' ks where ks: "find_n fnd n s = Inr (s', map int ks)" "ok s'"
    "length ks = n" "distinct ks" "\<forall>k \<in> set ks. k < length (bs s) \<and> \<not> bs s ! k"
    "bs s' = set_bits True ks (bs s)" by blast
  moreover from release_bs [OF ks(2,4)] ks(5,6) obtain s'' where
    "release test clear (map int ks) s' = Inr s''" "ok s''" "bs s'' = set_bits False ks (bs s')" by auto
  ultimately show ?thesis using set_bits_undo [of ks "bs s" True] by (auto simp: distinct_map)
qed

end

interpretation free_map: bit_allocator wf_bitmap bits Find Test Clear
proof
  fix s :: BitMap and k
  assume k: "wf_bitmap s" "k < length (bits s)"
  then show "Test s (int k) = Inr (bits s ! k)" by (simp add: Test_bits)
  from k have "int k < numBits s" by simp
  from Clear_bits [OF k(1) _ this]
  show "\<exists>s'. Clear s (int k) = Inr s' \<and> wf_bitmap s' \<and> bits s' = (bits s)[k := False]"
    by (auto simp: updates_def)
next
  fix s assume "wf_bitmap s" "False \<in> set (bits s)"
  from Find_free [OF this]
  show "\<exists>k s'. Find s = Inr (s', int k) \<and> wf_bitmap s' \<and> k < length (bits s) \<and> \<not> bits s ! k \<and>
      bits s' = (bits s)[k := True]" unfolding updates_def by metis
qed (rule Find_full)

section \<open>Properties\<close>

text \<open>
  C3. Allocating \<open>n\<close> units from a bitmap that has \<open>n\<close> clear bits and giving them back: the calls of
  \<^verbatim>\<open>Find\<close> return \<open>n\<close> different units without a fault, \<^verbatim>\<open>NumClear\<close> has gone down by \<open>n\<close> in between,
  and after testing and clearing each of them the bitmap has its old bits again.
\<close>

theorem Find_release_roundtrip:
  assumes "wf_bitmap b" "NumClear b = Inr c" "int n \<le> c"
  shows "\<exists>b' b'' is. find_n Find n b = Inr (b', is) \<and> length is = n \<and> distinct is \<and>
    release Test Clear is b' = Inr b'' \<and> wf_bitmap b'' \<and> bits b'' = bits b \<and> NumClear b'' = Inr c"
proof -
  have "n \<le> count_list (bits b) False" using assms by (simp add: NumClear_bits)
  from free_map.find_n_release [OF assms(1) this] assms(2) show ?thesis
    using NumClear_bits [OF assms(1)] NumClear_bits by metis
qed

definition ex_bitmap :: BitMap where
  "ex_bitmap = \<lparr>numBits = 5, numWords = 1, map_words = [0b10101]\<rparr>"

lemma ex_bitmap_wf: "wf_bitmap ex_bitmap"
  by (simp add: ex_bitmap_def wf_bitmap_def divRoundUp_def BitsInWord_def)

lemma ex_bitmap_bits: "bits ex_bitmap = [True, False, True, False, True]"
  by (simp add: ex_bitmap_def bits_def upt_rec)

theorem Find_release_roundtrip_witness:
  "\<exists>b' b'' is. find_n Find 2 ex_bitmap = Inr (b', is) \<and> length is = 2 \<and> distinct is \<and>
    release Test Clear is b' = Inr b'' \<and> wf_bitmap b'' \<and> bits b'' = bits ex_bitmap \<and> NumClear b'' = Inr 2"
  using Find_release_roundtrip [OF ex_bitmap_wf, of 2 2]
  by (simp add: NumClear_bits ex_bitmap_wf ex_bitmap_bits)

text \<open>
  C4. \<^verbatim>\<open>FindN(n)\<close> for \<open>n \<ge> 1\<close> marks exactly the first run of \<open>n\<close> clear bits and returns where it starts.
  When there is no such run, a single bit gives \<^verbatim>\<open>-1\<close> and an unchanged map. For \<open>n \<ge> 2\<close> it does not return \<^verbatim>\<open>-1\<close> as the last line of the routine suggests:
  the scan reaches a position less than \<open>n\<close> bits before the end and the \<^verbatim>\<open>ASSERT\<close> of
  \<^verbatim>\<open>Test\<close> stops the machine.
\<close>

theorem FindN_complete:
  assumes "wf_bitmap b" "0 < numBits b" "0 < n"
  shows "if \<exists>i. run_at (bits b) n i
    then \<exists>i b'. FindN b (int n) = Inr (b', int i) \<and> run_at (bits b) n i \<and>
      (\<forall>k<i. \<not> run_at (bits b) n k) \<and> updates b b' (blit (replicate n True) (bits b) i)
    else FindN b (int n) = (if n = 1 then Inr (b, - 1) else Inl AssertFailed)"
proof (cases "\<exists>i. run_at (bits b) n i")
  case True
  define i where "i = (LEAST i. run_at (bits b) n i)"
  have "run_at (bits b) n i" "\<And>k. k < i \<Longrightarrow> \<not> run_at (bits b) n k"
    using LeastI_ex [OF True] not_less_Least unfolding i_def by auto
  with True FindN_first_run [OF assms(1), of n i] assms(3) show ?thesis by (auto, metis)
next
  case False
  then show ?thesis using FindN_no_run [OF assms(1) _ assms(2)] FindN_none [OF assms(1)] assms(3) by (cases "n = 1") auto
qed

theorem FindN_complete_witness:
  "FindN ex_bitmap 2 = Inl AssertFailed \<and> NumClear ex_bitmap = Inr 2"
proof -
  have "\<not> run_at (bits ex_bitmap) 2 i" for i
  proof
    assume "run_at (bits ex_bitmap) 2 i"
    then have "i < 4" and clear: "\<forall>j<2. \<not> bits ex_bitmap ! (i + j)"
      by (auto simp: run_at_def ex_bitmap_bits)
    with clear [rule_format, of 0] clear [rule_format, of 1] show False
      by (auto simp: ex_bitmap_bits numeral_eq_Suc less_Suc_eq)
  qed
  moreover have "0 < numBits ex_bitmap" by (simp add: ex_bitmap_def)
  ultimately have "FindN ex_bitmap (int 2) = Inl AssertFailed"
    using FindN_complete [OF ex_bitmap_wf, of 2] by (simp split: if_splits)
  then show ?thesis by (simp add: NumClear_bits ex_bitmap_wf ex_bitmap_bits)
qed

end
