(* ===== verification/Machine_Stats.thy ===== *)
theory Machine_Stats
  imports Nachos_Prelude
begin

text \<open>
  The counters of \<^verbatim>\<open>code/machine/stats.h\<close>, which carry the simulated time, and the constants that
  say how long operations take.
\<close>

record Statistics =
  totalTicks :: int
  idleTicks :: int
  systemTicks :: int
  userTicks :: int
  numDiskReads :: int
  numDiskWrites :: int
  numConsoleCharsRead :: int
  numConsoleCharsWritten :: int
  numPageFaults :: int
  numPacketsSent :: int
  numPacketsRecvd :: int

definition new_Statistics :: Statistics where
  "new_Statistics = \<lparr>totalTicks = 0, idleTicks = 0, systemTicks = 0, userTicks = 0,
     numDiskReads = 0, numDiskWrites = 0, numConsoleCharsRead = 0, numConsoleCharsWritten = 0,
     numPageFaults = 0, numPacketsSent = 0, numPacketsRecvd = 0\<rparr>"

abbreviation (input) UserTick :: int where "UserTick \<equiv> 1"
abbreviation (input) SystemTick :: int where "SystemTick \<equiv> 10"
abbreviation (input) RotationTime :: int where "RotationTime \<equiv> 500"
abbreviation (input) SeekTime :: int where "SeekTime \<equiv> 500"
abbreviation (input) ConsoleTime :: int where "ConsoleTime \<equiv> 100"
abbreviation (input) NetworkTime :: int where "NetworkTime \<equiv> 100"
abbreviation (input) TimerTicks :: int where "TimerTicks \<equiv> 80"
abbreviation (input) SliceTicks :: int where "SliceTicks \<equiv> 13"

end
