(* ===== verification/Disk_Device.thy ===== *)
theory Disk_Device
  imports Machine_Stats
begin

text \<open>
  The simulated disk of \<^verbatim>\<open>code/machine/disk.h\<close> and \<^verbatim>\<open>disk.cc\<close>. The sectors live in a UNIX file
  behind a magic number; a request moves the data at once and schedules the interrupt that ends it.
  The file is the list of its bytes, and \<open>due\<close> is the time of the scheduled \<^verbatim>\<open>DiskInt\<close>.
\<close>

section \<open>The device\<close>

abbreviation (input) SectorSize :: int where "SectorSize \<equiv> 128"
abbreviation (input) SectorsPerTrack :: int where "SectorsPerTrack \<equiv> 32"
abbreviation (input) NumTracks :: int where "NumTracks \<equiv> 32"
abbreviation (input) NumSectors :: int where "NumSectors \<equiv> 1024"
abbreviation (input) MagicSize :: int where "MagicSize \<equiv> 4"
abbreviation (input) MagicNumber :: "32 word" where "MagicNumber \<equiv> 0x456789ab"

definition DiskSize :: int where
  "DiskSize = MagicSize + NumSectors * SectorSize"

text \<open>
  The UNIX calls of \<^verbatim>\<open>sysdep.cc\<close>: reads that come short abort, and writes past the end fill the gap
  with zero bytes.
\<close>

definition file_read :: "byte list \<Rightarrow> int \<Rightarrow> int \<Rightarrow> byte list result" where
  "file_read img off n = ASSERT (0 \<le> off \<and> off + n \<le> int (length img))
     (Inr (slice (nat off) (nat n) img))"

definition file_write :: "byte list \<Rightarrow> int \<Rightarrow> byte list \<Rightarrow> byte list result" where
  "file_write img off bs = ASSERT (0 \<le> off)
     (Inr (blit bs (img @ replicate (nat off + length bs - length img) 0) (nat off)))"

record Disk =
  disk_image :: "byte list"
  active :: bool
  lastSector :: int
  bufferInit :: int
  due :: "int option"

definition new_Disk :: "byte list option \<Rightarrow> Disk result" where
  "new_Disk unix_file = bindE
     (case unix_file of
        Some img \<Rightarrow> bindE (file_read img 0 MagicSize) (\<lambda>m. ASSERT (bytes_word m = MagicNumber) (Inr img))
      | None \<Rightarrow> bindE (file_write [] 0 (word_bytes MagicNumber)) (\<lambda>img.
          file_write img (DiskSize - 4) (int_bytes 0)))
     (\<lambda>img. Inr \<lparr>disk_image = img, active = False, lastSector = 0, bufferInit = 0, due = None\<rparr>)"

text \<open>\<^verbatim>\<open>TimeToSeek\<close>: the seek time, and the wait until the next sector boundary.\<close>

definition TimeToSeek :: "Disk \<Rightarrow> Statistics \<Rightarrow> int \<Rightarrow> int \<times> int" where
  "TimeToSeek d st newSector =
     (let newTrack = c_div newSector SectorsPerTrack;
          oldTrack = c_div (lastSector d) SectorsPerTrack;
          seek = \<bar>newTrack - oldTrack\<bar> * SeekTime;
          over = c_mod (totalTicks st + seek) RotationTime
      in (seek, if over > 0 then RotationTime - over else 0))"

definition ModuloDiff :: "int \<Rightarrow> int \<Rightarrow> int" where
  "ModuloDiff to from =
     (let toOffset = c_mod to SectorsPerTrack; fromOffset = c_mod from SectorsPerTrack
      in c_mod ((toOffset - fromOffset) + SectorsPerTrack) SectorsPerTrack)"

definition ComputeLatency :: "Disk \<Rightarrow> Statistics \<Rightarrow> int \<Rightarrow> bool \<Rightarrow> int" where
  "ComputeLatency d st newSector writing =
     (let (seek, rotation) = TimeToSeek d st newSector;
          timeAfter = totalTicks st + seek + rotation
      in if writing = False \<and> seek = 0 \<and>
            c_div (timeAfter - bufferInit d) RotationTime
              > ModuloDiff newSector (c_div (bufferInit d) RotationTime)
         then RotationTime
         else let rotation = rotation + ModuloDiff newSector (c_div timeAfter RotationTime) * RotationTime
              in seek + rotation + RotationTime)"

definition UpdateLast :: "Disk \<Rightarrow> Statistics \<Rightarrow> int \<Rightarrow> Disk" where
  "UpdateLast d st newSector =
     (let (seek, rotate) = TimeToSeek d st newSector;
          d = (if seek \<noteq> 0 then d\<lparr>bufferInit := totalTicks st + seek + rotate\<rparr> else d)
      in d\<lparr>lastSector := newSector\<rparr>)"

text \<open>
  The two requests. \<open>schedule_DiskInt\<close> stands for \<^verbatim>\<open>interrupt->Schedule(DiskDone, this, ticks, DiskInt)\<close>,
  which aborts unless the delay is positive (\<^verbatim>\<open>interrupt.cc\<close>).
\<close>

definition schedule_DiskInt :: "Disk \<Rightarrow> Statistics \<Rightarrow> int \<Rightarrow> Disk result" where
  "schedule_DiskInt d st ticks = ASSERT (ticks > 0) (Inr (d\<lparr>due := Some (totalTicks st + ticks)\<rparr>))"

definition ReadRequest :: "Disk \<Rightarrow> Statistics \<Rightarrow> int \<Rightarrow> (byte list \<times> Disk \<times> Statistics) result" where
  "ReadRequest d st sectorNumber =
     (let ticks = ComputeLatency d st sectorNumber False in
      ASSERT (\<not> active d) (ASSERT (sectorNumber \<ge> 0 \<and> sectorNumber < NumSectors)
        (bindE (file_read (disk_image d) (SectorSize * sectorNumber + MagicSize) SectorSize) (\<lambda>data.
         let d = UpdateLast (d\<lparr>active := True\<rparr>) st sectorNumber;
             st = st\<lparr>numDiskReads := numDiskReads st + 1\<rparr>
         in bindE (schedule_DiskInt d st ticks) (\<lambda>d. Inr (data, d, st))))))"

definition WriteRequest :: "Disk \<Rightarrow> Statistics \<Rightarrow> int \<Rightarrow> byte list \<Rightarrow> (Disk \<times> Statistics) result" where
  "WriteRequest d st sectorNumber data =
     (let ticks = ComputeLatency d st sectorNumber True in
      ASSERT (\<not> active d) (ASSERT (sectorNumber \<ge> 0 \<and> sectorNumber < NumSectors)
        (bindE (file_write (disk_image d) (SectorSize * sectorNumber + MagicSize) (take (nat SectorSize) data)) (\<lambda>img.
         let d = UpdateLast (d\<lparr>disk_image := img, active := True\<rparr>) st sectorNumber;
             st = st\<lparr>numDiskWrites := numDiskWrites st + 1\<rparr>
         in bindE (schedule_DiskInt d st ticks) (\<lambda>d. Inr (d, st))))))"

text \<open>\<^verbatim>\<open>HandleInterrupt\<close>, up to the call of the client's handler.\<close>

definition HandleInterrupt :: "Disk \<Rightarrow> Disk" where
  "HandleInterrupt d = d\<lparr>active := False, due := None\<rparr>"

section \<open>Timing\<close>

definition valid_sector :: "int \<Rightarrow> bool" where
  "valid_sector n \<longleftrightarrow> 0 \<le> n \<and> n < NumSectors"

lemma ModuloDiff_range: "0 \<le> to \<Longrightarrow> 0 \<le> from \<Longrightarrow> 0 \<le> ModuloDiff to from \<and> ModuloDiff to from < 32"
  by (simp add: ModuloDiff_def Let_def)

lemma ModuloDiff_rotates:
  assumes "0 \<le> to" "0 \<le> from"
  shows "(from + ModuloDiff to from) mod 32 = to mod 32"
proof -
  have "ModuloDiff to from = (to mod 32 - from mod 32 + 32) mod 32"
    using assms by (simp add: ModuloDiff_def Let_def)
  also have "\<dots> = (to - from) mod 32" by (simp add: mod_diff_eq)
  finally show ?thesis by (simp add: mod_add_right_eq)
qed

lemma TimeToSeek_boundary:
  assumes "0 \<le> totalTicks st" "TimeToSeek d st n = (seek, rot)"
  shows "0 \<le> seek" "0 \<le> rot" "rot < RotationTime" "RotationTime dvd totalTicks st + seek + rot"
proof -
  from assms(2) have s: "seek = \<bar>c_div n 32 - c_div (lastSector d) 32\<bar> * 500" by (auto simp: TimeToSeek_def Let_def)
  then show "0 \<le> seek" by simp
  then have m: "c_mod (totalTicks st + seek) 500 = (totalTicks st + seek) mod 500" using assms(1) by simp
  with assms(2) s have r: "rot = (if (totalTicks st + seek) mod 500 > 0 then 500 - (totalTicks st + seek) mod 500 else 0)"
    by (auto simp: TimeToSeek_def Let_def)
  have "0 \<le> (totalTicks st + seek) mod 500" "(totalTicks st + seek) mod 500 < 500" by auto
  with r show "0 \<le> rot" "rot < RotationTime" by auto
  define T where "T = totalTicks st + seek"
  have "T + rot = 500 * (T div 500) + (if T mod 500 > 0 then 500 else 0)"
    using r minus_mod_eq_mult_div [of T 500] \<open>0 \<le> (totalTicks st + seek) mod 500\<close> unfolding T_def by auto
  then show "RotationTime dvd totalTicks st + seek + rot" unfolding T_def by simp
qed

lemma TimeToSeek_seek:
  "valid_sector n \<Longrightarrow> valid_sector (lastSector d) \<Longrightarrow> fst (TimeToSeek d st n) = \<bar>n div 32 - lastSector d div 32\<bar> * 500"
  by (simp add: TimeToSeek_def Let_def valid_sector_def)

lemma ComputeLatency_write:
  assumes "0 \<le> totalTicks st" "TimeToSeek d st n = (seek, rot)"
  shows "ComputeLatency d st n True =
    seek + rot + ModuloDiff n ((totalTicks st + seek + rot) div RotationTime) * RotationTime + RotationTime"
  using TimeToSeek_boundary [OF assms] assms by (simp add: ComputeLatency_def Let_def)

lemma ComputeLatency_read:
  "ComputeLatency d st n False = RotationTime \<or> ComputeLatency d st n False = ComputeLatency d st n True"
  by (auto simp: ComputeLatency_def Let_def split: prod.splits)

text \<open>The track buffer: since \<^verbatim>\<open>bufferInit\<close>, sector \<open>n\<close> has passed under the head from its start to its end by time \<open>t\<close>.\<close>

definition buffered :: "Disk \<Rightarrow> int \<Rightarrow> int \<Rightarrow> bool" where
  "buffered d n t \<longleftrightarrow>
     (\<exists>slot. slot mod SectorsPerTrack = n mod SectorsPerTrack \<and> bufferInit d \<le> slot * RotationTime \<and> (slot + 1) * RotationTime \<le> t)"

definition buffer_ok :: "Disk \<Rightarrow> bool" where
  "buffer_ok d \<longleftrightarrow> 0 \<le> bufferInit d \<and> RotationTime dvd bufferInit d"

lemma first_slot:
  assumes "0 \<le> n" "0 \<le> a" "slot mod 32 = n mod 32" "a \<le> slot"
  shows "a + ModuloDiff n a \<le> slot"
proof -
  let ?q = "a + ModuloDiff n a"
  have "?q mod 32 = slot mod 32" using ModuloDiff_rotates [OF assms(1,2)] assms(3) by simp
  then obtain k where k: "slot - ?q = 32 * k" by (metis mod_eq_dvd_iff dvdE)
  moreover have "slot - ?q > - 32" using ModuloDiff_range [OF assms(1,2)] assms(4) by linarith
  ultimately show ?thesis by simp
qed

lemma c_div_mult: "0 < c \<Longrightarrow> c_div (c * k) c = k"
  by (auto simp: c_div_def sgn_if abs_mult zero_less_mult_iff)

lemma buffered_slot:
  assumes "buffer_ok d" "0 \<le> n" "RotationTime dvd t" "0 \<le> t"
  shows "buffered d n t \<longleftrightarrow> c_div (t - bufferInit d) RotationTime > ModuloDiff n (c_div (bufferInit d) RotationTime)"
proof -
  obtain a b where ab: "bufferInit d = 500 * a" "t = 500 * b" using assms(1,3) by (auto simp: buffer_ok_def elim!: dvdE)
  have a: "0 \<le> a" using assms(1) ab(1) by (simp add: buffer_ok_def)
  note m = ModuloDiff_range [OF assms(2) a] ModuloDiff_rotates [OF assms(2) a]
  have c: "c_div (t - bufferInit d) 500 = b - a" "c_div (bufferInit d) 500 = a"
    using c_div_mult [of 500 "b - a"] c_div_mult [of 500 a] by (simp_all only: ab right_diff_distrib)
  show ?thesis
  proof
    assume "buffered d n t"
    then obtain q where "q mod 32 = n mod 32" "a \<le> q" "q + 1 \<le> b" by (auto simp: buffered_def ab)
    then show "c_div (t - bufferInit d) 500 > ModuloDiff n (c_div (bufferInit d) 500)"
      using first_slot [OF assms(2) a, of q] unfolding c by linarith
  next
    assume "c_div (t - bufferInit d) 500 > ModuloDiff n (c_div (bufferInit d) 500)"
    then have "ModuloDiff n a < b - a" unfolding c .
    then show "buffered d n t" unfolding buffered_def ab
      by (intro exI [of _ "a + ModuloDiff n a"] conjI m(2)) (use m(1) in \<open>simp_all add: distrib_right\<close>)
  qed
qed

lemma ComputeLatency_buffered:
  assumes "0 \<le> totalTicks st" "0 \<le> n" "buffer_ok d" "TimeToSeek d st n = (seek, rot)"
  shows "ComputeLatency d st n False =
    (if seek = 0 \<and> buffered d n (totalTicks st + seek + rot) then RotationTime else ComputeLatency d st n True)"
  using buffered_slot [OF assms(3,2), of "totalTicks st + seek + rot"] TimeToSeek_boundary [OF assms(1,4)] assms(1,4)
  by (cases "seek = 0") (simp_all add: ComputeLatency_def Let_def)

lemma buffer_ok_kept:
  assumes "buffer_ok d" "0 \<le> totalTicks st"
  shows "buffer_ok (UpdateLast d st n)"
proof -
  obtain seek rot where t: "TimeToSeek d st n = (seek, rot)" by fastforce
  show ?thesis using TimeToSeek_boundary [OF assms(2) t] assms t by (simp add: UpdateLast_def buffer_ok_def)
qed

lemma ComputeLatency_bounds:
  assumes "0 \<le> totalTicks st" "valid_sector n" "valid_sector (lastSector d)"
  shows "RotationTime \<le> ComputeLatency d st n writing \<and>
    ComputeLatency d st n writing \<le> 31 * SeekTime + 499 + 31 * RotationTime + RotationTime"
proof -
  obtain seek rot where t: "TimeToSeek d st n = (seek, rot)" by fastforce
  have b: "0 \<le> seek" "0 \<le> rot" "rot < 500" using TimeToSeek_boundary [OF assms(1) t] by auto
  have "seek = \<bar>n div 32 - lastSector d div 32\<bar> * 500"
    using TimeToSeek_seek [OF assms(2,3), of st] t by simp
  moreover have "0 \<le> n div 32" "n div 32 < 32" "0 \<le> lastSector d div 32" "lastSector d div 32 < 32"
    using assms(2,3) by (auto simp: valid_sector_def pos_imp_zdiv_nonneg_iff)
  then have "\<bar>n div 32 - lastSector d div 32\<bar> \<le> 31" by linarith
  ultimately have "seek \<le> 31 * 500" by simp
  moreover have "0 \<le> ModuloDiff n ((totalTicks st + seek + rot) div 500)"
    "ModuloDiff n ((totalTicks st + seek + rot) div 500) < 32"
    using ModuloDiff_range [of n "(totalTicks st + seek + rot) div 500"] assms b
    by (simp_all add: valid_sector_def pos_imp_zdiv_nonneg_iff)
  ultimately show ?thesis
    using ComputeLatency_read [of d st n] ComputeLatency_write [OF assms(1) t] b
    by (cases writing) auto
qed

section \<open>The sectors\<close>

definition wf_disk :: "Disk \<Rightarrow> bool" where
  "wf_disk d \<longleftrightarrow> int (length (disk_image d)) = DiskSize \<and> valid_sector (lastSector d) \<and> active d = (due d \<noteq> None)"

definition sector_data :: "Disk \<Rightarrow> int \<Rightarrow> byte list" where
  "sector_data d n = slice (nat (SectorSize * n + MagicSize)) (nat SectorSize) (disk_image d)"

lemma file_write_ok: "0 \<le> off \<Longrightarrow> \<exists>img'. file_write img off bs = Inr img'"
  by (simp add: file_write_def)

lemma length_file_write:
  "file_write img off bs = Inr img' \<Longrightarrow> length img' = max (length img) (nat off + length bs)"
  by (auto simp: file_write_def ASSERT_eq_Inr blit_def)

lemma new_Disk_fresh: "\<exists>d. new_Disk None = Inr d \<and> wf_disk d \<and> \<not> active d"
proof -
  obtain i1 where i1: "file_write [] 0 (word_bytes MagicNumber) = Inr i1"
    using file_write_ok by blast
  obtain i2 where i2: "file_write i1 (DiskSize - 4) (int_bytes 0) = Inr i2"
    using file_write_ok [of "DiskSize - 4"] by (auto simp: DiskSize_def)
  have "length i2 = 131076"
    using length_file_write [OF i1] length_file_write [OF i2] by (simp add: DiskSize_def)
  with i1 i2 show ?thesis by (simp add: new_Disk_def wf_disk_def valid_sector_def DiskSize_def)
qed

lemma new_Disk_old:
  assumes "int (length img) = DiskSize" "bytes_word (take 4 img) = MagicNumber"
  shows "\<exists>d. new_Disk (Some img) = Inr d \<and> wf_disk d \<and> \<not> active d \<and> disk_image d = img"
  using assms by (simp add: new_Disk_def file_read_def slice_def wf_disk_def DiskSize_def valid_sector_def)

lemma sector_offset: "valid_sector n \<Longrightarrow> nat (128 * n + 4) = 128 * nat n + 4"
  by (simp add: valid_sector_def nat_add_distrib nat_mult_distrib)

lemma length_sector_data [simp]:
  "wf_disk d \<Longrightarrow> valid_sector n \<Longrightarrow> length (sector_data d n) = 128"
  by (auto simp: sector_data_def wf_disk_def DiskSize_def valid_sector_def nat_add_distrib
      nat_mult_distrib intro!: length_slice)

lemma UpdateLast_simps [simp]:
  "disk_image (UpdateLast d st n) = disk_image d" "active (UpdateLast d st n) = active d"
  "due (UpdateLast d st n) = due d" "lastSector (UpdateLast d st n) = n"
  by (simp_all add: UpdateLast_def Let_def split: prod.splits)

lemma ReadRequest_valid:
  assumes "wf_disk d" "\<not> active d" "0 \<le> totalTicks st" "valid_sector n"
  obtains d' where
    "ReadRequest d st n = Inr (sector_data d n, d', st\<lparr>numDiskReads := numDiskReads st + 1\<rparr>)"
    "wf_disk d'" "disk_image d' = disk_image d" "due d' = Some (totalTicks st + ComputeLatency d st n False)"
proof -
  let ?d = "(UpdateLast (d\<lparr>active := True\<rparr>) st n)\<lparr>due := Some (totalTicks st + ComputeLatency d st n False)\<rparr>"
  have "ReadRequest d st n = Inr (sector_data d n, ?d, st\<lparr>numDiskReads := numDiskReads st + 1\<rparr>)"
    using assms ComputeLatency_bounds [OF assms(3,4), of d False]
    by (simp add: ReadRequest_def Let_def wf_disk_def valid_sector_def file_read_def DiskSize_def
        sector_data_def schedule_DiskInt_def)
  moreover have "wf_disk ?d" using assms by (simp add: wf_disk_def)
  ultimately show ?thesis using that by auto
qed

lemma WriteRequest_valid:
  assumes "wf_disk d" "\<not> active d" "0 \<le> totalTicks st" "valid_sector n" "length data = 128"
  obtains d' where
    "WriteRequest d st n data = Inr (d', st\<lparr>numDiskWrites := numDiskWrites st + 1\<rparr>)"
    "wf_disk d'" "due d' = Some (totalTicks st + ComputeLatency d st n True)"
    "\<And>m. valid_sector m \<Longrightarrow> sector_data d' m = (if m = n then data else sector_data d m)"
proof -
  let ?o = "nat (128 * n + 4)"
  have o: "?o + 128 \<le> length (disk_image d)"
    using assms(1,4) by (auto simp: wf_disk_def DiskSize_def valid_sector_def nat_le_iff)
  let ?d = "(UpdateLast (d\<lparr>disk_image := blit data (disk_image d) ?o, active := True\<rparr>) st n)
    \<lparr>due := Some (totalTicks st + ComputeLatency d st n True)\<rparr>"
  have "WriteRequest d st n data = Inr (?d, st\<lparr>numDiskWrites := numDiskWrites st + 1\<rparr>)"
    using assms o ComputeLatency_bounds [OF assms(3,4), of d True]
    by (simp add: WriteRequest_def Let_def wf_disk_def valid_sector_def file_write_def schedule_DiskInt_def)
  moreover have "wf_disk ?d" using assms o by (simp add: wf_disk_def)
  moreover have "sector_data ?d m = (if m = n then data else sector_data d m)" if "valid_sector m" for m
  proof (cases "m = n")
    case True
    then show ?thesis using o assms(5) slice_blit_same [of ?o data "disk_image d"] by (simp add: sector_data_def)
  next
    case False
    have "nat (128 * m + 4) + 128 \<le> length (disk_image d)"
      using assms(1) that by (auto simp: wf_disk_def DiskSize_def valid_sector_def nat_le_iff)
    moreover from False have "m < n \<or> n < m" by linarith
    then have "nat (128 * m + 4) + 128 \<le> ?o \<or> ?o + 128 \<le> nat (128 * m + 4)"
      unfolding sector_offset [OF that] sector_offset [OF assms(4)] using that assms(4)
      by (simp add: valid_sector_def) linarith
    ultimately have "slice (nat (128 * m + 4)) 128 (blit data (disk_image d) ?o) = slice (nat (128 * m + 4)) 128 (disk_image d)"
      unfolding assms(5) [symmetric] using o assms(5) by (intro slice_blit_other) auto
    then show ?thesis using False by (simp add: sector_data_def)
  qed
  ultimately show ?thesis using that [of ?d] by (simp del: UpdateLast_simps)
qed

lemma Request_invalid:
  "\<not> valid_sector n \<Longrightarrow> ReadRequest d st n = Inl AssertFailed \<and> WriteRequest d st n data = Inl AssertFailed"
  by (auto simp: ReadRequest_def WriteRequest_def valid_sector_def ASSERT_def Let_def)

lemma HandleInterrupt_simps [simp]:
  "wf_disk d \<Longrightarrow> wf_disk (HandleInterrupt d)" "\<not> active (HandleInterrupt d)"
  "sector_data (HandleInterrupt d) = sector_data d"
  by (simp_all add: HandleInterrupt_def wf_disk_def sector_data_def fun_eq_iff)

section \<open>Properties\<close>

text \<open>
  C5. The latency model does what its comment says. A write to \<open>n\<close> starts its transfer after the seek,
  at the first moment at which the start of sector \<open>n\<close> is under the head (a multiple of the rotation
  time per sector, with the sector number of the rotating disk equal to that of \<open>n\<close> within its
  track, and less than a full turn after the seek), and the transfer takes \<^verbatim>\<open>RotationTime\<close>. A read
  comes out of the track buffer, in one \<^verbatim>\<open>RotationTime\<close>, exactly when no seek is needed and all of the sector has passed
  under the head between the time the buffer was started and the next sector boundary; otherwise it takes as long
  as a write. The start of the buffer stays on a sector boundary.
\<close>

theorem ComputeLatency_first_pass:
  assumes "0 \<le> totalTicks st" "valid_sector n" "valid_sector (lastSector d)" "buffer_ok d"
  shows "\<exists>seek start next. seek = \<bar>n div SectorsPerTrack - lastSector d div SectorsPerTrack\<bar> * SeekTime \<and>
    totalTicks st + ComputeLatency d st n True = start + RotationTime \<and>
    RotationTime dvd start \<and> (start div RotationTime) mod SectorsPerTrack = n mod SectorsPerTrack \<and>
    totalTicks st + seek \<le> start \<and> start < totalTicks st + seek + SectorsPerTrack * RotationTime \<and>
    RotationTime dvd next \<and> totalTicks st + seek \<le> next \<and> next < totalTicks st + seek + RotationTime \<and>
    ComputeLatency d st n False = (if seek = 0 \<and> buffered d n next then RotationTime else ComputeLatency d st n True) \<and>
    buffer_ok (UpdateLast d st n)"
proof -
  obtain seek rot where t: "TimeToSeek d st n = (seek, rot)" by fastforce
  note b = TimeToSeek_boundary [OF assms(1) t]
  let ?m = "ModuloDiff n ((totalTicks st + seek + rot) div 500)"
  let ?start = "totalTicks st + seek + rot + ?m * 500"
  have "0 \<le> (totalTicks st + seek + rot) div 500" using assms(1) b by (simp add: pos_imp_zdiv_nonneg_iff)
  then have m: "0 \<le> ?m" "?m < 32" "((totalTicks st + seek + rot) div 500 + ?m) mod 32 = n mod 32"
    using ModuloDiff_range ModuloDiff_rotates assms(2) by (auto simp: valid_sector_def)
  show ?thesis
  proof (intro exI conjI)
    show "totalTicks st + ComputeLatency d st n True = ?start + RotationTime"
      using ComputeLatency_write [OF assms(1) t] by simp
    show "RotationTime dvd ?start" using b(4) by simp
    show "(?start div RotationTime) mod SectorsPerTrack = n mod SectorsPerTrack"
      using m(3) by (simp add: add.commute)
    show "seek = \<bar>n div SectorsPerTrack - lastSector d div SectorsPerTrack\<bar> * SeekTime"
      using TimeToSeek_seek [OF assms(2,3), of st] t by simp
    show "totalTicks st + seek \<le> ?start" "?start < totalTicks st + seek + SectorsPerTrack * RotationTime"
      using b(2,3) m(1,2) by auto
    show "ComputeLatency d st n False =
        (if seek = 0 \<and> buffered d n (totalTicks st + seek + rot) then RotationTime else ComputeLatency d st n True)"
      by (rule ComputeLatency_buffered [OF assms(1) _ assms(4) t]) (use assms(2) in \<open>simp add: valid_sector_def\<close>)
  qed (use b assms in \<open>auto intro: buffer_ok_kept\<close>)
qed

definition ex_disk :: Disk where
  "ex_disk = \<lparr>disk_image = [], active = False, lastSector = 40, bufferInit = 0, due = None\<rparr>"

theorem ComputeLatency_first_pass_witness:
  "valid_sector 70 \<and> valid_sector (lastSector ex_disk) \<and> buffer_ok ex_disk \<and>
   ComputeLatency ex_disk (new_Statistics\<lparr>totalTicks := 1234\<rparr>) 70 True = 2266 \<and>
   (\<exists>start. 1234 + (2266 :: int) = start + RotationTime \<and> (start div RotationTime) mod SectorsPerTrack = 6) \<and>
   ComputeLatency ex_disk (new_Statistics\<lparr>totalTicks := 1234\<rparr>) 70 False = 2266"
  using ComputeLatency_first_pass [of "new_Statistics\<lparr>totalTicks := 1234\<rparr>" 70 ex_disk]
  by (auto simp: valid_sector_def buffer_ok_def ex_disk_def ComputeLatency_def TimeToSeek_def ModuloDiff_def Let_def)

end
