(* ===== verification/Synch_Disk.thy ===== *)
theory Synch_Disk
  imports Disk_Device
begin

text \<open>
  The synchronous disk of \<^verbatim>\<open>code/filesys/synchdisk.h\<close> and \<^verbatim>\<open>synchdisk.cc\<close>: an eight-entry
  write-back cache in front of the disk, and the reader, writer and opener bookkeeping of the files.
  The file system runs in one thread here: a \<^verbatim>\<open>P\<close> on a semaphore at zero with no disk request
  outstanding blocks for ever (\<open>Blocked\<close>), and a \<^verbatim>\<open>P\<close> with a request outstanding sleeps until the
  disk interrupt. How long the other operations take is left open: \<open>elapse\<close> gives the ticks that pass
  at the successive synchronisation operations, and the theorems hold for every such function.
\<close>

section \<open>The class\<close>

abbreviation (input) CacheSize :: nat where "CacheSize \<equiv> 8"

record CacheEntry =
  valid :: bool
  dirty :: bool
  sector :: int
  lru :: int
  data :: "byte list"

record SynchDisk =
  disk :: Disk
  semaphore :: int
  lock_mutex :: int
  lock_OwnerId :: int
  readerCnt :: "int list"
  openerCnt :: "int list"
  rCntMutex :: "int list"
  oCntMutex :: "int list"
  RW :: "int list"
  CacheTable :: "CacheEntry list"
  stats :: Statistics
  tid :: int
  elapse :: "nat \<Rightarrow> nat"
  events :: nat

text \<open>Time passes: the clock moves on by what the environment says.\<close>

definition tick :: "SynchDisk \<Rightarrow> SynchDisk" where
  "tick s = s\<lparr>stats := (stats s)\<lparr>totalTicks := totalTicks (stats s) + int (elapse s (events s))\<rparr>,
     events := events s + 1\<rparr>"

text \<open>
  The semaphore operations on a counter, and the lock (\<^verbatim>\<open>code/threads/synch.cc\<close>) as its binary
  semaphore and its owner.
\<close>

definition sem_P :: "int \<Rightarrow> int result" where
  "sem_P v = (if v = 0 then Inl Blocked else Inr (v - 1))"

definition sem_V :: "int \<Rightarrow> int" where
  "sem_V v = v + 1"

definition lock_Acquire :: "SynchDisk \<Rightarrow> SynchDisk result" where
  "lock_Acquire s = bindE (sem_P (lock_mutex s)) (\<lambda>v.
     Inr (tick (s\<lparr>lock_mutex := v, lock_OwnerId := tid s\<rparr>)))"

definition lock_Release :: "SynchDisk \<Rightarrow> SynchDisk result" where
  "lock_Release s = ASSERT (lock_OwnerId s = tid s)
     (Inr (tick (s\<lparr>lock_OwnerId := - 1, lock_mutex := sem_V (lock_mutex s)\<rparr>)))"

text \<open>\<^verbatim>\<open>RequestDone\<close>, called from the disk's interrupt handler.\<close>

definition RequestDone :: "SynchDisk \<Rightarrow> SynchDisk" where
  "RequestDone s = s\<lparr>semaphore := sem_V (semaphore s)\<rparr>"

text \<open>
  \<^verbatim>\<open>semaphore->P()\<close>, waiting for the interrupt: the idle machine advances the clock to the time the
  interrupt is due and runs \<^verbatim>\<open>DiskDone\<close>, that is \<^verbatim>\<open>HandleInterrupt\<close> followed by \<^verbatim>\<open>RequestDone\<close>.
\<close>

definition semaphore_wait :: "SynchDisk \<Rightarrow> SynchDisk result" where
  "semaphore_wait s =
     (if semaphore s \<noteq> 0 then bindE (sem_P (semaphore s)) (\<lambda>v. Inr (tick (s\<lparr>semaphore := v\<rparr>)))
      else case due (disk s) of
        None \<Rightarrow> Inl Blocked
      | Some w \<Rightarrow>
          let s = s\<lparr>stats := (stats s)\<lparr>totalTicks := max (totalTicks (stats s)) w\<rparr>\<rparr>;
              s = RequestDone (s\<lparr>disk := HandleInterrupt (disk s)\<rparr>)
          in bindE (sem_P (semaphore s)) (\<lambda>v. Inr (tick (s\<lparr>semaphore := v\<rparr>))))"

definition new_SynchDisk ::
  "byte list option \<Rightarrow> Statistics \<Rightarrow> int \<Rightarrow> (nat \<Rightarrow> nat) \<Rightarrow> (nat \<Rightarrow> CacheEntry) \<Rightarrow> SynchDisk result" where
  "new_SynchDisk unix_file st me el junk = bindE (new_Disk unix_file) (\<lambda>d. Inr
     \<lparr>disk = d, semaphore = 0, lock_mutex = 1, lock_OwnerId = - 1,
      readerCnt = replicate (nat NumSectors) 0, openerCnt = replicate (nat NumSectors) 0,
      rCntMutex = replicate (nat NumSectors) 1, oCntMutex = replicate (nat NumSectors) 1,
      RW = replicate (nat NumSectors) 1,
      CacheTable = map (\<lambda>i. (junk i)\<lparr>dirty := False, valid := False, lru := totalTicks st\<rparr>) [0..<CacheSize],
      stats = st, tid = me, elapse = el, events = 0\<rparr>)"

section \<open>The cache\<close>

definition upd_entry :: "nat \<Rightarrow> (CacheEntry \<Rightarrow> CacheEntry) \<Rightarrow> SynchDisk \<Rightarrow> SynchDisk" where
  "upd_entry i f s = s\<lparr>CacheTable := (CacheTable s)[i := f (CacheTable s ! i)]\<rparr>"

text \<open>The search for the entry to evict, with its early \<^verbatim>\<open>break\<close>.\<close>

fun evict_loop :: "CacheEntry list \<Rightarrow> nat list \<Rightarrow> nat \<Rightarrow> nat" where
  "evict_loop tab [] evict = evict"
| "evict_loop tab (i # is) evict =
     (if \<not> valid (tab ! i) then i
      else evict_loop tab is (if lru (tab ! i) < lru (tab ! evict) then i else evict))"

definition CacheMiss_flush :: "SynchDisk \<Rightarrow> nat \<Rightarrow> SynchDisk result" where
  "CacheMiss_flush s evict =
     (if valid (CacheTable s ! evict) \<and> dirty (CacheTable s ! evict) then
        bindE (lock_Acquire s) (\<lambda>s.
        bindE (WriteRequest (disk s) (stats s) (sector (CacheTable s ! evict)) (data (CacheTable s ! evict)))
          (\<lambda>(d, st).
        bindE (semaphore_wait (s\<lparr>disk := d, stats := st\<rparr>)) (\<lambda>s.
        lock_Release (upd_entry evict (\<lambda>e. e\<lparr>dirty := False, valid := False\<rparr>) s))))
      else Inr s)"

definition CacheMiss_fill :: "SynchDisk \<Rightarrow> nat \<Rightarrow> int \<Rightarrow> SynchDisk result" where
  "CacheMiss_fill s evict sec =
     bindE (lock_Acquire s) (\<lambda>s.
     bindE (ReadRequest (disk s) (stats s) sec) (\<lambda>(bs, d, st).
     bindE (semaphore_wait (upd_entry evict (\<lambda>e. e\<lparr>data := bs\<rparr>) (s\<lparr>disk := d, stats := st\<rparr>))) (\<lambda>s.
     lock_Release (upd_entry evict
       (\<lambda>e. e\<lparr>dirty := False, valid := True, lru := totalTicks (stats s), sector := sec\<rparr>) s))))"

definition CacheMiss :: "SynchDisk \<Rightarrow> int \<Rightarrow> SynchDisk result" where
  "CacheMiss s sec =
     (let evict = evict_loop (CacheTable s) [0..<CacheSize] 0
      in bindE (CacheMiss_flush s evict) (\<lambda>s. CacheMiss_fill s evict sec))"

text \<open>
  One pass over the table for a read: \<open>Some\<close> of the copied bytes stands for \<^verbatim>\<open>hit\<close> and what
  \<^verbatim>\<open>memcpy\<close> left in the caller's buffer.
\<close>

definition read_probe :: "int \<Rightarrow> nat \<Rightarrow> SynchDisk \<times> byte list option \<Rightarrow> (SynchDisk \<times> byte list option) result" where
  "read_probe sec i = (\<lambda>(s, hit).
     bindE (lock_Acquire s) (\<lambda>s.
     let e = CacheTable s ! i;
         (s, hit) = (if valid e \<and> sector e = sec
                     then (upd_entry i (\<lambda>e. e\<lparr>lru := totalTicks (stats s)\<rparr>) s, Some (data e))
                     else (s, hit))
     in bindE (lock_Release s) (\<lambda>s. Inr (s, hit))))"

definition read_pass :: "int \<Rightarrow> SynchDisk \<Rightarrow> (SynchDisk \<times> byte list option) result" where
  "read_pass sec s = foldE (read_probe sec) [0..<CacheSize] (s, None)"

text \<open>
  A caller whose buffer was not filled would go on with indeterminate bytes: that branch is the
  \<open>BadAccess\<close> below, and it is never taken (lemma \<open>ReadSector_reads\<close>).
\<close>

definition ReadSector :: "SynchDisk \<Rightarrow> int \<Rightarrow> (SynchDisk \<times> byte list) result" where
  "ReadSector s sectorNumber =
     bindE (read_pass sectorNumber s) (\<lambda>(s, hit).
     bindE (case hit of Some bs \<Rightarrow> Inr (s, hit)
            | None \<Rightarrow> bindE (CacheMiss s sectorNumber) (read_pass sectorNumber)) (\<lambda>(s, hit).
     case hit of Some bs \<Rightarrow> Inr (s, bs) | None \<Rightarrow> Inl BadAccess))"

definition write_probe ::
  "int \<Rightarrow> byte list \<Rightarrow> nat \<Rightarrow> SynchDisk \<times> bool \<Rightarrow> (SynchDisk \<times> bool) result" where
  "write_probe sec bs i = (\<lambda>(s, hit).
     bindE (lock_Acquire s) (\<lambda>s.
     let e = CacheTable s ! i;
         (s, hit) = (if valid e \<and> sector e = sec
                     then (upd_entry i (\<lambda>e. e\<lparr>data := take (nat SectorSize) bs,
                             lru := totalTicks (stats s), dirty := True\<rparr>) s, True)
                     else (s, hit))
     in bindE (lock_Release s) (\<lambda>s. Inr (s, hit))))"

definition write_pass :: "int \<Rightarrow> byte list \<Rightarrow> SynchDisk \<Rightarrow> (SynchDisk \<times> bool) result" where
  "write_pass sec bs s = foldE (write_probe sec bs) [0..<CacheSize] (s, False)"

definition WriteSector :: "SynchDisk \<Rightarrow> int \<Rightarrow> byte list \<Rightarrow> SynchDisk result" where
  "WriteSector s sectorNumber bs =
     bindE (write_pass sectorNumber bs s) (\<lambda>(s, hit).
     if \<not> hit then
       bindE (CacheMiss s sectorNumber) (\<lambda>s.
       bindE (write_pass sectorNumber bs s) (\<lambda>(s, hit). Inr s))
     else Inr s)"

section \<open>Readers, writers and openers\<close>

definition at :: "int list \<Rightarrow> int \<Rightarrow> int result" where
  "at xs i = (if 0 \<le> i \<and> i < int (length xs) then Inr (xs ! nat i) else Inl BadAccess)"

text \<open>The operations on the semaphores and the counter of a header sector.\<close>

definition rCnt_P :: "SynchDisk \<Rightarrow> int \<Rightarrow> SynchDisk result" where
  "rCnt_P s h = bindE (at (rCntMutex s) h) (\<lambda>m. bindE (sem_P m) (\<lambda>m. Inr (s\<lparr>rCntMutex := (rCntMutex s)[nat h := m]\<rparr>)))"

definition rCnt_V :: "SynchDisk \<Rightarrow> int \<Rightarrow> SynchDisk result" where
  "rCnt_V s h = bindE (at (rCntMutex s) h) (\<lambda>m. Inr (s\<lparr>rCntMutex := (rCntMutex s)[nat h := sem_V m]\<rparr>))"

definition RW_P :: "SynchDisk \<Rightarrow> int \<Rightarrow> SynchDisk result" where
  "RW_P s h = bindE (at (RW s) h) (\<lambda>w. bindE (sem_P w) (\<lambda>w. Inr (s\<lparr>RW := (RW s)[nat h := w]\<rparr>)))"

definition RW_V :: "SynchDisk \<Rightarrow> int \<Rightarrow> SynchDisk result" where
  "RW_V s h = bindE (at (RW s) h) (\<lambda>w. Inr (s\<lparr>RW := (RW s)[nat h := sem_V w]\<rparr>))"

definition add_reader :: "int \<Rightarrow> SynchDisk \<Rightarrow> int \<Rightarrow> SynchDisk result" where
  "add_reader k s h = bindE (at (readerCnt s) h) (\<lambda>c. Inr (s\<lparr>readerCnt := (readerCnt s)[nat h := c + k]\<rparr>))"

definition no_reader :: "SynchDisk \<Rightarrow> int \<Rightarrow> bool result" where
  "no_reader s h = bindE (at (readerCnt s) h) (\<lambda>c. Inr (c = 0))"

text \<open>
  A whole call by a thread that is not interrupted in it; \<open>Blocked\<close> when it would have to wait for another thread. \<open>Disk_Readers\<close> has
  the calls of several threads statement by statement.
\<close>

definition StartRead :: "SynchDisk \<Rightarrow> int \<Rightarrow> SynchDisk result" where
  "StartRead s h =
     bindE (rCnt_P s h) (\<lambda>s.
     bindE (no_reader s h) (\<lambda>z.
     bindE (if z then RW_P s h else Inr s) (\<lambda>s.
     bindE (add_reader 1 s h) (\<lambda>s.
     bindE (rCnt_V s h) (\<lambda>s. Inr (tick s))))))"

definition EndRead :: "SynchDisk \<Rightarrow> int \<Rightarrow> SynchDisk result" where
  "EndRead s h =
     bindE (rCnt_P s h) (\<lambda>s.
     bindE (add_reader (- 1) s h) (\<lambda>s.
     bindE (no_reader s h) (\<lambda>z.
     bindE (if z then RW_V s h else Inr s) (\<lambda>s.
     bindE (rCnt_V s h) (\<lambda>s. Inr (tick s))))))"

definition StartWrite :: "SynchDisk \<Rightarrow> int \<Rightarrow> SynchDisk result" where
  "StartWrite s h = bindE (RW_P s h) (\<lambda>s. Inr (tick s))"

definition EndWrite :: "SynchDisk \<Rightarrow> int \<Rightarrow> SynchDisk result" where
  "EndWrite s h = bindE (RW_V s h) (\<lambda>s. Inr (tick s))"

text \<open>\<^verbatim>\<open>Open\<close> and \<^verbatim>\<open>Close\<close> differ in what they do to the counter.\<close>

definition count_opener :: "int \<Rightarrow> SynchDisk \<Rightarrow> int \<Rightarrow> SynchDisk result" where
  "count_opener k s h =
     bindE (at (oCntMutex s) h) (\<lambda>m. bindE (sem_P m) (\<lambda>m.
     bindE (at (openerCnt s) h) (\<lambda>c.
     Inr (tick (s\<lparr>openerCnt := (openerCnt s)[nat h := c + k],
                  oCntMutex := (oCntMutex s)[nat h := sem_V m]\<rparr>)))))"

definition Disk_Open :: "SynchDisk \<Rightarrow> int \<Rightarrow> SynchDisk result" where
  "Disk_Open s h = count_opener 1 s h"

definition Disk_Close :: "SynchDisk \<Rightarrow> int \<Rightarrow> SynchDisk result" where
  "Disk_Close s h = count_opener (- 1) s h"

definition GetOpenStart :: "SynchDisk \<Rightarrow> int \<Rightarrow> int result" where
  "GetOpenStart s h = at (openerCnt s) h"

text \<open>
  The destructor frees the tables and closes the UNIX file: what is left is the disk image.
\<close>

definition delete_SynchDisk :: "SynchDisk \<Rightarrow> byte list" where
  "delete_SynchDisk s = disk_image (disk s)"

section \<open>What the cache and the disk hold together\<close>

definition cache_index :: "CacheEntry list \<Rightarrow> int \<Rightarrow> nat option" where
  "cache_index tab n = find (\<lambda>i. valid (tab ! i) \<and> sector (tab ! i) = n) [0..<CacheSize]"

definition content :: "SynchDisk \<Rightarrow> int \<Rightarrow> byte list" where
  "content s n = (case cache_index (CacheTable s) n of
     Some i \<Rightarrow> data (CacheTable s ! i) | None \<Rightarrow> sector_data (disk s) n)"

definition cache_ok :: "Disk \<Rightarrow> CacheEntry list \<Rightarrow> bool" where
  "cache_ok d tab \<longleftrightarrow> length tab = CacheSize \<and>
     (\<forall>i < CacheSize. valid (tab ! i) \<longrightarrow> valid_sector (sector (tab ! i)) \<and> length (data (tab ! i)) = 128 \<and>
        (\<not> dirty (tab ! i) \<longrightarrow> data (tab ! i) = sector_data d (sector (tab ! i)))) \<and>
     (\<forall>i < CacheSize. \<forall>j < CacheSize. valid (tab ! i) \<longrightarrow> valid (tab ! j) \<longrightarrow>
        sector (tab ! i) = sector (tab ! j) \<longrightarrow> i = j)"

definition wf_sd :: "SynchDisk \<Rightarrow> bool" where
  "wf_sd s \<longleftrightarrow> wf_disk (disk s) \<and> \<not> active (disk s) \<and> 0 \<le> totalTicks (stats s) \<and> semaphore s = 0 \<and>
     lock_mutex s = 1 \<and> cache_ok (disk s) (CacheTable s)"

text \<open>\<open>same_cache s s'\<close>: only time, the owner of the free lock and the LRU stamps have changed.\<close>

definition strip :: "CacheEntry \<Rightarrow> CacheEntry" where
  "strip e = e\<lparr>lru := 0\<rparr>"

definition others :: "SynchDisk \<Rightarrow> int \<times> int \<times> int list \<times> int list \<times> int list \<times> int list \<times> int list \<times> int \<times> (nat \<Rightarrow> nat)" where
  "others s = (semaphore s, lock_mutex s, readerCnt s, openerCnt s, rCntMutex s, oCntMutex s, RW s, tid s, elapse s)"

definition same_cache :: "SynchDisk \<Rightarrow> SynchDisk \<Rightarrow> bool" where
  "same_cache s s' \<longleftrightarrow> disk s' = disk s \<and> others s' = others s \<and>
     map strip (CacheTable s') = map strip (CacheTable s) \<and> totalTicks (stats s) \<le> totalTicks (stats s')"

lemma strip_simps [simp]:
  "valid (strip e) = valid e" "dirty (strip e) = dirty e" "sector (strip e) = sector e" "data (strip e) = data e"
  by (simp_all add: strip_def)

lemma same_strip_nth:
  assumes "map strip t = map strip u" "i < length u"
  shows "valid (t ! i) = valid (u ! i)" "dirty (t ! i) = dirty (u ! i)" "sector (t ! i) = sector (u ! i)"
    "data (t ! i) = data (u ! i)"
proof -
  have "length t = length u" using assms(1) map_eq_imp_length_eq by blast
  then have "strip (t ! i) = strip (u ! i)" using assms by (metis nth_map)
  then show "valid (t ! i) = valid (u ! i)" "dirty (t ! i) = dirty (u ! i)" "sector (t ! i) = sector (u ! i)"
    "data (t ! i) = data (u ! i)" by (metis strip_simps)+
qed

lemma same_cache_refl [simp]: "same_cache s s"
  by (simp add: same_cache_def)

lemma same_cache_trans: "same_cache s t \<Longrightarrow> same_cache t u \<Longrightarrow> same_cache s u"
  by (auto simp: same_cache_def)

lemma cache_index_cong:
  assumes "map strip t = map strip u" "length u = CacheSize"
  shows "cache_index t n = cache_index u n"
  unfolding cache_index_def using same_strip_nth [OF assms(1)] assms(2) by (intro find_cong) auto

lemma cache_ok_cong:
  assumes "map strip t = map strip u" "cache_ok d u"
  shows "cache_ok d t"
proof -
  have "length t = length u" using assms(1) map_eq_imp_length_eq by blast
  with same_strip_nth [OF assms(1)] assms(2) show ?thesis by (simp add: cache_ok_def)
qed

lemma cache_index_SomeD:
  "cache_index tab n = Some i \<Longrightarrow> i < CacheSize \<and> valid (tab ! i) \<and> sector (tab ! i) = n"
  by (auto simp: cache_index_def find_Some_iff)

lemma cache_index_unique:
  assumes "cache_ok d tab" "i < CacheSize" "valid (tab ! i)" "sector (tab ! i) = n"
  shows "cache_index tab n = Some i"
proof -
  have "cache_index tab n \<noteq> None" using assms(2-4) by (auto simp: cache_index_def find_None_iff)
  then obtain j where "cache_index tab n = Some j" by blast
  with cache_index_SomeD [OF this] assms show ?thesis by (auto simp: cache_ok_def)
qed

lemma cache_index_NoneD: "cache_index tab n = None \<Longrightarrow> i < CacheSize \<Longrightarrow> valid (tab ! i) \<Longrightarrow> sector (tab ! i) \<noteq> n"
  by (auto simp: cache_index_def find_None_iff)

lemma content_cong:
  assumes "same_cache s s'" "length (CacheTable s) = CacheSize"
  shows "content s' = content s"
proof
  fix n
  from assms(1) obtain t where t: "CacheTable s' = t" "disk s' = disk s" "map strip t = map strip (CacheTable s)"
    by (auto simp: same_cache_def)
  then have ci: "cache_index t n = cache_index (CacheTable s) n" using assms(2) by (intro cache_index_cong)
  show "content s' n = content s n"
    using t ci same_strip_nth(4) [OF t(3)] cache_index_SomeD assms(2)
    by (auto simp: content_def split: option.splits)
qed

lemma wf_sd_cong: "same_cache s s' \<Longrightarrow> wf_sd s \<Longrightarrow> wf_sd s'"
  by (auto simp: same_cache_def wf_sd_def others_def intro: cache_ok_cong)

section \<open>The passes over the table\<close>

lemma map_strip_lru: "i < length t \<Longrightarrow> map strip (t[i := (t ! i)\<lparr>lru := l\<rparr>]) = map strip t"
  by (intro nth_equalityI) (auto simp: nth_list_update strip_def)

lemma read_probe_same:
  assumes "lock_mutex s = 1" "i < length (CacheTable s)"
  shows "\<exists>s'. same_cache s s' \<and> read_probe n i (s, hit) =
    Inr (s', if valid (CacheTable s ! i) \<and> sector (CacheTable s ! i) = n
             then Some (data (CacheTable s ! i)) else hit)"
  using assms map_strip_lru [OF assms(2)]
  by (auto simp: read_probe_def lock_Acquire_def lock_Release_def sem_P_def sem_V_def tick_def upd_entry_def
      same_cache_def others_def Let_def)

lemma read_pass_index:
  assumes "wf_sd s"
  obtains s' where "same_cache s s'"
    "read_pass n s = Inr (s', map_option (\<lambda>i. data (CacheTable s ! i)) (cache_index (CacheTable s) n))"
proof -
  let ?T = "CacheTable s"
  have len: "length ?T = CacheSize" and mtx: "lock_mutex s = 1" and ok: "cache_ok (disk s) ?T"
    using assms by (auto simp: wf_sd_def cache_ok_def)
  have "\<exists>s'. same_cache s s' \<and> foldE (read_probe n) [0..<k] (s, None) =
      Inr (s', case cache_index ?T n of Some i \<Rightarrow> if i < k then Some (data (?T ! i)) else None | None \<Rightarrow> None)"
    if "k \<le> CacheSize" for k
    using that
  proof (induction k)
    case (Suc k)
    then obtain s1 where s1: "same_cache s s1" and f: "foldE (read_probe n) [0..<k] (s, None) =
      Inr (s1, case cache_index ?T n of Some i \<Rightarrow> if i < k then Some (data (?T ! i)) else None | None \<Rightarrow> None)"
      by auto
    from s1 have T1: "map strip (CacheTable s1) = map strip ?T" "lock_mutex s1 = 1"
      using mtx by (auto simp: same_cache_def others_def)
    then have "length (CacheTable s1) = CacheSize" using len map_eq_imp_length_eq by metis
    note nth = same_strip_nth [OF T1(1), of k]
    from read_probe_same [OF T1(2), of k n "case cache_index ?T n of Some i \<Rightarrow> if i < k then Some (data (?T ! i)) else None | None \<Rightarrow> None"]
      \<open>length (CacheTable s1) = CacheSize\<close> Suc.prems
    obtain s2 where s2: "same_cache s1 s2" "read_probe n k (s1, case cache_index ?T n of Some i \<Rightarrow> if i < k then Some (data (?T ! i)) else None | None \<Rightarrow> None) =
      Inr (s2, if valid (?T ! k) \<and> sector (?T ! k) = n then Some (data (?T ! k))
        else case cache_index ?T n of Some i \<Rightarrow> if i < k then Some (data (?T ! i)) else None | None \<Rightarrow> None)"
      using nth len by auto
    have "valid (?T ! k) \<and> sector (?T ! k) = n \<longleftrightarrow> cache_index ?T n = Some k"
      using cache_index_unique [OF ok, of k n] cache_index_SomeD [of ?T n k] Suc.prems by auto
    then show ?case using same_cache_trans [OF s1 s2(1)] f s2(2)
      by (auto simp: foldE_append less_Suc_eq split: option.splits)
  qed (auto split: option.splits)
  from this [of CacheSize] show ?thesis
    using that cache_index_SomeD [of ?T n] by (auto simp: read_pass_def map_option_case split: option.splits)
qed

text \<open>The effect of a write hit on entry \<open>i\<close>, up to time stamps.\<close>

definition put_entry :: "nat \<Rightarrow> byte list \<Rightarrow> SynchDisk \<Rightarrow> SynchDisk" where
  "put_entry i bs = upd_entry i (\<lambda>e. e\<lparr>data := bs, dirty := True\<rparr>)"

lemma put_entry_simps [simp]:
  "disk (put_entry i bs s) = disk s" "others (put_entry i bs s) = others s" "stats (put_entry i bs s) = stats s"
  "lock_mutex (put_entry i bs s) = lock_mutex s"
  "CacheTable (put_entry i bs s) = (CacheTable s)[i := (CacheTable s ! i)\<lparr>data := bs, dirty := True\<rparr>]"
  by (simp_all add: put_entry_def upd_entry_def others_def)

lemma put_entry_same:
  assumes "same_cache s s'" "i < length (CacheTable s)"
  shows "same_cache (put_entry i bs s) (put_entry i bs s')"
proof -
  let ?f = "\<lambda>e. e\<lparr>data := bs, dirty := True\<rparr>"
  have eq: "map strip (CacheTable s') = map strip (CacheTable s)" using assms(1) by (simp add: same_cache_def)
  then have len: "length (CacheTable s') = length (CacheTable s)" by (rule map_eq_imp_length_eq)
  then have "strip (CacheTable s' ! i) = strip (CacheTable s ! i)" using eq assms(2) by (metis nth_map)
  moreover have "strip (?f e) = ?f (strip e)" for e :: CacheEntry by (simp add: strip_def)
  ultimately have "strip (?f (CacheTable s' ! i)) = strip (?f (CacheTable s ! i))" by metis
  with eq assms(1) show ?thesis by (simp add: same_cache_def map_update)
qed

lemma write_probe_same:
  assumes "lock_mutex s = 1" "i < length (CacheTable s)"
  shows "\<exists>s'. write_probe n bs i (s, hit) =
      Inr (s', hit \<or> valid (CacheTable s ! i) \<and> sector (CacheTable s ! i) = n) \<and>
    same_cache (if valid (CacheTable s ! i) \<and> sector (CacheTable s ! i) = n
                then put_entry i (take 128 bs) s else s) s'"
  using assms
  by (auto simp: write_probe_def lock_Acquire_def lock_Release_def sem_P_def sem_V_def tick_def upd_entry_def
      same_cache_def others_def Let_def map_update strip_def put_entry_def)

definition written :: "nat option \<Rightarrow> nat \<Rightarrow> byte list \<Rightarrow> SynchDisk \<Rightarrow> SynchDisk" where
  "written oi k bs s = (case oi of Some i \<Rightarrow> if i < k then put_entry i bs s else s | None \<Rightarrow> s)"

lemma written_facts:
  "lock_mutex (written oi k bs s) = lock_mutex s" "length (CacheTable (written oi k bs s)) = length (CacheTable s)"
  "valid (CacheTable (written oi k bs s) ! j) = valid (CacheTable s ! j)"
  "sector (CacheTable (written oi k bs s) ! j) = sector (CacheTable s ! j)"
proof -
  have "valid (t[i := (t ! i)\<lparr>data := bs, dirty := True\<rparr>] ! j) = valid (t ! j) \<and>
    sector (t[i := (t ! i)\<lparr>data := bs, dirty := True\<rparr>] ! j) = sector (t ! j)" for t :: "CacheEntry list" and i
    by (cases "i < length t") (auto simp: nth_list_update list_update_beyond)
  then show "lock_mutex (written oi k bs s) = lock_mutex s"
    "length (CacheTable (written oi k bs s)) = length (CacheTable s)"
    "valid (CacheTable (written oi k bs s) ! j) = valid (CacheTable s ! j)"
    "sector (CacheTable (written oi k bs s) ! j) = sector (CacheTable s ! j)"
    by (auto simp: written_def split: option.splits)
qed

lemma write_pass_index:
  assumes "wf_sd s"
  obtains s' where "same_cache (written (cache_index (CacheTable s) n) CacheSize (take 128 bs) s) s'"
    "write_pass n bs s = Inr (s', cache_index (CacheTable s) n \<noteq> None)"
proof -
  let ?ci = "cache_index (CacheTable s) n"
  have len: "length (CacheTable s) = CacheSize" and mtx: "lock_mutex s = 1" and ok: "cache_ok (disk s) (CacheTable s)"
    using assms by (auto simp: wf_sd_def cache_ok_def)
  have "\<exists>s'. same_cache (written ?ci k (take 128 bs) s) s' \<and> foldE (write_probe n bs) [0..<k] (s, False) =
      Inr (s', \<exists>i. ?ci = Some i \<and> i < k)" if "k \<le> CacheSize" for k
    using that
  proof (induction k)
    case 0
    then show ?case by (auto simp: written_def split: option.splits)
  next
    case (Suc k)
    let ?w = "written ?ci k (take 128 bs) s"
    from Suc obtain s1 where s1: "same_cache ?w s1"
      and f: "foldE (write_probe n bs) [0..<k] (s, False) = Inr (s1, \<exists>i. ?ci = Some i \<and> i < k)" by auto
    have T1: "map strip (CacheTable s1) = map strip (CacheTable ?w)" "lock_mutex s1 = 1"
      using s1 mtx by (auto simp: same_cache_def others_def written_facts)
    then have len1: "length (CacheTable s1) = CacheSize" using len map_eq_imp_length_eq written_facts(2) by metis
    have k: "k < length (CacheTable ?w)" using Suc.prems len by (simp add: written_facts)
    have hit: "valid (CacheTable s1 ! k) \<and> sector (CacheTable s1 ! k) = n \<longleftrightarrow> ?ci = Some k"
      unfolding same_strip_nth(1,3) [OF T1(1) k] written_facts
      using Suc.prems cache_index_unique [OF ok, of k n] cache_index_SomeD [of "CacheTable s" n k] by auto
    have "k < length (CacheTable s1)" using len1 Suc.prems by simp
    from write_probe_same [OF T1(2) this, of n bs "\<exists>i. ?ci = Some i \<and> i < k", unfolded hit]
    obtain s2 where s2: "write_probe n bs k (s1, \<exists>i. ?ci = Some i \<and> i < k) =
        Inr (s2, (\<exists>i. ?ci = Some i \<and> i < k) \<or> ?ci = Some k)"
      "same_cache (if ?ci = Some k then put_entry k (take 128 bs) s1 else s1) s2" by blast
    have "same_cache (written ?ci (Suc k) (take 128 bs) s) s2"
    proof (cases "?ci = Some k")
      case True
      then have "?w = s" "written ?ci (Suc k) (take 128 bs) s = put_entry k (take 128 bs) s"
        by (simp_all add: written_def)
      with s1 s2(2) True show ?thesis
        using put_entry_same [of s s1 k "take 128 bs"] len Suc.prems same_cache_trans by auto
    next
      case False
      then have "written ?ci (Suc k) (take 128 bs) s = ?w"
        by (auto simp: written_def less_Suc_eq split: option.splits)
      with s1 s2(2) False show ?thesis by (auto intro: same_cache_trans)
    qed
    with f s2(1) show ?case by (auto simp: foldE_append less_Suc_eq)
  qed
  then obtain s' where "same_cache (written ?ci CacheSize (take 128 bs) s) s'"
    "foldE (write_probe n bs) [0..<CacheSize] (s, False) = Inr (s', \<exists>i. ?ci = Some i \<and> i < CacheSize)" by blast
  moreover have "(\<exists>i. ?ci = Some i \<and> i < CacheSize) \<longleftrightarrow> ?ci \<noteq> None"
    by (auto dest: cache_index_SomeD)
  ultimately show ?thesis using that unfolding write_pass_def by presburger
qed

section \<open>A miss\<close>

lemma evict_loop_bound:
  "set is \<subseteq> {..<CacheSize} \<Longrightarrow> evict < CacheSize \<Longrightarrow> evict_loop tab is evict < CacheSize"
  by (induction "is" arbitrary: evict) auto

lemma content_cached:
  "cache_ok d (CacheTable s) \<Longrightarrow> i < CacheSize \<Longrightarrow> valid (CacheTable s ! i) \<Longrightarrow> sector (CacheTable s ! i) = n \<Longrightarrow>
    content s n = data (CacheTable s ! i)"
  by (simp add: content_def cache_index_unique)

lemma content_uncached:
  assumes "\<And>i. i < CacheSize \<Longrightarrow> valid (CacheTable s ! i) \<Longrightarrow> sector (CacheTable s ! i) \<noteq> n"
  shows "content s n = sector_data (disk s) n"
proof -
  have "cache_index (CacheTable s) n = None" using assms by (auto simp: cache_index_def find_None_iff)
  then show ?thesis by (simp add: content_def)
qed

lemma semaphore_wait_due:
  assumes "semaphore s = 0" "due (disk s) = Some w"
  obtains s' where "semaphore_wait s = Inr s'" "disk s' = HandleInterrupt (disk s)"
    "CacheTable s' = CacheTable s" "others s' = others s" "lock_OwnerId s' = lock_OwnerId s"
    "totalTicks (stats s) \<le> totalTicks (stats s')"
  using assms that
  by (simp add: semaphore_wait_def RequestDone_def sem_V_def sem_P_def tick_def others_def Let_def)

text \<open>Acquiring the free lock, and releasing it at the end of a critical section.\<close>

lemma lock_Acquire_free:
  assumes "lock_mutex s = 1"
  obtains s' where "lock_Acquire s = Inr s'" "disk s' = disk s" "CacheTable s' = CacheTable s"
    "others s' = others (s\<lparr>lock_mutex := 0\<rparr>)" "lock_OwnerId s' = tid s" "totalTicks (stats s) \<le> totalTicks (stats s')"
  using assms that by (simp add: lock_Acquire_def sem_P_def tick_def others_def)

lemma lock_Release_held:
  assumes "lock_mutex s = 0" "lock_OwnerId s = tid s"
  obtains s' where "lock_Release s = Inr s'" "disk s' = disk s" "CacheTable s' = CacheTable s"
    "others s' = others (s\<lparr>lock_mutex := 1\<rparr>)" "totalTicks (stats s) \<le> totalTicks (stats s')"
  using assms that by (simp add: lock_Release_def sem_V_def tick_def others_def)

lemma wf_sdD:
  assumes "wf_sd s"
  shows "wf_disk (disk s)" "\<not> active (disk s)" "0 \<le> totalTicks (stats s)" "semaphore s = 0" "lock_mutex s = 1"
    "cache_ok (disk s) (CacheTable s)" "length (CacheTable s) = CacheSize"
  using assms by (auto simp: wf_sd_def cache_ok_def)

lemma CacheMiss_flush_dirty:
  assumes wf: "wf_sd s" and k: "k < CacheSize" "valid (CacheTable s ! k)" "dirty (CacheTable s ! k)"
  obtains s' d where "CacheMiss_flush s k = Inr s'" "others s' = others s"
    "totalTicks (stats s) \<le> totalTicks (stats s')" "disk s' = d" "wf_disk d" "\<not> active d"
    "\<And>m. valid_sector m \<Longrightarrow> sector_data d m =
      (if m = sector (CacheTable s ! k) then data (CacheTable s ! k) else sector_data (disk s) m)"
    "CacheTable s' = (CacheTable s)[k := (CacheTable s ! k)\<lparr>dirty := False, valid := False\<rparr>]"
proof -
  note w = wf_sdD [OF wf]
  obtain s1 where s1: "lock_Acquire s = Inr s1" "disk s1 = disk s" "CacheTable s1 = CacheTable s"
    "others s1 = others (s\<lparr>lock_mutex := 0\<rparr>)" "lock_OwnerId s1 = tid s" "totalTicks (stats s) \<le> totalTicks (stats s1)"
    using lock_Acquire_free [OF w(5)] by blast
  have e: "valid_sector (sector (CacheTable s ! k))" "length (data (CacheTable s ! k)) = 128"
    using w(6) k by (auto simp: cache_ok_def)
  have pre: "wf_disk (disk s1)" "\<not> active (disk s1)" "0 \<le> totalTicks (stats s1)" using w s1 by auto
  obtain d1 where d1: "WriteRequest (disk s1) (stats s1) (sector (CacheTable s ! k)) (data (CacheTable s ! k)) =
      Inr (d1, (stats s1)\<lparr>numDiskWrites := numDiskWrites (stats s1) + 1\<rparr>)" "wf_disk d1"
    "due d1 = Some (totalTicks (stats s1) + ComputeLatency (disk s1) (stats s1) (sector (CacheTable s ! k)) True)"
    "\<And>m. valid_sector m \<Longrightarrow> sector_data d1 m =
      (if m = sector (CacheTable s ! k) then data (CacheTable s ! k) else sector_data (disk s1) m)"
    using WriteRequest_valid [OF pre e] by blast
  define s2 where "s2 = s1\<lparr>disk := d1, stats := (stats s1)\<lparr>numDiskWrites := numDiskWrites (stats s1) + 1\<rparr>\<rparr>"
  have r2: "semaphore s2 = 0" "due (disk s2) = Some (totalTicks (stats s1) +
      ComputeLatency (disk s1) (stats s1) (sector (CacheTable s ! k)) True)"
    using s1(4) w(4) d1(3) by (auto simp: s2_def others_def)
  obtain s3 where w3: "semaphore_wait s2 = Inr s3" "disk s3 = HandleInterrupt (disk s2)"
    "CacheTable s3 = CacheTable s2" "others s3 = others s2" "lock_OwnerId s3 = lock_OwnerId s2"
    "totalTicks (stats s2) \<le> totalTicks (stats s3)" using semaphore_wait_due [OF r2] by blast
  then have s3: "disk s3 = HandleInterrupt d1" "CacheTable s3 = CacheTable s" "others s3 = others s1"
    "lock_OwnerId s3 = tid s" "totalTicks (stats s) \<le> totalTicks (stats s3)"
    using s1 by (simp_all add: s2_def others_def)
  define s4 where "s4 = upd_entry k (\<lambda>e. e\<lparr>dirty := False, valid := False\<rparr>) s3"
  have l4: "lock_mutex s4 = 0" "lock_OwnerId s4 = tid s4" using s3 s1(4) by (auto simp: s4_def upd_entry_def others_def)
  obtain s5 where s5: "lock_Release s4 = Inr s5" "disk s5 = disk s4" "CacheTable s5 = CacheTable s4"
    "others s5 = others (s4\<lparr>lock_mutex := 1\<rparr>)" "totalTicks (stats s4) \<le> totalTicks (stats s5)"
    using lock_Release_held [OF l4] by blast
  have "CacheMiss_flush s k = Inr s5"
    using k s1 d1(1) w3(1) s5(1) by (simp add: CacheMiss_flush_def s2_def s4_def)
  moreover have "others s5 = others s" using s5(4) s3(3) s1(4) w(5) by (auto simp: s4_def upd_entry_def others_def)
  moreover have "totalTicks (stats s) \<le> totalTicks (stats s5)" "disk s5 = HandleInterrupt d1"
    "CacheTable s5 = (CacheTable s)[k := (CacheTable s ! k)\<lparr>dirty := False, valid := False\<rparr>]"
    using s5 s3 by (simp_all add: s4_def upd_entry_def)
  ultimately show ?thesis using that [of s5 "HandleInterrupt d1"] d1(2,4) s1(2) by simp
qed

lemma cache_ok_invalidate:
  assumes ok: "cache_ok d tab" and k: "k < CacheSize" "valid (tab ! k)"
    and d': "\<And>m. valid_sector m \<Longrightarrow> m \<noteq> sector (tab ! k) \<Longrightarrow> sector_data d' m = sector_data d m"
  shows "cache_ok d' (tab[k := (tab ! k)\<lparr>dirty := False, valid := False\<rparr>])"
proof -
  have "sector (tab ! i) \<noteq> sector (tab ! k)" if "i < CacheSize" "i \<noteq> k" "valid (tab ! i)" for i
    using ok k that by (auto simp: cache_ok_def)
  with ok k d' show ?thesis by (simp add: cache_ok_def nth_list_update)
qed

text \<open>\<open>keeps s s'\<close>: the operation left the contents of every sector and the rest of the state alone.\<close>

definition keeps :: "SynchDisk \<Rightarrow> SynchDisk \<Rightarrow> bool" where
  "keeps s s' \<longleftrightarrow> wf_sd s' \<and> others s' = others s \<and> (\<forall>m. valid_sector m \<longrightarrow> content s' m = content s m)"

lemma keeps_trans: "keeps s t \<Longrightarrow> keeps t u \<Longrightarrow> keeps s u"
  by (simp add: keeps_def)

lemma CacheMiss_flush_keeps:
  assumes wf: "wf_sd s" and k: "k < CacheSize"
  obtains s' where "CacheMiss_flush s k = Inr s'" "keeps s s'"
    "\<not> (valid (CacheTable s' ! k) \<and> dirty (CacheTable s' ! k))"
    "\<And>i. i < CacheSize \<Longrightarrow> valid (CacheTable s' ! i) \<Longrightarrow> valid (CacheTable s ! i) \<and> sector (CacheTable s' ! i) = sector (CacheTable s ! i)"
proof (cases "valid (CacheTable s ! k) \<and> dirty (CacheTable s ! k)")
  case False
  then have "CacheMiss_flush s k = Inr s" unfolding CacheMiss_flush_def by (rule if_not_P)
  then show ?thesis using that [of s] False wf by (simp add: keeps_def)
next
  case True
  let ?T = "CacheTable s"
  note w = wf_sdD [OF wf]
  from True obtain s' d where s': "CacheMiss_flush s k = Inr s'" "others s' = others s"
    "totalTicks (stats s) \<le> totalTicks (stats s')" "disk s' = d" "wf_disk d" "\<not> active d"
    "\<And>m. valid_sector m \<Longrightarrow> sector_data d m = (if m = sector (?T ! k) then data (?T ! k) else sector_data (disk s) m)"
    "CacheTable s' = ?T[k := (?T ! k)\<lparr>dirty := False, valid := False\<rparr>]"
    using CacheMiss_flush_dirty [OF wf k] by blast
  have ok': "cache_ok d (CacheTable s')"
    unfolding s'(8) using True s'(7) by (intro cache_ok_invalidate [OF w(6) k]) auto
  have nth: "CacheTable s' ! i = (if i = k then (?T ! k)\<lparr>dirty := False, valid := False\<rparr> else ?T ! i)" for i
    using s'(8) k w(7) by (cases "i = k") auto
  have "content s' m = content s m" if "valid_sector m" for m
  proof (cases "\<exists>i < CacheSize. i \<noteq> k \<and> valid (?T ! i) \<and> sector (?T ! i) = m")
    case True
    then show ?thesis using content_cached [of d s'] content_cached [OF w(6)] ok' s'(4) by (auto simp: nth)
  next
    case False
    then have "content s' m = sector_data (disk s') m" by (intro content_uncached) (auto simp: nth split: if_splits)
    then have "content s' m = sector_data d m" using s'(4) by simp
    moreover have "content s m = sector_data (disk s) m" if "m \<noteq> sector (?T ! k)"
      using False that by (intro content_uncached) auto
    ultimately show ?thesis using s'(7) [OF that] content_cached [OF w(6) k] True by auto
  qed
  then have "keeps s s'" using s' ok' w by (auto simp: keeps_def wf_sd_def others_def)
  then show ?thesis by (rule that [OF s'(1)]) (auto simp: nth split: if_splits)
qed

lemma CacheMiss_fill_steps:
  assumes wf: "wf_sd s" and k: "k < CacheSize" and n: "valid_sector n"
  obtains s' d l where "CacheMiss_fill s k n = Inr s'" "others s' = others s"
    "totalTicks (stats s) \<le> totalTicks (stats s')" "disk s' = d" "wf_disk d" "\<not> active d"
    "sector_data d = sector_data (disk s)"
    "CacheTable s' = (CacheTable s)[k := (CacheTable s ! k)\<lparr>data := sector_data (disk s) n, dirty := False,
       valid := True, lru := l, sector := n\<rparr>]"
proof -
  note w = wf_sdD [OF wf]
  obtain s1 where s1: "lock_Acquire s = Inr s1" "disk s1 = disk s" "CacheTable s1 = CacheTable s"
    "others s1 = others (s\<lparr>lock_mutex := 0\<rparr>)" "lock_OwnerId s1 = tid s" "totalTicks (stats s) \<le> totalTicks (stats s1)"
    using lock_Acquire_free [OF w(5)] by blast
  have pre: "wf_disk (disk s1)" "\<not> active (disk s1)" "0 \<le> totalTicks (stats s1)" using w s1 by auto
  obtain d1 where d1: "ReadRequest (disk s1) (stats s1) n =
      Inr (sector_data (disk s1) n, d1, (stats s1)\<lparr>numDiskReads := numDiskReads (stats s1) + 1\<rparr>)" "wf_disk d1"
    "disk_image d1 = disk_image (disk s1)"
    "due d1 = Some (totalTicks (stats s1) + ComputeLatency (disk s1) (stats s1) n False)"
    using ReadRequest_valid [OF pre n] by blast
  define s2 where "s2 = upd_entry k (\<lambda>e. e\<lparr>data := sector_data (disk s1) n\<rparr>)
    (s1\<lparr>disk := d1, stats := (stats s1)\<lparr>numDiskReads := numDiskReads (stats s1) + 1\<rparr>\<rparr>)"
  have r2: "semaphore s2 = 0" "due (disk s2) = Some (totalTicks (stats s1) + ComputeLatency (disk s1) (stats s1) n False)"
    using s1(4) w(4) d1(4) by (auto simp: s2_def upd_entry_def others_def)
  obtain s3 where w3: "semaphore_wait s2 = Inr s3" "disk s3 = HandleInterrupt (disk s2)"
    "CacheTable s3 = CacheTable s2" "others s3 = others s2" "lock_OwnerId s3 = lock_OwnerId s2"
    "totalTicks (stats s2) \<le> totalTicks (stats s3)" using semaphore_wait_due [OF r2] by blast
  then have s3: "disk s3 = HandleInterrupt d1" "others s3 = others s1" "lock_OwnerId s3 = tid s"
    "CacheTable s3 = (CacheTable s)[k := (CacheTable s ! k)\<lparr>data := sector_data (disk s) n\<rparr>]"
    "totalTicks (stats s) \<le> totalTicks (stats s3)"
    using s1 by (simp_all add: s2_def upd_entry_def others_def)
  define s4 where "s4 = upd_entry k (\<lambda>e. e\<lparr>dirty := False, valid := True, lru := totalTicks (stats s3), sector := n\<rparr>) s3"
  have l4: "lock_mutex s4 = 0" "lock_OwnerId s4 = tid s4" using s3 s1(4) by (auto simp: s4_def upd_entry_def others_def)
  obtain s5 where s5: "lock_Release s4 = Inr s5" "disk s5 = disk s4" "CacheTable s5 = CacheTable s4"
    "others s5 = others (s4\<lparr>lock_mutex := 1\<rparr>)" "totalTicks (stats s4) \<le> totalTicks (stats s5)"
    using lock_Release_held [OF l4] by blast
  have "CacheMiss_fill s k n = Inr s5"
    using s1(1) d1(1) w3(1) s5(1) by (simp add: CacheMiss_fill_def s2_def s4_def)
  moreover have "others s5 = others s" using s5(4) s3(2) s1(4) w(5) by (auto simp: s4_def upd_entry_def others_def)
  moreover have "totalTicks (stats s) \<le> totalTicks (stats s5)" "disk s5 = HandleInterrupt d1"
    "CacheTable s5 = (CacheTable s)[k := (CacheTable s ! k)\<lparr>data := sector_data (disk s) n, dirty := False,
       valid := True, lru := totalTicks (stats s3), sector := n\<rparr>]"
    using s5 s3 k w(7) by (simp_all add: s4_def upd_entry_def)
  moreover have "sector_data d1 = sector_data (disk s)" using d1(3) s1(2) by (simp add: sector_data_def fun_eq_iff)
  ultimately show ?thesis using that [of s5 "HandleInterrupt d1"] d1(2) by simp
qed

lemma CacheMiss_fill_keeps:
  assumes wf: "wf_sd s" and k: "k < CacheSize" and n: "valid_sector n"
    and miss: "\<And>i. i < CacheSize \<Longrightarrow> valid (CacheTable s ! i) \<Longrightarrow> sector (CacheTable s ! i) \<noteq> n"
    and clean: "\<not> (valid (CacheTable s ! k) \<and> dirty (CacheTable s ! k))"
  obtains s' where "CacheMiss_fill s k n = Inr s'" "keeps s s'" "cache_index (CacheTable s') n = Some k"
proof -
  let ?T = "CacheTable s"
  note w = wf_sdD [OF wf]
  obtain s' d l where s': "CacheMiss_fill s k n = Inr s'" "others s' = others s"
    "totalTicks (stats s) \<le> totalTicks (stats s')" "disk s' = d" "wf_disk d" "\<not> active d"
    "sector_data d = sector_data (disk s)"
    "CacheTable s' = ?T[k := (?T ! k)\<lparr>data := sector_data (disk s) n, dirty := False, valid := True, lru := l, sector := n\<rparr>]"
    using CacheMiss_fill_steps [OF wf k n] by blast
  let ?e = "(?T ! k)\<lparr>data := sector_data (disk s) n, dirty := False, valid := True, lru := l, sector := n\<rparr>"
  have nth: "CacheTable s' ! i = (if i = k then ?e else ?T ! i)" for i
    using s'(8) k w(7) by (cases "i = k") auto
  have "length (CacheTable s') = CacheSize" using s'(8) w(7) by simp
  moreover have "valid_sector (sector (CacheTable s' ! i)) \<and> length (data (CacheTable s' ! i)) = 128 \<and>
      (\<not> dirty (CacheTable s' ! i) \<longrightarrow> data (CacheTable s' ! i) = sector_data d (sector (CacheTable s' ! i)))"
    if "i < CacheSize" "valid (CacheTable s' ! i)" for i
    using that w(1,6) n s'(7) by (auto simp: nth cache_ok_def split: if_splits)
  moreover have "i = j" if "i < CacheSize" "j < CacheSize" "valid (CacheTable s' ! i)" "valid (CacheTable s' ! j)"
      "sector (CacheTable s' ! i) = sector (CacheTable s' ! j)" for i j
    using that miss [of i] miss [of j] w(6) by (auto simp: nth cache_ok_def split: if_splits)
  ultimately have ok': "cache_ok d (CacheTable s')" by (simp add: cache_ok_def)
  have "content s' m = content s m" if "valid_sector m" for m
  proof (cases "\<exists>i < CacheSize. i \<noteq> k \<and> valid (?T ! i) \<and> sector (?T ! i) = m")
    case True
    then obtain i where i: "i < CacheSize" "i \<noteq> k" "valid (?T ! i)" "sector (?T ! i) = m" by blast
    then show ?thesis
      using content_cached [OF ok', of i m] content_cached [OF w(6), of i m] by (simp add: nth)
  next
    case False
    show ?thesis
    proof (cases "m = n")
      case True
      then show ?thesis using content_cached [OF ok' k, of n] content_uncached [of s n] miss by (simp add: nth)
    next
      case m: False
      have "content s' m = sector_data (disk s') m"
        using False m by (intro content_uncached) (auto simp: nth split: if_splits)
      moreover have "content s m = sector_data (disk s) m"
      proof (cases "valid (?T ! k) \<and> sector (?T ! k) = m")
        case True
        then show ?thesis using content_cached [OF w(6) k, of m] clean w(6) k by (simp add: cache_ok_def)
      next
        case mk: False
        with False show ?thesis by (intro content_uncached) metis
      qed
      ultimately show ?thesis using s'(4,7) by simp
    qed
  qed
  then have "keeps s s'" using s' ok' w by (simp add: keeps_def wf_sd_def others_def)
  moreover have "cache_index (CacheTable s') n = Some k" using cache_index_unique [OF ok' k] by (simp add: nth)
  ultimately show ?thesis using that s'(1) by blast
qed

lemma CacheMiss_keeps:
  assumes wf: "wf_sd s" and n: "valid_sector n" and miss: "cache_index (CacheTable s) n = None"
  obtains s' k where "CacheMiss s n = Inr s'" "keeps s s'" "cache_index (CacheTable s') n = Some k"
proof -
  define k where "k = evict_loop (CacheTable s) [0..<CacheSize] 0"
  have k: "k < CacheSize" unfolding k_def by (rule evict_loop_bound) auto
  obtain s1 where s1: "CacheMiss_flush s k = Inr s1" "keeps s s1"
    "\<not> (valid (CacheTable s1 ! k) \<and> dirty (CacheTable s1 ! k))"
    "\<And>i. i < CacheSize \<Longrightarrow> valid (CacheTable s1 ! i) \<Longrightarrow> valid (CacheTable s ! i) \<and> sector (CacheTable s1 ! i) = sector (CacheTable s ! i)"
    using CacheMiss_flush_keeps [OF wf k] by blast
  have "wf_sd s1" using s1(2) by (simp add: keeps_def)
  moreover have "sector (CacheTable s1 ! i) \<noteq> n" if "i < CacheSize" "valid (CacheTable s1 ! i)" for i
    using s1(4) [OF that] cache_index_NoneD [OF miss that(1)] by simp
  ultimately obtain s2 where s2: "CacheMiss_fill s1 k n = Inr s2" "keeps s1 s2" "cache_index (CacheTable s2) n = Some k"
    using CacheMiss_fill_keeps [OF _ k n _ s1(3)] by blast
  have "CacheMiss s n = Inr s2" using s1(1) s2(1) by (simp add: CacheMiss_def k_def [symmetric] Let_def)
  then show ?thesis using that s2(3) keeps_trans [OF s1(2) s2(2)] by blast
qed

lemma CacheMiss_invalid:
  assumes wf: "wf_sd s" and n: "\<not> valid_sector n"
  shows "CacheMiss s n = Inl AssertFailed"
proof -
  define k where "k = evict_loop (CacheTable s) [0..<CacheSize] 0"
  have k: "k < CacheSize" unfolding k_def by (rule evict_loop_bound) auto
  obtain s1 where s1: "CacheMiss_flush s k = Inr s1" "keeps s s1" using CacheMiss_flush_keeps [OF wf k] by blast
  then have "lock_mutex s1 = 1" by (simp add: keeps_def wf_sd_def)
  then show ?thesis using s1 Request_invalid [OF n]
    by (simp add: CacheMiss_def k_def [symmetric] Let_def CacheMiss_fill_def lock_Acquire_def sem_P_def)
qed

section \<open>Reading and writing sectors\<close>

lemma same_cache_keeps: "same_cache s s' \<Longrightarrow> wf_sd s \<Longrightarrow> keeps s s'"
  using wf_sd_cong [of s s'] content_cong [of s s'] wf_sdD(7) [of s] by (simp add: keeps_def same_cache_def)

lemma ReadSector_reads:
  assumes wf: "wf_sd s" and n: "valid_sector n"
  obtains s' where "ReadSector s n = Inr (s', content s n)" "keeps s s'"
proof -
  obtain s1 where s1: "same_cache s s1"
    "read_pass n s = Inr (s1, map_option (\<lambda>i. data (CacheTable s ! i)) (cache_index (CacheTable s) n))"
    using read_pass_index [OF wf] by blast
  have k1: "keeps s s1" using same_cache_keeps [OF s1(1) wf] .
  show ?thesis
  proof (cases "cache_index (CacheTable s) n")
    case (Some i)
    then have "ReadSector s n = Inr (s1, content s n)" using s1(2) by (simp add: ReadSector_def content_def)
    then show ?thesis using that k1 by blast
  next
    case None
    have wf1: "wf_sd s1" using k1 by (simp add: keeps_def)
    have "cache_index (CacheTable s1) n = None"
      using None cache_index_cong [of "CacheTable s1" "CacheTable s" n] s1(1) wf_sdD(7) [OF wf]
      by (simp add: same_cache_def)
    then obtain s2 k where s2: "CacheMiss s1 n = Inr s2" "keeps s1 s2" "cache_index (CacheTable s2) n = Some k"
      using CacheMiss_keeps [OF wf1 n] by blast
    have wf2: "wf_sd s2" using s2 by (simp add: keeps_def)
    obtain s3 where s3: "same_cache s2 s3"
      "read_pass n s2 = Inr (s3, map_option (\<lambda>i. data (CacheTable s2 ! i)) (cache_index (CacheTable s2) n))"
      using read_pass_index [OF wf2] by blast
    have "data (CacheTable s2 ! k) = content s2 n" using s2(3) by (simp add: content_def)
    also have "content s2 n = content s n" using s2(2) k1 n by (simp add: keeps_def)
    finally have c: "data (CacheTable s2 ! k) = content s n" .
    have "keeps s s3" using keeps_trans k1 s2(2) same_cache_keeps [OF s3(1) wf2] by blast
    moreover have "ReadSector s n = Inr (s3, content s n)"
      using None s1(2) s2(1,3) s3(2) c by (simp add: ReadSector_def)
    ultimately show ?thesis using that by blast
  qed
qed

definition stores :: "SynchDisk \<Rightarrow> int \<Rightarrow> byte list \<Rightarrow> SynchDisk \<Rightarrow> bool" where
  "stores s n bs s' \<longleftrightarrow> wf_sd s' \<and> others s' = others s \<and>
     (\<forall>m. valid_sector m \<longrightarrow> content s' m = (if m = n then bs else content s m))"

lemma put_entry_stores:
  assumes wf: "wf_sd s" and k: "cache_index (CacheTable s) n = Some k" and bs: "length bs = 128"
  shows "stores s n bs (put_entry k bs s)"
proof -
  note put_entry_simps(5) [simp del]
  let ?T = "CacheTable s" and ?p = "put_entry k bs s"
  note w = wf_sdD [OF wf]
  have k': "k < CacheSize" "valid (?T ! k)" "sector (?T ! k) = n" using cache_index_SomeD [OF k] by auto
  have nth: "CacheTable ?p ! i = (if i = k then (?T ! k)\<lparr>data := bs, dirty := True\<rparr> else ?T ! i)" for i
    using k' w(7) by (cases "i = k") (auto simp: put_entry_simps(5))
  have "length (CacheTable ?p) = CacheSize" using w(7) by (simp add: put_entry_simps(5))
  then have ok: "cache_ok (disk s) (CacheTable ?p)"
    using w(6) k' bs unfolding cache_ok_def nth by auto
  have "content ?p m = (if m = n then bs else content s m)" for m
  proof (cases "\<exists>i < CacheSize. valid (?T ! i) \<and> sector (?T ! i) = m")
    case True
    then obtain i where i: "i < CacheSize" "valid (?T ! i)" "sector (?T ! i) = m" by blast
    then have "i = k \<longleftrightarrow> m = n" using w(6) k' by (auto simp: cache_ok_def)
    with i k' show ?thesis
      using content_cached [OF ok, of i m] content_cached [OF w(6), of i m] by (cases "m = n") (simp_all add: nth)
  next
    case False
    then have "m \<noteq> n" using k' by blast
    moreover have "content ?p m = sector_data (disk ?p) m" using False k'
      by (intro content_uncached) (auto simp: nth split: if_splits)
    moreover have "content s m = sector_data (disk s) m" using False by (intro content_uncached) auto
    ultimately show ?thesis by simp
  qed
  moreover have "semaphore ?p = semaphore s" by (simp add: put_entry_def upd_entry_def)
  then have "wf_sd ?p" using w ok by (simp add: wf_sd_def)
  ultimately show ?thesis by (simp add: stores_def)
qed

lemma stores_keeps: "stores s n bs t \<Longrightarrow> keeps t u \<Longrightarrow> stores s n bs u"
  by (simp add: stores_def keeps_def)

lemma keeps_stores: "keeps s t \<Longrightarrow> stores t n bs u \<Longrightarrow> stores s n bs u"
  by (simp add: stores_def keeps_def)

lemma write_pass_stores:
  assumes wf: "wf_sd s" and k: "cache_index (CacheTable s) n = Some k" and bs: "length bs = 128"
  obtains s' where "write_pass n bs s = Inr (s', True)" "stores s n bs s'"
proof -
  obtain s' where s': "same_cache (written (cache_index (CacheTable s) n) CacheSize (take 128 bs) s) s'"
    "write_pass n bs s = Inr (s', cache_index (CacheTable s) n \<noteq> None)" using write_pass_index [OF wf] by blast
  then have s'': "same_cache (put_entry k bs s) s'" "write_pass n bs s = Inr (s', True)"
    using k cache_index_SomeD [OF k] bs by (simp_all add: written_def)
  have p: "stores s n bs (put_entry k bs s)" by (rule put_entry_stores [OF wf k bs])
  then have "keeps (put_entry k bs s) s'" using same_cache_keeps [OF s''(1)] by (simp add: stores_def)
  then show ?thesis using that [OF s''(2) stores_keeps [OF p]] by blast
qed

lemma WriteSector_writes:
  assumes wf: "wf_sd s" and n: "valid_sector n" and bs: "length bs = 128"
  obtains s' where "WriteSector s n bs = Inr s'" "stores s n bs s'"
proof (cases "cache_index (CacheTable s) n")
  case (Some k)
  obtain s' where "write_pass n bs s = Inr (s', True)" "stores s n bs s'"
    using write_pass_stores [OF wf Some bs] by blast
  then show ?thesis using that by (simp add: WriteSector_def)
next
  case None
  obtain s1 where "same_cache (written (cache_index (CacheTable s) n) CacheSize (take 128 bs) s) s1"
    "write_pass n bs s = Inr (s1, cache_index (CacheTable s) n \<noteq> None)" using write_pass_index [OF wf] by blast
  then have s1: "same_cache s s1" "write_pass n bs s = Inr (s1, False)" using None by (simp_all add: written_def)
  have k1: "keeps s s1" using same_cache_keeps [OF s1(1) wf] .
  then have wf1: "wf_sd s1" by (simp add: keeps_def)
  have "cache_index (CacheTable s1) n = None"
    using None cache_index_cong [of "CacheTable s1" "CacheTable s" n] s1(1) wf_sdD(7) [OF wf]
    by (simp add: same_cache_def)
  then obtain s2 k where s2: "CacheMiss s1 n = Inr s2" "keeps s1 s2" "cache_index (CacheTable s2) n = Some k"
    using CacheMiss_keeps [OF wf1 n] by blast
  have wf2: "wf_sd s2" using s2 by (simp add: keeps_def)
  obtain s3 where s3: "write_pass n bs s2 = Inr (s3, True)" "stores s2 n bs s3"
    using write_pass_stores [OF wf2 s2(3) bs] by blast
  have "WriteSector s n bs = Inr s3" using s1(2) s2(1) s3(1) by (simp add: WriteSector_def)
  moreover have "stores s n bs s3" using keeps_stores keeps_trans k1 s2(2) s3(2) by blast
  ultimately show ?thesis using that by blast
qed

lemma Sector_invalid:
  assumes wf: "wf_sd s" and n: "\<not> valid_sector n"
  shows "ReadSector s n = Inl AssertFailed" "WriteSector s n bs = Inl AssertFailed"
proof -
  have None: "cache_index (CacheTable s) n = None"
    using wf_sdD(6) [OF wf] n cache_index_SomeD [of "CacheTable s" n]
    by (cases "cache_index (CacheTable s) n") (auto simp: cache_ok_def)
  obtain s1 where "same_cache s s1"
    "read_pass n s = Inr (s1, map_option (\<lambda>i. data (CacheTable s ! i)) (cache_index (CacheTable s) n))"
    using read_pass_index [OF wf] by blast
  then have s1: "same_cache s s1" "read_pass n s = Inr (s1, None)" using None by simp_all
  have "wf_sd s1" using wf_sd_cong [OF s1(1) wf] .
  then show "ReadSector s n = Inl AssertFailed"
    using s1(2) CacheMiss_invalid [OF _ n] by (simp add: ReadSector_def)
  obtain s2 where "same_cache (written (cache_index (CacheTable s) n) CacheSize (take 128 bs) s) s2"
    "write_pass n bs s = Inr (s2, cache_index (CacheTable s) n \<noteq> None)" using write_pass_index [OF wf] by blast
  then have s2: "same_cache s s2" "write_pass n bs s = Inr (s2, False)" using None by (simp_all add: written_def)
  have "wf_sd s2" using wf_sd_cong [OF s2(1) wf] .
  then show "WriteSector s n bs = Inl AssertFailed"
    using s2(2) CacheMiss_invalid [OF _ n] by (simp add: WriteSector_def)
qed

lemma length_content: "wf_sd s \<Longrightarrow> valid_sector n \<Longrightarrow> length (content s n) = 128"
  by (auto simp: content_def wf_sd_def cache_ok_def split: option.splits dest: cache_index_SomeD)

lemma new_SynchDisk_wf:
  assumes "new_SynchDisk f st me el junk = Inr s" "0 \<le> totalTicks st" "\<And>d. new_Disk f = Inr d \<Longrightarrow> wf_disk d \<and> \<not> active d"
  shows "wf_sd s" "\<And>n. content s n = sector_data (disk s) n" "others s = (0, 1, replicate 1024 0, replicate 1024 0,
    replicate 1024 1, replicate 1024 1, replicate 1024 1, me, el)"
proof -
  from assms(1) obtain d where d: "new_Disk f = Inr d" "disk s = d" "stats s = st"
    "CacheTable s = map (\<lambda>i. (junk i)\<lparr>dirty := False, valid := False, lru := totalTicks st\<rparr>) [0..<CacheSize]"
    "others s = (0, 1, replicate 1024 0, replicate 1024 0, replicate 1024 1, replicate 1024 1, replicate 1024 1, me, el)"
    by (auto simp: new_SynchDisk_def others_def simp del: upt_rec_numeral)
  then have inv: "\<not> valid (CacheTable s ! i)" if "i < CacheSize" for i using that by simp
  then show "wf_sd s" using d assms(2,3) by (auto simp: wf_sd_def cache_ok_def others_def simp del: upt_rec_numeral)
  show "content s n = sector_data (disk s) n" for n using inv by (intro content_uncached) auto
  show "others s = (0, 1, replicate 1024 0, replicate 1024 0, replicate 1024 1, replicate 1024 1, replicate 1024 1, me, el)"
    by (rule d(5))
qed

section \<open>The interface of a sector store\<close>

text \<open>
  What the file system relies on: a read gives back what was last written to the sector. The
  operations of a client are a list of reads and writes; \<open>run_ops\<close> performs them and collects what the
  reads return, \<open>spec_ops\<close> does the same on a plain table of sectors.
\<close>

datatype disk_op = Rd int | Wr int "byte list"

fun run_ops :: "('s \<Rightarrow> int \<Rightarrow> ('s \<times> byte list) result) \<Rightarrow> ('s \<Rightarrow> int \<Rightarrow> byte list \<Rightarrow> 's result) \<Rightarrow>
    disk_op list \<Rightarrow> 's \<Rightarrow> ('s \<times> byte list list) result" where
  "run_ops rd wr [] s = Inr (s, [])"
| "run_ops rd wr (Rd n # ops) s = bindE (rd s n) (\<lambda>(s, bs). bindE (run_ops rd wr ops s) (\<lambda>(s, out). Inr (s, bs # out)))"
| "run_ops rd wr (Wr n bs # ops) s = bindE (wr s n bs) (run_ops rd wr ops)"

fun spec_ops :: "disk_op list \<Rightarrow> (int \<Rightarrow> byte list) \<Rightarrow> (int \<Rightarrow> byte list) \<times> byte list list" where
  "spec_ops [] c = (c, [])"
| "spec_ops (Rd n # ops) c = (let r = spec_ops ops c in (fst r, c n # snd r))"
| "spec_ops (Wr n bs # ops) c = spec_ops ops (c(n := bs))"

fun valid_op :: "disk_op \<Rightarrow> bool" where
  "valid_op (Rd n) = valid_sector n"
| "valid_op (Wr n bs) = (valid_sector n \<and> length bs = 128)"

lemma spec_ops_cong:
  assumes "\<forall>m. valid_sector m \<longrightarrow> c m = c' m" "list_all valid_op ops"
  shows "snd (spec_ops ops c) = snd (spec_ops ops c') \<and>
    (\<forall>m. valid_sector m \<longrightarrow> fst (spec_ops ops c) m = fst (spec_ops ops c') m)"
  using assms
proof (induction ops arbitrary: c c')
  case (Cons op ops)
  then have ops: "list_all valid_op ops" by simp
  show ?case
  proof (cases op)
    case (Rd n)
    with Cons.IH [OF Cons.prems(1) ops] Cons.prems show ?thesis by (simp add: Let_def)
  next
    case (Wr n bs)
    from Cons.prems(1) have "\<forall>m. valid_sector m \<longrightarrow> (c(n := bs)) m = (c'(n := bs)) m" by simp
    from Cons.IH [OF this ops] show ?thesis unfolding Wr spec_ops.simps .
  qed
qed simp

locale sector_store =
  fixes ok :: "'s \<Rightarrow> bool" and cont :: "'s \<Rightarrow> int \<Rightarrow> byte list" and frame :: "'s \<Rightarrow> 'f"
    and rd :: "'s \<Rightarrow> int \<Rightarrow> ('s \<times> byte list) result" and wr :: "'s \<Rightarrow> int \<Rightarrow> byte list \<Rightarrow> 's result"
  assumes rd: "ok s \<Longrightarrow> valid_sector n \<Longrightarrow> \<exists>s'. rd s n = Inr (s', cont s n) \<and> ok s' \<and> frame s' = frame s \<and>
      (\<forall>m. valid_sector m \<longrightarrow> cont s' m = cont s m)"
    and wr: "ok s \<Longrightarrow> valid_sector n \<Longrightarrow> length bs = 128 \<Longrightarrow> \<exists>s'. wr s n bs = Inr s' \<and> ok s' \<and> frame s' = frame s \<and>
      (\<forall>m. valid_sector m \<longrightarrow> cont s' m = (if m = n then bs else cont s m))"
    and length_cont: "ok s \<Longrightarrow> valid_sector n \<Longrightarrow> length (cont s n) = 128"
    and rd_invalid: "ok s \<Longrightarrow> \<not> valid_sector n \<Longrightarrow> rd s n = Inl AssertFailed"
    and wr_invalid: "ok s \<Longrightarrow> \<not> valid_sector n \<Longrightarrow> wr s n bs = Inl AssertFailed"
begin

lemma run_ops_spec:
  assumes "ok s" "list_all valid_op ops"
  shows "\<exists>s'. run_ops rd wr ops s = Inr (s', snd (spec_ops ops (cont s))) \<and> ok s' \<and> frame s' = frame s \<and>
    (\<forall>m. valid_sector m \<longrightarrow> cont s' m = fst (spec_ops ops (cont s)) m)"
  using assms
proof (induction ops arbitrary: s)
  case (Cons op ops)
  have ops: "list_all valid_op ops" using Cons.prems by simp
  show ?case
  proof (cases op)
    case (Rd n)
    with Cons.prems rd [of s n] obtain s1 where s1: "rd s n = Inr (s1, cont s n)" "ok s1" "frame s1 = frame s"
      "\<forall>m. valid_sector m \<longrightarrow> cont s1 m = cont s m" by auto
    from Cons.IH [OF s1(2) ops] obtain s2 where s2: "run_ops rd wr ops s1 = Inr (s2, snd (spec_ops ops (cont s1)))"
      "ok s2" "frame s2 = frame s1" "\<forall>m. valid_sector m \<longrightarrow> cont s2 m = fst (spec_ops ops (cont s1)) m" by blast
    have "snd (spec_ops ops (cont s1)) = snd (spec_ops ops (cont s)) \<and>
        (\<forall>m. valid_sector m \<longrightarrow> fst (spec_ops ops (cont s1)) m = fst (spec_ops ops (cont s)) m)"
      using s1(4) ops by (intro spec_ops_cong) auto
    with Rd s1 s2 show ?thesis by (auto simp: Let_def split: prod.splits)
  next
    case (Wr n bs)
    with Cons.prems wr [of s n bs] obtain s1 where s1: "wr s n bs = Inr s1" "ok s1" "frame s1 = frame s"
      "\<forall>m. valid_sector m \<longrightarrow> cont s1 m = (if m = n then bs else cont s m)" by auto
    from Cons.IH [OF s1(2) ops] obtain s2 where s2: "run_ops rd wr ops s1 = Inr (s2, snd (spec_ops ops (cont s1)))"
      "ok s2" "frame s2 = frame s1" "\<forall>m. valid_sector m \<longrightarrow> cont s2 m = fst (spec_ops ops (cont s1)) m" by blast
    have "snd (spec_ops ops (cont s1)) = snd (spec_ops ops ((cont s)(n := bs))) \<and>
        (\<forall>m. valid_sector m \<longrightarrow> fst (spec_ops ops (cont s1)) m = fst (spec_ops ops ((cont s)(n := bs))) m)"
      using s1(4) ops by (intro spec_ops_cong) auto
    with Wr s1 s2 show ?thesis by auto
  qed
qed simp

end

interpretation cached_disk: sector_store wf_sd content others ReadSector WriteSector
proof
  fix s :: SynchDisk and n assume "wf_sd s" "valid_sector n"
  then show "\<exists>s'. ReadSector s n = Inr (s', content s n) \<and> wf_sd s' \<and> others s' = others s \<and>
      (\<forall>m. valid_sector m \<longrightarrow> content s' m = content s m)"
    using ReadSector_reads unfolding keeps_def by metis
next
  fix s :: SynchDisk and n and bs :: "byte list" assume "wf_sd s" "valid_sector n" "length bs = 128"
  then show "\<exists>s'. WriteSector s n bs = Inr s' \<and> wf_sd s' \<and> others s' = others s \<and>
      (\<forall>m. valid_sector m \<longrightarrow> content s' m = (if m = n then bs else content s m))"
    using WriteSector_writes unfolding stores_def by metis
qed (simp_all add: length_content Sector_invalid)

section \<open>A header sector that nobody uses\<close>

definition rw_idle :: "int \<Rightarrow> SynchDisk \<Rightarrow> bool" where
  "rw_idle h s \<longleftrightarrow> 0 \<le> h \<and> nat h < length (readerCnt s) \<and> nat h < length (RW s) \<and> nat h < length (rCntMutex s) \<and>
     readerCnt s ! nat h = 0 \<and> rCntMutex s ! nat h = 1 \<and> RW s ! nat h = 1"

lemmas rw_prims = rCnt_P_def rCnt_V_def RW_P_def RW_V_def add_reader_def no_reader_def at_def sem_P_def sem_V_def

lemmas rw_defs = rw_idle_def rw_prims tick_def Let_def

section \<open>Properties\<close>

text \<open>
  C6. The cache is transparent: from any consistent state, any list of reads and writes of valid
  sectors runs without a fault and returns exactly what a plain table of 1024 sectors would return,
  whatever is evicted in between, and the contents afterwards are those of the table.
\<close>

theorem cache_transparent:
  assumes "wf_sd s" "list_all valid_op ops"
  shows "\<exists>s'. run_ops ReadSector WriteSector ops s = Inr (s', snd (spec_ops ops (content s))) \<and> wf_sd s' \<and>
    (\<forall>m. valid_sector m \<longrightarrow> content s' m = fst (spec_ops ops (content s)) m)"
  using cached_disk.run_ops_spec [OF assms] by blast

definition ex_entry :: CacheEntry where
  "ex_entry = \<lparr>valid = True, dirty = True, sector = 7, lru = 3, data = []\<rparr>"

lemma ex_SynchDisk:
  obtains s where "new_SynchDisk None new_Statistics 0 (\<lambda>_. 10) (\<lambda>_. ex_entry) = Inr s" "wf_sd s"
    "rw_idle 4 s"
proof -
  obtain d where d: "new_Disk None = Inr d" "wf_disk d" "\<not> active d" using new_Disk_fresh by blast
  then obtain s where s: "new_SynchDisk None new_Statistics 0 (\<lambda>_. 10) (\<lambda>_. ex_entry) = Inr s"
    by (simp add: new_SynchDisk_def del: upt_rec_numeral)
  have init: "wf_sd s" "others s = (0, 1, replicate 1024 0, replicate 1024 0,
      replicate 1024 1, replicate 1024 1, replicate 1024 1, 0, \<lambda>_. 10)"
    using new_SynchDisk_wf(1,3) [OF s] d by (simp_all add: new_Statistics_def)
  then have "rw_idle 4 s" by (simp add: rw_idle_def others_def)
  with s init that show ?thesis by blast
qed

theorem cache_transparent_witness:
  "\<exists>s s'. new_SynchDisk None new_Statistics 0 (\<lambda>_. 10) (\<lambda>_. ex_entry) = Inr s \<and>
     run_ops ReadSector WriteSector [Wr 5 (replicate 128 1), Wr 900 (replicate 128 2), Rd 5, Rd 900] s =
       Inr (s', [replicate 128 1, replicate 128 2])"
proof -
  obtain s where s: "new_SynchDisk None new_Statistics 0 (\<lambda>_. 10) (\<lambda>_. ex_entry) = Inr s" "wf_sd s"
    by (rule ex_SynchDisk)
  let ?ops = "[Wr 5 (replicate 128 1), Wr 900 (replicate 128 2), Rd 5, Rd 900]"
  have "list_all valid_op ?ops" by (simp add: valid_sector_def)
  from cache_transparent [OF s(2) this] s(1) show ?thesis by (auto simp: Let_def)
qed

text \<open>
  C7. The entry a miss evicts: one that holds nothing if there is such an entry, and otherwise one
  with the least time stamp of the table.
\<close>

theorem CacheMiss_evicts_lru:
  "let k = evict_loop tab [0..<CacheSize] 0 in k < CacheSize \<and>
     (if \<forall>i < CacheSize. valid (tab ! i) then \<forall>i < CacheSize. lru (tab ! k) \<le> lru (tab ! i)
      else \<not> valid (tab ! k))"
proof -
  have "(if \<forall>i \<in> set is. valid (tab ! i)
      then \<forall>i \<in> insert e (set is). lru (tab ! evict_loop tab is e) \<le> lru (tab ! i)
      else \<not> valid (tab ! evict_loop tab is e))" for "is" e
  proof (induction "is" arbitrary: e)
    case (Cons a "is")
    from Cons.IH [of "if lru (tab ! a) < lru (tab ! e) then a else e"] show ?case
      by (auto split: if_splits)
  qed simp
  moreover have "evict_loop tab [0..<CacheSize] 0 < CacheSize" by (rule evict_loop_bound) auto
  ultimately show ?thesis by (simp add: Let_def Ball_def split: if_splits)
qed

theorem CacheMiss_evicts_lru_witness:
  "\<exists>tab. (\<forall>i < 8. valid (tab ! i)) \<and> evict_loop tab [0..<8] 0 = 7 \<and> (\<forall>i < 8. lru (tab ! 7) \<le> lru (tab ! i))"
proof -
  let ?tab = "map (\<lambda>i. ex_entry\<lparr>valid := True, lru := int (7 - i)\<rparr>) [0..<8]"
  have v: "\<forall>i < 8. valid (?tab ! i)" by simp
  moreover have k: "evict_loop ?tab [0..<8] 0 = 7" by (simp add: upt_rec)
  moreover have "\<forall>i < 8. lru (?tab ! 7) \<le> lru (?tab ! i)"
    using CacheMiss_evicts_lru [of ?tab] v unfolding Let_def k by presburger
  ultimately show ?thesis by blast
qed

text \<open>
  C9. A write that hits the cache stays there: the next read returns it, but the UNIX file that is
  left when the disk object is destroyed is the one from before the write, since the destructor does
  not write dirty entries back.
\<close>

theorem delete_SynchDisk_drops_writes:
  assumes "wf_sd s" "i < CacheSize" "valid (CacheTable s ! i)" "length bs = 128"
  shows "\<exists>s'. WriteSector s (sector (CacheTable s ! i)) bs = Inr s' \<and>
    content s' (sector (CacheTable s ! i)) = bs \<and> delete_SynchDisk s' = delete_SynchDisk s"
proof -
  let ?n = "sector (CacheTable s ! i)"
  note w = wf_sdD [OF assms(1)]
  have ci: "cache_index (CacheTable s) ?n = Some i" using cache_index_unique [OF w(6) assms(2,3)] by simp
  have vn: "valid_sector ?n" using w(6) assms(2,3) by (auto simp: cache_ok_def)
  obtain s' where s': "same_cache (written (cache_index (CacheTable s) ?n) CacheSize (take 128 bs) s) s'"
    "write_pass ?n bs s = Inr (s', cache_index (CacheTable s) ?n \<noteq> None)" using write_pass_index [OF assms(1)] by blast
  have ws: "WriteSector s ?n bs = Inr s'" using s'(2) ci by (simp add: WriteSector_def)
  moreover have "disk s' = disk s" using s'(1) ci by (simp add: same_cache_def written_def)
  moreover obtain s'' where "WriteSector s ?n bs = Inr s''" "stores s ?n bs s''"
    using WriteSector_writes [OF assms(1) vn assms(4)] by blast
  then have "content s' ?n = bs" using ws vn by (simp add: stores_def)
  ultimately show ?thesis by (simp add: delete_SynchDisk_def)
qed

theorem delete_SynchDisk_drops_writes_witness:
  "\<exists>s s'. wf_sd s \<and> WriteSector s 9 (replicate 128 1) = Inr s' \<and> content s 9 = replicate 128 0 \<and>
    content s' 9 = replicate 128 1 \<and> delete_SynchDisk s' = delete_SynchDisk s"
proof -
  obtain s0 where s0: "new_SynchDisk None new_Statistics 0 (\<lambda>_. 10) (\<lambda>_. ex_entry) = Inr s0" "wf_sd s0"
    by (rule ex_SynchDisk)
  have n: "valid_sector 9" by (simp add: valid_sector_def)
  obtain s1 where s1: "WriteSector s0 9 (replicate 128 0) = Inr s1" "stores s0 9 (replicate 128 0) s1"
    using WriteSector_writes [OF s0(2) n] by (metis length_replicate)
  have wf1: "wf_sd s1" "content s1 9 = replicate 128 0" using s1(2) n by (simp_all add: stores_def)
  obtain s2 k where s2: "wf_sd s2" "content s2 9 = replicate 128 0" "cache_index (CacheTable s2) 9 = Some k"
  proof (cases "cache_index (CacheTable s1) 9")
    case None
    obtain s2 k where "CacheMiss s1 9 = Inr s2" "keeps s1 s2" "cache_index (CacheTable s2) 9 = Some k"
      using CacheMiss_keeps [OF wf1(1) n None] by blast
    then show ?thesis using that [of s2 k] wf1(2) n by (simp add: keeps_def)
  qed (use that wf1 in blast)
  have k: "k < CacheSize" "valid (CacheTable s2 ! k)" "sector (CacheTable s2 ! k) = 9"
    using cache_index_SomeD [OF s2(3)] by auto
  from delete_SynchDisk_drops_writes [OF s2(1) k(1,2), of "replicate 128 1"] s2 k(3) show ?thesis by auto
qed

end
