(* ===== verification/File_Header.thy ===== *)
theory File_Header
  imports Bit_Map Synch_Disk "HOL-Library.Multiset"
begin

text \<open>
  File headers, \<^verbatim>\<open>code/filesys/filehdr.h\<close> and \<^verbatim>\<open>filehdr.cc\<close>: the in-memory object, its image in a
  sector, the allocation, extension and release of the blocks of a file, and the map from byte offsets
  to sectors through six direct entries and five single-level index sectors.
\<close>

section \<open>The object and its layout\<close>

abbreviation (input) NumDirect :: int where "NumDirect \<equiv> 6"
abbreviation (input) SecondDirect :: int where "SecondDirect \<equiv> 32"
abbreviation (input) NumSecondIndex :: int where "NumSecondIndex \<equiv> 5"
abbreviation (input) NumIndirect :: int where "NumIndirect \<equiv> 160"

definition MaxFileSize :: int where
  "MaxFileSize = NumDirect * SectorSize + NumIndirect * SectorSize"

text \<open>
  The three time strings of 25 characters are followed by one byte of padding, which aligns the
  integers; it has no name in the source but is part of the 128 bytes that go to disk.
\<close>

record FileHeader =
  create_time :: "byte list"
  visit_time :: "byte list"
  modify_time :: "byte list"
  hdr_pad :: byte
  numBytes :: int
  numSectors :: int
  dataSectors :: "int list"

definition ints_bytes :: "int list \<Rightarrow> byte list" where
  "ints_bytes is = concat (map int_bytes is)"

definition bytes_ints :: "nat \<Rightarrow> byte list \<Rightarrow> int list" where
  "bytes_ints n bs = map (\<lambda>k. bytes_int (slice (4 * k) 4 bs)) [0..<n]"

definition hdr_bytes :: "FileHeader \<Rightarrow> byte list" where
  "hdr_bytes h = create_time h @ visit_time h @ modify_time h @ [hdr_pad h] @
     ints_bytes (numBytes h # numSectors h # dataSectors h)"

definition hdr_of_bytes :: "byte list \<Rightarrow> FileHeader" where
  "hdr_of_bytes bs = (let is = bytes_ints 13 (drop 76 bs) in
     \<lparr>create_time = slice 0 25 bs, visit_time = slice 25 25 bs, modify_time = slice 50 25 bs,
      hdr_pad = bs ! 75, numBytes = is ! 0, numSectors = is ! 1, dataSectors = drop 2 is\<rparr>)"

definition FetchFrom :: "SynchDisk \<Rightarrow> int \<Rightarrow> (SynchDisk \<times> FileHeader) result" where
  "FetchFrom sd sec = bindE (ReadSector sd sec) (\<lambda>(sd, bs). Inr (sd, hdr_of_bytes bs))"

definition WriteBack :: "SynchDisk \<Rightarrow> FileHeader \<Rightarrow> int \<Rightarrow> SynchDisk result" where
  "WriteBack sd h sec = WriteSector sd sec (hdr_bytes h)"

definition FileLength :: "FileHeader \<Rightarrow> int" where
  "FileLength h = numBytes h"

text \<open>
  The time stamps: \<^verbatim>\<open>strncpy(t, asctime(gmtime(&timep)), 25)\<close> copies the string the C library
  gives, padded with zero bytes, and the last character is overwritten with a zero.
\<close>

definition time_field :: "byte list \<Rightarrow> byte list" where
  "time_field now = (take 25 (takeWhile (\<lambda>c. c \<noteq> 0) now @ replicate 25 0))[24 := 0]"

definition set_create_time :: "byte list \<Rightarrow> FileHeader \<Rightarrow> FileHeader" where
  "set_create_time now h = h\<lparr>create_time := time_field now\<rparr>"

definition set_visit_time :: "byte list \<Rightarrow> FileHeader \<Rightarrow> FileHeader" where
  "set_visit_time now h = h\<lparr>visit_time := time_field now\<rparr>"

definition set_modify_time :: "byte list \<Rightarrow> FileHeader \<Rightarrow> FileHeader" where
  "set_modify_time now h = h\<lparr>modify_time := time_field now\<rparr>"

section \<open>Finding the sector of a byte\<close>

text \<open>\<^verbatim>\<open>dataSectors[i]\<close>, for reading and for writing.\<close>

definition get_entry :: "FileHeader \<Rightarrow> int \<Rightarrow> int result" where
  "get_entry h i = (if 0 \<le> i \<and> i < int (length (dataSectors h)) then Inr (dataSectors h ! nat i) else Inl BadAccess)"

definition set_entry :: "FileHeader \<Rightarrow> int \<Rightarrow> int \<Rightarrow> FileHeader result" where
  "set_entry h i v = (if 0 \<le> i \<and> i < int (length (dataSectors h))
     then Inr (h\<lparr>dataSectors := (dataSectors h)[nat i := v]\<rparr>) else Inl BadAccess)"

definition ByteToSector :: "SynchDisk \<Rightarrow> FileHeader \<Rightarrow> int \<Rightarrow> (SynchDisk \<times> int) result" where
  "ByteToSector sd h offset =
     (let sectorOffset = c_div offset SectorSize in
      if u32 sectorOffset < NumDirect then bindE (get_entry h sectorOffset) (\<lambda>s. Inr (sd, s))
      else let sectorsLeft = sectorOffset - NumDirect;
               secondIndex = u32 sectorsLeft div SecondDirect
           in bindE (get_entry h (NumDirect + secondIndex)) (\<lambda>idx.
              bindE (ReadSector sd idx) (\<lambda>(sd, bs).
              let sectors = bytes_ints 32 bs;
                  indexOffset = sectorOffset - NumDirect - secondIndex * SecondDirect
              in if 0 \<le> indexOffset \<and> indexOffset < SecondDirect then Inr (sd, sectors ! nat indexOffset)
                 else Inl BadAccess)))"

section \<open>Allocation\<close>

text \<open>
  The next sector number of a new file: the next of the run found by \<^verbatim>\<open>FindN\<close> (\<^verbatim>\<open>conse\<close>), or one
  that \<^verbatim>\<open>Find\<close> returns. \<open>take_sectors\<close> is the sequence that a loop of \<open>n\<close> such steps stores.
\<close>

definition take_sector :: "bool \<Rightarrow> BitMap \<times> int \<Rightarrow> ((BitMap \<times> int) \<times> int) result" where
  "take_sector conse = (\<lambda>(fm, beg). if conse then Inr ((fm, beg + 1), beg)
     else bindE (Find fm) (\<lambda>(fm, i). Inr ((fm, beg), i)))"

fun take_sectors :: "bool \<Rightarrow> nat \<Rightarrow> BitMap \<times> int \<Rightarrow> ((BitMap \<times> int) \<times> int list) result" where
  "take_sectors conse 0 fb = Inr (fb, [])"
| "take_sectors conse (Suc n) fb = bindE (take_sector conse fb) (\<lambda>(fb, i).
     bindE (take_sectors conse n fb) (\<lambda>(fb, is). Inr (fb, i # is)))"

text \<open>
  The loop over the index sectors. The array \<^verbatim>\<open>sectors\<close> has \<^verbatim>\<open>num1\<close> elements but a whole sector
  is written from it: \<open>heap i k\<close> is the byte that lies \<open>k\<close> bytes behind the array of round \<open>i\<close>.
\<close>

function Allocate_index :: "(int \<Rightarrow> nat \<Rightarrow> byte) \<Rightarrow> bool \<Rightarrow> int \<Rightarrow> int \<Rightarrow> SynchDisk \<Rightarrow> BitMap \<times> int \<Rightarrow> FileHeader \<Rightarrow>
    (SynchDisk \<times> (BitMap \<times> int) \<times> FileHeader) result" where
  "Allocate_index heap conse i sectorsLeft sd fb h =
     (if sectorsLeft > 0 then
        bindE (take_sector conse fb) (\<lambda>(fb, idx).
        bindE (set_entry h (NumDirect + i) idx) (\<lambda>h.
        let num1 = (if sectorsLeft < SecondDirect then sectorsLeft else SecondDirect) in
        bindE (take_sectors conse (nat num1) fb) (\<lambda>(fb, sectors).
        bindE (WriteSector sd idx (ints_bytes sectors @ map (heap i) [0..<128 - 4 * nat num1])) (\<lambda>sd.
        Allocate_index heap conse (i + 1) (sectorsLeft - num1) sd fb h))))
      else Inr (sd, fb, h))"
  by pat_completeness auto
termination by (relation "measure (\<lambda>(heap, conse, i, left, sd, fb, h). nat left)") auto

text \<open>
  \<^verbatim>\<open>Allocate\<close>. \<open>nsec\<close> is what the variable \<^verbatim>\<open>NSecIndex\<close> holds when it is not assigned, which is
  the case for files of at most six sectors.
\<close>

definition Allocate :: "int \<Rightarrow> (int \<Rightarrow> nat \<Rightarrow> byte) \<Rightarrow> SynchDisk \<Rightarrow> FileHeader \<Rightarrow> BitMap \<Rightarrow> int \<Rightarrow>
    (bool \<times> SynchDisk \<times> FileHeader \<times> BitMap) result" where
  "Allocate nsec heap sd h freeMap fileSize =
     (let h = h\<lparr>numBytes := fileSize, numSectors := divRoundUp fileSize SectorSize\<rparr>;
          NSecIndex = (if u32 (numSectors h) > NumDirect
                       then divRoundUp (u32 (numSectors h - NumDirect)) SecondDirect else nsec) in
      bindE (FindN freeMap (numSectors h + NSecIndex)) (\<lambda>(freeMap, beg).
      let conse = (beg > 0) in
      bindE (NumClear freeMap) (\<lambda>clear.
      if clear < numSectors h then Inr (False, sd, h, freeMap)
      else if u32 fileSize > MaxFileSize then Inr (False, sd, h, freeMap)
      else if u32 (numSectors h) \<le> NumDirect then
        bindE (take_sectors conse (nat (numSectors h)) (freeMap, beg)) (\<lambda>((freeMap, beg), is).
        Inr (True, sd, h\<lparr>dataSectors := blit is (dataSectors h) 0\<rparr>, freeMap))
      else
        bindE (take_sectors conse (nat NumDirect) (freeMap, beg)) (\<lambda>(fb, is).
        bindE (Allocate_index heap conse 0 (numSectors h - NumDirect) sd fb
                 (h\<lparr>dataSectors := blit is (dataSectors h) 0\<rparr>)) (\<lambda>(sd, fb, h).
        Inr (True, sd, h, fst fb))))))"

section \<open>Release\<close>

function Deallocate_index :: "int \<Rightarrow> int \<Rightarrow> SynchDisk \<Rightarrow> BitMap \<Rightarrow> FileHeader \<Rightarrow> (SynchDisk \<times> BitMap) result" where
  "Deallocate_index i sectorsLeft sd fm h =
     (if sectorsLeft > 0 then
        let num1 = (if sectorsLeft < SecondDirect then sectorsLeft else SecondDirect) in
        bindE (get_entry h (NumDirect + i)) (\<lambda>idx.
        bindE (ReadSector sd idx) (\<lambda>(sd, bs).
        bindE (release Test Clear (take (nat num1) (bytes_ints 32 bs)) fm) (\<lambda>fm.
        bindE (release Test Clear [idx] fm) (\<lambda>fm.
        Deallocate_index (i + 1) (sectorsLeft - num1) sd fm h))))
      else Inr (sd, fm))"
  by pat_completeness auto
termination by (relation "measure (\<lambda>(i, left, sd, fm, h). nat left)") auto

definition Deallocate :: "SynchDisk \<Rightarrow> FileHeader \<Rightarrow> BitMap \<Rightarrow> (SynchDisk \<times> BitMap) result" where
  "Deallocate sd h freeMap =
     (if u32 (numSectors h) \<le> NumDirect then
        bindE (release Test Clear (take (nat (numSectors h)) (dataSectors h)) freeMap) (\<lambda>fm. Inr (sd, fm))
      else
        bindE (release Test Clear (take (nat NumDirect) (dataSectors h)) freeMap) (\<lambda>fm.
        Deallocate_index 0 (numSectors h - NumDirect) sd fm h))"

section \<open>Extension\<close>

text \<open>
  A loop of \<^verbatim>\<open>extendLength\<close> that fills an array from position \<open>j\<close> with sectors that \<^verbatim>\<open>Find\<close>
  returns, until the array is full at \<open>lim\<close> or enough sectors are there.
\<close>

definition fill_entries :: "int \<Rightarrow> int \<Rightarrow> int list \<Rightarrow> BitMap \<Rightarrow> int \<Rightarrow> (BitMap \<times> int list \<times> int) result" where
  "fill_entries j lim arr fm sectorNum =
     (let n = nat (min (lim - j) sectorNum) in
      bindE (find_n Find n fm) (\<lambda>(fm, is). Inr (fm, blit is arr (nat j), int n)))"

definition extend_new_index :: "(nat \<Rightarrow> int) \<Rightarrow> int \<Rightarrow> SynchDisk \<Rightarrow> FileHeader \<Rightarrow> BitMap \<Rightarrow> int \<Rightarrow>
    (SynchDisk \<times> FileHeader \<times> BitMap \<times> int) result" where
  "extend_new_index raw i sd h fm sectorNum =
     bindE (Find fm) (\<lambda>(fm, idx).
     bindE (set_entry h (NumDirect + i - 1) idx) (\<lambda>h.
     bindE (fill_entries 0 SecondDirect (map raw [0..<32]) fm sectorNum) (\<lambda>(fm, sectors, n).
     bindE (WriteSector sd idx (ints_bytes sectors)) (\<lambda>sd.
     Inr (sd, h\<lparr>numSectors := numSectors h + n\<rparr>, fm, sectorNum - n)))))"

definition extend_old_index :: "int \<Rightarrow> SynchDisk \<Rightarrow> FileHeader \<Rightarrow> BitMap \<Rightarrow> int \<Rightarrow>
    (SynchDisk \<times> FileHeader \<times> BitMap \<times> int) result" where
  "extend_old_index i sd h fm sectorNum =
     bindE (get_entry h (NumDirect + i - 1)) (\<lambda>idx.
     bindE (ReadSector sd idx) (\<lambda>(sd, bs).
     bindE (fill_entries (c_mod (numSectors h - NumDirect) SecondDirect) SecondDirect (bytes_ints 32 bs) fm sectorNum)
       (\<lambda>(fm, sectors, n).
     bindE (WriteSector sd idx (ints_bytes sectors)) (\<lambda>sd.
     Inr (sd, h\<lparr>numSectors := numSectors h + n\<rparr>, fm, sectorNum - n)))))"

fun extend_loop :: "(int \<Rightarrow> nat \<Rightarrow> int) \<Rightarrow> int list \<Rightarrow> SynchDisk \<times> FileHeader \<times> BitMap \<times> int \<Rightarrow>
    (SynchDisk \<times> FileHeader \<times> BitMap \<times> int) result" where
  "extend_loop raw [] st = Inr st"
| "extend_loop raw (i # is) (sd, h, fm, sectorNum) =
     (if sectorNum \<le> 0 then Inr (sd, h, fm, sectorNum) else
      bindE (if numSectors h = NumDirect + (i - 1) * SecondDirect
             then extend_new_index (raw i) i sd h fm sectorNum else Inr (sd, h, fm, sectorNum))
       (\<lambda>(sd, h, fm, sectorNum).
      if sectorNum \<le> 0 then Inr (sd, h, fm, sectorNum) else
      bindE (if numSectors h > NumDirect + (i - 1) * SecondDirect \<and> numSectors h < NumDirect + i * SecondDirect
             then extend_old_index i sd h fm sectorNum else Inr (sd, h, fm, sectorNum))
       (\<lambda>(sd, h, fm, sectorNum).
      if sectorNum \<le> 0 then Inr (sd, h, fm, sectorNum) else extend_loop raw is (sd, h, fm, sectorNum))))"

definition extendLength :: "(int \<Rightarrow> nat \<Rightarrow> int) \<Rightarrow> SynchDisk \<Rightarrow> FileHeader \<Rightarrow> BitMap \<Rightarrow> int \<Rightarrow> int \<Rightarrow>
    (bool \<times> SynchDisk \<times> FileHeader \<times> BitMap) result" where
  "extendLength raw sd h freeMap newNumBytes sectorNum =
     bindE (if u32 (numSectors h) < NumDirect \<and> sectorNum > 0
            then bindE (fill_entries (numSectors h) NumDirect (dataSectors h) freeMap sectorNum) (\<lambda>(fm, ds, n).
                 Inr (sd, h\<lparr>dataSectors := ds, numSectors := numSectors h + n\<rparr>, fm, sectorNum - n))
            else Inr (sd, h, freeMap, sectorNum)) (\<lambda>st.
     bindE (extend_loop raw [1..NumSecondIndex] st) (\<lambda>(sd, h, fm, sectorNum).
     if sectorNum \<le> 0 then Inr (True, sd, h\<lparr>numBytes := newNumBytes\<rparr>, fm) else Inr (False, sd, h, fm)))"

declare Allocate_index.simps [simp del] Deallocate_index.simps [simp del]

section \<open>The layout is faithful\<close>

lemma length_ints_bytes [simp]: "length (ints_bytes is) = 4 * length is"
  by (induction "is") (auto simp: ints_bytes_def)

lemma slice_ints_bytes:
  "k < length is \<Longrightarrow> slice (4 * k) 4 (ints_bytes is @ rest) = int_bytes (is ! k)"
proof (induction "is" arbitrary: k)
  case (Cons i "is")
  then show ?case by (cases k) (auto simp: slice_def ints_bytes_def)
qed simp

lemma length_bytes_ints [simp]: "length (bytes_ints n bs) = n"
  by (simp add: bytes_ints_def)

lemma bytes_ints_nth: "k < n \<Longrightarrow> bytes_ints n bs ! k = bytes_int (slice (4 * k) 4 bs)"
  by (simp add: bytes_ints_def)

lemma bytes_ints_prefix:
  assumes "list_all in_int32 is" "length is \<le> n"
  shows "take (length is) (bytes_ints n (ints_bytes is @ rest)) = is"
  using assms by (intro nth_equalityI) (auto simp: bytes_ints_nth slice_ints_bytes list_all_length)

lemma bytes_ints_bytes:
  "list_all in_int32 is \<Longrightarrow> bytes_ints (length is) (ints_bytes is) = is"
  using bytes_ints_prefix [of "is" "length is" "[]"] by simp

lemma ints_bytes_ints: "length bs = 4 * n \<Longrightarrow> ints_bytes (bytes_ints n bs) = bs"
proof (induction n arbitrary: bs)
  case (Suc n)
  have "bytes_ints (Suc n) bs = bytes_int (take 4 bs) # bytes_ints n (drop 4 bs)"
    by (rule nth_equalityI) (auto simp: nth_Cons' bytes_ints_nth slice_def add.commute
        simp flip: mult_Suc_right)
  moreover have "ints_bytes (bytes_ints n (drop 4 bs)) = drop 4 bs" using Suc by (intro Suc.IH) simp
  ultimately show ?case using Suc.prems by (simp add: ints_bytes_def)
qed (simp add: ints_bytes_def bytes_ints_def)

definition wf_hdr :: "FileHeader \<Rightarrow> bool" where
  "wf_hdr h \<longleftrightarrow> length (create_time h) = 25 \<and> length (visit_time h) = 25 \<and> length (modify_time h) = 25 \<and>
     length (dataSectors h) = 11 \<and> list_all in_int32 (numBytes h # numSectors h # dataSectors h)"

lemma length_hdr_bytes [simp]: "wf_hdr h \<Longrightarrow> length (hdr_bytes h) = 128"
  by (simp add: hdr_bytes_def wf_hdr_def)

lemma hdr_of_hdr_bytes:
  assumes "wf_hdr h"
  shows "hdr_of_bytes (hdr_bytes h) = h"
proof -
  have "drop 76 (hdr_bytes h) = ints_bytes (numBytes h # numSectors h # dataSectors h)"
    using assms by (simp add: hdr_bytes_def wf_hdr_def)
  then have "bytes_ints 13 (drop 76 (hdr_bytes h)) = numBytes h # numSectors h # dataSectors h"
    using assms bytes_ints_bytes [of "numBytes h # numSectors h # dataSectors h"] by (simp add: wf_hdr_def)
  moreover have "slice 0 25 (hdr_bytes h) = create_time h" "slice 25 25 (hdr_bytes h) = visit_time h"
    "slice 50 25 (hdr_bytes h) = modify_time h" "hdr_bytes h ! 75 = hdr_pad h"
    using assms by (simp_all add: hdr_bytes_def wf_hdr_def slice_def nth_append)
  ultimately show ?thesis by (simp add: hdr_of_bytes_def)
qed

lemma two_heads: "2 \<le> length xs \<Longrightarrow> xs ! 0 # xs ! 1 # drop 2 xs = xs"
  by (auto simp: Suc_le_length_iff numeral_2_eq_2)

lemma hdr_bytes_of:
  assumes "length bs = 128"
  shows "hdr_bytes (hdr_of_bytes bs) = bs" "wf_hdr (hdr_of_bytes bs)"
proof -
  let ?is = "bytes_ints 13 (drop 76 bs)"
  have is3: "?is ! 0 # ?is ! 1 # drop 2 ?is = ?is" by (rule two_heads) simp
  have "drop 75 bs = bs ! 75 # drop 76 bs" using assms Cons_nth_drop_Suc [of 75 bs] by simp
  moreover have "take 25 (drop 50 bs) @ drop 75 bs = drop 50 bs" using append_take_drop_id [of 25 "drop 50 bs"] by simp
  moreover have "take 25 (drop 25 bs) @ drop 50 bs = drop 25 bs" using append_take_drop_id [of 25 "drop 25 bs"] by simp
  ultimately have "take 25 bs @ take 25 (drop 25 bs) @ take 25 (drop 50 bs) @ [bs ! 75] @ drop 76 bs = bs" by simp
  moreover have "ints_bytes ?is = drop 76 bs" using assms by (intro ints_bytes_ints) simp
  ultimately show "hdr_bytes (hdr_of_bytes bs) = bs"
    using is3 by (simp add: hdr_bytes_def hdr_of_bytes_def Let_def slice_def)
  have "list_all in_int32 ?is" by (simp add: list_all_length bytes_ints_nth)
  then have "list_all in_int32 (?is ! 0 # ?is ! 1 # drop 2 ?is)" unfolding is3 .
  then show "wf_hdr (hdr_of_bytes bs)" using assms by (simp add: wf_hdr_def hdr_of_bytes_def Let_def slice_def)
qed

section \<open>The blocks of a file\<close>

text \<open>
  The \<open>k\<close>-th data sector of a file, read off the header and the contents \<open>c\<close> of the sectors;
  \<open>order_index\<close> lists the sectors behind the index entries in the order in which they are released.
\<close>

definition index_entry :: "(int \<Rightarrow> byte list) \<Rightarrow> int \<Rightarrow> nat \<Rightarrow> int" where
  "index_entry c idx q = bytes_int (slice (4 * q) 4 (c idx))"

definition block_at :: "(int \<Rightarrow> byte list) \<Rightarrow> FileHeader \<Rightarrow> nat \<Rightarrow> int" where
  "block_at c h k = (if k < 6 then dataSectors h ! k
     else index_entry c (dataSectors h ! (6 + (k - 6) div 32)) ((k - 6) mod 32))"

definition blocks :: "(int \<Rightarrow> byte list) \<Rightarrow> FileHeader \<Rightarrow> int list" where
  "blocks c h = map (block_at c h) [0..<nat (numSectors h)]"

lemma ByteToSector_block:
  assumes sd: "wf_sd sd" and h: "length (dataSectors h) = 11" and k: "k < 166"
    and off: "0 \<le> off" "off div 128 = int k"
    and idx: "6 \<le> k \<Longrightarrow> valid_sector (dataSectors h ! (6 + (k - 6) div 32))"
  obtains sd' where "ByteToSector sd h off = Inr (sd', block_at (content sd) h k)" "keeps sd sd'"
proof (cases "k < 6")
  case True
  have "ByteToSector sd h off = Inr (sd, block_at (content sd) h k)"
    using True off h by (simp add: ByteToSector_def Let_def get_entry_def block_at_def)
  then show ?thesis using that sd by (simp add: keeps_def)
next
  case False
  define q where "q = k - 6"
  have kq: "int k = 6 + int q" "q < 160" using False k by (auto simp: q_def)
  have q': "int q div 32 = int (q div 32)" by (simp add: zdiv_int)
  have lt: "q div 32 < 5" using kq(2) by simp
  have "valid_sector (dataSectors h ! (6 + q div 32))" using idx False by (simp add: q_def)
  then obtain sd' where sd': "keeps sd sd'"
    "ReadSector sd (dataSectors h ! (6 + q div 32)) = Inr (sd', content sd (dataSectors h ! (6 + q div 32)))"
    using ReadSector_reads [OF sd] by blast
  have "nat (6 + int (q div 32)) = 6 + q div 32" by simp
  moreover have "int q - int (q div 32) * 32 = int (q mod 32)"
    by (metis minus_div_mult_eq_mod of_nat_mod of_nat_numeral zdiv_int)
  ultimately have "ByteToSector sd h off = Inr (sd', block_at (content sd) h k)"
    using sd'(2) off kq lt h False
    by (simp add: ByteToSector_def Let_def get_entry_def q' block_at_def index_entry_def bytes_ints_nth flip: q_def)
  then show ?thesis using that sd'(1) by blast
qed

fun order_index :: "(int \<Rightarrow> byte list) \<Rightarrow> FileHeader \<Rightarrow> nat \<Rightarrow> nat \<Rightarrow> nat \<Rightarrow> int list" where
  "order_index c h i left 0 = []"
| "order_index c h i left (Suc n) = map (index_entry c (dataSectors h ! (6 + i))) [0..<min 32 left] @
     dataSectors h ! (6 + i) # order_index c h (Suc i) (left - 32) n"

text \<open>The number of index sectors a file with \<open>left\<close> indirect blocks has.\<close>

definition num_index :: "nat \<Rightarrow> nat" where
  "num_index left = (left + 31) div 32"

lemma num_index_0 [simp]: "num_index 0 = 0"
  by (simp add: num_index_def)

lemma num_index_step: "0 < left \<Longrightarrow> num_index left = Suc (num_index (left - 32))"
  by (cases "left \<le> 32") (auto simp: num_index_def div_if)

lemma num_index_divRoundUp: "divRoundUp (int left) 32 = int (num_index left)"
proof -
  define a b where "a = left div 32" and "b = left mod 32"
  then have left: "left = b + 32 * a" "b < 32" by simp_all
  then have "(left + 31) div 32 = a + (b + 31) div 32" by simp
  also have "(b + 31) div 32 = (if b > 0 then 1 else 0)" using left(2) by (intro div_nat_eqI) auto
  finally have "(left + 31) div 32 = a + (if b > 0 then 1 else 0)" .
  moreover have "int left mod 32 = int b" "int left div 32 = int a"
    unfolding a_def b_def using zmod_int [of left 32] zdiv_int [of left 32] by simp_all
  ultimately show ?thesis by (simp add: divRoundUp_def num_index_def)
qed

section \<open>Release in order\<close>

lemma release_append: "release t c (xs @ ys) s = bindE (release t c xs s) (release t c ys)"
  by (simp add: release_def [abs_def] foldE_append)

lemma order_index_cong:
  assumes "\<And>t. i \<le> t \<Longrightarrow> t < i + n \<Longrightarrow> c (dataSectors h ! (6 + t)) = c' (dataSectors h ! (6 + t))"
  shows "order_index c h i left n = order_index c' h i left n"
  using assms
proof (induction n arbitrary: i left)
  case (Suc n)
  have "order_index c h (Suc i) (left - 32) n = order_index c' h (Suc i) (left - 32) n"
    by (rule Suc.IH) (simp add: Suc.prems)
  with Suc.prems [of i] show ?case by (simp add: index_entry_def)
qed simp

lemma take_bytes_ints: "n \<le> 32 \<Longrightarrow> take n (bytes_ints 32 (c idx)) = map (index_entry c idx) [0..<n]"
  by (intro nth_equalityI) (auto simp: bytes_ints_nth index_entry_def)

lemma Deallocate_index_order:
  assumes "wf_sd sd" "length (dataSectors h) = 11" "i + n \<le> 5" "n = num_index left"
    "\<And>t. i \<le> t \<Longrightarrow> t < i + n \<Longrightarrow> valid_sector (dataSectors h ! (6 + t))"
    "release Test Clear (order_index (content sd) h i left n) fm = Inr fm'"
  shows "\<exists>sd'. Deallocate_index (int i) (int left) sd fm h = Inr (sd', fm') \<and> keeps sd sd'"
  using assms
proof (induction n arbitrary: i left sd fm)
  case 0
  then have "left = 0" using num_index_step by (cases "left = 0") auto
  with 0 show ?case by (simp add: release_def keeps_def Deallocate_index.simps)
next
  case (Suc n)
  then have left: "0 < left" "n = num_index (left - 32)" using num_index_step [of left] by (cases "left = 0"; simp)+
  define idx num1 where "idx = dataSectors h ! (6 + i)" and "num1 = min 32 left"
  have vi: "valid_sector idx" using Suc.prems(5) [of i] by (simp add: idx_def)
  obtain sd1 where sd1: "ReadSector sd idx = Inr (sd1, content sd idx)" "keeps sd sd1"
    using ReadSector_reads [OF Suc.prems(1) vi] by blast
  have wf1: "wf_sd sd1" using sd1(2) by (simp add: keeps_def)
  have rel: "release Test Clear (take num1 (bytes_ints 32 (content sd idx)) @ [idx] @ order_index (content sd) h (Suc i) (left - 32) n) fm = Inr fm'"
    using Suc.prems(6) by (simp add: idx_def num1_def take_bytes_ints)
  then obtain fm1 fm2 where fm: "release Test Clear (take num1 (bytes_ints 32 (content sd idx))) fm = Inr fm1"
    "release Test Clear [idx] fm1 = Inr fm2" "release Test Clear (order_index (content sd) h (Suc i) (left - 32) n) fm2 = Inr fm'"
    unfolding release_append by (auto simp: bindE_eq_Inr)
  have "order_index (content sd1) h (Suc i) (left - 32) n = order_index (content sd) h (Suc i) (left - 32) n"
    using sd1(2) Suc.prems(5) by (intro order_index_cong) (simp add: keeps_def)
  then have "\<exists>sd'. Deallocate_index (int (Suc i)) (int (left - 32)) sd1 fm2 h = Inr (sd', fm') \<and> keeps sd1 sd'"
    using Suc.prems(2-5) fm(3) left by (intro Suc.IH [OF wf1]) auto
  then obtain sd' where sd': "Deallocate_index (int (Suc i)) (int (left - 32)) sd1 fm2 h = Inr (sd', fm')" "keeps sd1 sd'"
    by blast
  have n1: "nat (if int left < 32 then int left else 32) = num1" by (simp add: num1_def)
  have entry: "get_entry h (6 + int i) = Inr idx" "6 + i < 11"
    using Suc.prems(2,3) by (auto simp: get_entry_def idx_def nat_add_distrib)
  have tail: "Deallocate_index (int i + 1) (int left - (if int left < 32 then int left else 32)) sd1 fm2 h = Inr (sd', fm')"
    using sd'(1) left(1) by (auto simp: add.commute of_nat_diff not_less split: if_splits)
  show ?case using keeps_trans [OF sd1(2) sd'(2)] left(1) entry(1) sd1(1) fm(1,2) n1 tail
    by (subst Deallocate_index.simps) (simp add: Let_def)
qed

section \<open>Consecutive allocation\<close>

lemma take_sectors_conse: "take_sectors True n (fm, beg) = Inr ((fm, beg + int n), [beg..beg + int n - 1])"
proof (induction n arbitrary: beg)
  case (Suc n)
  have "[beg..beg + int (Suc n) - 1] = beg # [beg + 1..beg + 1 + int n - 1]" by (subst upto_rec1) auto
  with Suc [of "beg + 1"] show ?case by (simp add: take_sector_def add.commute add.left_commute)
qed simp

lemma take_sectors_find:
  "take_sectors False n (fm, beg) = bindE (find_n Find n fm) (\<lambda>(fm, is). Inr ((fm, beg), is))"
proof (induction n arbitrary: fm)
  case (Suc n)
  then show ?case by (cases "Find fm") (auto simp: take_sector_def fault_simps split_beta)
qed simp

lemma index_entry_written:
  assumes "list_all in_int32 is" "length is \<le> 32" "q < length is" "c idx = ints_bytes is @ behind"
  shows "index_entry c idx q = is ! q"
  using assms by (simp add: index_entry_def slice_ints_bytes list_all_length)

text \<open>What the index loop leaves behind when it takes its sectors from the run at \<open>beg\<close>.\<close>

definition laid_out :: "(int \<Rightarrow> byte list) \<Rightarrow> FileHeader \<Rightarrow> nat \<Rightarrow> nat \<Rightarrow> int \<Rightarrow> bool" where
  "laid_out c h i left beg \<longleftrightarrow>
     mset (order_index c h i left (num_index left)) = mset [beg..beg + int (left + num_index left) - 1] \<and>
     (\<forall>q < left. index_entry c (dataSectors h ! (6 + i + q div 32)) (q mod 32) = beg + 33 * int (q div 32) + 1 + int (q mod 32))"

lemma laid_out_step:
  fixes h :: FileHeader
  assumes left: "0 < left" and idx: "dataSectors h ! (6 + i) = beg"
    and first: "\<And>q. q < min 32 left \<Longrightarrow> index_entry c beg q = beg + 1 + int q"
    and later: "laid_out c h (Suc i) (left - 32) (beg + 1 + int (min 32 left))"
  shows "laid_out c h i left beg"
proof -
  let ?n = "num_index (left - 32)" and ?m = "min 32 left"
  have step: "num_index left = Suc ?n" by (rule num_index_step [OF left])
  have "map (index_entry c beg) [0..<?m] = [beg + 1..beg + int ?m]"
    by (intro nth_equalityI) (use first in auto)
  then have "mset (order_index c h i left (num_index left)) =
      mset [beg + 1..beg + int ?m] + {#beg#} + mset [beg + 1 + int ?m..beg + int (left + num_index left) - 1]"
    using later idx step left by (simp add: laid_out_def min_def algebra_simps of_nat_diff split: if_splits)
  moreover have "[beg..beg + int (left + num_index left) - 1] =
      (beg # [beg + 1..beg + int ?m]) @ [beg + 1 + int ?m..beg + int (left + num_index left) - 1]"
  proof -
    have "[beg..beg + int (left + num_index left) - 1] = beg # [beg + 1..beg + int (left + num_index left) - 1]"
      using left by (subst upto_rec1) auto
    also have "[beg + 1..beg + int (left + num_index left) - 1] =
        [beg + 1..beg + int ?m] @ [beg + int ?m + 1..beg + int (left + num_index left) - 1]"
      using left step by (intro upto_split2) auto
    finally show ?thesis by (simp add: algebra_simps)
  qed
  ultimately have "mset (order_index c h i left (num_index left)) = mset [beg..beg + int (left + num_index left) - 1]"
    by (simp add: ac_simps)
  moreover have "index_entry c (dataSectors h ! (6 + i + q div 32)) (q mod 32) = beg + 33 * int (q div 32) + 1 + int (q mod 32)"
    if "q < left" for q
  proof (cases "q < 32")
    case True
    then show ?thesis using first [of q] that idx by simp
  next
    case False
    define p where "p = q - 32"
    have q: "q = p + 32" "p < left - 32" using False that by (auto simp: p_def)
    then have "index_entry c (dataSectors h ! (6 + Suc i + p div 32)) (p mod 32) = beg + 1 + 32 + 33 * int (p div 32) + 1 + int (p mod 32)"
      using later by (auto simp: laid_out_def min_def)
    moreover have "q div 32 = Suc (p div 32)" "q mod 32 = p mod 32" by (simp_all add: q)
    ultimately show ?thesis by (simp add: add.assoc)
  qed
  ultimately show ?thesis by (simp add: laid_out_def)
qed

text \<open>\<open>outside beg n m\<close>: sector \<open>m\<close> is not among the \<open>n\<close> sectors from \<open>beg\<close> on.\<close>

definition outside :: "int \<Rightarrow> nat \<Rightarrow> int \<Rightarrow> bool" where
  "outside beg n m \<longleftrightarrow> m < beg \<or> beg + int n \<le> m"

definition index_done :: "SynchDisk \<Rightarrow> FileHeader \<Rightarrow> nat \<Rightarrow> nat \<Rightarrow> int \<Rightarrow> SynchDisk \<Rightarrow> FileHeader \<Rightarrow> bool" where
  "index_done sd h i left beg sd' h' \<longleftrightarrow> wf_sd sd' \<and> others sd' = others sd \<and> laid_out (content sd') h' i left beg \<and>
     length (dataSectors h') = 11 \<and> (\<forall>t < 6 + i. dataSectors h' ! t = dataSectors h ! t) \<and>
     h' = h\<lparr>dataSectors := dataSectors h'\<rparr> \<and>
     (\<forall>m. valid_sector m \<longrightarrow> outside beg (left + num_index left) m \<longrightarrow> content sd' m = content sd m)"

lemma Allocate_index_conse:
  assumes "wf_sd sd" "length (dataSectors h) = 11" "i + n \<le> 5" "n = num_index left"
    "0 \<le> beg" "beg + int (left + n) \<le> 1024"
  shows "\<exists>sd' h'. Allocate_index heap True (int i) (int left) sd (fm, beg) h =
    Inr (sd', (fm, beg + int (left + n)), h') \<and> index_done sd h i left beg sd' h'"
  using assms
proof (induction n arbitrary: i left sd h beg)
  case 0
  then have "left = 0" using num_index_step by (cases "left = 0") auto
  with 0 show ?case by (simp add: index_done_def laid_out_def Allocate_index.simps)
next
  case (Suc n)
  then have left: "0 < left" "n = num_index (left - 32)" "num_index left = Suc n"
    using num_index_step [of left] by (cases "left = 0"; simp)+
  define m1 where "m1 = min 32 left"
  define ss where "ss = [beg + 1..beg + int m1]"
  define h1 where "h1 = h\<lparr>dataSectors := (dataSectors h)[6 + i := beg]\<rparr>"
  define buf where "buf = ints_bytes ss @ map (heap (int i)) [0..<128 - 4 * m1]"
  have m1: "0 < m1" "m1 \<le> 32" "m1 \<le> left" "m1 + (left - 32) = left" using left(1) by (auto simp: m1_def)
  have lis: "length ss = m1" by (simp add: ss_def)
  have vb: "valid_sector beg" "length buf = 128" using Suc.prems m1 lis left by (auto simp: valid_sector_def buf_def)
  obtain sd1 where sd1: "WriteSector sd beg buf = Inr sd1" "stores sd beg buf sd1"
    using WriteSector_writes [OF Suc.prems(1) vb] by blast
  have "\<exists>sd' h'. Allocate_index heap True (int (Suc i)) (int (left - 32)) sd1 (fm, beg + 1 + int m1) h1 =
      Inr (sd', (fm, beg + 1 + int m1 + int (left - 32 + n)), h') \<and>
      index_done sd1 h1 (Suc i) (left - 32) (beg + 1 + int m1) sd' h'"
    using Suc.prems sd1(2) left m1 by (intro Suc.IH) (auto simp: stores_def h1_def)
  then obtain sd' h' where rec: "Allocate_index heap True (int (Suc i)) (int (left - 32)) sd1 (fm, beg + 1 + int m1) h1 =
      Inr (sd', (fm, beg + 1 + int m1 + int (left - 32 + n)), h')"
    and fin: "index_done sd1 h1 (Suc i) (left - 32) (beg + 1 + int m1) sd' h'" by blast
  have beg': "beg + 1 + int m1 + int (left - 32 + n) = beg + int (left + Suc n)"
    using arg_cong [OF m1(4), of int] by simp
  have n1: "(if int left < 32 then int left else 32) = int m1" by (simp add: m1_def)
  have se: "set_entry h (6 + int i) beg = Inr h1" using Suc.prems by (simp add: set_entry_def h1_def nat_add_distrib)
  have lf: "int left - int m1 = int (left - 32)" using arg_cong [OF m1(4), of int] by simp
  have call: "Allocate_index heap True (int i) (int left) sd (fm, beg) h = Inr (sd', (fm, beg + int (left + Suc n)), h')"
  proof (subst Allocate_index.simps, unfold n1 Let_def)
    have "take_sectors True (nat (int m1)) (fm, beg + 1) = Inr ((fm, beg + 1 + int m1), ss)"
      by (simp add: take_sectors_conse ss_def)
    with left(1) se sd1(1) rec [unfolded beg'] lf
    show "(if 0 < int left then bindE (take_sector True (fm, beg)) (\<lambda>(fb, idx). bindE (set_entry h (6 + int i) idx) (\<lambda>h.
        bindE (take_sectors True (nat (int m1)) fb) (\<lambda>(fb, sectors).
        bindE (WriteSector sd idx (ints_bytes sectors @ map (heap (int i)) [0..<128 - 4 * nat (int m1)])) (\<lambda>sd.
        Allocate_index heap True (int i + 1) (int left - int m1) sd fb h))))
      else Inr (sd, (fm, beg), h)) = Inr (sd', (fm, beg + int (left + Suc n)), h')"
      by (simp add: take_sector_def buf_def add.commute [of 1 "int i"])
  qed
  have idx': "dataSectors h' ! (6 + i) = beg" and cb: "content sd' beg = buf"
    using fin sd1(2) Suc.prems vb by (auto simp: index_done_def h1_def outside_def stores_def)
  have "index_entry (content sd') beg q = beg + 1 + int q" if "q < m1" for q
  proof -
    have "list_all in_int32 ss" using Suc.prems m1 by (auto simp: ss_def list_all_iff in_int32_def)
    then have "index_entry (content sd') beg q = ss ! q"
      using that m1 lis cb by (intro index_entry_written) (auto simp: buf_def)
    then show ?thesis using that by (simp add: ss_def)
  qed
  then have "laid_out (content sd') h' i left beg"
    using fin by (intro laid_out_step [OF left(1) idx']) (auto simp: m1_def index_done_def)
  then have "index_done sd h i left beg sd' h'"
    using fin sd1(2) m1 left(2,3) by (auto simp: index_done_def stores_def h1_def outside_def nth_list_update)
  with call show ?case by blast
qed

section \<open>Allocation of a whole file\<close>

text \<open>All sectors of a file in the order \<^verbatim>\<open>Deallocate\<close> releases them, and their number.\<close>

definition release_order :: "(int \<Rightarrow> byte list) \<Rightarrow> FileHeader \<Rightarrow> int list" where
  "release_order c h = take (min 6 (nat (numSectors h))) (dataSectors h) @
     order_index c h 0 (nat (numSectors h) - 6) (num_index (nat (numSectors h) - 6))"

definition total_sectors :: "nat \<Rightarrow> nat" where
  "total_sectors ns = ns + num_index (ns - 6)"

lemma Deallocate_order:
  assumes "wf_sd sd" "length (dataSectors h) = 11" "0 \<le> numSectors h" "numSectors h \<le> 166"
    "\<And>t. t < num_index (nat (numSectors h) - 6) \<Longrightarrow> valid_sector (dataSectors h ! (6 + t))"
    "release Test Clear (release_order (content sd) h) fm = Inr fm'"
  shows "\<exists>sd'. Deallocate sd h fm = Inr (sd', fm') \<and> keeps sd sd'"
proof (cases "numSectors h \<le> 6")
  case True
  then have "release_order (content sd) h = take (nat (numSectors h)) (dataSectors h)"
    by (simp add: release_order_def min_absorb2)
  with assms True show ?thesis by (simp add: Deallocate_def keeps_def)
next
  case False
  let ?left = "nat (numSectors h) - 6"
  have left: "numSectors h - 6 = int ?left" using False by simp
  have "num_index ?left \<le> 5" using assms(4) by (simp add: num_index_def)
  obtain fm1 where fm1: "release Test Clear (take 6 (dataSectors h)) fm = Inr fm1"
    "release Test Clear (order_index (content sd) h 0 ?left (num_index ?left)) fm1 = Inr fm'"
    using assms(6) False unfolding release_order_def release_append bindE_eq_Inr by (auto simp: min_absorb1)
  have "\<exists>sd'. Deallocate_index (int 0) (int ?left) sd fm1 h = Inr (sd', fm') \<and> keeps sd sd'"
    using assms(1,2,5) fm1(2) \<open>num_index ?left \<le> 5\<close> by (intro Deallocate_index_order) auto
  with False fm1(1) assms(4) show ?thesis by (simp add: Deallocate_def left [symmetric])
qed

text \<open>The layout of a file whose sectors are the run at \<open>beg\<close>.\<close>

definition in_run :: "(int \<Rightarrow> byte list) \<Rightarrow> FileHeader \<Rightarrow> int \<Rightarrow> bool" where
  "in_run c h beg \<longleftrightarrow> length (dataSectors h) = 11 \<and> 0 \<le> numSectors h \<and> numSectors h \<le> 166 \<and>
     take (min 6 (nat (numSectors h))) (dataSectors h) = [beg..beg + int (min 6 (nat (numSectors h))) - 1] \<and>
     laid_out c h 0 (nat (numSectors h) - 6) (beg + 6)"

lemma in_run_order:
  assumes "in_run c h beg"
  shows "mset (release_order c h) = mset [beg..beg + int (total_sectors (nat (numSectors h))) - 1]"
proof (cases "nat (numSectors h) \<le> 6")
  case True
  then show ?thesis using assms by (simp add: in_run_def release_order_def total_sectors_def min_def)
next
  case False
  let ?ns = "nat (numSectors h)" and ?nx = "num_index (nat (numSectors h) - 6)"
  have "[beg..beg + int (total_sectors ?ns) - 1] = [beg..beg + 5] @ [beg + 5 + 1..beg + int (total_sectors ?ns) - 1]"
    using False by (intro upto_split2) (auto simp: total_sectors_def)
  moreover have "beg + 6 + int (?ns - 6 + ?nx) - 1 = beg + int (total_sectors ?ns) - 1"
    using False by (simp add: total_sectors_def of_nat_diff)
  ultimately show ?thesis using assms False
    by (simp add: in_run_def release_order_def laid_out_def min_def add.commute)
qed

lemma in_run_index:
  assumes "in_run c h beg" "t < num_index (nat (numSectors h) - 6)"
  shows "dataSectors h ! (6 + t) \<in> set (release_order c h)"
proof -
  have "dataSectors h ! (6 + i + t) \<in> set (order_index c h i left n)" if "t < n" for i left n
    using that
  proof (induction n arbitrary: i left t)
    case (Suc n)
    then show ?case using Suc.IH [of "t - 1" "Suc i" "left - 32"] by (cases t) (auto simp: ac_simps)
  qed simp
  from this [of _ 0] assms(2) show ?thesis by (simp add: release_order_def)
qed

lemma in_run_block:
  assumes "in_run c h beg" "k < nat (numSectors h)"
  shows "block_at c h k = beg + int (if k < 6 then k else k + 1 + (k - 6) div 32)"
proof (cases "k < 6")
  case True
  let ?m = "min 6 (nat (numSectors h))"
  have k: "k < ?m" using True assms(2) by simp
  have "dataSectors h ! k = take ?m (dataSectors h) ! k" by (rule nth_take [OF k, symmetric])
  also have "\<dots> = [beg..beg + int ?m - 1] ! k" using assms(1) unfolding in_run_def by metis
  also have "\<dots> = beg + int k" using k by (subst nth_upto) auto
  finally show ?thesis using True by (simp add: block_at_def)
next
  case False
  define q where "q = k - 6"
  have q: "k = q + 6" "q < nat (numSectors h) - 6" using False assms(2) by (auto simp: q_def)
  have "int q = int (32 * (q div 32) + q mod 32)" by simp
  then have "33 * int (q div 32) + int (q mod 32) = int q + int (q div 32)"
    unfolding of_nat_add of_nat_mult by simp
  with assms(1) q(2) have "index_entry c (dataSectors h ! (6 + q div 32)) (q mod 32) = beg + 6 + 1 + int q + int (q div 32)"
    by (simp add: in_run_def laid_out_def)
  then show ?thesis by (simp add: block_at_def q(1))
qed

lemma in_run_distinct:
  assumes "in_run c h beg"
  shows "distinct (blocks c h)"
proof -
  have "inj_on (block_at c h) {0..<nat (numSectors h)}"
  proof (rule inj_onI)
    fix k l assume k: "k \<in> {0..<nat (numSectors h)}" "l \<in> {0..<nat (numSectors h)}" "block_at c h k = block_at c h l"
    define f :: "nat \<Rightarrow> nat" where "f k = (if k < 6 then k else k + 1 + (k - 6) div 32)" for k
    have "f k = f l" using k in_run_block [OF assms] by (simp add: f_def)
    moreover have "f a < f b" if "a < b" for a b using that div_le_mono [of "a - 6" "b - 6" 32] by (auto simp: f_def)
    ultimately show "k = l" by (cases k l rule: linorder_cases) (metis less_irrefl)+
  qed
  then show ?thesis by (simp add: blocks_def distinct_map)
qed

lemma in_run_blocks_range:
  assumes "in_run c h beg" "b \<in> set (blocks c h)"
  shows "beg \<le> b \<and> b < beg + int (total_sectors (nat (numSectors h)))"
proof -
  obtain k where k: "k < nat (numSectors h)" "b = block_at c h k" using assms(2) by (auto simp: blocks_def)
  have "(k - 6) div 32 < num_index (nat (numSectors h) - 6)" if "6 \<le> k"
    using that k(1) unfolding num_index_def by (simp add: div_less_iff_less_mult)
  moreover have "0 \<le> numSectors h" using assms(1) by (simp add: in_run_def)
  then have "int k < numSectors h" "0 \<le> numSectors h" using k(1) by linarith+
  ultimately show ?thesis unfolding k(2) in_run_block [OF assms(1) k(1)] by (auto simp: total_sectors_def)
qed

lemma laid_out_0: "laid_out c h i 0 beg"
  by (simp add: laid_out_def)

lemma Allocate_run:
  assumes sd: "wf_sd sd" and fm: "wf_bitmap fm" "numBits fm = 1024" and h: "length (dataSectors h) = 11"
    and sz: "0 \<le> sz" "sz \<le> MaxFileSize" and ns: "divRoundUp sz 128 = int ns" "0 < ns"
    and nsec: "ns \<le> 6 \<Longrightarrow> nsec = 0"
    and run: "run_at (bits fm) (total_sectors ns) i" "\<And>k. k < i \<Longrightarrow> \<not> run_at (bits fm) (total_sectors ns) k" "0 < i"
    and space: "ns \<le> count_list (blit (replicate (total_sectors ns) True) (bits fm) i) False"
  obtains sd' h' fm' where "Allocate nsec heap sd h fm sz = Inr (True, sd', h', fm')"
    "updates fm fm' (blit (replicate (total_sectors ns) True) (bits fm) i)"
    "wf_sd sd'" "others sd' = others sd" "in_run (content sd') h' (int i)" "numSectors h' = int ns" "numBytes h' = sz"
    "\<And>m. valid_sector m \<Longrightarrow> outside (int i) (total_sectors ns) m \<Longrightarrow> content sd' m = content sd m"
proof -
  have le: "ns \<le> 166"
    using divRoundUp_least [of sz 128 166] sz ns(1) by (simp add: MaxFileSize_def)
  have tot: "0 < total_sectors ns" "int i + int (total_sectors ns) \<le> 1024"
    using ns(2) run(1) fm(2) by (auto simp: total_sectors_def run_at_def)
  obtain fm' where fm': "FindN fm (int (total_sectors ns)) = Inr (fm', int i)"
    "updates fm fm' (blit (replicate (total_sectors ns) True) (bits fm) i)"
    using FindN_first_run [OF fm(1) tot(1) run(1,2)] by blast
  have clear: "NumClear fm' = Inr (int (count_list (blit (replicate (total_sectors ns) True) (bits fm) i) False))"
    using fm'(2) NumClear_bits [of fm'] by (simp add: updates_def)
  define h0 where "h0 = h\<lparr>numBytes := sz, numSectors := int ns\<rparr>"
  have u: "u32 (int ns) = int ns" "u32 sz = sz" using le sz by (simp_all add: MaxFileSize_def)
  show ?thesis
  proof (cases "ns \<le> 6")
    case True
    let ?h = "h0\<lparr>dataSectors := blit [int i..int i + int ns - 1] (dataSectors h) 0\<rparr>"
    have "total_sectors ns = ns" using True by (simp add: total_sectors_def)
    then have "Allocate nsec heap sd h fm sz = Inr (True, sd, ?h, fm')"
      using True nsec fm'(1) clear space run(3) sz ns(1) u
      by (simp add: Allocate_def Let_def take_sectors_conse h0_def)
    moreover have "in_run (content sd) ?h (int i)"
      using True h by (simp add: in_run_def h0_def laid_out_0 blit_def)
    ultimately show ?thesis using that fm'(2) sd by (simp add: h0_def)
  next
    case False
    let ?left = "ns - 6"
    define h1 where "h1 = h0\<lparr>dataSectors := blit [int i..5 + int i] (dataSectors h) 0\<rparr>"
    have h1: "length (dataSectors h1) = 11" "numSectors h1 = int ns" "numBytes h1 = sz"
      "take 6 (dataSectors h1) = [int i..5 + int i]" using h by (simp_all add: h1_def h0_def blit_def)
    have nx: "num_index ?left \<le> 5" using le by (simp add: num_index_def)
    have "\<exists>sd' h'. Allocate_index heap True (int 0) (int ?left) sd (fm', int i + 6) h1 =
        Inr (sd', (fm', int i + 6 + int (?left + num_index ?left)), h') \<and> index_done sd h1 0 ?left (int i + 6) sd' h'"
      using sd h1(1) nx tot(2) False by (intro Allocate_index_conse) (auto simp: total_sectors_def)
    then obtain sd' h' where ix: "Allocate_index heap True (int 0) (int ?left) sd (fm', int i + 6) h1 =
        Inr (sd', (fm', int i + 6 + int (?left + num_index ?left)), h')" and dn: "index_done sd h1 0 ?left (int i + 6) sd' h'"
      by blast
    have NSec: "divRoundUp (u32 (int ns - 6)) 32 = int (num_index ?left)"
      using False le num_index_divRoundUp [of ?left] by (simp add: of_nat_diff)
    have tt: "int ns + int (num_index ?left) = int (total_sectors ns)" by (simp add: total_sectors_def)
    have "Allocate nsec heap sd h fm sz = Inr (True, sd', h', fm')"
      using False fm'(1) clear space run(3) sz ns(1) u NSec tt ix
      by (simp add: Allocate_def Let_def take_sectors_conse h1_def h0_def of_nat_diff)
    moreover from dn have eq: "h' = h1\<lparr>dataSectors := dataSectors h'\<rparr>" and l': "length (dataSectors h') = 11"
      by (auto simp: index_done_def)
    have hh: "numSectors h' = int ns" "numBytes h' = sz" "length (dataSectors h') = 11"
      using arg_cong [OF eq, of numSectors] arg_cong [OF eq, of numBytes] h1 l' by simp_all
    have "take 6 (dataSectors h') = [int i..5 + int i]"
      using dn h1 hh by (auto simp: index_done_def intro!: nth_equalityI simp flip: h1(4))
    then have "in_run (content sd') h' (int i)"
      using hh dn False le by (simp add: in_run_def index_done_def)
    moreover note hh
    moreover have "content sd' m = content sd m" if "valid_sector m" "outside (int i) (total_sectors ns) m" for m
      using that dn False by (auto simp: index_done_def outside_def total_sectors_def)
    ultimately show ?thesis using that fm'(2) dn by (simp add: index_done_def)
  qed
qed

text \<open>Releasing a run that was clear before it was marked gives the old bits back.\<close>

lemma release_run:
  assumes fm: "wf_bitmap fm" "numBits fm = 1024" and run: "run_at (bits fm) n i"
    and upd: "updates fm fm' (blit (replicate n True) (bits fm) i)"
    and order: "mset ss = mset [int i..int i + int n - 1]"
  obtains fm'' where "release Test Clear ss fm' = Inr fm''" "wf_bitmap fm''" "bits fm'' = bits fm"
proof -
  have set: "set ss = {int i..int i + int n - 1}" using order by (metis set_mset_mset set_upto)
  have dist: "distinct ss" using order by (metis distinct_upto mset_eq_imp_distinct_iff)
  define ks where "ks = map nat ss"
  have "map (int \<circ> nat) ss = ss" by (rule map_idI) (use set in auto)
  then have ss: "ss = map int ks" by (simp add: ks_def)
  have ks: "set ks = {i..<i + n}"
    unfolding ks_def set_map set by (force simp: image_iff intro!: bexI [of _ "int k" for k])
  have bnd: "i + n \<le> length (bits fm)" "\<And>k. k \<in> set ks \<Longrightarrow> \<not> bits fm ! k"
    using run ks unfolding run_at_def by (auto dest: spec [of _ "k - i" for k] simp: le_iff_add)
  have bits': "bits fm' = set_bits True ks (bits fm)"
    using upd bnd ks by (auto simp: updates_def nth_blit intro!: nth_equalityI)
  have "distinct ks" using dist ss by (simp add: distinct_map)
  moreover have "\<forall>k \<in> set ks. k < length (bits fm') \<and> bits fm' ! k" using bits' bnd ks by auto
  ultimately obtain fm'' where "release Test Clear (map int ks) fm' = Inr fm''" "wf_bitmap fm''"
    "bits fm'' = set_bits False ks (bits fm')"
    using free_map.release_bs [of fm' ks] upd unfolding updates_def by blast
  moreover have "set_bits False ks (bits fm') = bits fm"
    using set_bits_undo [of ks "bits fm" True] bnd ks unfolding bits' by auto
  ultimately show ?thesis using that ss by simp
qed

section \<open>Properties\<close>

text \<open>
  C10. A header written to a valid sector and fetched again is the same header, in every field, and
  no other sector is affected.
\<close>

theorem WriteBack_FetchFrom:
  assumes "wf_sd sd" "valid_sector sec" "wf_hdr h"
  shows "\<exists>sd1 sd2. WriteBack sd h sec = Inr sd1 \<and> FetchFrom sd1 sec = Inr (sd2, h) \<and> wf_sd sd2 \<and>
    (\<forall>m. valid_sector m \<longrightarrow> m \<noteq> sec \<longrightarrow> content sd2 m = content sd m)"
proof -
  obtain sd1 where sd1: "WriteSector sd sec (hdr_bytes h) = Inr sd1" "stores sd sec (hdr_bytes h) sd1"
    using WriteSector_writes [OF assms(1,2) length_hdr_bytes [OF assms(3)]] by blast
  have "wf_sd sd1" using sd1(2) by (simp add: stores_def)
  then obtain sd2 where sd2: "ReadSector sd1 sec = Inr (sd2, content sd1 sec)" "keeps sd1 sd2"
    using ReadSector_reads assms(2) by blast
  moreover have "content sd1 sec = hdr_bytes h" using sd1(2) assms(2) by (simp add: stores_def)
  ultimately show ?thesis using sd1 hdr_of_hdr_bytes [OF assms(3)]
    by (auto simp: WriteBack_def FetchFrom_def keeps_def stores_def)
qed

definition ex_hdr :: FileHeader where
  "ex_hdr = \<lparr>create_time = replicate 25 65, visit_time = replicate 25 66, modify_time = replicate 25 0, hdr_pad = 9,
     numBytes = 300, numSectors = 3, dataSectors = [5, 6, 7, - 1, 0, 0, 0, 0, 0, 0, 1023]\<rparr>"

lemma ex_hdr_wf: "wf_hdr ex_hdr"
  by (simp add: wf_hdr_def ex_hdr_def in_int32_def)

theorem WriteBack_FetchFrom_witness:
  "\<exists>sd sd1 sd2. wf_sd sd \<and> WriteBack sd ex_hdr 77 = Inr sd1 \<and> FetchFrom sd1 77 = Inr (sd2, ex_hdr)"
proof -
  obtain sd where sd: "new_SynchDisk None new_Statistics 0 (\<lambda>_. 10) (\<lambda>_. ex_entry) = Inr sd" "wf_sd sd"
    by (rule ex_SynchDisk)
  from WriteBack_FetchFrom [OF sd(2) _ ex_hdr_wf, of 77] sd(2) show ?thesis
    by (auto simp: valid_sector_def)
qed

text \<open>
  C11. Allocation of a file of at most \<^verbatim>\<open>MaxFileSize\<close> bytes when the bitmap has a long enough run
  behind sector 0 and, behind that, as many free sectors again as the file has: \<^verbatim>\<open>Allocate\<close> succeeds,
  the blocks of the file are pairwise different valid sectors that were free before and are marked
  now, and \<^verbatim>\<open>Deallocate\<close> of the new file gives exactly the old bitmap back. (For a file without
  index sectors this needs the unassigned variable \<^verbatim>\<open>NSecIndex\<close> to be zero.)
\<close>

theorem Allocate_Deallocate:
  assumes "wf_sd sd" "wf_bitmap fm" "numBits fm = 1024" "length (dataSectors h) = 11"
    and "0 \<le> sz" "sz \<le> MaxFileSize" "divRoundUp sz 128 = int ns" "0 < ns" "ns \<le> 6 \<Longrightarrow> nsec = 0"
    and "run_at (bits fm) (total_sectors ns) i" "\<And>k. k < i \<Longrightarrow> \<not> run_at (bits fm) (total_sectors ns) k" "0 < i"
    and "ns \<le> count_list (blit (replicate (total_sectors ns) True) (bits fm) i) False"
  shows "\<exists>sd' h' fm' sd'' fm''. Allocate nsec heap sd h fm sz = Inr (True, sd', h', fm') \<and>
    FileLength h' = sz \<and> length (blocks (content sd') h') = ns \<and> distinct (blocks (content sd') h') \<and>
    (\<forall>b \<in> set (blocks (content sd') h'). valid_sector b \<and> \<not> bits fm ! nat b \<and> bits fm' ! nat b) \<and>
    Deallocate sd' h' fm' = Inr (sd'', fm'') \<and> bits fm'' = bits fm"
proof -
  obtain sd' h' fm' where al: "Allocate nsec heap sd h fm sz = Inr (True, sd', h', fm')"
    "updates fm fm' (blit (replicate (total_sectors ns) True) (bits fm) i)"
    "wf_sd sd'" "in_run (content sd') h' (int i)" "numSectors h' = int ns" "numBytes h' = sz"
    using Allocate_run [OF assms] by metis
  have bnd: "i + total_sectors ns \<le> 1024" using assms(3,10) by (simp add: run_at_def)
  have order: "mset (release_order (content sd') h') = mset [int i..int i + int (total_sectors ns) - 1]"
    using in_run_order [OF al(4)] al(5) by simp
  then have in_order: "set (release_order (content sd') h') = {int i..int i + int (total_sectors ns) - 1}"
    by (metis set_mset_mset set_upto)
  obtain fm'' where fm'': "release Test Clear (release_order (content sd') h') fm' = Inr fm''" "bits fm'' = bits fm"
    using release_run [OF assms(2,3,10) al(2) order] by blast
  have "\<exists>sd''. Deallocate sd' h' fm' = Inr (sd'', fm'') \<and> keeps sd' sd''"
  proof (rule Deallocate_order [OF al(3)])
    show "valid_sector (dataSectors h' ! (6 + t))" if "t < num_index (nat (numSectors h') - 6)" for t
      using in_run_index [OF al(4) that] in_order bnd by (auto simp: valid_sector_def)
  qed (use al(4) fm''(1) in \<open>auto simp: in_run_def\<close>)
  moreover have "valid_sector b \<and> \<not> bits fm ! nat b \<and> bits fm' ! nat b" if "b \<in> set (blocks (content sd') h')" for b
  proof -
    have b: "int i \<le> b" "b < int i + int (total_sectors ns)" using in_run_blocks_range [OF al(4) that] al(5) by auto
    then have n: "i \<le> nat b" "nat b < i + total_sectors ns" "nat b < length (bits fm)" using bnd assms(3) by auto
    then have "nat b - i < total_sectors ns" by linarith
    then have "\<not> bits fm ! (i + (nat b - i))" using assms(10) unfolding run_at_def by blast
    moreover have "bits fm' ! nat b" using al(2) n bnd assms(3) by (simp add: updates_def nth_blit)
    ultimately show ?thesis using n b bnd by (simp add: valid_sector_def)
  qed
  moreover have "length (blocks (content sd') h') = ns" "distinct (blocks (content sd') h')"
    using al(5) in_run_distinct [OF al(4)] by (simp_all add: blocks_def)
  ultimately show ?thesis using al(1,6) fm''(2) by (auto simp: FileLength_def)
qed

definition ex_fm :: BitMap where
  "ex_fm = \<lparr>numBits = 1024, numWords = 32, map_words = 3 # replicate 31 0\<rparr>"

lemma ex_fm_wf: "wf_bitmap ex_fm" "numBits ex_fm = 1024"
  by (simp_all add: ex_fm_def wf_bitmap_def divRoundUp_def BitsInWord_def)

lemma ex_fm_bits: "bits ex_fm = [True, True] @ replicate 1022 False"
proof (rule nth_equalityI)
  fix i assume "i < length (bits ex_fm)"
  then have i: "i < 1024" by (simp add: ex_fm_def)
  then have "i div 32 < 32" by simp
  show "bits ex_fm ! i = ([True, True] @ replicate 1022 False) ! i"
  proof (cases "i < 32")
    case True
    moreover have "bit (3 :: 32 word) i \<longleftrightarrow> i < 2"
      by (auto simp: bit_numeral_rec bit_1_iff split: nat.splits)
    ultimately show ?thesis using i by (auto simp: ex_fm_def nth_bits nth_append less_2_cases_iff)
  next
    case False
    then have "0 < i div 32" by simp
    then show ?thesis using i False \<open>i div 32 < 32\<close> by (simp add: ex_fm_def nth_bits nth_append nth_Cons')
  qed
qed (simp add: ex_fm_def)

lemma count_list_replicate: "count_list (replicate n x) y = (if x = y then n else 0)"
  by (induction n) auto

lemma ex_fm_run:
  assumes "0 < n" "n \<le> 1000"
  shows "run_at (bits ex_fm) n 2" "\<And>k. k < 2 \<Longrightarrow> \<not> run_at (bits ex_fm) n k"
    "count_list (blit (replicate n True) (bits ex_fm) 2) False = 1022 - n"
proof -
  show "run_at (bits ex_fm) n 2" using assms by (simp add: run_at_def ex_fm_bits nth_append)
  show "\<not> run_at (bits ex_fm) n k" if "k < 2" for k
    using assms that by (auto simp: run_at_def ex_fm_bits nth_append less_2_cases_iff intro!: exI [of _ 0])
  show "count_list (blit (replicate n True) (bits ex_fm) 2) False = 1022 - n"
    by (simp add: ex_fm_bits blit_def count_list_replicate)
qed

theorem Allocate_Deallocate_witness:
  "\<exists>sd sd' h' fm' sd'' fm''. wf_sd sd \<and> Allocate 0 (\<lambda>_ _. 0) sd ex_hdr ex_fm 5000 = Inr (True, sd', h', fm') \<and>
     length (blocks (content sd') h') = 40 \<and> distinct (blocks (content sd') h') \<and>
     Deallocate sd' h' fm' = Inr (sd'', fm'') \<and> bits fm'' = bits ex_fm"
proof -
  obtain sd where sd: "new_SynchDisk None new_Statistics 0 (\<lambda>_. 10) (\<lambda>_. ex_entry) = Inr sd" "wf_sd sd"
    by (rule ex_SynchDisk)
  have h: "length (dataSectors ex_hdr) = 11" by (simp add: ex_hdr_def)
  have tot: "total_sectors 40 = 42" by (simp add: total_sectors_def num_index_def)
  have ns: "divRoundUp 5000 128 = int 40" by (simp add: divRoundUp_def)
  note run = ex_fm_run [of 42]
  show ?thesis
    using Allocate_Deallocate [OF sd(2) ex_fm_wf h _ _ ns, of 0 2 "\<lambda>_ _. 0", unfolded tot] run sd(2)
    by (auto simp: MaxFileSize_def)
qed

text \<open>
  Files of two to six sectors read the variable \<^verbatim>\<open>NSecIndex\<close> without ever assigning it. If it
  happens to hold \<^verbatim>\<open>-1\<close>, \<^verbatim>\<open>Allocate\<close> reports success but the last block of the file is a sector
  whose bit it has left as it was: free, so that the next file gets it too, or already in use.
\<close>

theorem Allocate_unassigned_NSecIndex:
  assumes "wf_bitmap fm" "length (dataSectors h) = 11" "divRoundUp sz 128 = int ns" "2 \<le> ns" "ns \<le> 6" "0 \<le> sz"
    and "run_at (bits fm) (ns - 1) i" "\<And>k. k < i \<Longrightarrow> \<not> run_at (bits fm) (ns - 1) k" "0 < i"
    and "ns \<le> count_list (blit (replicate (ns - 1) True) (bits fm) i) False"
  shows "\<exists>h' fm'. Allocate (- 1) heap sd h fm sz = Inr (True, sd, h', fm') \<and>
    block_at (content sd) h' (ns - 1) = int (i + ns - 1) \<and>
    (i + ns - 1 < length (bits fm) \<longrightarrow> bits fm' ! (i + ns - 1) = bits fm ! (i + ns - 1))"
proof -
  have n1: "0 < ns - 1" using assms(4) by simp
  obtain fm' where fm': "FindN fm (int (ns - 1)) = Inr (fm', int i)"
    "updates fm fm' (blit (replicate (ns - 1) True) (bits fm) i)"
    using FindN_first_run [OF assms(1) n1 assms(7,8)] by blast
  have clear: "NumClear fm' = Inr (int (count_list (blit (replicate (ns - 1) True) (bits fm) i) False))"
    using fm'(2) NumClear_bits [of fm'] by (simp add: updates_def)
  let ?h = "h\<lparr>numBytes := sz, numSectors := int ns, dataSectors := blit [int i..int i + int ns - 1] (dataSectors h) 0\<rparr>"
  have sz: "u32 sz = sz" "sz \<le> MaxFileSize"
    using divRoundUp_least [of sz 128 6] assms by (simp_all add: MaxFileSize_def)
  have "Allocate (- 1) heap sd h fm sz = Inr (True, sd, ?h, fm')"
    using assms fm'(1) clear sz by (simp add: Allocate_def Let_def take_sectors_conse of_nat_diff)
  moreover have "ns - 1 < 6" using assms(4,5) by linarith
  then have "block_at (content sd) ?h (ns - 1) = int (i + ns - 1)"
    using assms(2,4) by (simp add: block_at_def blit_def nth_append of_nat_diff)
  moreover have "bits fm' ! (i + ns - 1) = bits fm ! (i + ns - 1)" if "i + ns - 1 < length (bits fm)"
    using fm'(2) that assms(4,7) by (simp add: updates_def nth_blit run_at_def)
  ultimately show ?thesis by blast
qed

theorem Allocate_unassigned_NSecIndex_witness:
  "\<exists>sd h' fm'. Allocate (- 1) (\<lambda>_ _. 0) sd ex_hdr ex_fm 300 = Inr (True, sd, h', fm') \<and>
    block_at (content sd) h' 2 = 4 \<and> \<not> bits fm' ! 4"
proof -
  have h: "length (dataSectors ex_hdr) = 11" "divRoundUp 300 128 = int 3" by (simp_all add: ex_hdr_def divRoundUp_def)
  from Allocate_unassigned_NSecIndex [OF ex_fm_wf(1) h, of 2 "\<lambda>_ _. 0"] ex_fm_run [of 2]
  show ?thesis by (auto simp: ex_fm_bits nth_append)
qed

end
