(* ===== verification/Open_File.thy ===== *)
theory Open_File
  imports File_Header
begin

text \<open>
  Open files, \<^verbatim>\<open>code/filesys/openfile.h\<close> and \<^verbatim>\<open>openfile.cc\<close>: byte-wise reading and writing on
  top of sectors. \<open>ReadAt\<close> and the part of \<^verbatim>\<open>WriteAt\<close> that works inside the length of the file are
  here; the part that extends the file calls back into the file system and is in the theory of the
  file system. Both are shown to read and update the file as one array of bytes.
\<close>

section \<open>The environment\<close>

text \<open>
  What the code gets from outside: the strings of the C library's clock (\<open>asctime n\<close> is what the
  \<open>n\<close>-th call returns) and the contents of fresh memory (\<open>fresh n k\<close> is byte \<open>k\<close> of the \<open>n\<close>-th
  allocation).
\<close>

record FsEnv =
  synchDisk :: SynchDisk
  asctime :: "nat \<Rightarrow> byte list"
  time_calls :: nat
  fresh :: "nat \<Rightarrow> nat \<Rightarrow> byte"
  allocs :: nat

record OpenFile =
  hdr :: FileHeader
  seekPosition :: int
  headerSector :: int

definition now :: "FsEnv \<Rightarrow> byte list" where
  "now e = asctime e (time_calls e)"

definition next_time :: "FsEnv \<Rightarrow> FsEnv" where
  "next_time e = e\<lparr>time_calls := time_calls e + 1\<rparr>"

definition new_bytes :: "FsEnv \<Rightarrow> nat \<Rightarrow> FsEnv \<times> byte list" where
  "new_bytes e n = (e\<lparr>allocs := allocs e + 1\<rparr>, map (fresh e (allocs e)) [0..<n])"

text \<open>A routine of the disk inside the environment.\<close>

definition on_disk :: "(SynchDisk \<Rightarrow> SynchDisk result) \<Rightarrow> FsEnv \<Rightarrow> FsEnv result" where
  "on_disk f e = bindE (f (synchDisk e)) (\<lambda>sd. Inr (e\<lparr>synchDisk := sd\<rparr>))"

section \<open>The class\<close>

definition new_OpenFile :: "FsEnv \<Rightarrow> int \<Rightarrow> (FsEnv \<times> OpenFile) result" where
  "new_OpenFile e sec =
     bindE (Disk_Open (synchDisk e) sec) (\<lambda>sd.
     bindE (FetchFrom sd sec) (\<lambda>(sd, h).
     Inr (e\<lparr>synchDisk := sd\<rparr>, \<lparr>hdr = h, seekPosition = 0, headerSector = sec\<rparr>)))"

definition delete_OpenFile :: "FsEnv \<Rightarrow> OpenFile \<Rightarrow> FsEnv result" where
  "delete_OpenFile e f = on_disk (\<lambda>sd. Disk_Close sd (headerSector f)) e"

definition Seek :: "OpenFile \<Rightarrow> int \<Rightarrow> OpenFile" where
  "Seek f position = f\<lparr>seekPosition := position\<rparr>"

definition Length :: "OpenFile \<Rightarrow> int" where
  "Length f = FileLength (hdr f)"

definition read_sectors :: "FileHeader \<Rightarrow> int list \<Rightarrow> SynchDisk \<Rightarrow> (SynchDisk \<times> byte list) result" where
  "read_sectors h is sd = foldE (\<lambda>i (sd, buf).
     bindE (ByteToSector sd h (i * SectorSize)) (\<lambda>(sd, sec).
     bindE (ReadSector sd sec) (\<lambda>(sd, bs). Inr (sd, buf @ bs)))) is (sd, [])"

text \<open>Copying \<open>n\<close> bytes from offset \<open>off\<close> of an array, and into it.\<close>

definition copy_out :: "byte list \<Rightarrow> int \<Rightarrow> int \<Rightarrow> byte list result" where
  "copy_out buf off n = (if 0 \<le> off \<and> 0 \<le> n \<and> off + n \<le> int (length buf)
     then Inr (slice (nat off) (nat n) buf) else Inl BadAccess)"

definition copy_in :: "byte list \<Rightarrow> byte list \<Rightarrow> int \<Rightarrow> byte list result" where
  "copy_in bs buf off = (if 0 \<le> off \<and> off + int (length bs) \<le> int (length buf)
     then Inr (blit bs buf (nat off)) else Inl BadAccess)"

text \<open>\<^verbatim>\<open>ReadAt\<close>: the bytes read; their number is the result of the C++ function.\<close>

definition ReadAt :: "FsEnv \<Rightarrow> OpenFile \<Rightarrow> int \<Rightarrow> int \<Rightarrow> (FsEnv \<times> OpenFile \<times> byte list) result" where
  "ReadAt e f n position =
     (let fileLength = FileLength (hdr f) in
      if n \<le> 0 \<or> position \<ge> fileLength then Inr (e, f, [])
      else
       let n = (if position + n > fileLength then fileLength - position else n);
           firstSector = divRoundDown position SectorSize;
           lastSector = divRoundDown (position + n - 1) SectorSize in
       bindE (StartRead (synchDisk e) (headerSector f)) (\<lambda>sd.
       bindE (read_sectors (hdr f) [firstSector..lastSector] sd) (\<lambda>(sd, buf).
       bindE (EndRead sd (headerSector f)) (\<lambda>sd.
       bindE (copy_out buf (position - firstSector * SectorSize) n) (\<lambda>into.
       let h = set_visit_time (now e) (hdr f) in
       bindE (WriteBack sd h (headerSector f)) (\<lambda>sd.
       Inr (next_time (e\<lparr>synchDisk := sd\<rparr>), f\<lparr>hdr := h\<rparr>, into)))))))"

definition Read :: "FsEnv \<Rightarrow> OpenFile \<Rightarrow> int \<Rightarrow> (FsEnv \<times> OpenFile \<times> byte list) result" where
  "Read e f n = bindE (ReadAt e f n (seekPosition f)) (\<lambda>(e, f, bs).
     Inr (e, f\<lparr>seekPosition := seekPosition f + int (length bs)\<rparr>, bs))"

definition write_sectors :: "FileHeader \<Rightarrow> int \<Rightarrow> byte list \<Rightarrow> int list \<Rightarrow> SynchDisk \<Rightarrow> SynchDisk result" where
  "write_sectors h firstSector buf is sd = foldE (\<lambda>i sd.
     bindE (ByteToSector sd h (i * SectorSize)) (\<lambda>(sd, sec).
     WriteSector sd sec (slice (nat ((i - firstSector) * SectorSize)) (nat SectorSize) buf))) is sd"

text \<open>\<^verbatim>\<open>WriteAt\<close> from the point where the length of the file is settled (line 176) on.\<close>

definition WriteAt_inside :: "FsEnv \<Rightarrow> OpenFile \<Rightarrow> byte list \<Rightarrow> int \<Rightarrow> int \<Rightarrow> (FsEnv \<times> OpenFile \<times> int) result" where
  "WriteAt_inside e f from n position =
     (let firstSector = divRoundDown position SectorSize;
          lastSector = divRoundDown (position + n - 1) SectorSize;
          num = 1 + lastSector - firstSector;
          (e, buf) = new_bytes e (nat (num * SectorSize));
          firstAligned = (position = firstSector * SectorSize);
          lastAligned = (position + n = (lastSector + 1) * SectorSize) in
      bindE (if \<not> firstAligned
             then bindE (ReadAt e f SectorSize (firstSector * SectorSize)) (\<lambda>(e, f, bs).
                  bindE (copy_in bs buf 0) (\<lambda>buf. Inr (e, f, buf)))
             else Inr (e, f, buf)) (\<lambda>(e, f, buf).
      bindE (if \<not> lastAligned \<and> (firstSector \<noteq> lastSector \<or> firstAligned)
             then bindE (ReadAt e f SectorSize (lastSector * SectorSize)) (\<lambda>(e, f, bs).
                  bindE (copy_in bs buf ((lastSector - firstSector) * SectorSize)) (\<lambda>buf. Inr (e, f, buf)))
             else Inr (e, f, buf)) (\<lambda>(e, f, buf).
      bindE (copy_out from 0 n) (\<lambda>bs.
      bindE (copy_in bs buf (position - firstSector * SectorSize)) (\<lambda>buf.
      bindE (StartWrite (synchDisk e) (headerSector f)) (\<lambda>sd.
      bindE (write_sectors (hdr f) firstSector buf [firstSector..lastSector] sd) (\<lambda>sd.
      bindE (EndWrite sd (headerSector f)) (\<lambda>sd.
      let h = set_visit_time (now e) (hdr f);
          e = next_time e;
          h = set_modify_time (now e) h;
          e = next_time e in
      bindE (WriteBack sd h (headerSector f)) (\<lambda>sd.
      Inr (e\<lparr>synchDisk := sd\<rparr>, f\<lparr>hdr := h\<rparr>, n))))))))))"

section \<open>A file as an array of bytes\<close>

definition file_byte :: "(int \<Rightarrow> byte list) \<Rightarrow> FileHeader \<Rightarrow> nat \<Rightarrow> byte" where
  "file_byte c h j = c (block_at c h (j div 128)) ! (j mod 128)"

definition file_bytes :: "(int \<Rightarrow> byte list) \<Rightarrow> FileHeader \<Rightarrow> byte list" where
  "file_bytes c h = map (file_byte c h) [0..<nat (numBytes h)]"

text \<open>The index sectors of a file, and all its sectors; they are those that are released with it.\<close>

definition index_sectors :: "FileHeader \<Rightarrow> int list" where
  "index_sectors h = map (\<lambda>t. dataSectors h ! (6 + t)) [0..<num_index (nat (numSectors h) - 6)]"

definition all_sectors :: "(int \<Rightarrow> byte list) \<Rightarrow> FileHeader \<Rightarrow> int list" where
  "all_sectors c h = index_sectors h @ blocks c h"

lemma mset_order_index:
  "n = num_index left \<Longrightarrow> mset (order_index c h i left n) =
     mset (map (\<lambda>t. dataSectors h ! (6 + i + t)) [0..<n]) +
     mset (map (\<lambda>q. index_entry c (dataSectors h ! (6 + i + q div 32)) (q mod 32)) [0..<left])"
proof (induction n arbitrary: i left)
  case 0
  then show ?case using num_index_step [of left] by (cases "left = 0") auto
next
  case (Suc n)
  then have left: "0 < left" by (cases "left = 0") auto
  then have n: "n = num_index (left - 32)" using Suc.prems num_index_step [of left] by simp
  let ?e = "\<lambda>q. index_entry c (dataSectors h ! (6 + i + q div 32)) (q mod 32)"
  have "[0..<left] = [0..<min 32 left] @ [min 32 left..<left]"
    using upt_add_eq_append [of 0 "min 32 left" "left - min 32 left"] by simp
  then have e1: "map ?e [0..<left] = map ?e [0..<min 32 left] @ map ?e [min 32 left..<left]"
    by (simp only: map_append)
  have e2: "map ?e [0..<min 32 left] = map (index_entry c (dataSectors h ! (6 + i))) [0..<min 32 left]"
    by (intro map_cong) auto
  have e3: "map ?e [min 32 left..<left] =
      map (\<lambda>q. index_entry c (dataSectors h ! (6 + Suc i + q div 32)) (q mod 32)) [0..<left - 32]"
  proof (intro nth_equalityI)
    fix q assume "q < length (map ?e [min 32 left..<left])"
    then have q: "32 \<le> left" "q < left - 32" by (auto simp: min_def split: if_splits)
    moreover have "(32 + q) div 32 = Suc (q div 32)" "(32 + q) mod 32 = q mod 32" by simp_all
    ultimately show "map ?e [min 32 left..<left] ! q =
        map (\<lambda>q. index_entry c (dataSectors h ! (6 + Suc i + q div 32)) (q mod 32)) [0..<left - 32] ! q"
      by (simp add: min_absorb1 add.assoc)
  qed (simp add: min_def)
  have e4: "map (\<lambda>t. dataSectors h ! (6 + i + t)) [0..<Suc n] =
      dataSectors h ! (6 + i) # map (\<lambda>t. dataSectors h ! (6 + Suc i + t)) [0..<n]"
    by (intro nth_equalityI) (auto simp: nth_Cons' ac_simps simp del: upt_Suc)
  have "A + add_mset a (B + C) = add_mset a B + (A + C)" for A B C :: "int multiset" and a by simp
  then show ?case unfolding order_index.simps e1 e2 e3 e4 mset_append mset.simps Suc.IH [OF n, of "Suc i"] .
qed

lemma mset_release_order:
  assumes "length (dataSectors h) = 11"
  shows "mset (release_order c h) = mset (all_sectors c h)"
proof -
  let ?ns = "nat (numSectors h)"
  have "blocks c h = map (block_at c h) [0..<min 6 ?ns] @ map (block_at c h) [min 6 ?ns..<?ns]"
    using upt_add_eq_append [of 0 "min 6 ?ns" "?ns - min 6 ?ns"] by (simp add: blocks_def flip: map_append)
  moreover have "map (block_at c h) [0..<min 6 ?ns] = take (min 6 ?ns) (dataSectors h)"
    using assms by (intro nth_equalityI) (auto simp: block_at_def)
  moreover have "map (block_at c h) [min 6 ?ns..<?ns] =
      map (\<lambda>q. index_entry c (dataSectors h ! (6 + 0 + q div 32)) (q mod 32)) [0..<?ns - 6]"
    by (intro nth_equalityI) (auto simp: block_at_def min_def)
  ultimately show ?thesis using mset_order_index [OF refl, of c h 0 "?ns - 6"]
    by (simp add: release_order_def all_sectors_def index_sectors_def ac_simps)
qed

text \<open>
  A file is well formed when its sectors are valid and pairwise different, also from the sector of
  its header, and there are enough of them for its bytes.
\<close>

definition wf_file :: "(int \<Rightarrow> byte list) \<Rightarrow> FileHeader \<Rightarrow> int \<Rightarrow> bool" where
  "wf_file c h hs \<longleftrightarrow> wf_hdr h \<and> 0 \<le> numBytes h \<and> numBytes h \<le> 128 * numSectors h \<and> numSectors h \<le> 166 \<and>
     distinct (hs # all_sectors c h) \<and> list_all valid_sector (hs # all_sectors c h)"

lemma wf_fileD:
  assumes "wf_file c h hs"
  shows "length (dataSectors h) = 11" "valid_sector hs" "0 \<le> numSectors h" "numSectors h \<le> 166"
    "\<And>k. k < nat (numSectors h) \<Longrightarrow> valid_sector (block_at c h k) \<and> block_at c h k \<noteq> hs"
    "\<And>k. 6 \<le> k \<Longrightarrow> k < nat (numSectors h) \<Longrightarrow> dataSectors h ! (6 + (k - 6) div 32) \<in> set (index_sectors h)"
    "\<And>s. s \<in> set (index_sectors h) \<Longrightarrow> valid_sector s \<and> s \<noteq> hs \<and> s \<notin> set (blocks c h)"
    "\<And>k l. k < nat (numSectors h) \<Longrightarrow> l < nat (numSectors h) \<Longrightarrow> block_at c h k = block_at c h l \<Longrightarrow> k = l"
proof -
  show "length (dataSectors h) = 11" "valid_sector hs" "0 \<le> numSectors h" "numSectors h \<le> 166"
    using assms by (auto simp: wf_file_def wf_hdr_def)
  show "valid_sector (block_at c h k) \<and> block_at c h k \<noteq> hs" if "k < nat (numSectors h)" for k
    using assms that by (auto simp: wf_file_def all_sectors_def blocks_def list_all_iff)
  show "dataSectors h ! (6 + (k - 6) div 32) \<in> set (index_sectors h)" if "6 \<le> k" "k < nat (numSectors h)" for k
  proof -
    have "(k - 6) div 32 < num_index (nat (numSectors h) - 6)"
      using that unfolding num_index_def by (simp add: div_less_iff_less_mult)
    then show ?thesis by (auto simp: index_sectors_def)
  qed
  show "valid_sector s \<and> s \<noteq> hs \<and> s \<notin> set (blocks c h)" if "s \<in> set (index_sectors h)" for s
    using assms that by (auto simp: wf_file_def all_sectors_def list_all_iff)
  have "distinct (blocks c h)" using assms by (simp add: wf_file_def all_sectors_def)
  then show "k = l" if "k < nat (numSectors h)" "l < nat (numSectors h)" "block_at c h k = block_at c h l" for k l
    using that by (auto simp: blocks_def distinct_map inj_on_def)
qed

text \<open>Blocks and bytes depend on the contents of the file's own sectors only.\<close>

lemma block_at_cong:
  assumes "wf_file c h hs" "\<And>s. s \<in> set (index_sectors h) \<Longrightarrow> c' s = c s" "k < nat (numSectors h)"
    "dataSectors h' = dataSectors h"
  shows "block_at c' h' k = block_at c h k"
  using assms(2) wf_fileD(6) [OF assms(1), of k] assms(3,4) by (auto simp: block_at_def index_entry_def)

section \<open>Reading\<close>

lemma file_byte_cong:
  assumes "wf_file c h hs" "\<And>s. s \<in> set (all_sectors c h) \<Longrightarrow> c' s = c s" "dataSectors h' = dataSectors h"
    "j < 128 * nat (numSectors h)"
  shows "file_byte c' h' j = file_byte c h j"
proof -
  have k: "j div 128 < nat (numSectors h)" using assms(4) by (simp add: div_less_iff_less_mult mult.commute)
  have "block_at c' h' (j div 128) = block_at c h (j div 128)"
    using assms k by (intro block_at_cong) (auto simp: all_sectors_def)
  moreover have "block_at c h (j div 128) \<in> set (all_sectors c h)" using k by (auto simp: all_sectors_def blocks_def)
  ultimately show ?thesis using assms(2) by (simp add: file_byte_def)
qed

lemma wf_file_cong:
  assumes "wf_file c h hs" "\<And>s. s \<in> set (index_sectors h) \<Longrightarrow> c' s = c s"
    "wf_hdr h'" "numBytes h' = numBytes h" "numSectors h' = numSectors h" "dataSectors h' = dataSectors h"
  shows "wf_file c' h' hs"
proof -
  have "blocks c' h' = blocks c h"
    unfolding blocks_def using assms(5) block_at_cong [OF assms(1,2) _ assms(6)] by (intro map_cong) auto
  then show ?thesis using assms by (simp add: wf_file_def all_sectors_def index_sectors_def)
qed

lemma keeps_wf_file:
  assumes "keeps sd sd'" "wf_file (content sd) h hs"
  shows "wf_file (content sd') h hs"
    "j < 128 * nat (numSectors h) \<Longrightarrow> file_byte (content sd') h j = file_byte (content sd) h j"
proof -
  have c: "content sd' s = content sd s" if "s \<in> set (all_sectors (content sd) h)" for s
    using assms that by (auto simp: keeps_def wf_file_def list_all_iff)
  show "wf_file (content sd') h hs" using assms(2) c by (intro wf_file_cong [OF assms(2)]) (auto simp: all_sectors_def wf_file_def)
  show "j < 128 * nat (numSectors h) \<Longrightarrow> file_byte (content sd') h j = file_byte (content sd) h j"
    using c by (intro file_byte_cong [OF assms(2)]) auto
qed

text \<open>One sector of a file, read through the header.\<close>

lemma read_block:
  assumes sd: "wf_sd sd" and f: "wf_file (content sd) h hs" and k: "k < nat (numSectors h)"
  obtains sd1 where "ByteToSector sd h (int k * 128) = Inr (sd1, block_at (content sd) h k)" "keeps sd sd1"
proof -
  note w = wf_fileD [OF f]
  have "k < 166" using k w(4) by simp
  moreover have "valid_sector (dataSectors h ! (6 + (k - 6) div 32))" if "6 \<le> k" using w(6) [OF that k] w(7) by blast
  ultimately show ?thesis using ByteToSector_block [OF sd w(1), of k "int k * 128"] that by auto
qed

lemma read_sectors_bytes:
  assumes sd: "wf_sd sd" and f: "wf_file (content sd) h hs" and ab: "a \<le> b" "b \<le> nat (numSectors h)"
  obtains sd' buf where "read_sectors h [int a..int b - 1] sd = Inr (sd', buf)" "keeps sd sd'"
    "length buf = 128 * (b - a)" "\<And>t. t < 128 * (b - a) \<Longrightarrow> buf ! t = file_byte (content sd) h (128 * a + t)"
proof -
  have "\<exists>sd' buf. read_sectors h [int a..int b - 1] sd = Inr (sd', buf) \<and> keeps sd sd' \<and> length buf = 128 * (b - a) \<and>
      (\<forall>t < 128 * (b - a). buf ! t = file_byte (content sd) h (128 * a + t))"
    using ab
  proof (induction b rule: dec_induct)
    case base
    then show ?case using sd by (auto simp: read_sectors_def keeps_def)
  next
    case (step b)
    then obtain sd1 buf where s1: "read_sectors h [int a..int b - 1] sd = Inr (sd1, buf)" "keeps sd sd1" "length buf = 128 * (b - a)"
      "\<forall>t < 128 * (b - a). buf ! t = file_byte (content sd) h (128 * a + t)" by auto
    have f1: "wf_sd sd1" "wf_file (content sd1) h hs" using s1(2) keeps_wf_file [OF s1(2) f] by (auto simp: keeps_def)
    have b: "b < nat (numSectors h)" using step.prems by simp
    obtain sd2 where s2: "ByteToSector sd1 h (int b * 128) = Inr (sd2, block_at (content sd1) h b)" "keeps sd1 sd2"
      using read_block [OF f1 b] by blast
    have v: "valid_sector (block_at (content sd1) h b)" using wf_fileD(5) [OF f1(2) b] by blast
    have wf2: "wf_sd sd2" using s2(2) by (simp add: keeps_def)
    obtain sd3 where s3: "ReadSector sd2 (block_at (content sd1) h b) = Inr (sd3, content sd2 (block_at (content sd1) h b))"
      "keeps sd2 sd3" using ReadSector_reads [OF wf2 v] by blast
    let ?bs = "content sd2 (block_at (content sd1) h b)"
    have bs: "?bs = content sd1 (block_at (content sd1) h b)" "length ?bs = 128"
      using s2(2) v length_content [OF wf2 v] by (auto simp: keeps_def)
    have "[int a..int (Suc b) - 1] = [int a..int b - 1] @ [int b]"
      using step.hyps(1) upto_rec2 [of "int a" "int b"] by simp
    then have "read_sectors h [int a..int (Suc b) - 1] sd = Inr (sd3, buf @ ?bs)"
      using s1(1) s2(1) s3(1) by (simp add: read_sectors_def foldE_append)
    moreover have "(buf @ ?bs) ! t = file_byte (content sd) h (128 * a + t)" if "t < 128 * (Suc b - a)" for t
    proof (cases "t < 128 * (b - a)")
      case True
      then show ?thesis using s1(3,4) by (simp add: nth_append)
    next
      case False
      define r where "r = t - 128 * (b - a)"
      have r: "128 * a + t = 128 * b + r" "r < 128" using False that step.hyps(1) by (auto simp: r_def algebra_simps)
      then have "file_byte (content sd) h (128 * a + t) = content sd1 (block_at (content sd1) h b) ! r"
        using keeps_wf_file(2) [OF s1(2) f, of "128 * b + r"] b by (simp add: file_byte_def)
      then show ?thesis using False s1(3) bs by (simp add: nth_append r_def)
    qed
    moreover have "keeps sd sd3" using keeps_trans s1(2) s2(2) s3(2) by blast
    ultimately show ?case using s1(3) bs(2) step.hyps(1) by (auto simp: Suc_diff_le)
  qed
  then show ?thesis using that by blast
qed

text \<open>
  An open file at rest: a consistent disk, no reader or writer inside, and a well-formed file. A
  routine that leaves the file as it was may have changed the time stamps of its header.
\<close>

definition open_ok :: "FsEnv \<Rightarrow> OpenFile \<Rightarrow> bool" where
  "open_ok e f \<longleftrightarrow> wf_sd (synchDisk e) \<and> rw_idle (headerSector f) (synchDisk e) \<and>
     wf_file (content (synchDisk e)) (hdr f) (headerSector f)"

definition same_shape :: "FsEnv \<Rightarrow> OpenFile \<Rightarrow> FsEnv \<Rightarrow> OpenFile \<Rightarrow> bool" where
  "same_shape e f e' f' \<longleftrightarrow> others (synchDisk e') = others (synchDisk e) \<and> asctime e' = asctime e \<and> fresh e' = fresh e \<and>
     headerSector f' = headerSector f \<and> seekPosition f' = seekPosition f \<and> numBytes (hdr f') = numBytes (hdr f) \<and>
     numSectors (hdr f') = numSectors (hdr f) \<and> dataSectors (hdr f') = dataSectors (hdr f)"

definition same_file :: "FsEnv \<Rightarrow> OpenFile \<Rightarrow> FsEnv \<Rightarrow> OpenFile \<Rightarrow> bool" where
  "same_file e f e' f' \<longleftrightarrow> open_ok e' f' \<and> same_shape e f e' f' \<and>
     (\<forall>s. valid_sector s \<longrightarrow> s \<noteq> headerSector f \<longrightarrow> content (synchDisk e') s = content (synchDisk e) s)"

lemma same_shape_trans: "same_shape e f e1 f1 \<Longrightarrow> same_shape e1 f1 e2 f2 \<Longrightarrow> same_shape e f e2 f2"
  by (simp add: same_shape_def)

lemma rw_idle_others: "others s' = others s \<Longrightarrow> rw_idle h s' = rw_idle h s"
  by (simp add: rw_idle_def others_def)

lemma content_eqI: "disk s' = disk s \<Longrightarrow> CacheTable s' = CacheTable s \<Longrightarrow> content s' = content s"
  by (intro ext) (simp add: content_def split: option.split)

lemma StartRead_EndRead:
  assumes "rw_idle h sd" "wf_sd sd"
  obtains sd1 where "StartRead sd h = Inr sd1" "wf_sd sd1" "content sd1 = content sd"
    "\<And>sd2. wf_sd sd2 \<Longrightarrow> others sd2 = others sd1 \<Longrightarrow>
       \<exists>sd3. EndRead sd2 h = Inr sd3 \<and> wf_sd sd3 \<and> others sd3 = others sd \<and> content sd3 = content sd2"
proof -
  let ?h = "nat h"
  let ?s = "tick (sd\<lparr>readerCnt := (readerCnt sd)[?h := 1], RW := (RW sd)[?h := 0], rCntMutex := (rCntMutex sd)[?h := 1]\<rparr>)"
  have 1: "StartRead sd h = Inr ?s" using assms(1) by (auto simp: StartRead_def rw_defs)
  have 2: "wf_sd ?s" "content ?s = content sd" using assms(2) by (auto simp: wf_sd_def tick_def intro: content_eqI)
  have 3: "\<exists>sd3. EndRead sd2 h = Inr sd3 \<and> wf_sd sd3 \<and> others sd3 = others sd \<and> content sd3 = content sd2"
    if "wf_sd sd2" "others sd2 = others ?s" for sd2
  proof -
    let ?t = "tick (sd2\<lparr>readerCnt := (readerCnt sd2)[?h := 0], RW := (RW sd2)[?h := 1], rCntMutex := (rCntMutex sd2)[?h := 1]\<rparr>)"
    have "EndRead sd2 h = Inr ?t" using that(2) assms(1) by (auto simp: EndRead_def rw_defs others_def)
    moreover have "wf_sd ?t" "content ?t = content sd2" using that(1) by (auto simp: wf_sd_def tick_def intro: content_eqI)
    moreover have "others ?t = others sd"
    proof -
      have "(readerCnt sd)[?h := 0] = readerCnt sd" "(RW sd)[?h := 1] = RW sd" "(rCntMutex sd)[?h := 1] = rCntMutex sd"
        using assms(1) by (simp_all add: rw_idle_def list_update_same_conv)
      then show ?thesis using that(2) by (simp add: others_def tick_def)
    qed
    ultimately show ?thesis by blast
  qed
  show ?thesis using that [OF 1 2] 3 by blast
qed

lemma StartWrite_EndWrite:
  assumes "rw_idle h sd" "wf_sd sd"
  obtains sd1 where "StartWrite sd h = Inr sd1" "wf_sd sd1" "content sd1 = content sd"
    "\<And>sd2. wf_sd sd2 \<Longrightarrow> others sd2 = others sd1 \<Longrightarrow>
       \<exists>sd3. EndWrite sd2 h = Inr sd3 \<and> wf_sd sd3 \<and> others sd3 = others sd \<and> content sd3 = content sd2"
proof -
  let ?h = "nat h"
  let ?s = "tick (sd\<lparr>RW := (RW sd)[?h := 0]\<rparr>)"
  have 1: "StartWrite sd h = Inr ?s" using assms(1) by (auto simp: StartWrite_def rw_defs)
  have 2: "wf_sd ?s" "content ?s = content sd" using assms(2) by (auto simp: wf_sd_def tick_def intro: content_eqI)
  have 3: "\<exists>sd3. EndWrite sd2 h = Inr sd3 \<and> wf_sd sd3 \<and> others sd3 = others sd \<and> content sd3 = content sd2"
    if "wf_sd sd2" "others sd2 = others ?s" for sd2
  proof -
    let ?t = "tick (sd2\<lparr>RW := (RW sd2)[?h := 1]\<rparr>)"
    have "EndWrite sd2 h = Inr ?t" using that(2) assms(1) by (auto simp: EndWrite_def rw_defs others_def)
    moreover have "wf_sd ?t" "content ?t = content sd2" using that(1) by (auto simp: wf_sd_def tick_def intro: content_eqI)
    moreover have "others ?t = others sd"
    proof -
      have "(RW sd)[?h := 1] = RW sd" using assms(1) by (simp add: rw_idle_def list_update_same_conv)
      then show ?thesis using that(2) by (simp add: others_def tick_def)
    qed
    ultimately show ?thesis by blast
  qed
  show ?thesis using that [OF 1 2] 3 by blast
qed

lemma length_time_field [simp]: "length (time_field t) = 25"
  by (simp add: time_field_def)

lemma length_file_bytes [simp]: "length (file_bytes c h) = nat (numBytes h)"
  by (simp add: file_bytes_def)

lemma nth_file_bytes [simp]: "j < nat (numBytes h) \<Longrightarrow> file_bytes c h ! j = file_byte c h j"
  by (simp add: file_bytes_def)

text \<open>Reading through a handle whose header is not touched by the write-back of the header.\<close>

lemma WriteBack_stores:
  assumes "wf_sd sd" "valid_sector hs" "wf_hdr h"
  obtains sd' where "WriteBack sd h hs = Inr sd'" "stores sd hs (hdr_bytes h) sd'"
  using WriteSector_writes [OF assms(1,2) length_hdr_bytes [OF assms(3)]] that by (auto simp: WriteBack_def)

lemma divRoundDown_int: "divRoundDown (int a) (int b) = int (a div b)"
  by (cases "a = 0") (auto simp: divRoundDown_def c_div_def zdiv_int)

text \<open>The sectors \<open>a\<close> up to \<open>b\<close> that \<open>m\<close> bytes from \<open>p\<close> on lie in.\<close>

lemma sector_span:
  assumes "0 < m" "p + m \<le> L" "L \<le> 128 * ns" "a = p div 128" "b = Suc ((p + m - 1) div 128)"
  shows "a < b" "b \<le> ns" "128 * (b - 1) < p + m" "p + m \<le> 128 * b" "p = 128 * a + p mod 128"
    "divRoundDown (int p) 128 = int a" "divRoundDown (int p + int m - 1) 128 = int b - 1"
proof -
  have "p + m - 1 < 128 * b" unfolding assms(5) by (simp add: dividend_less_times_div)
  moreover show p: "p = 128 * a + p mod 128" by (simp add: assms(4))
  moreover have "128 * (b - 1) \<le> p + m - 1" by (simp add: assms(5))
  ultimately show "a < b" "b \<le> ns" "128 * (b - 1) < p + m" "p + m \<le> 128 * b" using assms(1-3) by linarith+
  show "divRoundDown (int p) 128 = int a" "divRoundDown (int p + int m - 1) 128 = int b - 1"
    using divRoundDown_int [of p 128] divRoundDown_int [of "p + m - 1" 128] assms by (simp_all add: of_nat_diff)
qed

lemma same_fileI:
  assumes "wf_file (content (synchDisk e)) (hdr f) (headerSector f)" "rw_idle (headerSector f) (synchDisk e)"
    "stores sd (headerSector f) bs (synchDisk e')" "others sd = others (synchDisk e)" "wf_hdr (hdr f')"
    "\<And>s. valid_sector s \<Longrightarrow> content sd s = content (synchDisk e) s" "same_shape e f e' f'"
  shows "same_file e f e' f'"
proof -
  have c: "content (synchDisk e') s = content (synchDisk e) s" if "valid_sector s" "s \<noteq> headerSector f" for s
    using assms(3,6) that by (simp add: stores_def)
  then have "wf_file (content (synchDisk e')) (hdr f') (headerSector f)"
    using assms(5,7) wf_fileD(7) [OF assms(1)] by (intro wf_file_cong [OF assms(1)]) (auto simp: same_shape_def)
  moreover have "rw_idle (headerSector f) (synchDisk e')"
    using rw_idle_others [of "synchDisk e'" "synchDisk e"] assms(2,3,4) by (simp add: stores_def)
  ultimately show ?thesis using assms(3,7) c by (auto simp: same_file_def open_ok_def same_shape_def stores_def)
qed

lemma ReadAt_reads:
  assumes ok: "open_ok e f" and pos: "0 \<le> pos"
  obtains e' f' where
    "ReadAt e f n pos = Inr (e', f', slice (nat pos) (nat n) (file_bytes (content (synchDisk e)) (hdr f)))" "same_file e f e' f'"
proof (cases "n \<le> 0 \<or> pos \<ge> numBytes (hdr f)")
  case True
  then have "slice (nat pos) (nat n) (file_bytes (content (synchDisk e)) (hdr f)) = []" by (auto simp: slice_def)
  then have "ReadAt e f n pos = Inr (e, f, slice (nat pos) (nat n) (file_bytes (content (synchDisk e)) (hdr f)))"
    using True by (simp add: ReadAt_def FileLength_def)
  moreover have "same_file e f e f" using ok by (simp add: same_file_def same_shape_def)
  ultimately show ?thesis using that by blast
next
  case False
  let ?sd = "synchDisk e" and ?h = "hdr f" and ?hs = "headerSector f"
  define p where "p = nat pos"
  define m where "m = min (nat n) (nat (numBytes ?h) - p)"
  define a where "a = p div 128"
  define b where "b = Suc ((p + m - 1) div 128)"
  have ok': "wf_sd ?sd" "rw_idle ?hs ?sd" "wf_file (content ?sd) ?h ?hs" using ok by (auto simp: open_ok_def)
  have m: "0 < m" "p + m \<le> nat (numBytes ?h)" "pos = int p" using False pos by (auto simp: m_def p_def)
  have nb: "nat (numBytes ?h) \<le> 128 * nat (numSectors ?h)" using ok'(3) by (auto simp: wf_file_def)
  note sp = sector_span [OF m(1,2) nb a_def b_def]
  have ab: "a \<le> b" "b \<le> nat (numSectors ?h)" "p mod 128 + m \<le> 128 * (b - a)" "p = 128 * a + p mod 128"
    using sp(1-5) by linarith+
  have m': "(if numBytes ?h < pos + n then numBytes ?h - pos else n) = int m" using False m(3) by (auto simp: m_def)
  have first: "divRoundDown pos 128 = int a" and last: "divRoundDown (pos + int m - 1) 128 = int b - 1"
    using sp(6,7) m(3) by simp_all
  obtain sd1 where sd1: "StartRead ?sd ?hs = Inr sd1" "wf_sd sd1" "content sd1 = content ?sd"
    and fin: "\<And>sd2. wf_sd sd2 \<Longrightarrow> others sd2 = others sd1 \<Longrightarrow>
       \<exists>sd3. EndRead sd2 ?hs = Inr sd3 \<and> wf_sd sd3 \<and> others sd3 = others ?sd \<and> content sd3 = content sd2"
    using StartRead_EndRead [OF ok'(2,1)] by blast
  obtain sd2 buf where sd2: "read_sectors ?h [int a..int b - 1] sd1 = Inr (sd2, buf)" "keeps sd1 sd2"
    "length buf = 128 * (b - a)" "\<And>t. t < 128 * (b - a) \<Longrightarrow> buf ! t = file_byte (content sd1) ?h (128 * a + t)"
    using read_sectors_bytes [OF sd1(2), of ?h ?hs a b] ok'(3) sd1(3) ab by metis
  obtain sd3 where sd3: "EndRead sd2 ?hs = Inr sd3" "wf_sd sd3" "others sd3 = others ?sd" "content sd3 = content sd2"
    using fin [of sd2] sd2(2) by (auto simp: keeps_def)
  let ?h' = "set_visit_time (now e) ?h"
  have h': "wf_hdr ?h'" using ok'(3) by (simp add: wf_file_def wf_hdr_def set_visit_time_def)
  obtain sd4 where sd4: "WriteBack sd3 ?h' ?hs = Inr sd4" "stores sd3 ?hs (hdr_bytes ?h') sd4"
    using WriteBack_stores [OF sd3(2) wf_fileD(2) [OF ok'(3)] h'] by blast
  have out: "copy_out buf (pos - int a * 128) (int m) = Inr (slice (p mod 128) m buf)"
  proof -
    have "pos - int a * 128 = int (p mod 128)" using ab(4) m(3) by linarith
    then show ?thesis using ab(3) sd2(3) by (simp add: copy_out_def)
  qed
  have eq: "slice (p mod 128) m buf = slice p (nat n) (file_bytes (content ?sd) ?h)"
  proof (intro nth_equalityI)
    show "length (slice (p mod 128) m buf) = length (slice p (nat n) (file_bytes (content ?sd) ?h))"
    proof -
      have "length (slice p (nat n) (file_bytes (content ?sd) ?h)) = m" by (simp add: slice_def m_def min.commute)
      then show ?thesis using ab(3) sd2(3) by simp
    qed
    fix t assume "t < length (slice (p mod 128) m buf)"
    then have t: "t < m" using ab(3) sd2(3) by simp
    have "slice p (nat n) (file_bytes (content ?sd) ?h) ! t = file_byte (content ?sd) ?h (p + t)"
    proof -
      have "p + t < nat (numBytes ?h)" "t < nat n" using t m(2) by (auto simp: m_def)
      then show ?thesis by (simp add: slice_def)
    qed
    moreover have "slice (p mod 128) m buf ! t = file_byte (content ?sd) ?h (128 * a + (p mod 128 + t))"
      using t ab(3) sd2(3) sd2(4) [of "p mod 128 + t"] sd1(3) by (simp add: nth_slice)
    ultimately show "slice (p mod 128) m buf ! t = slice p (nat n) (file_bytes (content ?sd) ?h) ! t"
      using ab(4) by (simp add: add.assoc [symmetric])
  qed
  let ?e' = "next_time (e\<lparr>synchDisk := sd4\<rparr>)" and ?f' = "f\<lparr>hdr := ?h'\<rparr>"
  have "ReadAt e f n pos = Inr (?e', ?f', slice (nat pos) (nat n) (file_bytes (content ?sd) ?h))"
    using False m' first last sd1(1) sd2(1) sd3(1) sd4(1) out eq
    by (simp add: ReadAt_def FileLength_def p_def Let_def)
  moreover have "same_file e f ?e' ?f'"
  proof (rule same_fileI [OF ok'(3,2), of sd3])
    show "stores sd3 ?hs (hdr_bytes ?h') (synchDisk ?e')" using sd4(2) by (simp add: next_time_def)
    show "content sd3 s = content ?sd s" if "valid_sector s" for s
      using sd3(4) sd2(2) sd1(3) that by (simp add: keeps_def)
    show "same_shape e f ?e' ?f'" using sd4(2) sd3(3)
      by (simp add: same_shape_def next_time_def stores_def set_visit_time_def)
  qed (use sd3(3) h' in simp_all)
  ultimately show ?thesis using that by blast
qed

section \<open>Writing\<close>

lemma write_sectors_blocks:
  assumes sd: "wf_sd sd" and f: "wf_file (content sd) h hs" and ab: "a \<le> b" "b \<le> nat (numSectors h)" "128 * (b - a) \<le> length buf"
  obtains sd' where "write_sectors h (int a) buf [int a..int b - 1] sd = Inr sd'" "wf_sd sd'" "others sd' = others sd"
    "\<And>k. a \<le> k \<Longrightarrow> k < b \<Longrightarrow> content sd' (block_at (content sd) h k) = slice (128 * (k - a)) 128 buf"
    "\<And>s. valid_sector s \<Longrightarrow> s \<notin> block_at (content sd) h ` {a..<b} \<Longrightarrow> content sd' s = content sd s"
proof -
  let ?B = "block_at (content sd) h"
  have "\<exists>sd'. write_sectors h (int a) buf [int a..int b - 1] sd = Inr sd' \<and> wf_sd sd' \<and> others sd' = others sd \<and>
      (\<forall>k. a \<le> k \<longrightarrow> k < b \<longrightarrow> content sd' (?B k) = slice (128 * (k - a)) 128 buf) \<and>
      (\<forall>s. valid_sector s \<longrightarrow> s \<notin> ?B ` {a..<b} \<longrightarrow> content sd' s = content sd s)"
    using ab
  proof (induction b rule: dec_induct)
    case base
    then show ?case using sd by (auto simp: write_sectors_def)
  next
    case (step b)
    have "128 * (b - a) \<le> length buf" using step.prems(2) by linarith
    with step.IH step.prems(1) obtain sd1 where s1: "write_sectors h (int a) buf [int a..int b - 1] sd = Inr sd1" "wf_sd sd1" "others sd1 = others sd"
      "\<forall>k. a \<le> k \<longrightarrow> k < b \<longrightarrow> content sd1 (?B k) = slice (128 * (k - a)) 128 buf"
      "\<forall>s. valid_sector s \<longrightarrow> s \<notin> ?B ` {a..<b} \<longrightarrow> content sd1 s = content sd s" by (auto simp: Suc_le_eq)
    note w = wf_fileD [OF f]
    have b: "b < nat (numSectors h)" using step.prems by simp
    have sub: "?B ` {a..<b} \<subseteq> set (blocks (content sd) h)" using b by (auto simp: blocks_def)
    have i1: "content sd1 s = content sd s" if "s \<in> set (index_sectors h)" for s
      using s1(5) w(7) [OF that] sub by blast
    have f1: "wf_file (content sd1) h hs" "block_at (content sd1) h b = ?B b"
      using wf_file_cong [OF f i1] block_at_cong [OF f i1 b] f by (auto simp: wf_file_def)
    obtain sd2 where s2: "ByteToSector sd1 h (int b * 128) = Inr (sd2, ?B b)" "keeps sd1 sd2"
      using read_block [OF s1(2) f1(1) b] f1(2) by auto
    have v: "valid_sector (?B b)" and wf2: "wf_sd sd2" using w(5) [OF b] s2(2) by (auto simp: keeps_def)
    let ?bs = "slice (128 * (b - a)) 128 buf"
    have "length ?bs = 128" using step by (intro length_slice) (simp add: Suc_diff_le)
    then obtain sd3 where s3: "WriteSector sd2 (?B b) ?bs = Inr sd3" "stores sd2 (?B b) ?bs sd3"
      using WriteSector_writes [OF wf2 v] by blast
    have "[int a..int (Suc b) - 1] = [int a..int b - 1] @ [int b]"
      using step.hyps(1) upto_rec2 [of "int a" "int b"] by simp
    moreover have "nat ((int b - int a) * 128) = 128 * (b - a)" using step.hyps(1) by simp
    ultimately have "write_sectors h (int a) buf [int a..int (Suc b) - 1] sd = Inr sd3"
      using s1(1) s2(1) s3(1) by (simp add: write_sectors_def foldE_append)
    moreover have c3: "content sd3 s = (if s = ?B b then ?bs else content sd1 s)" if "valid_sector s" for s
      using s2(2) s3(2) that by (simp add: keeps_def stores_def)
    then have "content sd3 (?B k) = slice (128 * (k - a)) 128 buf" if "a \<le> k" "k < Suc b" for k
      using s1(4) that w(5) [of k] w(8) [of k b] b by (cases "k = b") auto
    moreover have "content sd3 s = content sd s" if "valid_sector s" "s \<notin> ?B ` {a..<Suc b}" for s
      using c3 [OF that(1)] s1(5) that step.hyps(1) by (auto simp: atLeastLessThanSuc)
    moreover have "wf_sd sd3" "others sd3 = others sd" using s1(3) s2(2) s3(2) by (simp_all add: stores_def keeps_def)
    ultimately show ?case by blast
  qed
  then show ?thesis using that by blast
qed

text \<open>The bytes of the file after its blocks \<open>a\<close> up to \<open>b\<close> have been replaced by \<open>buf\<close>.\<close>

lemma file_byte_written:
  assumes f: "wf_file c h hs" and b: "b \<le> nat (numSectors h)" "128 * (b - a) \<le> length buf"
    and new: "\<And>k. a \<le> k \<Longrightarrow> k < b \<Longrightarrow> c' (block_at c h k) = slice (128 * (k - a)) 128 buf"
    and old: "\<And>s. s \<in> set (all_sectors c h) \<Longrightarrow> s \<notin> block_at c h ` {a..<b} \<Longrightarrow> c' s = c s"
    and h': "dataSectors h' = dataSectors h" and j: "j < 128 * nat (numSectors h)"
  shows "file_byte c' h' j = (if 128 * a \<le> j \<and> j < 128 * b then buf ! (j - 128 * a) else file_byte c h j)"
proof -
  define k where "k = j div 128"
  note w = wf_fileD [OF f]
  have k: "k < nat (numSectors h)" using j by (simp add: k_def div_less_iff_less_mult mult.commute)
  have jk: "j = 128 * k + j mod 128" "j mod 128 < 128" by (simp_all add: k_def)
  have "block_at c h ` {a..<b} \<subseteq> set (blocks c h)" using b(1) by (auto simp: blocks_def)
  then have i: "c' s = c s" if "s \<in> set (index_sectors h)" for s
    using old [of s] w(7) [OF that] that by (auto simp: all_sectors_def)
  have B: "block_at c' h' k = block_at c h k" using block_at_cong [OF f i k h'] .
  show ?thesis
  proof (cases "a \<le> k \<and> k < b")
    case True
    then have "slice (128 * (k - a)) 128 buf ! (j mod 128) = buf ! (128 * (k - a) + j mod 128)"
      using b(2) by (intro nth_slice) auto
    moreover have "128 * (k - a) + j mod 128 = j - 128 * a" "128 * a \<le> j" "j < 128 * b" using True jk by auto
    ultimately show ?thesis using new [of k] True B by (simp add: file_byte_def flip: k_def)
  next
    case False
    then have "\<not> (128 * a \<le> j \<and> j < 128 * b)" using jk by auto
    moreover have "block_at c h k \<notin> block_at c h ` {a..<b}"
    proof
      assume "block_at c h k \<in> block_at c h ` {a..<b}"
      then obtain l where "l \<in> {a..<b}" "block_at c h k = block_at c h l" by blast
      then show False using w(8) [OF k, of l] b(1) False by simp
    qed
    then have "c' (block_at c h k) = c (block_at c h k)" using k by (intro old) (auto simp: all_sectors_def blocks_def)
    ultimately show ?thesis using B by (auto simp: file_byte_def simp flip: k_def)
  qed
qed

lemma same_file_trans: "same_file e f e1 f1 \<Longrightarrow> same_file e1 f1 e2 f2 \<Longrightarrow> same_file e f e2 f2"
  using same_shape_trans by (auto simp: same_file_def same_shape_def)

lemma same_file_bytes:
  assumes "open_ok e f" "same_file e f e' f'"
  shows "file_bytes (content (synchDisk e')) (hdr f') = file_bytes (content (synchDisk e)) (hdr f)"
proof -
  have w: "wf_file (content (synchDisk e)) (hdr f) (headerSector f)" using assms(1) by (simp add: open_ok_def)
  have "file_byte (content (synchDisk e')) (hdr f') j = file_byte (content (synchDisk e)) (hdr f) j"
    if "j < nat (numBytes (hdr f))" for j
    using assms(2) w that
    by (intro file_byte_cong [OF w]) (auto simp: same_file_def same_shape_def wf_file_def list_all_iff)
  then show ?thesis using assms(2) by (simp add: file_bytes_def same_file_def same_shape_def)
qed

lemma same_file_blocks:
  assumes "open_ok e f" "same_file e f e' f'"
  shows "blocks (content (synchDisk e')) (hdr f') = blocks (content (synchDisk e)) (hdr f)"
proof -
  have w: "wf_file (content (synchDisk e)) (hdr f) (headerSector f)" using assms(1) by (simp add: open_ok_def)
  have "block_at (content (synchDisk e')) (hdr f') k = block_at (content (synchDisk e)) (hdr f) k"
    if "k < nat (numSectors (hdr f))" for k
    using assms(2) wf_fileD(7) [OF w] that
    by (intro block_at_cong [OF w]) (auto simp: same_file_def same_shape_def)
  then show ?thesis using assms(2) by (simp add: blocks_def same_file_def same_shape_def)
qed

text \<open>The two conditional reads of partially written sectors.\<close>

lemma read_into:
  assumes ok: "open_ok e f" and q: "q = int k" "off = int i" "i + 128 \<le> length buf"
  obtains e' f' where "same_file e f e' f'"
    "(if P then bindE (ReadAt e f 128 q) (\<lambda>(e, f, bs). bindE (copy_in bs buf off) (\<lambda>buf. Inr (e, f, buf)))
      else Inr (e, f, buf)) =
     Inr (e', f', if P then blit (slice k 128 (file_bytes (content (synchDisk e)) (hdr f))) buf i else buf)"
proof (cases P)
  case True
  let ?bs = "slice k 128 (file_bytes (content (synchDisk e)) (hdr f))"
  obtain e' f' where r: "ReadAt e f 128 q = Inr (e', f', ?bs)" "same_file e f e' f'"
    using ReadAt_reads [OF ok, of q 128] q(1) by auto
  have "length ?bs \<le> 128" by (simp add: slice_def)
  then have "copy_in ?bs buf off = Inr (blit ?bs buf i)" using q by (simp add: copy_in_def)
  then show ?thesis using that r True by simp
next
  case False
  then show ?thesis using that [of e f] ok by (simp add: same_file_def same_shape_def)
qed

text \<open>What the buffer holds before the sectors are written.\<close>

lemma write_buffer:
  fixes F :: "byte list"
  assumes p: "p = 128 * a + r" "r < 128" "a < b" "128 * (b - 1) < p + n" "p + n \<le> 128 * b" "p + n \<le> length F"
    and buf: "length buf = 128 * (b - a)" and new: "length new = n"
    and buf1: "buf1 = (if P then blit (slice (128 * a) 128 F) buf 0 else buf)" and P: "P \<longleftrightarrow> r \<noteq> 0"
    and buf2: "buf2 = (if Q then blit (slice (128 * (b - 1)) 128 F) buf1 (128 * (b - 1 - a)) else buf1)"
    and Q: "Q \<longleftrightarrow> p + n \<noteq> 128 * b \<and> (a \<noteq> b - 1 \<or> \<not> P)"
  shows "length (blit new buf2 r) = length buf" "r + n \<le> length buf2"
    "\<And>t. t < 128 * (b - a) \<Longrightarrow> 128 * a + t < length F \<Longrightarrow> blit new buf2 r ! t = blit new F p ! (128 * a + t)"
proof -
  have l1: "length (slice (128 * a) 128 F) \<le> 128" and l2: "length (slice (128 * (b - 1)) 128 F) \<le> 128"
    by (simp_all add: slice_def)
  have b1: "length buf1 = 128 * (b - a)" using l1 buf p(3) by (auto simp: buf1)
  then have b2: "length buf2 = 128 * (b - a)" using l2 p(3) by (auto simp: buf2)
  have rn: "r + n \<le> 128 * (b - a)" using p by linarith
  show "length (blit new buf2 r) = length buf" "r + n \<le> length buf2" using b2 rn buf new by simp_all
  fix t assume t: "t < 128 * (b - a)" "128 * a + t < length F"
  have n1: "buf1 ! t = F ! (128 * a + t)" if "P" "t < 128"
  proof -
    have "t < length (slice (128 * a) 128 F)" using that t(2) by (simp add: slice_def)
    then show ?thesis using that l1 t buf p(3) by (simp add: buf1 nth_blit slice_def)
  qed
  have n2: "buf2 ! t = F ! (128 * a + t)" if "Q" "128 * (b - 1 - a) \<le> t"
  proof -
    obtain d where d: "b = Suc (a + d)" using p(3) less_imp_Suc_add by blast
    define u where "u = t - 128 * d"
    have u: "t = 128 * d + u" "u < 128" using that(2) t(1) by (auto simp: d u_def)
    then have "u < length (slice (128 * (a + d)) 128 F)" using t(2) by (simp add: slice_def)
    moreover have "slice (128 * (a + d)) 128 F ! u = F ! (128 * a + t)"
      using calculation u by (simp add: slice_def algebra_simps)
    ultimately show ?thesis using that(1) l2 b1 u by (simp add: buf2 nth_blit d)
  qed
  have n3: "buf2 ! t = buf1 ! t" if "t < 128 * (b - 1 - a)"
    using that l2 t b1 p(3) by (simp add: buf2 nth_blit)
  have "buf2 ! t = F ! (128 * a + t)" if "t < r \<or> r + n \<le> t"
  proof (cases "Q \<and> 128 * (b - 1 - a) \<le> t")
    case True
    then show ?thesis using n2 by blast
  next
    case False
    then have "P \<and> t < 128 \<and> (t < 128 * (b - 1 - a) \<or> \<not> Q)"
      using that P Q p t(1) by (auto simp: not_le)
    then show ?thesis using n1 n3 by (auto simp: buf2)
  qed
  then show "blit new buf2 r ! t = blit new F p ! (128 * a + t)"
    using b2 rn new t p(1,6) by (auto simp: nth_blit)
qed

text \<open>The last part of the routine: the sectors, the time stamps and the header are written.\<close>

lemma write_back_blocks:
  assumes ok: "open_ok e f" and ab: "a \<le> b" "b \<le> nat (numSectors (hdr f))" "length buf = 128 * (b - a)"
    and h': "wf_hdr h'" "numBytes h' = numBytes (hdr f)" "numSectors h' = numSectors (hdr f)" "dataSectors h' = dataSectors (hdr f)"
  obtains sd1 sd2 sd3 sd4 where "StartWrite (synchDisk e) (headerSector f) = Inr sd1"
    "write_sectors (hdr f) (int a) buf [int a..int b - 1] sd1 = Inr sd2" "EndWrite sd2 (headerSector f) = Inr sd3"
    "WriteBack sd3 h' (headerSector f) = Inr sd4" "wf_sd sd4" "others sd4 = others (synchDisk e)"
    "wf_file (content sd4) h' (headerSector f)"
    "\<And>j. j < 128 * nat (numSectors (hdr f)) \<Longrightarrow> file_byte (content sd4) h' j =
       (if 128 * a \<le> j \<and> j < 128 * b then buf ! (j - 128 * a) else file_byte (content (synchDisk e)) (hdr f) j)"
    "\<And>s. valid_sector s \<Longrightarrow> s \<noteq> headerSector f \<Longrightarrow> s \<notin> set (blocks (content (synchDisk e)) (hdr f)) \<Longrightarrow>
       content sd4 s = content (synchDisk e) s"
proof -
  let ?c = "content (synchDisk e)" and ?h = "hdr f" and ?hs = "headerSector f"
  have ok': "wf_sd (synchDisk e)" "rw_idle ?hs (synchDisk e)" "wf_file ?c ?h ?hs" using ok by (auto simp: open_ok_def)
  note w = wf_fileD [OF ok'(3)]
  obtain sd1 where sd1: "StartWrite (synchDisk e) ?hs = Inr sd1" "wf_sd sd1" "content sd1 = ?c"
    and fin: "\<And>sd2. wf_sd sd2 \<Longrightarrow> others sd2 = others sd1 \<Longrightarrow>
       \<exists>sd3. EndWrite sd2 ?hs = Inr sd3 \<and> wf_sd sd3 \<and> others sd3 = others (synchDisk e) \<and> content sd3 = content sd2"
    using StartWrite_EndWrite [OF ok'(2,1)] by blast
  have f1: "wf_file (content sd1) ?h ?hs" "128 * (b - a) \<le> length buf" using ok'(3) sd1(3) ab(3) by auto
  obtain sd2 where sd2: "write_sectors ?h (int a) buf [int a..int b - 1] sd1 = Inr sd2" "wf_sd sd2" "others sd2 = others sd1"
    and new: "\<And>k. a \<le> k \<Longrightarrow> k < b \<Longrightarrow> content sd2 (block_at (content sd1) ?h k) = slice (128 * (k - a)) 128 buf"
    and old: "\<And>s. valid_sector s \<Longrightarrow> s \<notin> block_at (content sd1) ?h ` {a..<b} \<Longrightarrow> content sd2 s = content sd1 s"
    using write_sectors_blocks [OF sd1(2) f1(1) ab(1,2) f1(2)] by blast
  obtain sd3 where sd3: "EndWrite sd2 ?hs = Inr sd3" "wf_sd sd3" "others sd3 = others (synchDisk e)" "content sd3 = content sd2"
    using fin [OF sd2(2,3)] by blast
  obtain sd4 where sd4: "WriteBack sd3 h' ?hs = Inr sd4" "stores sd3 ?hs (hdr_bytes h') sd4"
    using WriteBack_stores [OF sd3(2) w(2) h'(1)] by blast
  have c4: "content sd4 s = content sd2 s" if "valid_sector s" "s \<noteq> ?hs" for s
    using sd4(2) sd3(4) that by (simp add: stores_def)
  have blk: "content sd4 (block_at ?c ?h k) = slice (128 * (k - a)) 128 buf" if "a \<le> k" "k < b" for k
    using new [OF that] c4 [of "block_at ?c ?h k"] w(5) [of k] sd1(3) that(2) ab(2) by simp
  have sub: "block_at ?c ?h ` {a..<b} \<subseteq> set (blocks ?c ?h)" using ab(2) by (auto simp: blocks_def)
  have rest: "content sd4 s = ?c s" if "valid_sector s" "s \<noteq> ?hs" "s \<notin> block_at ?c ?h ` {a..<b}" for s
    using c4 [OF that(1,2)] old [OF that(1)] that(3) sd1(3) by simp
  have all: "valid_sector s \<and> s \<noteq> ?hs" if "s \<in> set (all_sectors ?c ?h)" for s
    using ok'(3) that by (auto simp: wf_file_def list_all_iff)
  have "wf_file (content sd4) h' ?hs"
  proof (rule wf_file_cong [OF ok'(3) _ h'])
    show "content sd4 s = ?c s" if "s \<in> set (index_sectors ?h)" for s using rest [of s] w(7) [OF that] sub by blast
  qed
  moreover have "file_byte (content sd4) h' j =
       (if 128 * a \<le> j \<and> j < 128 * b then buf ! (j - 128 * a) else file_byte ?c ?h j)"
    if "j < 128 * nat (numSectors ?h)" for j
    using rest all that by (intro file_byte_written [OF ok'(3) ab(2) f1(2) blk _ h'(4)]) blast+
  moreover have "content sd4 s = ?c s" if "valid_sector s" "s \<noteq> ?hs" "s \<notin> set (blocks ?c ?h)" for s
    using rest [OF that(1,2)] that(3) sub by blast
  moreover have "wf_sd sd4" "others sd4 = others (synchDisk e)" using sd4(2) sd3(3) by (simp_all add: stores_def)
  ultimately show ?thesis using that sd1(1) sd2(1) sd3(1) sd4(1) by blast
qed

lemma WriteAt_inside_writes:
  assumes ok: "open_ok e f" and pos: "0 \<le> pos" "0 < n" "pos + n \<le> numBytes (hdr f)" "n \<le> int (length from)"
  obtains e' f' where "WriteAt_inside e f from n pos = Inr (e', f', n)" "open_ok e' f'" "same_shape e f e' f'"
    "file_bytes (content (synchDisk e')) (hdr f') =
       blit (take (nat n) from) (file_bytes (content (synchDisk e)) (hdr f)) (nat pos)"
    "\<And>s. valid_sector s \<Longrightarrow> s \<noteq> headerSector f \<Longrightarrow> s \<notin> set (blocks (content (synchDisk e)) (hdr f)) \<Longrightarrow>
       content (synchDisk e') s = content (synchDisk e) s"
proof -
  let ?F = "file_bytes (content (synchDisk e)) (hdr f)"
  define p where "p = nat pos"
  define a where "a = p div 128"
  define b where "b = Suc ((p + nat n - 1) div 128)"
  define new where "new = take (nat n) from"
  have pn: "pos = int p" "n = int (nat n)" "0 < nat n" "p + nat n \<le> length ?F" "length new = nat n"
    using pos by (auto simp: p_def new_def)
  have nb: "length ?F \<le> 128 * nat (numSectors (hdr f))" using ok by (auto simp: open_ok_def wf_file_def)
  note sp = sector_span [OF pn(3,4) nb a_def b_def]
  have first: "divRoundDown pos 128 = int a" and last: "divRoundDown (pos + n - 1) 128 = int b - 1"
    using sp(6,7) pn(1,2) by simp_all
  let ?e = "e\<lparr>allocs := allocs e + 1\<rparr>" and ?b0 = "map (fresh e (allocs e)) [0..<128 * (b - a)]"
  let ?P = "\<not> pos = int a * 128" and ?Q = "\<not> pos + n = int b * 128 \<and> (int a \<noteq> int b - 1 \<or> pos = int a * 128)"
  have "nat ((int b - int a) * 128) = 128 * (b - a)" using sp(1) by auto
  then have new0: "new_bytes e (nat ((int b - int a) * 128)) = (?e, ?b0)" by (simp add: new_bytes_def)
  have ok0: "open_ok ?e f" using ok by (simp add: open_ok_def)
  have l0: "length ?b0 = 128 * (b - a)" by simp
  define b1 where "b1 = (if ?P then blit (slice (128 * a) 128 ?F) ?b0 0 else ?b0)"
  have F0: "file_bytes (content (synchDisk ?e)) (hdr f) = ?F" by simp
  obtain e1 f1 where r1: "same_file ?e f e1 f1"
    "(if ?P then bindE (ReadAt ?e f 128 (int a * 128)) (\<lambda>(e, f, bs). bindE (copy_in bs ?b0 0) (\<lambda>buf. Inr (e, f, buf)))
      else Inr (?e, f, ?b0)) = Inr (e1, f1, b1)"
    by (rule read_into [OF ok0, of "int a * 128" "128 * a" 0 0 ?b0 ?P, unfolded F0, folded b1_def]) (use sp(1) in auto)
  have ok1: "open_ok e1 f1" and F1: "file_bytes (content (synchDisk e1)) (hdr f1) = ?F"
    using r1(1) same_file_bytes [OF ok0 r1(1)] by (auto simp: same_file_def)
  define b2 where "b2 = (if ?Q then blit (slice (128 * (b - 1)) 128 ?F) b1 (128 * (b - 1 - a)) else b1)"
  have l1: "length b1 = 128 * (b - a)" using sp(1) by (simp add: b1_def slice_def)
  obtain e2 f2 where r2: "same_file e1 f1 e2 f2"
    "(if ?Q then bindE (ReadAt e1 f1 128 ((int b - 1) * 128)) (\<lambda>(e, f, bs).
        bindE (copy_in bs b1 ((int b - 1 - int a) * 128)) (\<lambda>buf. Inr (e, f, buf)))
      else Inr (e1, f1, b1)) = Inr (e2, f2, b2)"
    by (rule read_into [OF ok1, of "(int b - 1) * 128" "128 * (b - 1)" "(int b - 1 - int a) * 128" "128 * (b - 1 - a)" b1 ?Q, unfolded F1, folded b2_def])
      (use sp(1) l1 in \<open>auto simp: of_nat_diff\<close>)
  have ok2: "open_ok e2 f2" and F2: "file_bytes (content (synchDisk e2)) (hdr f2) = ?F"
    using r2(1) same_file_bytes [OF ok1 r2(1)] F1 by (auto simp: same_file_def)
  have sf: "same_file ?e f e2 f2" using same_file_trans [OF r1(1) r2(1)] .
  have sh: "headerSector f2 = headerSector f" "numBytes (hdr f2) = numBytes (hdr f)" "numSectors (hdr f2) = numSectors (hdr f)"
    "dataSectors (hdr f2) = dataSectors (hdr f)" using sf by (simp_all add: same_file_def same_shape_def)
  let ?b3 = "blit new b2 (p mod 128)"
  have PQ: "?P \<longleftrightarrow> p mod 128 \<noteq> 0" "?Q \<longleftrightarrow> p + nat n \<noteq> 128 * b \<and> (a \<noteq> b - 1 \<or> \<not> ?P)"
    using sp(1,5) pn(1,2) by auto
  note wb = write_buffer [OF sp(5) _ sp(1,3,4) pn(4) l0 pn(5) b1_def PQ(1) b2_def PQ(2)]
  have b3: "length ?b3 = 128 * (b - a)" "p mod 128 + nat n \<le> length b2"
    "\<And>t. t < 128 * (b - a) \<Longrightarrow> 128 * a + t < length ?F \<Longrightarrow> ?b3 ! t = blit new ?F p ! (128 * a + t)"
    using wb(1,2) l0 wb(3) by simp_all
  have io: "copy_out from 0 n = Inr new" "copy_in new b2 (pos - int a * 128) = Inr ?b3"
  proof -
    have "pos - int a * 128 = int (p mod 128)" using sp(5) pn(1) by linarith
    then show "copy_in new b2 (pos - int a * 128) = Inr ?b3"
      using b3(2) pn(2,5) by (simp add: copy_in_def)
  qed (use pos in \<open>simp add: copy_out_def slice_def new_def\<close>)
  let ?h' = "set_modify_time (now (next_time e2)) (set_visit_time (now e2) (hdr f2))"
  have wf: "wf_file (content (synchDisk e2)) (hdr f2) (headerSector f2)" using ok2 by (simp add: open_ok_def)
  then have h': "wf_hdr ?h'" "numBytes ?h' = numBytes (hdr f2)" "numSectors ?h' = numSectors (hdr f2)"
    "dataSectors ?h' = dataSectors (hdr f2)"
    by (simp_all add: wf_file_def wf_hdr_def set_visit_time_def set_modify_time_def)
  have ab: "a \<le> b" "b \<le> nat (numSectors (hdr f2))" using sp(1,2) sh(3) by simp_all
  obtain sd1 sd2 sd3 sd4 where w: "StartWrite (synchDisk e2) (headerSector f2) = Inr sd1"
    "write_sectors (hdr f2) (int a) ?b3 [int a..int b - 1] sd1 = Inr sd2" "EndWrite sd2 (headerSector f2) = Inr sd3"
    "WriteBack sd3 ?h' (headerSector f2) = Inr sd4" "wf_sd sd4" "others sd4 = others (synchDisk e2)"
    "wf_file (content sd4) ?h' (headerSector f2)"
    "\<And>j. j < 128 * nat (numSectors (hdr f2)) \<Longrightarrow> file_byte (content sd4) ?h' j =
       (if 128 * a \<le> j \<and> j < 128 * b then ?b3 ! (j - 128 * a) else file_byte (content (synchDisk e2)) (hdr f2) j)"
    "\<And>s. valid_sector s \<Longrightarrow> s \<noteq> headerSector f2 \<Longrightarrow> s \<notin> set (blocks (content (synchDisk e2)) (hdr f2)) \<Longrightarrow>
       content sd4 s = content (synchDisk e2) s"
    using write_back_blocks [OF ok2 ab b3(1) h'] by blast
  have ar: "1 + (int b - 1) - int a = int b - int a" "int b - 1 + 1 = int b" by simp_all
  let ?e' = "next_time (next_time e2)\<lparr>synchDisk := sd4\<rparr>" and ?f' = "f2\<lparr>hdr := ?h'\<rparr>"
  have "WriteAt_inside e f from n pos = Inr (?e', ?f', n)"
    unfolding WriteAt_inside_def Let_def first last ar new0 prod.case r1(2) r2(2) io w(1-4) bindE_Inr ..
  moreover have "open_ok ?e' ?f'" "same_shape e f ?e' ?f'"
    using w(5,6,7) h' sf ok rw_idle_others [of sd4 "synchDisk e"]
    by (simp_all add: open_ok_def same_file_def same_shape_def next_time_def)
  moreover have "file_bytes (content (synchDisk ?e')) (hdr ?f') = blit new ?F p"
  proof (intro nth_equalityI)
    show "length (file_bytes (content (synchDisk ?e')) (hdr ?f')) = length (blit new ?F p)"
      using h'(2) sh(2) pn(4,5) by simp
    fix j assume "j < length (file_bytes (content (synchDisk ?e')) (hdr ?f'))"
    then have j: "j < length ?F" using h'(2) sh(2) by simp
    then have "j < 128 * nat (numSectors (hdr f2))" using nb sh(3) by simp
    note wj = w(8) [OF this]
    have "?F ! j = file_byte (content (synchDisk e2)) (hdr f2) j" unfolding F2 [symmetric] using j sh(2) by simp
    then show "file_bytes (content (synchDisk ?e')) (hdr ?f') ! j = blit new ?F p ! j"
      using wj j h'(2) sh(2) b3(3) [of "j - 128 * a"] sp(1,3,4,5) pn(4,5)
      by (auto simp: nth_blit nth_file_bytes less_diff_conv2)
  qed
  moreover have "content (synchDisk ?e') s = content (synchDisk e) s"
    if "valid_sector s" "s \<noteq> headerSector f" "s \<notin> set (blocks (content (synchDisk e)) (hdr f))" for s
    using w(9) [of s] same_file_blocks [OF ok0 sf] sf that by (simp add: same_file_def sh(1))
  ultimately show ?thesis using that by (simp add: new_def p_def)
qed

section \<open>Properties\<close>

text \<open>An open file of 300 bytes in sectors 10, 11 and 12 of an empty disk, its header in sector 4.\<close>

definition ex_hdr300 :: FileHeader where
  "ex_hdr300 = ex_hdr\<lparr>numBytes := 300, numSectors := 3, dataSectors := [10, 11, 12, 0, 0, 0, 0, 0, 0, 0, 0]\<rparr>"

definition ex_file :: OpenFile where
  "ex_file = \<lparr>hdr = ex_hdr300, seekPosition = 0, headerSector = 4\<rparr>"

definition ex_env :: "SynchDisk \<Rightarrow> FsEnv" where
  "ex_env sd = \<lparr>synchDisk = sd, asctime = (\<lambda>_. []), time_calls = 0, fresh = (\<lambda>_ _. 0), allocs = 0\<rparr>"

lemma ex_open_ok:
  assumes "wf_sd sd" "rw_idle 4 sd"
  shows "open_ok (ex_env sd) ex_file"
proof -
  have "blocks c ex_hdr300 = [10, 11, 12]" "index_sectors ex_hdr300 = []" for c
    by (simp_all add: blocks_def ex_hdr300_def block_at_def index_sectors_def num_index_def upt_rec)
  moreover have "wf_hdr ex_hdr300" using ex_hdr_wf by (simp add: ex_hdr300_def wf_hdr_def in_int32_def)
  ultimately show ?thesis using assms
    by (simp add: open_ok_def ex_env_def ex_file_def wf_file_def all_sectors_def valid_sector_def)
      (simp add: ex_hdr300_def)
qed

text \<open>
  C14. Reading: on a well-formed open file at rest, \<^verbatim>\<open>ReadAt\<close> never fails and never blocks; it
  returns exactly the bytes of the file from the position on, cut off at the end of the file, for
  every position and every count, aligned or not; and it leaves the contents of every file as they
  were, changing only the time of the last visit in the header.
\<close>

theorem ReadAt_file_bytes:
  assumes "open_ok e f" "0 \<le> position"
  shows "\<exists>e' f'. ReadAt e f n position =
      Inr (e', f', slice (nat position) (nat n) (file_bytes (content (synchDisk e)) (hdr f))) \<and>
    open_ok e' f' \<and> file_bytes (content (synchDisk e')) (hdr f') = file_bytes (content (synchDisk e)) (hdr f) \<and>
    (\<forall>s. valid_sector s \<longrightarrow> s \<noteq> headerSector f \<longrightarrow> content (synchDisk e') s = content (synchDisk e) s)"
proof -
  obtain e' f' where r: "ReadAt e f n position =
      Inr (e', f', slice (nat position) (nat n) (file_bytes (content (synchDisk e)) (hdr f)))" "same_file e f e' f'"
    using ReadAt_reads [OF assms] by blast
  then show ?thesis using same_file_bytes [OF assms(1) r(2)] by (auto simp: same_file_def)
qed

theorem ReadAt_file_bytes_witness:
  "\<exists>sd e' f' bs. open_ok (ex_env sd) ex_file \<and> ReadAt (ex_env sd) ex_file 200 250 = Inr (e', f', bs) \<and> length bs = 50"
proof -
  obtain sd where sd: "wf_sd sd" "rw_idle 4 sd" by (rule ex_SynchDisk)
  have "length (file_bytes c (hdr ex_file)) = 300" for c by (simp add: ex_file_def ex_hdr300_def)
  then show ?thesis using ReadAt_file_bytes [OF ex_open_ok [OF sd], of 250 200] ex_open_ok [OF sd]
    by (auto simp: slice_def)
qed

end
