(* ===== verification/Dir_Table.thy ===== *)
theory Dir_Table
  imports Nachos_Prelude
begin

text \<open>
  Directories, \<^verbatim>\<open>code/filesys/directory.h\<close> and \<^verbatim>\<open>directory.cc\<close>: a table of entries that name the
  header sectors of files, searched with \<^verbatim>\<open>strncmp\<close> and filled with \<^verbatim>\<open>strncpy\<close>. Names are C
  strings, here their bytes without the terminating zero. The table is shown to be a finite map
  from names (cut to 39 characters) to header sectors. Reading a table from a file and writing it back
  go through \<open>table_bytes\<close> and \<open>table_of_bytes\<close>, the image of the array in memory.
\<close>

section \<open>C strings\<close>

definition cstr :: "byte list \<Rightarrow> byte list" where
  "cstr s = takeWhile (\<lambda>c. c \<noteq> 0) s"

definition strncmp0 :: "byte list \<Rightarrow> byte list \<Rightarrow> nat \<Rightarrow> bool" where
  "strncmp0 a b n \<longleftrightarrow> cstr (take n a) = cstr (take n b)"

definition strncpy :: "byte list \<Rightarrow> byte list \<Rightarrow> nat \<Rightarrow> byte list" where
  "strncpy dest src n = blit (take n (cstr src @ replicate n 0)) dest 0"

section \<open>The class\<close>

abbreviation (input) FileNameMaxLen :: nat where "FileNameMaxLen \<equiv> 39"

record DirectoryEntry =
  inUse :: bool
  isDir :: bool
  de_pad :: "byte list"
  de_sector :: int
  de_name :: "byte list"

type_synonym Directory = "DirectoryEntry list"

text \<open>The constructor: entries with arbitrary contents, all marked unused.\<close>

definition new_Directory :: "(nat \<Rightarrow> DirectoryEntry) \<Rightarrow> nat \<Rightarrow> Directory" where
  "new_Directory junk tableSize = map (\<lambda>i. (junk i)\<lparr>inUse := False\<rparr>) [0..<tableSize]"

fun FindIndex_loop :: "Directory \<Rightarrow> byte list \<Rightarrow> nat list \<Rightarrow> int" where
  "FindIndex_loop table name [] = - 1"
| "FindIndex_loop table name (i # is) =
     (if inUse (table ! i) \<and> strncmp0 (de_name (table ! i)) name FileNameMaxLen then int i
      else FindIndex_loop table name is)"

definition FindIndex :: "Directory \<Rightarrow> byte list \<Rightarrow> int" where
  "FindIndex table name = FindIndex_loop table name [0..<length table]"

definition Dir_Find :: "Directory \<Rightarrow> byte list \<Rightarrow> int" where
  "Dir_Find table name =
     (let i = FindIndex table name in if i \<noteq> - 1 then de_sector (table ! nat i) else - 1)"

fun Add_loop :: "Directory \<Rightarrow> byte list \<Rightarrow> int \<Rightarrow> bool \<Rightarrow> nat list \<Rightarrow> Directory \<times> bool" where
  "Add_loop table name newSector dir [] = (table, False)"
| "Add_loop table name newSector dir (i # is) =
     (if \<not> inUse (table ! i)
      then (table[i := (table ! i)\<lparr>inUse := True, de_name := strncpy (de_name (table ! i)) name FileNameMaxLen,
                         de_sector := newSector, isDir := dir\<rparr>], True)
      else Add_loop table name newSector dir is)"

definition Add :: "Directory \<Rightarrow> byte list \<Rightarrow> int \<Rightarrow> bool \<Rightarrow> Directory \<times> bool" where
  "Add table name newSector dir =
     (if FindIndex table name \<noteq> - 1 then (table, False)
      else Add_loop table name newSector dir [0..<length table])"

definition Dir_Remove :: "Directory \<Rightarrow> byte list \<Rightarrow> Directory \<times> bool" where
  "Dir_Remove table name =
     (let i = FindIndex table name in
      if i = - 1 then (table, False)
      else (table[nat i := (table ! nat i)\<lparr>inUse := False\<rparr>], True))"

text \<open>\<^verbatim>\<open>List\<close>: the names it prints.\<close>

definition Dir_List :: "Directory \<Rightarrow> byte list list" where
  "Dir_List table = map (\<lambda>e. cstr (de_name e)) (filter inUse table)"

definition is_Dir :: "Directory \<Rightarrow> byte list \<Rightarrow> bool" where
  "is_Dir table name =
     (let i = FindIndex table name in
      if i < 0 then False else isDir (table ! nat i) \<and> inUse (table ! nat i))"

fun isEmpty :: "Directory \<Rightarrow> bool" where
  "isEmpty [] = True"
| "isEmpty (e # es) = (if inUse e then False else isEmpty es)"

section \<open>The table in memory\<close>

text \<open>48 bytes per entry: two \<^verbatim>\<open>bool\<close>s, two bytes of padding, the sector, 40 characters.\<close>

definition bool_byte :: "bool \<Rightarrow> byte" where
  "bool_byte b = (if b then 1 else 0)"

definition entry_bytes :: "DirectoryEntry \<Rightarrow> byte list" where
  "entry_bytes e = [bool_byte (inUse e), bool_byte (isDir e)] @ de_pad e @ int_bytes (de_sector e) @ de_name e"

definition entry_of_bytes :: "byte list \<Rightarrow> DirectoryEntry" where
  "entry_of_bytes bs = \<lparr>inUse = bs ! 0 \<noteq> 0, isDir = bs ! 1 \<noteq> 0, de_pad = slice 2 2 bs,
     de_sector = bytes_int (slice 4 4 bs), de_name = slice 8 40 bs\<rparr>"

definition table_bytes :: "Directory \<Rightarrow> byte list" where
  "table_bytes table = concat (map entry_bytes table)"

definition table_of_bytes :: "nat \<Rightarrow> byte list \<Rightarrow> Directory" where
  "table_of_bytes n bs = map (\<lambda>k. entry_of_bytes (slice (48 * k) 48 bs)) [0..<n]"

definition wf_entry :: "DirectoryEntry \<Rightarrow> bool" where
  "wf_entry e \<longleftrightarrow> length (de_pad e) = 2 \<and> length (de_name e) = 40 \<and> in_int32 (de_sector e)"

lemma length_entry_bytes [simp]: "wf_entry e \<Longrightarrow> length (entry_bytes e) = 48"
  by (simp add: entry_bytes_def wf_entry_def)

lemma entry_of_entry_bytes: "wf_entry e \<Longrightarrow> entry_of_bytes (entry_bytes e) = e"
  by (simp add: entry_of_bytes_def entry_bytes_def wf_entry_def slice_def bool_byte_def)

lemma length_table_bytes: "list_all wf_entry t \<Longrightarrow> length (table_bytes t) = 48 * length t"
  by (induction t) (auto simp: table_bytes_def)

lemma slice_table_bytes:
  "list_all wf_entry t \<Longrightarrow> k < length t \<Longrightarrow> slice (48 * k) 48 (table_bytes t @ behind) = entry_bytes (t ! k)"
proof (induction t arbitrary: k)
  case (Cons e t)
  then show ?case by (cases k) (auto simp: slice_def table_bytes_def)
qed simp

lemma table_of_table_bytes:
  assumes "list_all wf_entry t"
  shows "table_of_bytes (length t) (table_bytes t @ behind) = t"
  using assms by (intro nth_equalityI)
    (auto simp: table_of_bytes_def slice_table_bytes entry_of_entry_bytes list_all_length)

section \<open>The table as a map\<close>

definition key :: "byte list \<Rightarrow> byte list" where
  "key name = cstr (take FileNameMaxLen name)"

text \<open>No two used entries have the same name.\<close>

definition wf_dir :: "Directory \<Rightarrow> bool" where
  "wf_dir t \<longleftrightarrow> (\<forall>i < length t. \<forall>j < length t. inUse (t ! i) \<longrightarrow> inUse (t ! j) \<longrightarrow>
     key (de_name (t ! i)) = key (de_name (t ! j)) \<longrightarrow> i = j) \<and> (\<forall>e \<in> set t. length (de_name e) = 40)"

definition dir_map :: "Directory \<Rightarrow> byte list \<rightharpoonup> int \<times> bool" where
  "dir_map t k = map_option (\<lambda>e. (de_sector e, isDir e)) (List.find (\<lambda>e. inUse e \<and> key (de_name e) = k) t)"

lemma FindIndex_loop_found:
  "FindIndex_loop t name is = int i \<Longrightarrow> i \<in> set is \<and> inUse (t ! i) \<and> key (de_name (t ! i)) = key name"
  by (induction "is") (auto simp: strncmp0_def key_def split: if_splits)

lemma FindIndex_loop_none:
  "FindIndex_loop t name is = - 1 \<longleftrightarrow> (\<forall>i \<in> set is. inUse (t ! i) \<longrightarrow> key (de_name (t ! i)) \<noteq> key name)"
  by (induction "is") (auto simp: strncmp0_def key_def)

lemma FindIndex_cases:
  obtains (none) "FindIndex t name = - 1" "\<And>e. e \<in> set t \<Longrightarrow> inUse e \<Longrightarrow> key (de_name e) \<noteq> key name"
  | (found) i where "FindIndex t name = int i" "i < length t" "inUse (t ! i)" "key (de_name (t ! i)) = key name"
proof (cases "FindIndex t name = - 1")
  case True
  then have "\<forall>i < length t. inUse (t ! i) \<longrightarrow> key (de_name (t ! i)) \<noteq> key name"
    by (simp add: FindIndex_def FindIndex_loop_none)
  then show ?thesis by (intro none [OF True]) (auto simp: in_set_conv_nth)
next
  case False
  have "\<exists>i. FindIndex_loop t name is = int i" if "FindIndex_loop t name is \<noteq> - 1" for "is"
    using that by (induction "is") auto
  with False obtain i where "FindIndex t name = int i" by (auto simp: FindIndex_def)
  then show ?thesis using found FindIndex_loop_found [of t name "[0..<length t]" i] by (auto simp: FindIndex_def)
qed

lemma dir_map_found:
  assumes "wf_dir t" "i < length t" "inUse (t ! i)" "key (de_name (t ! i)) = k"
  shows "dir_map t k = Some (de_sector (t ! i), isDir (t ! i))"
proof -
  have "List.find (\<lambda>e. inUse e \<and> key (de_name e) = k) t \<noteq> None" using assms(2-4) by (auto simp: find_None_iff)
  then obtain e where e: "List.find (\<lambda>e. inUse e \<and> key (de_name e) = k) t = Some e" by blast
  then obtain j where "j < length t" "inUse e" "key (de_name e) = k" "e = t ! j" by (auto simp: find_Some_iff)
  with assms have "j = i" by (auto simp: wf_dir_def)
  with e \<open>e = t ! j\<close> show ?thesis by (simp add: dir_map_def)
qed

lemma dir_map_none: "(\<And>e. e \<in> set t \<Longrightarrow> inUse e \<Longrightarrow> key (de_name e) \<noteq> k) \<Longrightarrow> dir_map t k = None"
  by (auto simp: dir_map_def find_None_iff)

lemma Dir_Find_map:
  assumes "wf_dir t"
  shows "Dir_Find t name = (case dir_map t (key name) of Some (s, d) \<Rightarrow> s | None \<Rightarrow> - 1)"
proof (cases rule: FindIndex_cases [of t name])
  case none
  then show ?thesis by (simp add: Dir_Find_def dir_map_none)
next
  case (found i)
  then show ?thesis using dir_map_found [OF assms found(2-4)] by (simp add: Dir_Find_def)
qed

lemma is_Dir_map:
  assumes "wf_dir t"
  shows "is_Dir t name = (case dir_map t (key name) of Some (s, d) \<Rightarrow> d | None \<Rightarrow> False)"
proof (cases rule: FindIndex_cases [of t name])
  case none
  then show ?thesis by (simp add: is_Dir_def dir_map_none)
next
  case (found i)
  then show ?thesis using dir_map_found [OF assms found(2-4)] by (simp add: is_Dir_def)
qed

lemma cstr_pad: "cstr (take n (cstr s @ replicate n 0)) = cstr (take n s)"
proof -
  have "cstr (take n (cstr s @ replicate m 0)) = cstr (take n s)" if "n \<le> m" for m
    using that
  proof (induction s arbitrary: n m)
    case Nil
    then show ?case by (cases n; cases m) (auto simp: cstr_def)
  next
    case (Cons c s)
    show ?case
    proof (cases n)
      case (Suc k)
      with Cons.prems Cons.IH [of k m] show ?thesis by (cases m) (auto simp: cstr_def)
    qed (simp add: cstr_def)
  qed
  from this [of n] show ?thesis by simp
qed

lemma key_strncpy:
  assumes "length old = 40"
  shows "key (strncpy old name 39) = key name"
proof -
  define X where "X = take 39 (cstr name @ replicate 39 0)"
  have "length X = 39" by (simp add: X_def)
  then have "take 39 (blit X old 0) = X" by (simp add: blit_def)
  then show ?thesis using cstr_pad [of 39 name] unfolding key_def strncpy_def X_def by simp
qed

lemma length_strncpy: "length old = 40 \<Longrightarrow> length (strncpy old name 39) = 40"
  by (simp add: strncpy_def blit_def)

lemma Add_loop_cases:
  "(\<exists>i. i \<in> set is \<and> \<not> inUse (t ! i) \<and> Add_loop t name s d is =
      (t[i := (t ! i)\<lparr>inUse := True, de_name := strncpy (de_name (t ! i)) name 39, de_sector := s, isDir := d\<rparr>], True)) \<or>
   (\<forall>i \<in> set is. inUse (t ! i)) \<and> Add_loop t name s d is = (t, False)"
  by (induction "is") auto

text \<open>Updating one entry of a table, as \<^verbatim>\<open>Add\<close> and \<^verbatim>\<open>Remove\<close> do.\<close>

lemma dir_map_update:
  assumes wf: "wf_dir t" and i: "i < length t" and len: "length (de_name e) = 40"
    and uniq: "\<And>j. inUse e \<Longrightarrow> j < length t \<Longrightarrow> j \<noteq> i \<Longrightarrow> inUse (t ! j) \<Longrightarrow> key (de_name (t ! j)) \<noteq> key (de_name e)"
  shows "wf_dir (t[i := e])"
    "dir_map (t[i := e]) k = (if inUse e \<and> key (de_name e) = k then Some (de_sector e, isDir e)
       else if inUse (t ! i) \<and> key (de_name (t ! i)) = k then None else dir_map t k)"
proof -
  have nth: "t[i := e] ! j = (if j = i then e else t ! j)" for j using i by (cases "j = i") auto
  have "\<forall>x \<in> set (t[i := e]). length (de_name x) = 40"
    using wf len set_update_subset_insert [of t i e] by (auto simp: wf_dir_def)
  moreover have "a = b" if "a < length t" "b < length t" "inUse (t[i := e] ! a)" "inUse (t[i := e] ! b)"
      "key (de_name (t[i := e] ! a)) = key (de_name (t[i := e] ! b))" for a b
    using that wf uniq [of a] uniq [of b] by (auto simp: nth wf_dir_def split: if_splits)
  ultimately show wf': "wf_dir (t[i := e])" by (simp add: wf_dir_def)
  show "dir_map (t[i := e]) k = (if inUse e \<and> key (de_name e) = k then Some (de_sector e, isDir e)
       else if inUse (t ! i) \<and> key (de_name (t ! i)) = k then None else dir_map t k)"
  proof (cases "\<exists>j < length t. j \<noteq> i \<and> inUse (t ! j) \<and> key (de_name (t ! j)) = k")
    case True
    then obtain j where j: "j < length t" "j \<noteq> i" "inUse (t ! j)" "key (de_name (t ! j)) = k" by blast
    then have "dir_map (t[i := e]) k = dir_map t k"
      using dir_map_found [OF wf', of j k] dir_map_found [OF wf, of j k] by (simp add: nth)
    moreover have "\<not> (inUse (t ! i) \<and> key (de_name (t ! i)) = k)" using wf i j by (auto simp: wf_dir_def)
    ultimately show ?thesis using uniq [of j] j by auto
  next
    case False
    show ?thesis
    proof (cases "inUse e \<and> key (de_name e) = k")
      case True
      then show ?thesis using dir_map_found [OF wf', of i k] i by (simp add: nth)
    next
      case ne: False
      have "dir_map (t[i := e]) k = None"
        using False ne by (intro dir_map_none) (auto simp: in_set_conv_nth nth split: if_splits)
      moreover have "dir_map t k = None" if "\<not> (inUse (t ! i) \<and> key (de_name (t ! i)) = k)"
        using False that by (intro dir_map_none) (metis in_set_conv_nth)
      ultimately show ?thesis using ne by auto
    qed
  qed
qed

lemma Add_map:
  assumes wf: "wf_dir t" and add: "Add t name s d = (t', b)"
  shows "wf_dir t' \<and> length t' = length t \<and>
    b = (dir_map t (key name) = None \<and> (\<exists>e \<in> set t. \<not> inUse e)) \<and>
    dir_map t' = (if b then (dir_map t)(key name \<mapsto> (s, d)) else dir_map t)"
proof (cases rule: FindIndex_cases [of t name])
  case (found i)
  then show ?thesis using add wf dir_map_found [OF wf found(2-4)] by (simp add: Add_def)
next
  case none
  have no: "dir_map t (key name) = None" using none(2) by (rule dir_map_none)
  have loop: "Add_loop t name s d [0..<length t] = (t', b)" using add none(1) by (simp add: Add_def)
  from Add_loop_cases [of "[0..<length t]" t name s d] show ?thesis
  proof (elim disjE exE conjE)
    fix i
    let ?e = "(t ! i)\<lparr>inUse := True, de_name := strncpy (de_name (t ! i)) name 39, de_sector := s, isDir := d\<rparr>"
    assume i: "i \<in> set [0..<length t]" "\<not> inUse (t ! i)" "Add_loop t name s d [0..<length t] = (t[i := ?e], True)"
    have len: "length (de_name (t ! i)) = 40" using wf i(1) by (simp add: wf_dir_def)
    have up: "wf_dir (t[i := ?e])" "\<And>k. dir_map (t[i := ?e]) k = (if key name = k then Some (s, d) else dir_map t k)"
      using dir_map_update [OF wf, of i ?e] i len none(2) by (auto simp: key_strncpy length_strncpy)
    have "\<exists>e \<in> set t. \<not> inUse e" using i by (metis in_set_conv_nth atLeastLessThan_iff set_upt)
    with up i loop no show ?thesis by (auto simp: fun_eq_iff)
  next
    assume "\<forall>i \<in> set [0..<length t]. inUse (t ! i)" "Add_loop t name s d [0..<length t] = (t, False)"
    with loop wf show ?thesis by (auto simp: in_set_conv_nth)
  qed
qed

lemma Dir_Remove_map:
  assumes wf: "wf_dir t" and rm: "Dir_Remove t name = (t', b)"
  shows "wf_dir t' \<and> length t' = length t \<and> b = (dir_map t (key name) \<noteq> None) \<and>
    dir_map t' = (dir_map t)(key name := None)"
proof (cases rule: FindIndex_cases [of t name])
  case none
  have "dir_map t (key name) = None" using none(2) by (rule dir_map_none)
  then show ?thesis using rm wf none(1) by (simp add: Dir_Remove_def fun_eq_iff)
next
  case (found i)
  let ?e = "(t ! i)\<lparr>inUse := False\<rparr>"
  have "length (de_name ?e) = 40" using wf found(2) by (simp add: wf_dir_def)
  note up = dir_map_update [OF wf found(2) this]
  have "t' = t[i := ?e]" "b" using rm found(1) by (auto simp: Dir_Remove_def Let_def)
  then show ?thesis using up found dir_map_found [OF wf found(2-4)] by (auto simp: fun_eq_iff)
qed

lemma isEmpty_map:
  assumes wf: "wf_dir t"
  shows "isEmpty t \<longleftrightarrow> dir_map t = Map.empty"
proof -
  have e: "isEmpty t \<longleftrightarrow> (\<forall>e \<in> set t. \<not> inUse e)" by (induction t) auto
  show ?thesis
  proof
    assume "isEmpty t"
    then show "dir_map t = Map.empty" using e dir_map_none [of t] by blast
  next
    assume empty: "dir_map t = Map.empty"
    have "\<not> inUse (t ! i)" if "i < length t" for i
      using dir_map_found [OF wf that _ refl] empty by auto
    then show "isEmpty t" using e by (auto simp: in_set_conv_nth)
  qed
qed

section \<open>Properties\<close>

text \<open>
  C12. The directory is a finite map from names to header sectors: \<^verbatim>\<open>Add\<close> succeeds exactly when the
  name is new and an entry is free, and then defines that name and no other; \<^verbatim>\<open>Remove\<close> succeeds
  exactly when the name is there, and undefines it; \<^verbatim>\<open>Find\<close> and \<^verbatim>\<open>isDir\<close> look up the map, and
  \<^verbatim>\<open>isEmpty\<close> tells whether it is empty. Names count up to 39 characters.
\<close>

theorem Directory_refines_map:
  assumes "wf_dir t"
  shows "(case Add t name s d of (t', b) \<Rightarrow> wf_dir t' \<and>
      b = (dir_map t (key name) = None \<and> (\<exists>e \<in> set t. \<not> inUse e)) \<and>
      dir_map t' = (if b then (dir_map t)(key name \<mapsto> (s, d)) else dir_map t)) \<and>
    (case Dir_Remove t name of (t', b) \<Rightarrow> wf_dir t' \<and> b = (dir_map t (key name) \<noteq> None) \<and>
      dir_map t' = (dir_map t)(key name := None)) \<and>
    Dir_Find t name = (case dir_map t (key name) of Some (s, d) \<Rightarrow> s | None \<Rightarrow> - 1) \<and>
    is_Dir t name = (case dir_map t (key name) of Some (s, d) \<Rightarrow> d | None \<Rightarrow> False) \<and>
    (isEmpty t \<longleftrightarrow> dir_map t = Map.empty)"
proof -
  obtain t1 b1 where a: "Add t name s d = (t1, b1)" by fastforce
  obtain t2 b2 where r: "Dir_Remove t name = (t2, b2)" by fastforce
  show ?thesis
    using Add_map [OF assms a] Dir_Remove_map [OF assms r] Dir_Find_map [OF assms] is_Dir_map [OF assms]
      isEmpty_map [OF assms] unfolding a r prod.case by blast
qed

definition ex_dir_entry :: DirectoryEntry where
  "ex_dir_entry = \<lparr>inUse = True, isDir = False, de_pad = [0, 0], de_sector = 12, de_name = replicate 40 7\<rparr>"

definition ex_dir :: Directory where
  "ex_dir = new_Directory (\<lambda>_. ex_dir_entry) 2"

lemma ex_dir_wf: "wf_dir ex_dir"
  by (auto simp: ex_dir_def new_Directory_def wf_dir_def ex_dir_entry_def numeral_2_eq_2 less_Suc_eq)

theorem Directory_refines_map_witness:
  "snd (Add ex_dir [97, 98] 44 True) \<and> dir_map (fst (Add ex_dir [97, 98] 44 True)) [97, 98] = Some (44, True) \<and>
   Dir_Find ex_dir [97, 98] = - 1"
proof -
  have free: "\<exists>e \<in> set ex_dir. \<not> inUse e" and none: "dir_map ex_dir (key [97, 98]) = None"
    by (auto simp: ex_dir_def new_Directory_def dir_map_def numeral_2_eq_2)
  have k: "key [97, 98] = [97, 98]" by (simp add: key_def cstr_def)
  obtain t' b where t': "Add ex_dir [97, 98] 44 True = (t', b)" by fastforce
  show ?thesis using Directory_refines_map [OF ex_dir_wf, of "[97, 98]" 44 True] free none k unfolding t' by simp
qed

end
