(* ===== verification/File_System.thy ===== *)
theory File_System
  imports Open_File Dir_Table
begin

text \<open>
  The file system, \<^verbatim>\<open>code/filesys/filesys.h\<close> and \<^verbatim>\<open>filesys.cc\<close>, with the half of
  \<^verbatim>\<open>OpenFile::WriteAt\<close> that extends a file. Open files are objects with an identity: the file of the
  free map is shared by all operations, and the code passes the header of a file that is being
  extended by reference. They live in a store indexed by addresses.
\<close>

section \<open>State\<close>

abbreviation (input) FreeMapSector :: int where "FreeMapSector \<equiv> 0"
abbreviation (input) DirectorySector :: int where "DirectorySector \<equiv> 1"
abbreviation (input) FreeMapFileSize :: int where "FreeMapFileSize \<equiv> 128"
abbreviation (input) NumDirEntries :: nat where "NumDirEntries \<equiv> 10"
abbreviation (input) DirectoryFileSize :: int where "DirectoryFileSize \<equiv> 480"

record FileSystem =
  env :: FsEnv
  files :: "nat \<Rightarrow> OpenFile option"
  next_file :: nat
  freeMapFile :: nat
  directoryFile :: nat

definition get_file :: "FileSystem \<Rightarrow> nat \<Rightarrow> OpenFile result" where
  "get_file fs p = (case files fs p of None \<Rightarrow> Inl BadAccess | Some f \<Rightarrow> Inr f)"

definition put_file :: "nat \<Rightarrow> FsEnv \<Rightarrow> OpenFile \<Rightarrow> FileSystem \<Rightarrow> FileSystem" where
  "put_file p e f fs = fs\<lparr>env := e, files := (files fs)(p \<mapsto> f)\<rparr>"

definition open_file :: "FileSystem \<Rightarrow> int \<Rightarrow> (FileSystem \<times> nat) result" where
  "open_file fs sec = bindE (new_OpenFile (env fs) sec) (\<lambda>(e, f).
     Inr (put_file (next_file fs) e f (fs\<lparr>next_file := next_file fs + 1\<rparr>), next_file fs))"

definition close_file :: "FileSystem \<Rightarrow> nat \<Rightarrow> FileSystem result" where
  "close_file fs p = bindE (get_file fs p) (\<lambda>f.
     bindE (delete_OpenFile (env fs) f) (\<lambda>e. Inr (fs\<lparr>env := e, files := (files fs)(p := None)\<rparr>)))"

definition file_ReadAt :: "FileSystem \<Rightarrow> nat \<Rightarrow> int \<Rightarrow> int \<Rightarrow> (FileSystem \<times> byte list) result" where
  "file_ReadAt fs p n position = bindE (get_file fs p) (\<lambda>f.
     bindE (ReadAt (env fs) f n position) (\<lambda>(e, f, bs). Inr (put_file p e f fs, bs)))"

definition file_WriteAt_inside :: "FileSystem \<Rightarrow> nat \<Rightarrow> byte list \<Rightarrow> int \<Rightarrow> int \<Rightarrow> (FileSystem \<times> int) result" where
  "file_WriteAt_inside fs p from n position = bindE (get_file fs p) (\<lambda>f.
     bindE (WriteAt_inside (env fs) f from n position) (\<lambda>(e, f, r). Inr (put_file p e f fs, r)))"

text \<open>Objects in fresh memory: a bitmap, a directory, a file header, and unassigned integers.\<close>

definition fresh_BitMap :: "FileSystem \<Rightarrow> (FileSystem \<times> BitMap) result" where
  "fresh_BitMap fs = (let (e, bs) = new_bytes (env fs) 128 in
     bindE (new_BitMap (\<lambda>k. bytes_word (slice (4 * k) 4 bs)) NumSectors) (\<lambda>b. Inr (fs\<lparr>env := e\<rparr>, b)))"

definition fresh_Directory :: "FileSystem \<Rightarrow> FileSystem \<times> Directory" where
  "fresh_Directory fs = (let (e, bs) = new_bytes (env fs) (48 * NumDirEntries) in
     (fs\<lparr>env := e\<rparr>, new_Directory (\<lambda>i. entry_of_bytes (slice (48 * i) 48 bs)) NumDirEntries))"

definition fresh_FileHeader :: "FileSystem \<Rightarrow> FileSystem \<times> FileHeader" where
  "fresh_FileHeader fs = (let (e, bs) = new_bytes (env fs) 128 in (fs\<lparr>env := e\<rparr>, hdr_of_bytes bs))"

definition fresh_int :: "FileSystem \<Rightarrow> FileSystem \<times> int" where
  "fresh_int fs = (let (e, bs) = new_bytes (env fs) 4 in (fs\<lparr>env := e\<rparr>, bytes_int bs))"

text \<open>
  The arrays that \<^verbatim>\<open>Allocate\<close> and \<^verbatim>\<open>extendLength\<close> allocate for index sectors: one allocation for
  each of the at most five rounds.
\<close>

definition fresh_heap :: "FileSystem \<Rightarrow> FileSystem \<times> (int \<Rightarrow> nat \<Rightarrow> byte)" where
  "fresh_heap fs = (let e = env fs in
     (fs\<lparr>env := e\<lparr>allocs := allocs e + 6\<rparr>\<rparr>, \<lambda>i. fresh e (allocs e + nat i)))"

section \<open>Objects in files\<close>

definition BitMap_FetchFrom :: "FileSystem \<Rightarrow> BitMap \<Rightarrow> nat \<Rightarrow> (FileSystem \<times> BitMap) result" where
  "BitMap_FetchFrom fs b p = bindE (file_ReadAt fs p (numWords b * 4) 0) (\<lambda>(fs, bs).
     Inr (fs, BitMap_of_bytes b (blit bs (BitMap_bytes b) 0)))"

definition Dir_FetchFrom :: "FileSystem \<Rightarrow> Directory \<Rightarrow> nat \<Rightarrow> (FileSystem \<times> Directory) result" where
  "Dir_FetchFrom fs t p = bindE (file_ReadAt fs p (48 * int (length t)) 0) (\<lambda>(fs, bs).
     Inr (fs, table_of_bytes (length t) (blit bs (table_bytes t) 0)))"

definition Hdr_WriteBack :: "FileSystem \<Rightarrow> FileHeader \<Rightarrow> int \<Rightarrow> FileSystem result" where
  "Hdr_WriteBack fs h sec = bindE (on_disk (\<lambda>sd. WriteBack sd h sec) (env fs)) (\<lambda>e. Inr (fs\<lparr>env := e\<rparr>))"

section \<open>Writing and extending\<close>

text \<open>
  \<^verbatim>\<open>WriteAt\<close> and \<^verbatim>\<open>ExtendWrapper\<close> call each other, since the free map is itself a file. The first
  argument bounds the depth of the calls.
\<close>

definition set_hdr :: "nat \<Rightarrow> SynchDisk \<Rightarrow> FileHeader \<Rightarrow> FileSystem \<Rightarrow> FileSystem" where
  "set_hdr p sd h fs = fs\<lparr>env := (env fs)\<lparr>synchDisk := sd\<rparr>,
     files := (files fs)(p := map_option (\<lambda>f. f\<lparr>hdr := h\<rparr>) (files fs p))\<rparr>"

text \<open>\<^verbatim>\<open>ExtendWrapper\<close> up to the call of \<^verbatim>\<open>extendLength\<close> and its result.\<close>

definition Extend_header :: "FileSystem \<Rightarrow> int \<Rightarrow> nat \<Rightarrow> int \<Rightarrow> (FileSystem \<times> bool \<times> FileHeader \<times> BitMap) result" where
  "Extend_header fs newNumBytes p sectorNum =
     bindE (fresh_BitMap fs) (\<lambda>(fs, freeMap).
     bindE (BitMap_FetchFrom fs freeMap (freeMapFile fs)) (\<lambda>(fs, freeMap).
     bindE (get_file fs p) (\<lambda>f.
     let (fs, heap) = fresh_heap fs;
         raw = (\<lambda>i k. bytes_int (map (\<lambda>j. heap i (4 * k + j)) [0..<4])) in
     bindE (extendLength raw (synchDisk (env fs)) (hdr f) freeMap newNumBytes sectorNum) (\<lambda>(ok, sd, h, freeMap).
     Inr (set_hdr p sd h fs, ok, h, freeMap)))))"

fun WriteAt :: "nat \<Rightarrow> FileSystem \<Rightarrow> nat \<Rightarrow> byte list \<Rightarrow> int \<Rightarrow> int \<Rightarrow> (FileSystem \<times> int) result"
  and ExtendWrapper :: "nat \<Rightarrow> FileSystem \<Rightarrow> int \<Rightarrow> int \<Rightarrow> nat \<Rightarrow> int \<Rightarrow> (FileSystem \<times> bool) result" where
  "WriteAt 0 fs p from n position = Inl Diverges"
| "WriteAt (Suc k) fs p from n position = bindE (get_file fs p) (\<lambda>f.
     let fileLength = FileLength (hdr f) in
     if n \<le> 0 \<or> position \<ge> fileLength then Inr (fs, 0)
     else if position + n > fileLength then
       let originalSectors = divRoundUp fileLength SectorSize;
           NewSectors = divRoundUp (position + n) SectorSize;
           deltaSectors = NewSectors - originalSectors in
       bindE (ExtendWrapper k fs (position + n) (headerSector f) p deltaSectors) (\<lambda>(fs, ok).
       if ok then file_WriteAt_inside fs p from n position
       else file_WriteAt_inside fs p from (fileLength - position) position)
     else file_WriteAt_inside fs p from n position)"
| "ExtendWrapper 0 fs newNumBytes hSector p sectorNum = Inl Diverges"
| "ExtendWrapper (Suc k) fs newNumBytes hSector p sectorNum =
     bindE (Extend_header fs newNumBytes p sectorNum) (\<lambda>(fs, ok, h, freeMap).
     if ok then
       bindE (Hdr_WriteBack fs h hSector) (\<lambda>fs.
       bindE (WriteAt k fs (freeMapFile fs) (BitMap_bytes freeMap) (numWords freeMap * 4) 0) (\<lambda>(fs, r).
       Inr (fs, True)))
     else Inr (fs, False))"

definition write_depth :: nat where
  "write_depth = 5"

definition BitMap_WriteBack :: "FileSystem \<Rightarrow> BitMap \<Rightarrow> nat \<Rightarrow> FileSystem result" where
  "BitMap_WriteBack fs b p =
     bindE (WriteAt write_depth fs p (BitMap_bytes b) (numWords b * 4) 0) (\<lambda>(fs, r). Inr fs)"

definition Dir_WriteBack :: "FileSystem \<Rightarrow> Directory \<Rightarrow> nat \<Rightarrow> FileSystem result" where
  "Dir_WriteBack fs t p =
     bindE (WriteAt write_depth fs p (table_bytes t) (48 * int (length t)) 0) (\<lambda>(fs, r). Inr fs)"

definition file_Write :: "FileSystem \<Rightarrow> nat \<Rightarrow> byte list \<Rightarrow> int \<Rightarrow> (FileSystem \<times> int) result" where
  "file_Write fs p from n = bindE (get_file fs p) (\<lambda>f.
     bindE (WriteAt write_depth fs p from n (seekPosition f)) (\<lambda>(fs, r).
     bindE (get_file fs p) (\<lambda>f.
     Inr (put_file p (env fs) (f\<lparr>seekPosition := seekPosition f + r\<rparr>) fs, r))))"

section \<open>Names\<close>

text \<open>The position of the last slash of a path, or 0 if there is none.\<close>

fun slash_loop :: "byte list \<Rightarrow> nat list \<Rightarrow> nat" where
  "slash_loop name [] = 0"
| "slash_loop name (i # is) = (if name ! i = 47 then i else slash_loop name is)"

definition last_slash :: "byte list \<Rightarrow> nat" where
  "last_slash name = slash_loop name (rev [0..<length name])"

lemma slash_loop_less: "set is \<subseteq> {..<n} \<Longrightarrow> slash_loop name is \<noteq> 0 \<Longrightarrow> slash_loop name is < n"
  by (induction "is") (auto split: if_splits)

lemma last_slash_less: "0 < last_slash name \<Longrightarrow> last_slash name < length name"
  unfolding last_slash_def by (rule slash_loop_less) auto

function GetParentSector :: "FileSystem \<Rightarrow> byte list \<Rightarrow> (FileSystem \<times> int) result" where
  "GetParentSector fs name =
     (let pos = last_slash name in
      if pos = 0 then Inr (fs, DirectorySector)
      else
       let parent = take pos name in
       bindE (GetParentSector fs parent) (\<lambda>(fs, grandpaSector).
       let (fs, grandpa) = fresh_Directory fs in
       bindE (open_file fs grandpaSector) (\<lambda>(fs, grandpaFile).
       bindE (Dir_FetchFrom fs grandpa grandpaFile) (\<lambda>(fs, grandpa).
       let res = Dir_Find grandpa parent in
       bindE (close_file fs grandpaFile) (\<lambda>fs. Inr (fs, res))))))"
  by pat_completeness auto
termination by (relation "measure (\<lambda>(fs, name). length name)") (auto intro: min.strict_coboundedI2 last_slash_less)

definition GetHeaderSector :: "FileSystem \<Rightarrow> byte list \<Rightarrow> (FileSystem \<times> int) result" where
  "GetHeaderSector fs name =
     bindE (GetParentSector fs name) (\<lambda>(fs, parentSector).
     if parentSector < 0 then Inr (fs, - 1)
     else
       let (fs, parentDir) = fresh_Directory fs in
       bindE (open_file fs parentSector) (\<lambda>(fs, parentFile).
       bindE (Dir_FetchFrom fs parentDir parentFile) (\<lambda>(fs, parentDir).
       let res = Dir_Find parentDir name in
       bindE (close_file fs parentFile) (\<lambda>fs. Inr (fs, res)))))"

declare GetParentSector.simps [simp del]

section \<open>The operations\<close>

text \<open>
  Allocation of a header for \<open>size\<close> bytes: \<^verbatim>\<open>hdr = new FileHeader\<close> and
  \<^verbatim>\<open>hdr->Allocate(freeMap, size)\<close>, with the memory the two find.
\<close>

definition new_Allocate :: "FileSystem \<Rightarrow> BitMap \<Rightarrow> int \<Rightarrow> (FileSystem \<times> bool \<times> FileHeader \<times> BitMap) result" where
  "new_Allocate fs freeMap fsize =
     (let (fs, h) = fresh_FileHeader fs; (fs, nsec) = fresh_int fs; (fs, heap) = fresh_heap fs in
      bindE (Allocate nsec heap (synchDisk (env fs)) h freeMap fsize) (\<lambda>(ok, sd, h, freeMap).
      Inr (fs\<lparr>env := (env fs)\<lparr>synchDisk := sd\<rparr>\<rparr>, ok, h, freeMap)))"

text \<open>A time stamp set from the clock.\<close>

definition stamp :: "(byte list \<Rightarrow> FileHeader \<Rightarrow> FileHeader) \<Rightarrow> FileSystem \<times> FileHeader \<Rightarrow> FileSystem \<times> FileHeader" where
  "stamp set_time = (\<lambda>(fs, h). (fs\<lparr>env := next_time (env fs)\<rparr>, set_time (now (env fs)) h))"

definition new_FileSystem :: "FsEnv \<Rightarrow> bool \<Rightarrow> FileSystem result" where
  "new_FileSystem e format =
     (let fs = \<lparr>env = e, files = (\<lambda>_. None), next_file = 1, freeMapFile = 0, directoryFile = 0\<rparr> in
      if format then
        bindE (fresh_BitMap fs) (\<lambda>(fs, freeMap).
        let (fs, directory) = fresh_Directory fs in
        bindE (Mark freeMap FreeMapSector) (\<lambda>freeMap.
        bindE (Mark freeMap DirectorySector) (\<lambda>freeMap.
        bindE (new_Allocate fs freeMap FreeMapFileSize) (\<lambda>(fs, ok, mapHdr, freeMap). ASSERT ok (
        bindE (new_Allocate fs freeMap DirectoryFileSize) (\<lambda>(fs, ok, dirHdr, freeMap). ASSERT ok (
        let (fs, mapHdr) = stamp set_create_time (fs, mapHdr);
            (fs, dirHdr) = stamp set_create_time (fs, dirHdr) in
        bindE (Hdr_WriteBack fs mapHdr FreeMapSector) (\<lambda>fs.
        bindE (Hdr_WriteBack fs dirHdr DirectorySector) (\<lambda>fs.
        bindE (open_file fs FreeMapSector) (\<lambda>(fs, p). let fs = fs\<lparr>freeMapFile := p\<rparr> in
        bindE (open_file fs DirectorySector) (\<lambda>(fs, q). let fs = fs\<lparr>directoryFile := q\<rparr> in
        bindE (BitMap_WriteBack fs freeMap p) (\<lambda>fs.
        Dir_WriteBack fs directory q))))))))))))
      else
        bindE (open_file fs FreeMapSector) (\<lambda>(fs, p). let fs = fs\<lparr>freeMapFile := p\<rparr> in
        bindE (open_file fs DirectorySector) (\<lambda>(fs, q). Inr (fs\<lparr>directoryFile := q\<rparr>))))"

text \<open>
  \<^verbatim>\<open>Create\<close>. The part for a name that is not there yet, up to the deletion of the bitmap: the result
  is the sector taken for the header, success, and the directory of the parent in memory.
\<close>

definition Create_new :: "FileSystem \<Rightarrow> Directory \<Rightarrow> nat \<Rightarrow> byte list \<Rightarrow> int \<Rightarrow> bool \<Rightarrow> (FileSystem \<times> int \<times> bool) result" where
  "Create_new fs parent parentFile name initialSize dir =
     bindE (fresh_BitMap fs) (\<lambda>(fs, freeMap).
     bindE (BitMap_FetchFrom fs freeMap (freeMapFile fs)) (\<lambda>(fs, freeMap).
     bindE (Find freeMap) (\<lambda>(freeMap, sec).
     if sec = - 1 then Inr (fs, sec, False)
     else
       let (parent, added) = Add parent name sec dir in
       if \<not> added then Inr (fs, sec, False)
       else
         bindE (new_Allocate fs freeMap initialSize) (\<lambda>(fs, ok, h, freeMap).
         if \<not> ok then Inr (fs, sec, False)
         else
           let (fs, h) = stamp set_modify_time (stamp set_visit_time (stamp set_create_time (fs, h))) in
           bindE (Hdr_WriteBack fs h sec) (\<lambda>fs.
           bindE (Dir_WriteBack fs parent parentFile) (\<lambda>fs.
           bindE (BitMap_WriteBack fs freeMap (freeMapFile fs)) (\<lambda>fs.
           Inr (fs, sec, True))))))))"

definition Create :: "FileSystem \<Rightarrow> byte list \<Rightarrow> int \<Rightarrow> (FileSystem \<times> bool) result" where
  "Create fs name initialSize =
     (let dir = (initialSize < 0);
          initialSize = (if initialSize < 0 then DirectoryFileSize else initialSize);
          (fs, parent) = fresh_Directory fs in
      bindE (GetParentSector fs name) (\<lambda>(fs, parentSector).
      if parentSector < 0 then Inr (fs, False)
      else
        bindE (open_file fs parentSector) (\<lambda>(fs, parentFile).
        bindE (Dir_FetchFrom fs parent parentFile) (\<lambda>(fs, parent).
        bindE (if Dir_Find parent name \<noteq> - 1 then Inr (fs, False)
               else
                 bindE (Create_new fs parent parentFile name initialSize dir) (\<lambda>(fs, sec, success).
                 if dir then
                   bindE (open_file fs sec) (\<lambda>(fs, Myfile).
                   let (fs, Me) = fresh_Directory fs in
                   bindE (Dir_WriteBack fs Me Myfile) (\<lambda>fs.
                   bindE (close_file fs Myfile) (\<lambda>fs. Inr (fs, success))))
                 else Inr (fs, success))) (\<lambda>(fs, success).
        bindE (close_file fs parentFile) (\<lambda>fs. Inr (fs, success)))))))"

definition Open :: "FileSystem \<Rightarrow> byte list \<Rightarrow> (FileSystem \<times> nat option) result" where
  "Open fs name =
     (let (fs, directory) = fresh_Directory fs in
      bindE (GetParentSector fs name) (\<lambda>(fs, parentSector).
      if parentSector < 0 then Inr (fs, None)
      else
        bindE (open_file fs parentSector) (\<lambda>(fs, parentFile).
        bindE (Dir_FetchFrom fs directory parentFile) (\<lambda>(fs, directory).
        let sec = Dir_Find directory name in
        bindE (if sec \<ge> 0 then bindE (open_file fs sec) (\<lambda>(fs, p). Inr (fs, Some p)) else Inr (fs, None))
          (\<lambda>(fs, openFile).
        bindE (close_file fs parentFile) (\<lambda>fs. Inr (fs, openFile)))))))"

text \<open>
  \<^verbatim>\<open>Remove\<close> calls itself for the entries of a directory, by name; the first argument bounds the depth.
  \<open>Remove_entries\<close> is its loop; it stops at the first entry that cannot be removed.
\<close>

definition Remove_file :: "FileSystem \<Rightarrow> Directory \<Rightarrow> nat \<Rightarrow> byte list \<Rightarrow> int \<Rightarrow> (FileSystem \<times> bool) result" where
  "Remove_file fs directory parentFile name sec =
     bindE (FetchFrom (synchDisk (env fs)) sec) (\<lambda>(sd, fileHdr).
     let fs = fs\<lparr>env := (env fs)\<lparr>synchDisk := sd\<rparr>\<rparr> in
     bindE (fresh_BitMap fs) (\<lambda>(fs, freeMap).
     bindE (BitMap_FetchFrom fs freeMap (freeMapFile fs)) (\<lambda>(fs, freeMap).
     bindE (Deallocate (synchDisk (env fs)) fileHdr freeMap) (\<lambda>(sd, freeMap).
     let fs = fs\<lparr>env := (env fs)\<lparr>synchDisk := sd\<rparr>\<rparr> in
     bindE (Clear freeMap sec) (\<lambda>freeMap.
     let (directory, _) = Dir_Remove directory name in
     bindE (BitMap_WriteBack fs freeMap (freeMapFile fs)) (\<lambda>fs.
     bindE (Dir_WriteBack fs directory parentFile) (\<lambda>fs.
     bindE (close_file fs parentFile) (\<lambda>fs. Inr (fs, True)))))))))"

fun FileSystem_Remove :: "nat \<Rightarrow> FileSystem \<Rightarrow> byte list \<Rightarrow> (FileSystem \<times> bool) result"
  and Remove_entries :: "nat \<Rightarrow> FileSystem \<Rightarrow> Directory \<Rightarrow> (FileSystem \<times> bool) result" where
  "FileSystem_Remove 0 fs name = Inl Diverges"
| "FileSystem_Remove (Suc k) fs name =
     (let (fs, directory) = fresh_Directory fs in
      bindE (GetParentSector fs name) (\<lambda>(fs, parentSector).
      if parentSector < 0 then Inr (fs, False)
      else
        bindE (open_file fs parentSector) (\<lambda>(fs, parentFile).
        bindE (Dir_FetchFrom fs directory parentFile) (\<lambda>(fs, directory).
        let sec = Dir_Find directory name in
        if sec = - 1 then bindE (close_file fs parentFile) (\<lambda>fs. Inr (fs, False))
        else
          bindE (GetOpenStart (synchDisk (env fs)) sec) (\<lambda>opened.
          if opened > 0 then bindE (close_file fs parentFile) (\<lambda>fs. Inr (fs, False))
          else
            bindE (if is_Dir directory name
                   then bindE (open_file fs sec) (\<lambda>(fs, NameFile).
                        let (fs, NameDir) = fresh_Directory fs in
                        bindE (Dir_FetchFrom fs NameDir NameFile) (\<lambda>(fs, NameDir).
                        bindE (Remove_entries k fs NameDir) (\<lambda>(fs, all_removed).
                        bindE (close_file fs NameFile) (\<lambda>fs. Inr (fs, all_removed)))))
                   else Inr (fs, True)) (\<lambda>(fs, go).
            if \<not> go then bindE (close_file fs parentFile) (\<lambda>fs. Inr (fs, False))
            else Remove_file fs directory parentFile name sec))))))"
| "Remove_entries k fs [] = Inr (fs, True)"
| "Remove_entries k fs (e # es) =
     (if inUse e then
        bindE (FileSystem_Remove k fs (cstr (de_name e))) (\<lambda>(fs, flag).
        if \<not> flag then Inr (fs, False) else Remove_entries k fs es)
      else Remove_entries k fs es)"

definition List_names :: "FileSystem \<Rightarrow> (FileSystem \<times> byte list list) result" where
  "List_names fs =
     (let (fs, directory) = fresh_Directory fs in
      bindE (Dir_FetchFrom fs directory (directoryFile fs)) (\<lambda>(fs, directory). Inr (fs, Dir_List directory)))"

text \<open>\<^verbatim>\<open>Print\<close>: what it hands to the printers of the headers, the bitmap and the directory.\<close>

definition Print_all :: "FileSystem \<Rightarrow> (FileSystem \<times> FileHeader \<times> FileHeader \<times> int list \<times> Directory) result" where
  "Print_all fs =
     (let (fs, _) = fresh_FileHeader fs; (fs, _) = fresh_FileHeader fs in
      bindE (fresh_BitMap fs) (\<lambda>(fs, freeMap).
      let (fs, directory) = fresh_Directory fs in
      bindE (FetchFrom (synchDisk (env fs)) FreeMapSector) (\<lambda>(sd, bitHdr).
      bindE (FetchFrom sd DirectorySector) (\<lambda>(sd, dirHdr).
      let fs = fs\<lparr>env := (env fs)\<lparr>synchDisk := sd\<rparr>\<rparr> in
      bindE (BitMap_FetchFrom fs freeMap (freeMapFile fs)) (\<lambda>(fs, freeMap).
      bindE (Print_bits freeMap) (\<lambda>bits.
      bindE (Dir_FetchFrom fs directory (directoryFile fs)) (\<lambda>(fs, directory).
      Inr (fs, bitHdr, dirHdr, bits, directory))))))))"

section \<open>The depth of the calls is enough\<close>

lemma Mark_numWords: "Mark b i = Inr b' \<Longrightarrow> numWords b' = numWords b"
  by (auto simp: Mark_def set_word_def ASSERT_def bindE_eq_Inr split: if_splits)

lemma Clear_numWords: "Clear b i = Inr b' \<Longrightarrow> numWords b' = numWords b"
  by (auto simp: Clear_def set_word_def ASSERT_def bindE_eq_Inr split: if_splits)

lemma Find_loop_numWords: "Find_loop b is = Inr (b', i) \<Longrightarrow> numWords b' = numWords b"
  by (induction b "is" rule: Find_loop.induct) (auto simp: bindE_eq_Inr dest: Mark_numWords split: if_splits)

lemma Find_numWords: "Find b = Inr (b', i) \<Longrightarrow> numWords b' = numWords b"
  by (auto simp: Find_def dest: Find_loop_numWords)

lemma find_n_numWords: "find_n Find n b = Inr (b', is) \<Longrightarrow> numWords b' = numWords b"
  by (induction n arbitrary: b b' "is") (auto simp: bindE_eq_Inr dest: Find_numWords)

lemma fill_entries_numWords: "fill_entries j lim arr fm k = Inr (fm', is, n) \<Longrightarrow> numWords fm' = numWords fm"
  by (auto simp: fill_entries_def Let_def bindE_eq_Inr dest: find_n_numWords)

lemma extend_index_numWords:
  "extend_new_index rw i sd h fm k = Inr (sd', h', fm', k') \<Longrightarrow> numWords fm' = numWords fm"
  "extend_old_index i sd h fm k = Inr (sd', h', fm', k') \<Longrightarrow> numWords fm' = numWords fm"
  by (auto simp: extend_new_index_def extend_old_index_def bindE_eq_Inr dest!: Find_numWords fill_entries_numWords)

lemma extend_loop_numWords:
  "extend_loop raw is (sd, h, fm, k) = Inr (sd', h', fm', k') \<Longrightarrow> numWords fm' = numWords fm"
proof (induction "is" arbitrary: sd h fm k)
  case (Cons i "is")
  from Cons.prems show ?case
    by (auto simp: bindE_eq_Inr split: if_splits dest!: extend_index_numWords Cons.IH)
qed simp

lemma extendLength_facts:
  assumes "extendLength raw sd h fm nb k = Inr (ok, sd', h', fm')"
  shows "numWords fm' = numWords fm" "ok \<Longrightarrow> numBytes h' = nb"
  using assms
  by (auto simp: extendLength_def bindE_eq_Inr split: if_splits dest!: extend_loop_numWords fill_entries_numWords)

lemma foldE_Clear_numWords: "foldE (\<lambda>i b. Clear b i) is b = Inr b' \<Longrightarrow> numWords b' = numWords b"
  by (induction "is" arbitrary: b) (auto simp: bindE_eq_Inr dest: Clear_numWords)

lemma fresh_BitMap_facts:
  assumes "fresh_BitMap fs = Inr (fs', b)"
  shows "numWords b = 32" "files fs' = files fs" "freeMapFile fs' = freeMapFile fs"
  using assms
  by (auto simp: fresh_BitMap_def new_bytes_def new_BitMap_def bindE_eq_Inr divRoundUp_def c_div_def c_mod_def BitsInWord_def
      dest!: foldE_Clear_numWords)

lemma BitMap_FetchFrom_facts:
  assumes "BitMap_FetchFrom fs b p = Inr (fs', b')"
  shows "numWords b' = numWords b" "freeMapFile fs' = freeMapFile fs"
  using assms by (auto simp: BitMap_FetchFrom_def file_ReadAt_def bindE_eq_Inr BitMap_of_bytes_def put_file_def)

lemma WriteAt_inside_depth:
  assumes "files fs p = Some f" "position + n \<le> FileLength (hdr f)"
  shows "WriteAt (Suc k) fs p from n position = WriteAt (Suc 0) fs p from n position"
  using assms by (simp add: get_file_def Let_def)

lemma Hdr_WriteBack_facts:
  "Hdr_WriteBack fs h sec = Inr fs' \<Longrightarrow> files fs' = files fs \<and> freeMapFile fs' = freeMapFile fs"
  by (auto simp: Hdr_WriteBack_def bindE_eq_Inr)

lemma Extend_header_facts:
  assumes "Extend_header fs nb p d = Inr (fs', ok, h, fm)"
  shows "freeMapFile fs' = freeMapFile fs" "numWords fm = 32" "ok \<Longrightarrow> \<exists>f. files fs' p = Some f \<and> FileLength (hdr f) = nb"
  using assms fresh_BitMap_facts BitMap_FetchFrom_facts extendLength_facts
  by (auto simp: Extend_header_def bindE_eq_Inr fresh_heap_def Let_def set_hdr_def get_file_def FileLength_def
      split: option.splits)

text \<open>Below these two routines there is no unbounded recursion.\<close>

lemma disk_ends [ends_rules]:
  "ends (ReadSector sd n)" "ends (WriteSector sd n bs)" "ends (StartRead sd h)" "ends (EndRead sd h)"
  "ends (StartWrite sd h)" "ends (EndWrite sd h)"
proof -
  have req: "ends (ReadRequest d st n)" "ends (WriteRequest d st n bs)" for d st n bs
    unfolding ReadRequest_def WriteRequest_def schedule_DiskInt_def file_read_def file_write_def Let_def by (intro ends_rules)+
  have lock: "ends (lock_Acquire s)" "ends (lock_Release s)" "ends (semaphore_wait s)" for s
    unfolding lock_Acquire_def lock_Release_def semaphore_wait_def sem_P_def Let_def by (intro ends_rules)+
  have probe: "ends (read_probe n i x)" "ends (write_probe n bs i y)" for n i x y bs
    unfolding read_probe_def write_probe_def Let_def by (intro ends_rules lock)+
  have miss: "ends (CacheMiss s n)" for s n
    unfolding CacheMiss_def CacheMiss_flush_def CacheMiss_fill_def Let_def by (intro ends_rules lock req)+
  show "ends (ReadSector sd n)" "ends (WriteSector sd n bs)"
    unfolding ReadSector_def WriteSector_def read_pass_def write_pass_def by (intro ends_rules probe miss)+
  show "ends (StartRead sd h)" "ends (EndRead sd h)" "ends (StartWrite sd h)" "ends (EndWrite sd h)"
    unfolding StartRead_def EndRead_def StartWrite_def EndWrite_def rw_prims by (intro ends_rules)+
qed

lemma bitmap_ends [ends_rules]: "ends (Mark b i)" "ends (Clear b i)" "ends (Test b i)"
  unfolding Mark_def Clear_def Test_def get_word_def set_word_def Let_def by (intro ends_rules)+

lemma Find_ends [ends_rules]: "ends (Find b)"
proof -
  have "ends (Find_loop b is)" for "is" by (induction "is") (auto intro: ends_rules)
  then show ?thesis by (simp add: Find_def)
qed

lemma fill_entries_ends [ends_rules]: "ends (fill_entries j lim arr fm k)"
proof -
  have "ends (find_n Find n b)" for n b by (induction n arbitrary: b) (auto intro!: ends_rules)
  then show ?thesis unfolding fill_entries_def Let_def by (intro ends_rules)
qed

lemma extendLength_ends [ends_rules]: "ends (extendLength raw sd h fm nb k)"
proof -
  have "ends (extend_loop raw is st)" for "is" st
  proof (induction "is" arbitrary: st)
    case (Cons i "is")
    then show ?case
      by (cases st) (auto simp: extend_new_index_def extend_old_index_def set_entry_def get_entry_def intro!: ends_rules)
  qed (simp add: ends_rules)
  then show ?thesis unfolding extendLength_def by (intro ends_rules)
qed

lemma file_ends [ends_rules]:
  "ends (file_ReadAt fs p n position)" "ends (file_WriteAt_inside fs p from n position)" "ends (Hdr_WriteBack fs h sec)"
proof -
  have b: "ends (ByteToSector sd h' i)" for sd h' i
    unfolding ByteToSector_def get_entry_def Let_def by (intro ends_rules)
  have r: "ends (ReadAt e f n' pos)" for e f n' pos
    unfolding ReadAt_def read_sectors_def copy_out_def WriteBack_def Let_def by (intro ends_rules b)
  have w: "ends (WriteAt_inside e f from' n' pos)" for e f from' n' pos
    unfolding WriteAt_inside_def write_sectors_def copy_out_def copy_in_def WriteBack_def Let_def by (intro ends_rules b r)
  show "ends (file_ReadAt fs p n position)" "ends (file_WriteAt_inside fs p from n position)" "ends (Hdr_WriteBack fs h sec)"
    unfolding file_ReadAt_def file_WriteAt_inside_def get_file_def Hdr_WriteBack_def on_disk_def WriteBack_def
    by (intro ends_rules r w)+
qed

lemma Extend_header_ends [ends_rules]: "ends (Extend_header fs nb p d)"
  unfolding Extend_header_def fresh_BitMap_def new_BitMap_def BitMap_FetchFrom_def get_file_def Let_def by (intro ends_rules)

text \<open>The calls of \<^verbatim>\<open>ExtendWrapper\<close> depend on the depth only through the write of the free map.\<close>

lemma ExtendWrapper_cong:
  assumes "\<And>fs' bs. freeMapFile fs' = freeMapFile fs \<Longrightarrow>
      p = freeMapFile fs \<longrightarrow> (\<exists>f. files fs' p = Some f \<and> FileLength (hdr f) = nb) \<Longrightarrow>
      WriteAt k fs' (freeMapFile fs) bs 128 0 = WriteAt l fs' (freeMapFile fs) bs 128 0"
  shows "ExtendWrapper (Suc k) fs nb hs p d = ExtendWrapper (Suc l) fs nb hs p d"
proof (cases "Extend_header fs nb p d")
  case (Inr x)
  obtain fs1 ok h fm where x: "x = (fs1, ok, h, fm)" by (cases x) auto
  note e = Extend_header_facts [OF Inr [unfolded x]]
  show ?thesis
  proof (cases "ok")
    case True
    show ?thesis
    proof (cases "Hdr_WriteBack fs1 h hs")
      case (Inr fs2)
      then have "files fs2 = files fs1" "freeMapFile fs2 = freeMapFile fs" using Hdr_WriteBack_facts e(1) by simp_all
      then have "WriteAt k fs2 (freeMapFile fs) (BitMap_bytes fm) 128 0 = WriteAt l fs2 (freeMapFile fs) (BitMap_bytes fm) 128 0"
        using assms [of fs2 "BitMap_bytes fm"] e(3) [OF True] by auto
      then show ?thesis
        using e(2) True \<open>Extend_header fs nb p d = Inr x\<close> x Inr \<open>freeMapFile fs2 = freeMapFile fs\<close> by simp
    qed (use True \<open>Extend_header fs nb p d = Inr x\<close> x in simp)
  qed (use Inr x in simp)
qed simp

lemma WriteAt_cong:
  assumes "\<And>f. files fs p = Some f \<Longrightarrow> FileLength (hdr f) < position + n \<Longrightarrow>
    ExtendWrapper k fs (position + n) (headerSector f) p
        (divRoundUp (position + n) SectorSize - divRoundUp (FileLength (hdr f)) SectorSize) =
      ExtendWrapper l fs (position + n) (headerSector f) p
        (divRoundUp (position + n) SectorSize - divRoundUp (FileLength (hdr f)) SectorSize)"
  shows "WriteAt (Suc k) fs p from n position = WriteAt (Suc l) fs p from n position"
  using assms by (auto simp: get_file_def Let_def split: option.split)

text \<open>The free map written to its own file needs at most one extension; every other file one more.\<close>

lemma WriteAt_freeMap_depth:
  assumes "p = freeMapFile fs"
  shows "WriteAt (Suc (Suc (Suc k))) fs p from 128 0 = WriteAt (Suc (Suc (Suc 0))) fs p from 128 0"
proof (rule WriteAt_cong, rule ExtendWrapper_cong)
  fix fs' :: FileSystem and bs
  assume "p = freeMapFile fs \<longrightarrow> (\<exists>f. files fs' p = Some f \<and> FileLength (hdr f) = 0 + 128)"
  then obtain f where "files fs' p = Some f" "0 + 128 \<le> FileLength (hdr f)" using assms by auto
  from WriteAt_inside_depth [OF this]
  show "WriteAt (Suc k) fs' (freeMapFile fs) bs 128 0 = WriteAt (Suc 0) fs' (freeMapFile fs) bs 128 0"
    using assms by simp
qed

text \<open>The same cases show that the bound is never reached.\<close>

lemma ExtendWrapper_ends:
  assumes "\<And>fs' bs. freeMapFile fs' = freeMapFile fs \<Longrightarrow>
      p = freeMapFile fs \<longrightarrow> (\<exists>f. files fs' p = Some f \<and> FileLength (hdr f) = nb) \<Longrightarrow>
      ends (WriteAt k fs' (freeMapFile fs) bs 128 0)"
  shows "ends (ExtendWrapper (Suc k) fs nb hs p d)"
  unfolding ExtendWrapper.simps
proof (rule ends_bindE_Inr [OF Extend_header_ends], clarify)
  fix fs1 ok h fm assume x: "Extend_header fs nb p d = Inr (fs1, ok, h, fm)"
  note e = Extend_header_facts [OF x]
  have w: "ends (WriteAt k fs2 (freeMapFile fs2) (BitMap_bytes fm) (numWords fm * 4) 0)" if "ok" "Hdr_WriteBack fs1 h hs = Inr fs2" for fs2
    using assms [of fs2 "BitMap_bytes fm"] Hdr_WriteBack_facts [OF that(2)] e(1,2) e(3) [OF that(1)] by auto
  have "ends (bindE (Hdr_WriteBack fs1 h hs) (\<lambda>fs.
       bindE (WriteAt k fs (freeMapFile fs) (BitMap_bytes fm) (numWords fm * 4) 0) (\<lambda>(fs, r). Inr (fs, True))))" if ok
    by (rule ends_bindE_Inr [OF file_ends(3)], rule ends_bindE [OF w [OF that]]) (auto intro: ends_rules)
  then show "ends (if ok then bindE (Hdr_WriteBack fs1 h hs) (\<lambda>fs.
       bindE (WriteAt k fs (freeMapFile fs) (BitMap_bytes fm) (numWords fm * 4) 0) (\<lambda>(fs, r). Inr (fs, True))) else Inr (fs1, False))"
    by (auto intro: ends_rules)
qed

lemma WriteAt_ends:
  assumes "\<And>f. files fs p = Some f \<Longrightarrow> FileLength (hdr f) < position + n \<Longrightarrow>
    ends (ExtendWrapper k fs (position + n) (headerSector f) p
        (divRoundUp (position + n) SectorSize - divRoundUp (FileLength (hdr f)) SectorSize))"
  shows "ends (WriteAt (Suc k) fs p from n position)"
  using assms by (auto simp: get_file_def Let_def split: option.split intro!: ends_rules)

lemma WriteAt_freeMap_ends:
  assumes "p = freeMapFile fs"
  shows "ends (WriteAt (Suc (Suc (Suc k))) fs p from 128 0)"
proof (rule WriteAt_ends, rule ExtendWrapper_ends, rule WriteAt_ends)
  fix fs' :: FileSystem and f
  assume "p = freeMapFile fs \<longrightarrow> (\<exists>f. files fs' p = Some f \<and> FileLength (hdr f) = 0 + 128)"
    and "files fs' (freeMapFile fs) = Some f" "FileLength (hdr f) < 0 + 128"
  then show "ends (ExtendWrapper k fs' (0 + 128) (headerSector f) (freeMapFile fs)
      (divRoundUp (0 + 128) SectorSize - divRoundUp (FileLength (hdr f)) SectorSize))" using assms by auto
qed

section \<open>Opening and closing\<close>

text \<open>
  A disk at rest: consistent, with nobody reading, writing or changing a counter. Opening and
  closing only move the counters of openers.
\<close>

definition quiet :: "SynchDisk \<Rightarrow> bool" where
  "quiet sd \<longleftrightarrow> wf_sd sd \<and> readerCnt sd = replicate 1024 0 \<and> rCntMutex sd = replicate 1024 1 \<and>
     RW sd = replicate 1024 1 \<and> oCntMutex sd = replicate 1024 1 \<and> length (openerCnt sd) = 1024"

lemma quiet_rw: "quiet sd \<Longrightarrow> valid_sector h \<Longrightarrow> rw_idle h sd"
  by (simp add: quiet_def rw_idle_def valid_sector_def nat_less_iff)

lemma quiet_others: "quiet sd \<Longrightarrow> others sd' = others sd \<Longrightarrow> wf_sd sd' \<Longrightarrow> quiet sd'"
  by (simp add: quiet_def others_def)

lemma count_opener_quiet:
  assumes "quiet sd" "valid_sector h"
  obtains sd' where "count_opener k sd h = Inr sd'" "quiet sd'" "content sd' = content sd"
    "openerCnt sd' = (openerCnt sd)[nat h := openerCnt sd ! nat h + k]"
proof -
  let ?s = "tick (sd\<lparr>openerCnt := (openerCnt sd)[nat h := openerCnt sd ! nat h + k], oCntMutex := (oCntMutex sd)[nat h := 1]\<rparr>)"
  have h: "0 \<le> h" "nat h < 1024" using assms(2) by (auto simp: valid_sector_def)
  have "(replicate 1024 1)[nat h := 1] = (replicate 1024 1 :: int list)" using h by (simp add: list_update_same_conv)
  moreover have "count_opener k sd h = Inr ?s"
    using assms(1) h by (auto simp: count_opener_def at_def sem_P_def sem_V_def quiet_def)
  moreover have "content ?s = content sd" by (rule content_eqI) (simp_all add: tick_def)
  ultimately show ?thesis using that [of ?s] assms(1) by (simp add: quiet_def tick_def wf_sd_def)
qed

lemma new_OpenFile_quiet:
  assumes "quiet (synchDisk e)" "valid_sector sec"
  obtains e' where "new_OpenFile e sec = Inr (e', \<lparr>hdr = hdr_of_bytes (content (synchDisk e) sec), seekPosition = 0, headerSector = sec\<rparr>)"
    "quiet (synchDisk e')" "\<And>s. valid_sector s \<Longrightarrow> content (synchDisk e') s = content (synchDisk e) s"
    "asctime e' = asctime e" "fresh e' = fresh e" "allocs e' = allocs e"
    "openerCnt (synchDisk e') = (openerCnt (synchDisk e))[nat sec := openerCnt (synchDisk e) ! nat sec + 1]"
proof -
  obtain sd1 where 1: "Disk_Open (synchDisk e) sec = Inr sd1" "quiet sd1" "content sd1 = content (synchDisk e)"
    "openerCnt sd1 = (openerCnt (synchDisk e))[nat sec := openerCnt (synchDisk e) ! nat sec + 1]"
    using count_opener_quiet [OF assms, of 1] unfolding Disk_Open_def by blast
  have "wf_sd sd1" using 1(2) by (simp add: quiet_def)
  then obtain sd2 where 2: "ReadSector sd1 sec = Inr (sd2, content sd1 sec)" "keeps sd1 sd2"
    using ReadSector_reads assms(2) by blast
  then have "quiet sd2" "openerCnt sd2 = openerCnt sd1" using quiet_others [OF 1(2)] by (auto simp: keeps_def others_def)
  then show ?thesis using that [of "e\<lparr>synchDisk := sd2\<rparr>"] 1 2 by (simp add: new_OpenFile_def FetchFrom_def keeps_def)
qed

lemma close_file_quiet:
  assumes "files fs p = Some f" "quiet (synchDisk (env fs))" "valid_sector (headerSector f)"
  obtains e' where "close_file fs p = Inr (fs\<lparr>env := e', files := (files fs)(p := None)\<rparr>)" "quiet (synchDisk e')"
    "content (synchDisk e') = content (synchDisk (env fs))" "asctime e' = asctime (env fs)" "fresh e' = fresh (env fs)"
    "allocs e' = allocs (env fs)"
proof -
  obtain sd' where "Disk_Close (synchDisk (env fs)) (headerSector f) = Inr sd'" "quiet sd'"
    "content sd' = content (synchDisk (env fs))"
    using count_opener_quiet [OF assms(2,3), of "- 1"] unfolding Disk_Close_def by blast
  then show ?thesis using that [of "(env fs)\<lparr>synchDisk := sd'\<rparr>"] assms(1)
    by (simp add: close_file_def get_file_def delete_OpenFile_def on_disk_def)
qed

lemma fresh_Directory_facts:
  assumes "fresh_Directory fs = (fs', t)"
  shows "list_all wf_entry t" "length t = 10" "list_all (\<lambda>e. \<not> inUse e) t" "files fs' = files fs"
    "synchDisk (env fs') = synchDisk (env fs)" "fresh (env fs') = fresh (env fs)" "asctime (env fs') = asctime (env fs)"
    "next_file fs' = next_file fs" "freeMapFile fs' = freeMapFile fs" "directoryFile fs' = directoryFile fs"
  using assms
  by (auto simp: fresh_Directory_def new_bytes_def Let_def new_Directory_def list_all_iff wf_entry_def entry_of_bytes_def
      simp del: upt_rec_numeral)

lemma FindIndex_unused: "list_all (\<lambda>e. \<not> inUse e) t \<Longrightarrow> FindIndex t name = - 1"
proof -
  assume t: "list_all (\<lambda>e. \<not> inUse e) t"
  have "\<forall>i \<in> set is. i < length t \<Longrightarrow> FindIndex_loop t name is = - 1" for "is"
    using t by (induction "is") (auto simp: list_all_length)
  then show ?thesis by (simp add: FindIndex_def)
qed

text \<open>
  C15. The recursion through the file of the free map ends: in every state and for every file, position and count, five levels of
  calls are enough. The call then returns or stops with a fault of the code, never for want of
  depth, and every larger bound gives the same result.
\<close>

theorem WriteAt_depth_enough:
  "ends (WriteAt write_depth fs p from n position) \<and>
   WriteAt (write_depth + k) fs p from n position = WriteAt write_depth fs p from n position"
proof
  have 1: "ExtendWrapper (Suc (Suc (Suc (Suc k)))) fs nb hs p d = ExtendWrapper (Suc (Suc (Suc (Suc 0)))) fs nb hs p d" for nb hs d
    by (rule ExtendWrapper_cong) (metis WriteAt_freeMap_depth)
  have 2: "write_depth + k = Suc (Suc (Suc (Suc (Suc k))))" "write_depth = Suc (Suc (Suc (Suc (Suc 0))))"
    by (simp_all add: write_depth_def)
  show "WriteAt (write_depth + k) fs p from n position = WriteAt write_depth fs p from n position"
    unfolding 2(1) unfolding 2(2) by (rule WriteAt_cong) (rule 1)
  show "ends (WriteAt write_depth fs p from n position)" unfolding 2(2)
    by (rule WriteAt_ends, rule ExtendWrapper_ends) (metis WriteAt_freeMap_ends)
qed

lemma WriteAt_writes:
  assumes "files fs p = Some f" "open_ok (env fs) f" "0 \<le> position" "0 < n" "position + n \<le> FileLength (hdr f)"
    "n \<le> int (length from)"
  shows "\<exists>fs' f'. WriteAt write_depth fs p from n position = Inr (fs', n) \<and> files fs' = (files fs)(p \<mapsto> f') \<and>
    open_ok (env fs') f' \<and> FileLength (hdr f') = FileLength (hdr f) \<and>
    file_bytes (content (synchDisk (env fs'))) (hdr f') =
      blit (take (nat n) from) (file_bytes (content (synchDisk (env fs))) (hdr f)) (nat position) \<and>
    (\<forall>s. valid_sector s \<longrightarrow> s \<noteq> headerSector f \<longrightarrow> s \<notin> set (blocks (content (synchDisk (env fs))) (hdr f)) \<longrightarrow>
       content (synchDisk (env fs')) s = content (synchDisk (env fs)) s)"
proof -
  have "position + n \<le> numBytes (hdr f)" using assms(5) by (simp add: FileLength_def)
  then obtain e' f' where w: "WriteAt_inside (env fs) f from n position = Inr (e', f', n)" "open_ok e' f'"
    "same_shape (env fs) f e' f'"
    "file_bytes (content (synchDisk e')) (hdr f') =
       blit (take (nat n) from) (file_bytes (content (synchDisk (env fs))) (hdr f)) (nat position)"
    "\<And>s. valid_sector s \<Longrightarrow> s \<noteq> headerSector f \<Longrightarrow> s \<notin> set (blocks (content (synchDisk (env fs))) (hdr f)) \<Longrightarrow>
       content (synchDisk e') s = content (synchDisk (env fs)) s"
    using WriteAt_inside_writes [OF assms(2,3,4) _ assms(6)] by blast
  have "WriteAt write_depth fs p from n position = Inr (put_file p e' f' fs, n)"
    using assms(1,3-5) w(1) by (simp add: write_depth_def eval_nat_numeral get_file_def Let_def file_WriteAt_inside_def)
  then show ?thesis using w(2-5) by (auto simp: put_file_def same_shape_def FileLength_def)
qed

text \<open>
  C16. Writing inside the length of an open file at rest: \<^verbatim>\<open>WriteAt\<close> succeeds, the file afterwards
  consists of the old bytes with the new ones in their place, for every offset and count, aligned or
  not; no sector outside the file and its header has changed, and no other open file.
\<close>

theorem WriteAt_file_bytes:
  assumes "files fs p = Some f" "open_ok (env fs) f" "0 \<le> position" "0 < n" "position + n \<le> FileLength (hdr f)"
    "n \<le> int (length from)"
  shows "\<exists>fs' f'. WriteAt write_depth fs p from n position = Inr (fs', n) \<and> files fs' = (files fs)(p \<mapsto> f') \<and>
    open_ok (env fs') f' \<and> FileLength (hdr f') = FileLength (hdr f) \<and>
    file_bytes (content (synchDisk (env fs'))) (hdr f') =
      blit (take (nat n) from) (file_bytes (content (synchDisk (env fs))) (hdr f)) (nat position) \<and>
    (\<forall>s. valid_sector s \<longrightarrow> s \<noteq> headerSector f \<longrightarrow> s \<notin> set (blocks (content (synchDisk (env fs))) (hdr f)) \<longrightarrow>
       content (synchDisk (env fs')) s = content (synchDisk (env fs)) s)"
  using assms by (rule WriteAt_writes)


text \<open>
  C17. No file grows at its end: at a position at or behind the end of the file \<^verbatim>\<open>WriteAt\<close> writes
  nothing and returns 0, although the code can extend files; so a sequence of writes that has filled a
  file is stuck, and a file of length 0 can never be written.
\<close>

theorem append_refused:
  assumes "files fs p = Some f" "FileLength (hdr f) \<le> seekPosition f"
  shows "\<exists>fs'. file_Write fs p from n = Inr (fs', 0) \<and> env fs' = env fs \<and> files fs' = files fs"
  using assms
  by (auto simp: file_Write_def write_depth_def eval_nat_numeral get_file_def Let_def put_file_def fun_upd_idem_iff)

section \<open>Paths\<close>

lemma open_file_negative:
  assumes "sec < 0"
  shows "open_file fs sec = Inl BadAccess"
  using assms by (simp add: open_file_def new_OpenFile_def Disk_Open_def count_opener_def at_def)

text \<open>
  A path of which two components are missing is a memory error: when the parent of a path has
  no parent directory itself, \<^verbatim>\<open>GetParentSector\<close> goes on with the sector number -1 and indexes the
  tables of the disk with it, instead of reporting that there is no such directory.
\<close>

theorem GetParentSector_missing_faults:
  assumes "0 < last_slash name" "GetParentSector fs (take (last_slash name) name) = Inr (fs1, r)" "r < 0"
  shows "GetParentSector fs name = Inl BadAccess"
  using assms open_file_negative [OF assms(3)]
  by (subst GetParentSector.simps) (simp add: Let_def split_beta)

text \<open>A file system whose only open file is the example file, and a disk without any file.\<close>

definition ex_fs :: "FsEnv \<Rightarrow> OpenFile \<Rightarrow> FileSystem" where
  "ex_fs e f = \<lparr>env = e, files = [0 \<mapsto> f], next_file = 3, freeMapFile = 1, directoryFile = 2\<rparr>"

theorem WriteAt_file_bytes_witness:
  "\<exists>sd fs' f'. WriteAt write_depth (ex_fs (ex_env sd) ex_file) 0 (replicate 10 65) 10 120 = Inr (fs', 10) \<and>
     files fs' 0 = Some f' \<and> slice 120 10 (file_bytes (content (synchDisk (env fs'))) (hdr f')) = replicate 10 65"
proof -
  obtain sd where sd: "wf_sd sd" "rw_idle 4 sd" by (rule ex_SynchDisk)
  let ?fs = "ex_fs (ex_env sd) ex_file" and ?new = "replicate 10 65 :: byte list"
  have "files ?fs 0 = Some ex_file" "FileLength (hdr ex_file) = 300" "open_ok (env ?fs) ex_file" "length ?new = 10"
    using ex_open_ok [OF sd] by (simp_all add: ex_fs_def FileLength_def ex_file_def ex_hdr300_def)
  then obtain fs' f' where w: "WriteAt write_depth ?fs 0 ?new 10 120 = Inr (fs', 10)" "files fs' = (files ?fs)(0 \<mapsto> f')"
    "file_bytes (content (synchDisk (env fs'))) (hdr f') = blit ?new (file_bytes (content (synchDisk (env ?fs))) (hdr ex_file)) 120"
    using WriteAt_file_bytes [of ?fs 0 ex_file 120 10 ?new] by auto
  have "length (file_bytes (content (synchDisk (env ?fs))) (hdr ex_file)) = 300" by (simp add: ex_file_def ex_hdr300_def)
  then have "slice 120 10 (file_bytes (content (synchDisk (env fs'))) (hdr f')) = ?new"
    unfolding w(3) using slice_blit_same [of 120 ?new] by (simp only: length_replicate)
  then show ?thesis using w(1,2) by (intro exI conjI) auto
qed


theorem append_refused_witness:
  "\<exists>sd fs'. file_Write (ex_fs (ex_env sd) (Seek ex_file 300)) 0 [65, 66] 2 = Inr (fs', 0)"
  using append_refused [of "ex_fs (ex_env undefined) (Seek ex_file 300)" 0 "Seek ex_file 300" "[65, 66]" 2]
  by (auto simp: ex_fs_def Seek_def FileLength_def ex_file_def ex_hdr300_def)

lemma ex_quiet: obtains sd where "quiet sd"
proof -
  obtain d where d: "new_Disk None = Inr d" "wf_disk d" "\<not> active d" using new_Disk_fresh by blast
  then obtain sd where s: "new_SynchDisk None new_Statistics 0 (\<lambda>_. 10) (\<lambda>_. ex_entry) = Inr sd"
    by (simp add: new_SynchDisk_def del: upt_rec_numeral)
  have "wf_sd sd" "others sd = (0, 1, replicate 1024 0, replicate 1024 0,
      replicate 1024 1, replicate 1024 1, replicate 1024 1, 0, \<lambda>_. 10)"
    using new_SynchDisk_wf(1,3) [OF s] d by (simp_all add: new_Statistics_def)
  then have "quiet sd" by (simp add: quiet_def others_def)
  then show ?thesis by (rule that)
qed

text \<open>The root directory of a disk on which its header has length 0: no name is found.\<close>

lemma lookup_in_empty_root:
  assumes "quiet (synchDisk (env fs))" "content (synchDisk (env fs)) 1 = hdr_bytes h" "wf_hdr h" "numBytes h = 0"
    "last_slash name = k" "0 < k" "last_slash (take k name) = 0"
  shows "\<exists>fs1. GetParentSector fs name = Inr (fs1, - 1)"
proof -
  have root: "GetParentSector fs (take k name) = Inr (fs, 1)"
    using assms(7) by (subst GetParentSector.simps) (simp add: Let_def)
  obtain fs1 t where t: "fresh_Directory fs = (fs1, t)" by fastforce
  note ft = fresh_Directory_facts [OF t]
  have "quiet (synchDisk (env fs1))" "valid_sector 1" using assms(1) ft(5) by (simp_all add: valid_sector_def)
  then obtain e2 where e2: "new_OpenFile (env fs1) 1 =
      Inr (e2, \<lparr>hdr = hdr_of_bytes (content (synchDisk (env fs1)) 1), seekPosition = 0, headerSector = 1\<rparr>)"
    "quiet (synchDisk e2)" by (rule new_OpenFile_quiet)
  define f where "f = \<lparr>hdr = h, seekPosition = 0, headerSector = 1\<rparr>"
  let ?fs2 = "put_file (next_file fs1) e2 f (fs1\<lparr>next_file := next_file fs1 + 1\<rparr>)"
  have o: "open_file fs1 1 = Inr (?fs2, next_file fs1)"
    using e2(1) ft(5) assms(2) hdr_of_hdr_bytes [OF assms(3)] by (simp add: open_file_def f_def)
  have "table_of_bytes (length t) (blit [] (table_bytes t) 0) = t"
    using table_of_table_bytes [OF ft(1), of "[]"] by (simp add: blit_def)
  then have r: "Dir_FetchFrom ?fs2 t (next_file fs1) = Inr (?fs2, t)"
    using assms(4) by (simp add: Dir_FetchFrom_def file_ReadAt_def get_file_def put_file_def ReadAt_def FileLength_def f_def Let_def)
  obtain fs3 where "close_file ?fs2 (next_file fs1) = Inr fs3"
    using close_file_quiet [of ?fs2 "next_file fs1" f] e2(2) \<open>valid_sector 1\<close> by (auto simp: put_file_def f_def)
  moreover have "Dir_Find t (take k name) = - 1" using FindIndex_unused [OF ft(3)] by (simp add: Dir_Find_def)
  ultimately show ?thesis using assms(5,6) root t o r by (subst GetParentSector.simps) (simp add: Let_def)
qed

theorem GetParentSector_missing_faults_witness:
  "\<exists>fs. (\<exists>fs1. GetParentSector fs [47, 97, 47, 98] = Inr (fs1, - 1)) \<and> GetParentSector fs [47, 97, 47, 98, 47, 99] = Inl BadAccess"
proof -
  obtain sd0 where sd0: "quiet sd0" by (rule ex_quiet)
  define h where "h = ex_hdr\<lparr>numBytes := 0\<rparr>"
  have h: "wf_hdr h" "numBytes h = 0" using ex_hdr_wf by (simp_all add: h_def wf_hdr_def in_int32_def)
  have "wf_sd sd0" "valid_sector 1" using sd0 by (simp_all add: quiet_def valid_sector_def)
  then obtain sd where "stores sd0 1 (hdr_bytes h) sd" using WriteBack_stores h(1) by blast
  then have sd: "quiet sd" "content sd 1 = hdr_bytes h"
    using quiet_others [OF sd0] by (simp_all add: stores_def valid_sector_def)
  let ?fs = "ex_fs (ex_env sd) ex_file"
  have sl: "last_slash [47, 97, 47, 98] = 2" "last_slash [47, 97] = 0" "last_slash [47, 97, 47, 98, 47, 99] = 4"
    by (simp_all add: last_slash_def upt_rec)
  have "\<exists>fs1. GetParentSector ?fs [47, 97, 47, 98] = Inr (fs1, - 1)"
    using lookup_in_empty_root [of ?fs h "[47, 97, 47, 98]" 2] sd h sl by (simp add: ex_fs_def ex_env_def)
  then show ?thesis using GetParentSector_missing_faults [of "[47, 97, 47, 98, 47, 99]" ?fs] sl by auto
qed

end
