(* ===== verification/Virt_Mem.thy ===== *)
theory Virt_Mem
  imports Machine_Stats
begin

text \<open>
  The simulated machine and its virtual memory: \<^verbatim>\<open>code/machine/machine.h\<close>, \<^verbatim>\<open>machine.cc\<close>,
  \<^verbatim>\<open>translate.h\<close> and \<^verbatim>\<open>translate.cc\<close>, with the address spaces of \<^verbatim>\<open>code/userprog/addrspace.cc\<close>
  they work on. The build is the one of \<^verbatim>\<open>userprog/Makefile\<close>: a translation buffer of four entries
  (\<^verbatim>\<open>USE_TLB\<close>), and pages swapped to the array \<^verbatim>\<open>vSpace\<close> of an address space (\<^verbatim>\<open>DiskImage\<close> is not
  defined). \<^verbatim>\<open>machine->pageTable\<close> points to the table of the address space that runs, so address
  spaces live in a store and the machine holds the address of one.
\<close>

section \<open>Data\<close>

abbreviation (input) PageSize :: nat where "PageSize \<equiv> 128"
abbreviation (input) NumPhysPages :: nat where "NumPhysPages \<equiv> 32"
abbreviation (input) MemorySize :: nat where "MemorySize \<equiv> 4096"
abbreviation (input) TLBSize :: nat where "TLBSize \<equiv> 4"
abbreviation (input) StackReg :: nat where "StackReg \<equiv> 29"
abbreviation (input) HiReg :: nat where "HiReg \<equiv> 32"
abbreviation (input) LoReg :: nat where "LoReg \<equiv> 33"
abbreviation (input) PCReg :: nat where "PCReg \<equiv> 34"
abbreviation (input) NextPCReg :: nat where "NextPCReg \<equiv> 35"
abbreviation (input) PrevPCReg :: nat where "PrevPCReg \<equiv> 36"
abbreviation (input) LoadReg :: nat where "LoadReg \<equiv> 37"
abbreviation (input) LoadValueReg :: nat where "LoadValueReg \<equiv> 38"
abbreviation (input) BadVAddrReg :: nat where "BadVAddrReg \<equiv> 39"
abbreviation (input) NumTotalRegs :: nat where "NumTotalRegs \<equiv> 40"

datatype ExceptionType = NoException | SyscallException | PageFaultException | ReadOnlyException |
  BusErrorException | AddressErrorException | OverflowException | IllegalInstrException | NumExceptionTypes

record TranslationEntry =
  virtualPage :: "32 word"
  physicalPage :: "32 word"
  te_valid :: bool
  readOnly :: bool
  used :: bool
  te_dirty :: bool
  InTime :: int
  LastHitTime :: int

text \<open>\<open>OwnerThread\<close> is a pointer, \<open>None\<close> for null.\<close>

record PhysicalPageEntry =
  VirtualPageNumber :: "32 word"
  OwnerThread :: "nat option"
  pp_LastHitTime :: int
  pp_valid :: bool
  pp_dirty :: bool

record AddrSpace =
  as_pageTable :: "TranslationEntry list"
  numPages :: "32 word"
  vSpace :: "byte list"

text \<open>
  The machine with the globals its routines use: \<^verbatim>\<open>PhysicalPageTable\<close>, \<^verbatim>\<open>currentThread\<close> with the
  \<^verbatim>\<open>space\<close> of every thread, and \<^verbatim>\<open>stats\<close>. \<open>user_mode\<close> is the status that \<^verbatim>\<open>interrupt\<close> holds.
\<close>

record Machine =
  registers :: "32 word list"
  mainMemory :: "byte list"
  tlb :: "TranslationEntry list"
  TLBHit :: int
  TLBMiss :: int
  pageTable :: "nat option"
  pageTableSize :: "32 word"
  PhysicalPageTable :: "PhysicalPageEntry list"
  spaces :: "nat \<Rightarrow> AddrSpace option"
  thread_space :: "nat \<Rightarrow> nat option"
  currentThread :: nat
  mstats :: Statistics
  user_mode :: bool

section \<open>Arrays and pointers\<close>

definition arr :: "'a list \<Rightarrow> 32 word \<Rightarrow> 'a result" where
  "arr xs i = (if unat i < length xs then Inr (xs ! unat i) else Inl BadAccess)"

definition space_of :: "('a Machine_scheme) \<Rightarrow> nat option \<Rightarrow> (nat \<times> AddrSpace) result" where
  "space_of m p = (case p of None \<Rightarrow> Inl BadAccess | Some s \<Rightarrow>
     (case spaces m s of None \<Rightarrow> Inl BadAccess | Some sp \<Rightarrow> Inr (s, sp)))"

text \<open>\<^verbatim>\<open>t[v]\<close> and \<^verbatim>\<open>t[v] = f(t[v])\<close> for the page table of an address space.\<close>

definition get_pte :: "('a Machine_scheme) \<Rightarrow> nat option \<Rightarrow> 32 word \<Rightarrow> TranslationEntry result" where
  "get_pte m p v = bindE (space_of m p) (\<lambda>(s, sp). arr (as_pageTable sp) v)"

definition upd_pte :: "nat option \<Rightarrow> 32 word \<Rightarrow> (TranslationEntry \<Rightarrow> TranslationEntry) \<Rightarrow>
    ('a Machine_scheme) \<Rightarrow> ('a Machine_scheme) result" where
  "upd_pte p v f m = bindE (space_of m p) (\<lambda>(s, sp). bindE (arr (as_pageTable sp) v) (\<lambda>e.
     Inr (m\<lparr>spaces := (spaces m)(s \<mapsto> sp\<lparr>as_pageTable := (as_pageTable sp)[unat v := f e]\<rparr>)\<rparr>)))"

text \<open>A page copied between main memory and \<^verbatim>\<open>vSpace\<close>.\<close>

definition frame_bytes :: "byte list \<Rightarrow> nat \<Rightarrow> byte list" where
  "frame_bytes mem k = slice (PageSize * k) PageSize mem"

definition swap_out :: "nat option \<Rightarrow> 32 word \<Rightarrow> nat \<Rightarrow> ('a Machine_scheme) \<Rightarrow> ('a Machine_scheme) result" where
  "swap_out p v ppn m = bindE (space_of m p) (\<lambda>(s, sp).
     if PageSize * unat v + PageSize \<le> length (vSpace sp) \<and> PageSize * ppn + PageSize \<le> length (mainMemory m)
     then Inr (m\<lparr>spaces := (spaces m)(s \<mapsto> sp\<lparr>vSpace := blit (frame_bytes (mainMemory m) ppn) (vSpace sp) (PageSize * unat v)\<rparr>)\<rparr>)
     else Inl BadAccess)"

definition swap_in :: "nat option \<Rightarrow> 32 word \<Rightarrow> nat \<Rightarrow> ('a Machine_scheme) \<Rightarrow> ('a Machine_scheme) result" where
  "swap_in p v ppn m = bindE (space_of m p) (\<lambda>(s, sp).
     if PageSize * unat v + PageSize \<le> length (vSpace sp) \<and> PageSize * ppn + PageSize \<le> length (mainMemory m)
     then Inr (m\<lparr>mainMemory := blit (slice (PageSize * unat v) PageSize (vSpace sp)) (mainMemory m) (PageSize * ppn)\<rparr>)
     else Inl BadAccess)"

section \<open>The machine\<close>

text \<open>\<open>junk\<close> is what the fresh translation buffer contains.\<close>

definition new_Machine :: "(nat \<Rightarrow> TranslationEntry) \<Rightarrow> PhysicalPageEntry list \<Rightarrow> Statistics \<Rightarrow> nat \<Rightarrow> Machine" where
  "new_Machine junk ppt st cur =
     \<lparr>registers = replicate NumTotalRegs 0, mainMemory = replicate MemorySize 0,
      tlb = map (\<lambda>i. (junk i)\<lparr>te_valid := False\<rparr>) [0..<TLBSize], TLBHit = 0, TLBMiss = 0,
      pageTable = None, pageTableSize = 0, PhysicalPageTable = ppt, spaces = (\<lambda>_. None),
      thread_space = (\<lambda>_. None), currentThread = cur, mstats = st, user_mode = False\<rparr>"

definition ReadRegister :: "('a Machine_scheme) \<Rightarrow> int \<Rightarrow> 32 word result" where
  "ReadRegister m num = ASSERT (0 \<le> num \<and> num < int NumTotalRegs) (Inr (registers m ! nat num))"

definition WriteRegister :: "('a Machine_scheme) \<Rightarrow> int \<Rightarrow> 32 word \<Rightarrow> ('a Machine_scheme) result" where
  "WriteRegister m num v = ASSERT (0 \<le> num \<and> num < int NumTotalRegs) (Inr (m\<lparr>registers := (registers m)[nat num := v]\<rparr>))"

definition IncrementPC :: "('a Machine_scheme) \<Rightarrow> ('a Machine_scheme) result" where
  "IncrementPC m =
     bindE (WriteRegister m (int PrevPCReg) (registers m ! PCReg)) (\<lambda>m.
     bindE (WriteRegister m (int PCReg) (registers m ! PCReg + 4)) (\<lambda>m.
     WriteRegister m (int NextPCReg) (registers m ! NextPCReg + 4)))"

definition DelayedLoad :: "32 word \<Rightarrow> 32 word \<Rightarrow> ('a Machine_scheme) \<Rightarrow> ('a Machine_scheme) result" where
  "DelayedLoad nextReg nextValue m =
     (let i = registers m ! LoadReg in
      if unat i < NumTotalRegs then
        let r = (registers m)[unat i := registers m ! LoadValueReg] in
        Inr (m\<lparr>registers := r[LoadReg := nextReg, LoadValueReg := nextValue, 0 := 0]\<rparr>)
      else Inl BadAccess)"

text \<open>
  What the machine calls in the kernel: the exception handler, and \<^verbatim>\<open>interrupt->OneTick()\<close>.
\<close>

record 'm Kernel =
  ExceptionHandler :: "ExceptionType \<Rightarrow> 'm \<Rightarrow> 'm result"
  OneTick :: "'m \<Rightarrow> 'm result"

definition RaiseException :: "(('a Machine_scheme) Kernel) \<Rightarrow> ExceptionType \<Rightarrow> 32 word \<Rightarrow> ('a Machine_scheme) \<Rightarrow> ('a Machine_scheme) result" where
  "RaiseException K which badVAddr m =
     bindE (DelayedLoad 0 0 (m\<lparr>registers := (registers m)[BadVAddrReg := badVAddr]\<rparr>)) (\<lambda>m.
     bindE (OneTick K (m\<lparr>user_mode := False\<rparr>)) (\<lambda>m.
     bindE (ExceptionHandler K which m) (\<lambda>m.
     Inr (m\<lparr>user_mode := True\<rparr>))))"

section \<open>Translation\<close>

fun tlb_find :: "TranslationEntry list \<Rightarrow> 32 word \<Rightarrow> nat list \<Rightarrow> nat option" where
  "tlb_find t vpn [] = None"
| "tlb_find t vpn (i # is) =
     (if te_valid (t ! i) \<and> virtualPage (t ! i) = vpn then Some i else tlb_find t vpn is)"

definition upd_tlb :: "nat \<Rightarrow> (TranslationEntry \<Rightarrow> TranslationEntry) \<Rightarrow> ('a Machine_scheme) \<Rightarrow> ('a Machine_scheme)" where
  "upd_tlb i f m = m\<lparr>tlb := (tlb m)[i := f (tlb m ! i)]\<rparr>"

definition upd_ppt :: "nat \<Rightarrow> (PhysicalPageEntry \<Rightarrow> PhysicalPageEntry) \<Rightarrow> ('a Machine_scheme) \<Rightarrow> ('a Machine_scheme)" where
  "upd_ppt i f m = m\<lparr>PhysicalPageTable := (PhysicalPageTable m)[i := f (PhysicalPageTable m ! i)]\<rparr>"

text \<open>The result: the state, the exception, and the physical address if there is none.\<close>

definition Translate :: "('a Machine_scheme) \<Rightarrow> 32 word \<Rightarrow> int \<Rightarrow> bool \<Rightarrow> (('a Machine_scheme) \<times> ExceptionType \<times> nat) result" where
  "Translate m virtAddr sz writing =
     (if sz = 4 \<and> virtAddr AND 3 \<noteq> 0 \<or> sz = 2 \<and> virtAddr AND 1 \<noteq> 0 then Inr (m, AddressErrorException, 0)
      else
       let vpn = virtAddr div 128; offset = virtAddr mod 128 in
       case tlb_find (tlb m) vpn [0..<TLBSize] of
         None \<Rightarrow> Inr (m\<lparr>TLBMiss := TLBMiss m + 1\<rparr>, PageFaultException, 0)
       | Some i \<Rightarrow>
           let m = m\<lparr>TLBHit := TLBHit m + 1\<rparr>; entry = tlb m ! i in
           if readOnly entry \<and> writing then Inr (m, ReadOnlyException, 0)
           else
             let pageFrame = physicalPage entry in
             if unat pageFrame \<ge> NumPhysPages then Inr (m, BusErrorException, 0)
             else
               let m = upd_tlb i (\<lambda>e. e\<lparr>used := True\<rparr>) m in
               bindE (if writing
                      then bindE (upd_pte (pageTable m) vpn (\<lambda>e. e\<lparr>te_dirty := True\<rparr>)
                                   (upd_tlb i (\<lambda>e. e\<lparr>te_dirty := True\<rparr>) m))
                             (\<lambda>m. Inr (upd_ppt (unat pageFrame) (\<lambda>e. e\<lparr>pp_dirty := True\<rparr>) m))
                      else Inr m) (\<lambda>m.
               let now = totalTicks (mstats m);
                   m = upd_tlb i (\<lambda>e. e\<lparr>LastHitTime := now\<rparr>) m;
                   m = upd_ppt (unat pageFrame) (\<lambda>e. e\<lparr>pp_LastHitTime := now\<rparr>) m;
                   physAddr = unat pageFrame * PageSize + unat offset in
               ASSERT (int physAddr + sz \<le> int MemorySize) (Inr (m, NoException, physAddr))))"

text \<open>
  The two retries after a page fault: the first of them raises again whatever exception comes, the
  second decides. \<open>None\<close> is the result \<^verbatim>\<open>FALSE\<close>.
\<close>

definition translate_retry :: "(('a Machine_scheme) Kernel) \<Rightarrow> ('a Machine_scheme) \<Rightarrow> 32 word \<Rightarrow> int \<Rightarrow> bool \<Rightarrow>
    (('a Machine_scheme) \<times> nat option) result" where
  "translate_retry K m addr sz writing =
     bindE (Translate m addr sz writing) (\<lambda>(m, exception, pa).
     if exception \<noteq> NoException then
       bindE (RaiseException K exception addr m) (\<lambda>m.
       if exception \<noteq> PageFaultException then Inr (m, None)
       else
         bindE (Translate m addr sz writing) (\<lambda>(m, exception, pa).
         bindE (if exception \<noteq> NoException then RaiseException K exception addr m else Inr m) (\<lambda>m.
         bindE (Translate m addr sz writing) (\<lambda>(m, exception, pa).
         if exception \<noteq> NoException then bindE (RaiseException K exception addr m) (\<lambda>m. Inr (m, None))
         else Inr (m, Some pa)))))
     else Inr (m, Some pa))"

text \<open>A \<^verbatim>\<open>char\<close> is signed on the host; a half word is read as \<^verbatim>\<open>unsigned short\<close>.\<close>

definition load :: "byte list \<Rightarrow> nat \<Rightarrow> int \<Rightarrow> 32 word result" where
  "load mem pa sz =
     (if sz = 1 then Inr (scast (mem ! pa))
      else if sz = 2 then Inr (ucast (mem ! pa) OR push_bit 8 (ucast (mem ! (pa + 1))))
      else if sz = 4 then Inr (bytes_word (slice pa 4 mem))
      else Inl AssertFailed)"

definition store :: "byte list \<Rightarrow> nat \<Rightarrow> int \<Rightarrow> 32 word \<Rightarrow> byte list result" where
  "store mem pa sz v =
     (if sz = 1 then Inr (mem[pa := ucast v])
      else if sz = 2 then Inr (mem[pa := ucast v, pa + 1 := ucast (drop_bit 8 v)])
      else if sz = 4 then Inr (blit (word_bytes v) mem pa)
      else Inl AssertFailed)"

definition ReadMem :: "(('a Machine_scheme) Kernel) \<Rightarrow> ('a Machine_scheme) \<Rightarrow> 32 word \<Rightarrow> int \<Rightarrow>
    (('a Machine_scheme) \<times> 32 word option) result" where
  "ReadMem K m addr sz =
     bindE (translate_retry K m addr sz False) (\<lambda>(m, r).
     case r of None \<Rightarrow> Inr (m, None)
     | Some pa \<Rightarrow> bindE (load (mainMemory m) pa sz) (\<lambda>v. Inr (m, Some v)))"

definition WriteMem :: "(('a Machine_scheme) Kernel) \<Rightarrow> ('a Machine_scheme) \<Rightarrow> 32 word \<Rightarrow> int \<Rightarrow> 32 word \<Rightarrow>
    (('a Machine_scheme) \<times> bool) result" where
  "WriteMem K m addr sz v =
     bindE (translate_retry K m addr sz True) (\<lambda>(m, r).
     case r of None \<Rightarrow> Inr (m, False)
     | Some pa \<Rightarrow> bindE (store (mainMemory m) pa sz v) (\<lambda>mem. Inr (m\<lparr>mainMemory := mem\<rparr>, True)))"

section \<open>Replacement\<close>

text \<open>
  The loops that choose an entry: the first that holds nothing, otherwise one with the least stamp.
\<close>

fun pick :: "('e \<Rightarrow> bool) \<Rightarrow> ('e \<Rightarrow> int) \<Rightarrow> 'e list \<Rightarrow> nat list \<Rightarrow> nat \<Rightarrow> nat" where
  "pick full stamp t [] e = e"
| "pick full stamp t (i # is) e =
     (if \<not> full (t ! i) then i
      else pick full stamp t is (if stamp (t ! i) < stamp (t ! e) then i else e))"

definition pick_frame :: "PhysicalPageEntry list \<Rightarrow> nat" where
  "pick_frame t = pick pp_valid pp_LastHitTime t [0..<NumPhysPages] 0"

text \<open>The owner of a frame that is taken away: its page is written back and marked absent.\<close>

definition evict_owner :: "nat \<Rightarrow> 32 word \<Rightarrow> nat option \<Rightarrow> ('a Machine_scheme) \<Rightarrow> ('a Machine_scheme) result" where
  "evict_owner ppn OldVpn owner m = (case owner of None \<Rightarrow> Inr m | Some T \<Rightarrow>
     bindE (upd_pte (thread_space m T) OldVpn (\<lambda>e. e\<lparr>te_valid := False\<rparr>) m) (\<lambda>m.
     bindE (swap_out (thread_space m T) OldVpn ppn m) (\<lambda>m.
     bindE (upd_pte (pageTable m) OldVpn (\<lambda>e. e\<lparr>te_dirty := False\<rparr>) m) (\<lambda>m.
     bindE (upd_pte (thread_space m T) OldVpn (\<lambda>e. e\<lparr>te_dirty := False\<rparr>) m) (\<lambda>m.
     Inr (upd_ppt ppn (\<lambda>e. e\<lparr>pp_dirty := False\<rparr>) m))))))"

definition evict_frame :: "nat \<Rightarrow> ('a Machine_scheme) \<Rightarrow> ('a Machine_scheme) result" where
  "evict_frame ppn m =
     (let old = PhysicalPageTable m ! ppn; OldVpn = VirtualPageNumber old in
      if pp_valid old then
        bindE (evict_owner ppn OldVpn (OwnerThread old) m) (\<lambda>m.
        bindE (upd_pte (pageTable m) OldVpn (\<lambda>e. e\<lparr>te_valid := False\<rparr>) m) (\<lambda>m.
        Inr (m\<lparr>tlb := map (\<lambda>e. if te_valid e \<and> physicalPage e = of_nat ppn \<and> virtualPage e = OldVpn
                             then e\<lparr>te_valid := False\<rparr> else e) (tlb m)\<rparr>)))
      else Inr m)"

definition fill_frame :: "nat \<Rightarrow> 32 word \<Rightarrow> ('a Machine_scheme) \<Rightarrow> ('a Machine_scheme) result" where
  "fill_frame ppn vpn m =
     bindE (swap_in (thread_space m (currentThread m)) vpn ppn m) (\<lambda>m.
     let now = totalTicks (mstats m);
         m = upd_ppt ppn (\<lambda>e. e\<lparr>pp_LastHitTime := now, pp_valid := True,
               OwnerThread := Some (currentThread m), VirtualPageNumber := vpn\<rparr>) m in
     upd_pte (pageTable m) vpn (\<lambda>e. e\<lparr>te_valid := True, used := False, readOnly := False,
       physicalPage := of_nat ppn, virtualPage := vpn, InTime := now, LastHitTime := now\<rparr>) m)"

definition AllocatePhysicalPage :: "('a Machine_scheme) \<Rightarrow> 32 word \<Rightarrow> (('a Machine_scheme) \<times> nat) result" where
  "AllocatePhysicalPage m vpn =
     (let ppn = pick_frame (PhysicalPageTable m) in
      bindE (evict_frame ppn m) (\<lambda>m.
      bindE (fill_frame ppn vpn m) (\<lambda>m. Inr (m, ppn))))"

text \<open>
  \<^verbatim>\<open>FIFO_TLB\<close> and \<^verbatim>\<open>LRU_TLB\<close> differ in the stamp by which the entry is chosen.
\<close>

definition refill :: "nat \<Rightarrow> ('a Machine_scheme) \<Rightarrow> 32 word \<Rightarrow> ('a Machine_scheme) result" where
  "refill entry m vpn =
     bindE (if te_valid (tlb m ! entry)
            then upd_pte (pageTable m) (virtualPage (tlb m ! entry)) (\<lambda>_. tlb m ! entry) m else Inr m) (\<lambda>m.
     bindE (get_pte m (pageTable m) vpn) (\<lambda>p.
     bindE (if te_valid p then Inr m else bindE (AllocatePhysicalPage m vpn) (\<lambda>(m, _). Inr m)) (\<lambda>m.
     bindE (get_pte m (pageTable m) vpn) (\<lambda>p.
     Inr (upd_tlb entry (\<lambda>_. p\<lparr>InTime := totalTicks (mstats m)\<rparr>) m)))))"

definition FIFO_TLB :: "('a Machine_scheme) \<Rightarrow> 32 word \<Rightarrow> ('a Machine_scheme) result" where
  "FIFO_TLB m virtAddr = refill (pick te_valid InTime (tlb m) [0..<TLBSize] 0) m (virtAddr div 128)"

definition LRU_TLB :: "('a Machine_scheme) \<Rightarrow> 32 word \<Rightarrow> ('a Machine_scheme) result" where
  "LRU_TLB m virtAddr = refill (pick te_valid LastHitTime (tlb m) [0..<TLBSize] 0) m (virtAddr div 128)"

text \<open>The variant with an inverted page table, one entry for every frame.\<close>

definition invert_evict :: "nat \<Rightarrow> ('a Machine_scheme) \<Rightarrow> ('a Machine_scheme) result" where
  "invert_evict ppn m =
     (let old = PhysicalPageTable m ! ppn in
      if pp_valid old then
        bindE (case OwnerThread old of
            Some T \<Rightarrow> if pp_dirty old then swap_out (thread_space m T) (VirtualPageNumber old) ppn m else Inr m
          | None \<Rightarrow> Inr m) (\<lambda>m.
        let m = m\<lparr>tlb := map (\<lambda>e. if te_valid e \<and> physicalPage e = of_nat ppn then e\<lparr>te_valid := False\<rparr> else e) (tlb m)\<rparr> in
        foldE (\<lambda>i m. bindE (get_pte m (pageTable m) (of_nat i)) (\<lambda>e.
            if physicalPage e = of_nat ppn \<and> te_valid e then
              bindE (upd_pte (pageTable m) (of_nat i) (\<lambda>e. e\<lparr>te_valid := False\<rparr>) m) (\<lambda>m.
              case OwnerThread old of None \<Rightarrow> Inr m
              | Some T \<Rightarrow> upd_pte (thread_space m T) (of_nat i) (\<lambda>e. e\<lparr>te_valid := False\<rparr>) m)
            else Inr m)) [0..<unat (pageTableSize m)] m)
      else Inr m)"

definition InvertedAllocatePage :: "('a Machine_scheme) \<Rightarrow> 32 word \<Rightarrow> (('a Machine_scheme) \<times> nat) result" where
  "InvertedAllocatePage m vpn =
     (let ppn = pick_frame (PhysicalPageTable m) in
      bindE (invert_evict ppn m) (\<lambda>m.
      bindE (swap_in (thread_space m (currentThread m)) vpn ppn m) (\<lambda>m.
      let now = totalTicks (mstats m);
          m = upd_ppt ppn (\<lambda>e. e\<lparr>pp_LastHitTime := now, pp_valid := True, pp_dirty := False,
                OwnerThread := Some (currentThread m), VirtualPageNumber := vpn\<rparr>) m in
      bindE (upd_pte (pageTable m) (of_nat ppn) (\<lambda>e. e\<lparr>te_valid := True, te_dirty := False, used := False,
        readOnly := False, physicalPage := of_nat ppn, virtualPage := vpn, InTime := now, LastHitTime := now\<rparr>) m)
        (\<lambda>m. Inr (m, ppn)))))"

text \<open>The search for a page in the inverted table.\<close>

fun invert_find :: "('a Machine_scheme) \<Rightarrow> 32 word \<Rightarrow> nat list \<Rightarrow> TranslationEntry option result" where
  "invert_find m vpn [] = Inr None"
| "invert_find m vpn (i # is) = bindE (get_pte m (pageTable m) (of_nat i)) (\<lambda>e.
     if te_valid e \<and> virtualPage e = vpn then Inr (Some e) else invert_find m vpn is)"

definition Invert_LRU_TLB :: "('a Machine_scheme) \<Rightarrow> 32 word \<Rightarrow> ('a Machine_scheme) result" where
  "Invert_LRU_TLB m virtAddr =
     (let vpn = virtAddr div 128;
          entry = pick te_valid LastHitTime (tlb m) [0..<TLBSize] 0;
          load_entry = (\<lambda>e m. upd_tlb entry (\<lambda>_. e\<lparr>InTime := totalTicks (mstats m)\<rparr>) m) in
      bindE (if te_valid (tlb m ! entry)
             then upd_pte (pageTable m) (physicalPage (tlb m ! entry)) (\<lambda>_. tlb m ! entry) m else Inr m) (\<lambda>m.
      bindE (invert_find m vpn [0..<unat (pageTableSize m)]) (\<lambda>r.
      case r of Some e \<Rightarrow> Inr (load_entry e m)
      | None \<Rightarrow>
          bindE (InvertedAllocatePage m vpn) (\<lambda>(m, _).
          bindE (invert_find m vpn [0..<unat (pageTableSize m)]) (\<lambda>r.
          case r of Some e \<Rightarrow> Inr (load_entry e m) | None \<Rightarrow> Inr m)))))"

text \<open>\<^verbatim>\<open>TLB_PageTable_check\<close>, the consistency check the code has for debugging.\<close>

definition TLB_PageTable_check :: "('a Machine_scheme) \<Rightarrow> unit result" where
  "TLB_PageTable_check m =
     bindE (foldE (\<lambda>i _. let e = tlb m ! i in
       if te_valid e then
         bindE (get_pte m (pageTable m) (virtualPage e)) (\<lambda>p.
         ASSERT (physicalPage e = physicalPage p) (ASSERT (te_valid p) (
         bindE (arr (PhysicalPageTable m) (physicalPage e)) (\<lambda>f. ASSERT (pp_valid f) (Inr ())))))
       else Inr ()) [0..<TLBSize] ()) (\<lambda>_.
     foldE (\<lambda>i _. bindE (get_pte m (pageTable m) (of_nat i)) (\<lambda>p.
       if te_valid p then
         bindE (arr (PhysicalPageTable m) (physicalPage p)) (\<lambda>f.
         ASSERT (pp_valid f) (ASSERT (VirtualPageNumber f = of_nat i) (Inr ())))
       else Inr ())) [0..<unat (pageTableSize m)] ())"

text \<open>\<^verbatim>\<open>Save\<close>: every page goes back to its address space.\<close>

definition Save :: "('a Machine_scheme) \<Rightarrow> ('a Machine_scheme) result" where
  "Save m =
     bindE (foldE (\<lambda>ppn m. let f = PhysicalPageTable m ! ppn in
       if \<not> pp_valid f then Inr m
       else bindE (case OwnerThread f of None \<Rightarrow> Inr m
                   | Some T \<Rightarrow> swap_out (thread_space m T) (VirtualPageNumber f) ppn m) (\<lambda>m.
            Inr (upd_ppt ppn (\<lambda>e. e\<lparr>pp_valid := False, pp_dirty := False\<rparr>) m))) [0..<NumPhysPages] m) (\<lambda>m.
     bindE (foldE (\<lambda>i m. upd_pte (pageTable m) (of_nat i) (\<lambda>e. e\<lparr>te_valid := False, te_dirty := False\<rparr>) m)
       [0..<unat (pageTableSize m)] m) (\<lambda>m.
     Inr (m\<lparr>tlb := map (\<lambda>e. e\<lparr>te_dirty := False, te_valid := False\<rparr>) (tlb m)\<rparr>)))"

section \<open>Address spaces\<close>

definition SaveState :: "('a Machine_scheme) \<Rightarrow> ('a Machine_scheme) result" where
  "SaveState m = foldE (\<lambda>i m. let e = tlb m ! i in
     if te_valid e then
       bindE (upd_pte (pageTable m) (virtualPage e) (\<lambda>_. e) m) (\<lambda>m.
       Inr (upd_tlb i (\<lambda>e. e\<lparr>te_valid := False\<rparr>) m))
     else Inr m) [0..<TLBSize] m"

definition RestoreState :: "nat \<Rightarrow> ('a Machine_scheme) \<Rightarrow> ('a Machine_scheme) result" where
  "RestoreState s m = bindE (space_of m (Some s)) (\<lambda>(_, sp).
     Inr (m\<lparr>pageTable := Some s, pageTableSize := numPages sp\<rparr>))"

definition InitRegisters :: "AddrSpace \<Rightarrow> ('a Machine_scheme) \<Rightarrow> ('a Machine_scheme) result" where
  "InitRegisters sp m =
     bindE (foldE (\<lambda>i m. WriteRegister m (int i) 0) [0..<NumTotalRegs] m) (\<lambda>m.
     bindE (WriteRegister m (int PCReg) 0) (\<lambda>m.
     bindE (WriteRegister m (int NextPCReg) 4) (\<lambda>m.
     WriteRegister m (int StackReg) (numPages sp * 128 - 16))))"

definition CopyFrom :: "(nat \<Rightarrow> TranslationEntry) \<Rightarrow> AddrSpace \<Rightarrow> AddrSpace" where
  "CopyFrom junk src =
     \<lparr>as_pageTable = map (\<lambda>i. (junk i)\<lparr>te_valid := False, te_dirty := False\<rparr>) [0..<unat (numPages src)],
      numPages = numPages src, vSpace = take (unat (numPages src * 128)) (vSpace src)\<rparr>"

section \<open>Consistency of one running process\<close>

text \<open>
  The tables of a process that owns all frames in use: page table \<open>pt\<close>, swap space \<open>vs\<close>, memory
  \<open>mem\<close>, translation buffer \<open>t\<close> and frames \<open>ppt\<close>. \<open>hole\<close> names a frame that is being reused.
\<close>

definition vm_ok :: "nat option \<Rightarrow> nat \<Rightarrow> TranslationEntry list \<Rightarrow> byte list \<Rightarrow> byte list \<Rightarrow> TranslationEntry list \<Rightarrow>
    PhysicalPageEntry list \<Rightarrow> bool" where
  "vm_ok hole cur pt vs mem t ppt \<longleftrightarrow>
     length vs = 128 * length pt \<and> length pt < 2 ^ 25 \<and> length mem = 4096 \<and> length t = 4 \<and> length ppt = 32 \<and>
     (\<forall>v < length pt. te_valid (pt ! v) \<longrightarrow> virtualPage (pt ! v) = of_nat v \<and> \<not> readOnly (pt ! v) \<and>
        unat (physicalPage (pt ! v)) < 32 \<and> hole \<noteq> Some (unat (physicalPage (pt ! v))) \<and>
        pp_valid (ppt ! unat (physicalPage (pt ! v))) \<and>
        VirtualPageNumber (ppt ! unat (physicalPage (pt ! v))) = of_nat v) \<and>
     (\<forall>k < 32. hole \<noteq> Some k \<longrightarrow> pp_valid (ppt ! k) \<longrightarrow> OwnerThread (ppt ! k) = Some cur \<and>
        unat (VirtualPageNumber (ppt ! k)) < length pt \<and> te_valid (pt ! unat (VirtualPageNumber (ppt ! k))) \<and>
        physicalPage (pt ! unat (VirtualPageNumber (ppt ! k))) = of_nat k) \<and>
     (\<forall>i < 4. te_valid (t ! i) \<longrightarrow> unat (virtualPage (t ! i)) < length pt \<and> te_valid (pt ! unat (virtualPage (t ! i))) \<and>
        physicalPage (t ! i) = physicalPage (pt ! unat (virtualPage (t ! i))) \<and> \<not> readOnly (t ! i)) \<and>
     (\<forall>i < 4. \<forall>j < 4. te_valid (t ! i) \<longrightarrow> te_valid (t ! j) \<longrightarrow> virtualPage (t ! i) = virtualPage (t ! j) \<longrightarrow> i = j)"

text \<open>The contents of virtual page \<open>v\<close>, wherever it is.\<close>

definition vpage :: "TranslationEntry list \<Rightarrow> byte list \<Rightarrow> byte list \<Rightarrow> nat \<Rightarrow> byte list" where
  "vpage pt vs mem v = (if te_valid (pt ! v) then frame_bytes mem (unat (physicalPage (pt ! v)))
     else slice (128 * v) 128 vs)"

lemma vm_okD:
  assumes "vm_ok hole cur pt vs mem t ppt"
  shows "length vs = 128 * length pt" "length pt < 2 ^ 25" "length mem = 4096" "length t = 4" "length ppt = 32"
    "\<And>v. v < length pt \<Longrightarrow> te_valid (pt ! v) \<Longrightarrow> virtualPage (pt ! v) = of_nat v \<and> \<not> readOnly (pt ! v) \<and>
        unat (physicalPage (pt ! v)) < 32 \<and> hole \<noteq> Some (unat (physicalPage (pt ! v))) \<and>
        pp_valid (ppt ! unat (physicalPage (pt ! v))) \<and> VirtualPageNumber (ppt ! unat (physicalPage (pt ! v))) = of_nat v"
    "\<And>k. k < 32 \<Longrightarrow> hole \<noteq> Some k \<Longrightarrow> pp_valid (ppt ! k) \<Longrightarrow> OwnerThread (ppt ! k) = Some cur \<and>
        unat (VirtualPageNumber (ppt ! k)) < length pt \<and> te_valid (pt ! unat (VirtualPageNumber (ppt ! k))) \<and>
        physicalPage (pt ! unat (VirtualPageNumber (ppt ! k))) = of_nat k"
    "\<And>i. i < 4 \<Longrightarrow> te_valid (t ! i) \<Longrightarrow> unat (virtualPage (t ! i)) < length pt \<and> te_valid (pt ! unat (virtualPage (t ! i))) \<and>
        physicalPage (t ! i) = physicalPage (pt ! unat (virtualPage (t ! i))) \<and> \<not> readOnly (t ! i)"
    "\<And>i j. i < 4 \<Longrightarrow> j < 4 \<Longrightarrow> te_valid (t ! i) \<Longrightarrow> te_valid (t ! j) \<Longrightarrow> virtualPage (t ! i) = virtualPage (t ! j) \<Longrightarrow> i = j"
  using assms unfolding vm_ok_def by blast+

lemma vm_okI:
  assumes "length vs = 128 * length pt" "length pt < 2 ^ 25" "length mem = 4096" "length t = 4" "length ppt = 32"
    "\<And>v. v < length pt \<Longrightarrow> te_valid (pt ! v) \<Longrightarrow> virtualPage (pt ! v) = of_nat v \<and> \<not> readOnly (pt ! v) \<and>
        unat (physicalPage (pt ! v)) < 32 \<and> hole \<noteq> Some (unat (physicalPage (pt ! v))) \<and>
        pp_valid (ppt ! unat (physicalPage (pt ! v))) \<and> VirtualPageNumber (ppt ! unat (physicalPage (pt ! v))) = of_nat v"
    "\<And>k. k < 32 \<Longrightarrow> hole \<noteq> Some k \<Longrightarrow> pp_valid (ppt ! k) \<Longrightarrow> OwnerThread (ppt ! k) = Some cur \<and>
        unat (VirtualPageNumber (ppt ! k)) < length pt \<and> te_valid (pt ! unat (VirtualPageNumber (ppt ! k))) \<and>
        physicalPage (pt ! unat (VirtualPageNumber (ppt ! k))) = of_nat k"
    "\<And>i. i < 4 \<Longrightarrow> te_valid (t ! i) \<Longrightarrow> unat (virtualPage (t ! i)) < length pt \<and> te_valid (pt ! unat (virtualPage (t ! i))) \<and>
        physicalPage (t ! i) = physicalPage (pt ! unat (virtualPage (t ! i))) \<and> \<not> readOnly (t ! i)"
    "\<And>i j. i < 4 \<Longrightarrow> j < 4 \<Longrightarrow> te_valid (t ! i) \<Longrightarrow> te_valid (t ! j) \<Longrightarrow> virtualPage (t ! i) = virtualPage (t ! j) \<Longrightarrow> i = j"
  shows "vm_ok hole cur pt vs mem t ppt"
  using assms unfolding vm_ok_def by blast

lemma unat_small: "v < 2 ^ 32 \<Longrightarrow> unat (of_nat v :: 32 word) = v"
  by (simp add: unat_of_nat take_bit_nat_eq_self)

text \<open>A frame is taken from its page.\<close>

lemma vm_ok_evict:
  assumes ok: "vm_ok None cur pt vs mem t ppt" and k: "k < 32" "pp_valid (ppt ! k)"
    and ov: "ov = unat (VirtualPageNumber (ppt ! k))"
    and pt': "pt' = pt[ov := (pt ! ov)\<lparr>te_dirty := False, te_valid := False\<rparr>]"
    and vs': "vs' = blit (frame_bytes mem k) vs (128 * ov)"
    and t': "t' = map (\<lambda>e. if te_valid e \<and> physicalPage e = of_nat k \<and> virtualPage e = VirtualPageNumber (ppt ! k)
              then e\<lparr>te_valid := False\<rparr> else e) t"
    and ppt': "ppt' = ppt[k := (ppt ! k)\<lparr>pp_dirty := False\<rparr>]"
  shows "vm_ok (Some k) cur pt' vs' mem t' ppt'" "\<And>v. v < length pt \<Longrightarrow> vpage pt' vs' mem v = vpage pt vs mem v"
proof -
  note w = vm_okD [OF ok]
  have o: "OwnerThread (ppt ! k) = Some cur" "ov < length pt" "te_valid (pt ! ov)" "physicalPage (pt ! ov) = of_nat k"
    using w(7) [OF k(1) _ k(2)] by (auto simp: ov)
  have uk: "unat (of_nat k :: 32 word) = k" using k(1) by (intro unat_small) simp
  have fl: "length (frame_bytes mem k) = 128" using w(3) k(1) by (simp add: frame_bytes_def)
  have only: "v = ov" if "v < length pt" "te_valid (pt ! v)" "unat (physicalPage (pt ! v)) = k" for v
    using w(6) [OF that(1,2)] that(1,3) w(2) unat_small [of v] by (simp add: ov)
  have "ppt' ! i = (if i = k then (ppt ! k)\<lparr>pp_dirty := False\<rparr> else ppt ! i)" for i
    using w(5) k(1) by (simp add: ppt')
  then have ppt_nth: "pp_valid (ppt' ! i) = pp_valid (ppt ! i)" "VirtualPageNumber (ppt' ! i) = VirtualPageNumber (ppt ! i)"
    "OwnerThread (ppt' ! i) = OwnerThread (ppt ! i)" for i
    by (cases "i = k"; simp)+
  have pt_nth: "pt' ! v = (if v = ov then (pt ! ov)\<lparr>te_dirty := False, te_valid := False\<rparr> else pt ! v)" for v
    using o(2) by (simp add: pt')
  have lp: "length pt' = length pt" by (simp add: pt')
  show "vm_ok (Some k) cur pt' vs' mem t' ppt'"
  proof (rule vm_okI)
    show "length vs' = 128 * length pt'" using w(1) o(2) fl by (simp add: vs' pt')
    show "virtualPage (pt' ! v) = of_nat v \<and> \<not> readOnly (pt' ! v) \<and> unat (physicalPage (pt' ! v)) < 32 \<and>
        Some k \<noteq> Some (unat (physicalPage (pt' ! v))) \<and> pp_valid (ppt' ! unat (physicalPage (pt' ! v))) \<and>
        VirtualPageNumber (ppt' ! unat (physicalPage (pt' ! v))) = of_nat v"
      if "v < length pt'" "te_valid (pt' ! v)" for v
    proof -
      have v: "v \<noteq> ov" "v < length pt" "te_valid (pt ! v)" using that lp by (auto simp: pt_nth split: if_splits)
      then show ?thesis using w(6) [OF v(2,3)] only [OF v(2,3)] by (simp add: pt_nth ppt_nth) blast
    qed
    show "OwnerThread (ppt' ! i) = Some cur \<and> unat (VirtualPageNumber (ppt' ! i)) < length pt' \<and>
        te_valid (pt' ! unat (VirtualPageNumber (ppt' ! i))) \<and> physicalPage (pt' ! unat (VirtualPageNumber (ppt' ! i))) = of_nat i"
      if "i < 32" "Some k \<noteq> Some i" "pp_valid (ppt' ! i)" for i
    proof -
      have "unat (VirtualPageNumber (ppt ! i)) \<noteq> ov" using w(7) [of i] that o(4) uk unat_small [of i] by (auto simp: ppt_nth)
      then show ?thesis using w(7) [of i] that lp by (simp add: ppt_nth pt_nth)
    qed
    show "unat (virtualPage (t' ! i)) < length pt' \<and> te_valid (pt' ! unat (virtualPage (t' ! i))) \<and>
        physicalPage (t' ! i) = physicalPage (pt' ! unat (virtualPage (t' ! i))) \<and> \<not> readOnly (t' ! i)"
      if "i < 4" "te_valid (t' ! i)" for i
    proof -
      have v: "te_valid (t ! i)" "t' ! i = t ! i" "\<not> (physicalPage (t ! i) = of_nat k \<and> virtualPage (t ! i) = VirtualPageNumber (ppt ! k))"
        using that w(4) by (auto simp: t' split: if_splits)
      have "unat (virtualPage (t ! i)) \<noteq> ov"
      proof
        assume a: "unat (virtualPage (t ! i)) = ov"
        then have "virtualPage (t ! i) = VirtualPageNumber (ppt ! k)" unfolding word_unat_eq_iff ov .
        then show False using w(8) [OF that(1) v(1)] v(3) a o(4) by simp
      qed
      then show ?thesis using w(8) [OF that(1) v(1)] v(2) lp by (simp add: pt_nth)
    qed
    show "i = j" if "i < 4" "j < 4" "te_valid (t' ! i)" "te_valid (t' ! j)" "virtualPage (t' ! i) = virtualPage (t' ! j)" for i j
      using that w(4) by (intro w(9)) (auto simp: t' split: if_splits)
  qed (use w in \<open>simp_all add: pt' t' ppt'\<close>)
  show "vpage pt' vs' mem v = vpage pt vs mem v" if "v < length pt" for v
  proof (cases "v = ov")
    case True
    then show ?thesis using o w(1) uk fl slice_blit_same [of "128 * ov" "frame_bytes mem k" vs]
      by (simp add: vpage_def pt_nth vs')
  next
    case False
    then have "128 * v + 128 \<le> 128 * ov \<or> 128 * ov + 128 \<le> 128 * v" by linarith
    then have "slice (128 * v) 128 vs' = slice (128 * v) 128 vs"
      using that o(2) w(1) fl by (simp add: vs' slice_blit_other)
    then show ?thesis using False by (simp add: vpage_def pt_nth)
  qed
qed

text \<open>The free frame gets a page that was absent.\<close>

lemma vm_ok_fill:
  assumes ok: "vm_ok (Some k) cur pt vs mem t ppt" and k: "k < 32" and v: "v < length pt" "\<not> te_valid (pt ! v)"
    and e: "te_valid e" "\<not> readOnly e" "physicalPage e = of_nat k" "virtualPage e = of_nat v"
    and f: "pp_valid f" "OwnerThread f = Some cur" "VirtualPageNumber f = of_nat v"
    and mem': "mem' = blit (slice (128 * v) 128 vs) mem (128 * k)"
  shows "vm_ok None cur (pt[v := e]) vs mem' t (ppt[k := f])"
    "\<And>w. w < length pt \<Longrightarrow> vpage (pt[v := e]) vs mem' w = vpage pt vs mem w"
proof -
  note w = vm_okD [OF ok]
  have uk: "unat (of_nat k :: 32 word) = k" using k by (intro unat_small) simp
  have uv: "unat (of_nat v :: 32 word) = v" using v(1) w(2) by (intro unat_small) simp
  have sl: "length (slice (128 * v) 128 vs) = 128" using w(1) v(1) by simp
  have pt_nth: "pt[v := e] ! x = (if x = v then e else pt ! x)" for x using v(1) by simp
  have ppt_nth: "ppt[k := f] ! x = (if x = k then f else ppt ! x)" for x using k w(5) by simp
  have nk: "unat (physicalPage (pt ! x)) \<noteq> k" if "x < length pt" "te_valid (pt ! x)" for x
    using w(6) [OF that] by auto
  show "vm_ok None cur (pt[v := e]) vs mem' t (ppt[k := f])"
  proof (rule vm_okI)
    show "length mem' = 4096" using w(3) k sl by (simp add: mem')
    show "virtualPage (pt[v := e] ! x) = of_nat x \<and> \<not> readOnly (pt[v := e] ! x) \<and> unat (physicalPage (pt[v := e] ! x)) < 32 \<and>
        None \<noteq> Some (unat (physicalPage (pt[v := e] ! x))) \<and> pp_valid (ppt[k := f] ! unat (physicalPage (pt[v := e] ! x))) \<and>
        VirtualPageNumber (ppt[k := f] ! unat (physicalPage (pt[v := e] ! x))) = of_nat x"
      if "x < length (pt[v := e])" "te_valid (pt[v := e] ! x)" for x
    proof (cases "x = v")
      case True
      then show ?thesis using e f k uk by (simp add: pt_nth ppt_nth)
    next
      case False
      then have "x < length pt" "te_valid (pt ! x)" using that by (simp_all add: pt_nth)
      then show ?thesis using False w(6) [of x] nk [of x] by (simp add: pt_nth ppt_nth)
    qed
    show "OwnerThread (ppt[k := f] ! x) = Some cur \<and> unat (VirtualPageNumber (ppt[k := f] ! x)) < length (pt[v := e]) \<and>
        te_valid (pt[v := e] ! unat (VirtualPageNumber (ppt[k := f] ! x))) \<and>
        physicalPage (pt[v := e] ! unat (VirtualPageNumber (ppt[k := f] ! x))) = of_nat x"
      if "x < 32" "None \<noteq> Some x" "pp_valid (ppt[k := f] ! x)" for x
    proof (cases "x = k")
      case True
      then show ?thesis using e f uv v by (simp add: pt_nth ppt_nth)
    next
      case False
      then have x: "pp_valid (ppt ! x)" "Some k \<noteq> Some x" using that by (simp_all add: ppt_nth)
      note wx = w(7) [OF that(1) x(2,1)]
      then have "unat (VirtualPageNumber (ppt ! x)) \<noteq> v" using v(2) by auto
      then show ?thesis using False wx by (simp add: pt_nth ppt_nth)
    qed
    show "unat (virtualPage (t ! i)) < length (pt[v := e]) \<and> te_valid (pt[v := e] ! unat (virtualPage (t ! i))) \<and>
        physicalPage (t ! i) = physicalPage (pt[v := e] ! unat (virtualPage (t ! i))) \<and> \<not> readOnly (t ! i)"
      if "i < 4" "te_valid (t ! i)" for i
    proof -
      note wi = w(8) [OF that]
      then have "unat (virtualPage (t ! i)) \<noteq> v" using v(2) by auto
      then show ?thesis using wi by (simp add: pt_nth)
    qed
  qed (use w in simp_all)
  show "vpage (pt[v := e]) vs mem' x = vpage pt vs mem x" if "x < length pt" for x
  proof (cases "x = v")
    case True
    then show ?thesis using e v uk w(3) k sl slice_blit_same [of "128 * k" "slice (128 * v) 128 vs" mem]
      by (simp add: vpage_def pt_nth frame_bytes_def mem')
  next
    case False
    show ?thesis
    proof (cases "te_valid (pt ! x)")
      case True
      define l where "l = unat (physicalPage (pt ! x))"
      have "l < 32" "l \<noteq> k" using w(6) [OF that True] nk [OF that True] by (simp_all add: l_def)
      then have "128 * l + 128 \<le> 128 * k \<or> 128 * k + 128 \<le> 128 * l" by linarith
      then have "frame_bytes mem' l = frame_bytes mem l"
        using \<open>l < 32\<close> k w(3) sl by (simp add: frame_bytes_def mem' slice_blit_other)
      then show ?thesis using False True by (simp add: vpage_def pt_nth l_def)
    qed (use False in \<open>simp add: vpage_def pt_nth\<close>)
  qed
qed

text \<open>A valid entry of the buffer is copied back to the page table.\<close>

lemma vm_ok_writeback:
  assumes ok: "vm_ok None cur pt vs mem t ppt" and i: "i < 4" "te_valid (t ! i)" and v: "v = unat (virtualPage (t ! i))"
  shows "vm_ok None cur (pt[v := t ! i]) vs mem t ppt"
    "vpage (pt[v := t ! i]) vs mem = vpage pt vs mem"
proof -
  note w = vm_okD [OF ok]
  have e: "v < length pt" "te_valid (pt ! v)" "physicalPage (t ! i) = physicalPage (pt ! v)" "\<not> readOnly (t ! i)"
    using w(8) [OF i] v by simp_all
  have vi: "virtualPage (t ! i) = of_nat v" using v by simp
  have nth: "te_valid (pt[v := t ! i] ! x) = te_valid (pt ! x)" "physicalPage (pt[v := t ! i] ! x) = physicalPage (pt ! x)" for x
    using e i(2) by (cases "x = v"; simp)+
  have pt_nth: "pt[v := t ! i] ! x = (if x = v then t ! i else pt ! x)" for x using e(1) by simp
  show "vm_ok None cur (pt[v := t ! i]) vs mem t ppt"
  proof (rule vm_okI)
    show "virtualPage (pt[v := t ! i] ! x) = of_nat x \<and> \<not> readOnly (pt[v := t ! i] ! x) \<and>
        unat (physicalPage (pt[v := t ! i] ! x)) < 32 \<and> None \<noteq> Some (unat (physicalPage (pt[v := t ! i] ! x))) \<and>
        pp_valid (ppt ! unat (physicalPage (pt[v := t ! i] ! x))) \<and>
        VirtualPageNumber (ppt ! unat (physicalPage (pt[v := t ! i] ! x))) = of_nat x"
      if "x < length (pt[v := t ! i])" "te_valid (pt[v := t ! i] ! x)" for x
    proof -
      have "x < length pt" "te_valid (pt ! x)" using that by (simp_all add: nth)
      then show ?thesis using w(6) [of x] vi e(4) unfolding nth by (simp add: pt_nth)
    qed
  qed (use w in \<open>simp_all add: nth\<close>)
  show "vpage (pt[v := t ! i]) vs mem = vpage pt vs mem" by (simp add: vpage_def nth fun_eq_iff)
qed

text \<open>An entry of the buffer is loaded from the page table.\<close>

lemma vm_ok_load:
  assumes ok: "vm_ok None cur pt vs mem t ppt" and i: "i < 4" and v: "v < length pt" "te_valid (pt ! v)"
    and new: "\<And>j. j < 4 \<Longrightarrow> te_valid (t ! j) \<Longrightarrow> virtualPage (t ! j) \<noteq> of_nat v"
    and e: "te_valid e" "virtualPage e = virtualPage (pt ! v)" "physicalPage e = physicalPage (pt ! v)" "readOnly e = readOnly (pt ! v)"
  shows "vm_ok None cur pt vs mem (t[i := e]) ppt"
proof -
  note w = vm_okD [OF ok]
  have uv: "unat (of_nat v :: 32 word) = v" using v(1) w(2) by (intro unat_small) simp
  have ev: "virtualPage e = of_nat v" "\<not> readOnly e" using w(6) [OF v] e by simp_all
  have t_nth: "t[i := e] ! j = (if j = i then e else t ! j)" for j using i w(4) by simp
  show ?thesis
  proof (rule vm_okI)
    show "unat (virtualPage (t[i := e] ! j)) < length pt \<and> te_valid (pt ! unat (virtualPage (t[i := e] ! j))) \<and>
        physicalPage (t[i := e] ! j) = physicalPage (pt ! unat (virtualPage (t[i := e] ! j))) \<and> \<not> readOnly (t[i := e] ! j)"
      if "j < 4" "te_valid (t[i := e] ! j)" for j
      using that w(8) [of j] v e(3) ev uv by (cases "j = i") (simp_all add: t_nth)
    show "j = l" if "j < 4" "l < 4" "te_valid (t[i := e] ! j)" "te_valid (t[i := e] ! l)"
      "virtualPage (t[i := e] ! j) = virtualPage (t[i := e] ! l)" for j l
    proof (cases "j = i"; cases "l = i")
      assume "j \<noteq> i" "l \<noteq> i"
      then show ?thesis using that w(9) [of j l] by (simp add: t_nth)
    qed (use that new ev in \<open>auto simp: t_nth\<close>)
  qed (use w in simp_all)
qed

section \<open>Paging on the machine\<close>

definition vm_inv :: "nat \<Rightarrow> AddrSpace \<Rightarrow> ('a Machine_scheme) \<Rightarrow> bool" where
  "vm_inv s sp m \<longleftrightarrow> pageTable m = Some s \<and> thread_space m (currentThread m) = Some s \<and> spaces m s = Some sp \<and>
     pageTableSize m = numPages sp \<and> length (as_pageTable sp) = unat (numPages sp) \<and> length (registers m) = 40 \<and>
     vm_ok None (currentThread m) (as_pageTable sp) (vSpace sp) (mainMemory m) (tlb m) (PhysicalPageTable m)"

text \<open>The memory the process sees, page by page.\<close>

definition page_of :: "AddrSpace \<Rightarrow> ('a Machine_scheme) \<Rightarrow> nat \<Rightarrow> byte list" where
  "page_of sp m v = vpage (as_pageTable sp) (vSpace sp) (mainMemory m) v"

text \<open>\<open>same_space\<close>: the process sees the same memory; what paging does not touch is unchanged.\<close>

definition same_space :: "nat \<Rightarrow> AddrSpace \<Rightarrow> ('a Machine_scheme) \<Rightarrow> AddrSpace \<Rightarrow> ('a Machine_scheme) \<Rightarrow> bool" where
  "same_space s sp m sp' m' \<longleftrightarrow> vm_inv s sp' m' \<and> numPages sp' = numPages sp \<and> registers m' = registers m \<and>
     mstats m' = mstats m \<and> user_mode m' = user_mode m \<and> currentThread m' = currentThread m \<and> Machine.more m' = Machine.more m \<and>
     (\<forall>v < length (as_pageTable sp). page_of sp' m' v = page_of sp m v)"

lemma upd_pte_eq:
  assumes "spaces m s = Some sp" "unat v < length (as_pageTable sp)"
  shows "upd_pte (Some s) v f m =
    Inr (m\<lparr>spaces := (spaces m)(s \<mapsto> sp\<lparr>as_pageTable := (as_pageTable sp)[unat v := f (as_pageTable sp ! unat v)]\<rparr>)\<rparr>)"
  using assms by (simp add: upd_pte_def space_of_def arr_def)

lemma get_pte_eq:
  assumes "spaces m s = Some sp" "unat v < length (as_pageTable sp)"
  shows "get_pte m (Some s) v = Inr (as_pageTable sp ! unat v)"
  using assms by (simp add: get_pte_def space_of_def arr_def)

lemma evict_frame_eq:
  assumes inv: "vm_inv s sp m" and k: "k < 32" "pp_valid (PhysicalPageTable m ! k)"
    and ov: "ov = unat (VirtualPageNumber (PhysicalPageTable m ! k))"
  shows "evict_frame k m = Inr (m\<lparr>
      PhysicalPageTable := (PhysicalPageTable m)[k := (PhysicalPageTable m ! k)\<lparr>pp_dirty := False\<rparr>],
      spaces := (spaces m)(s \<mapsto> sp\<lparr>vSpace := blit (frame_bytes (mainMemory m) k) (vSpace sp) (128 * ov),
        as_pageTable := (as_pageTable sp)[ov := (as_pageTable sp ! ov)\<lparr>te_dirty := False, te_valid := False\<rparr>]\<rparr>),
      tlb := map (\<lambda>e. if te_valid e \<and> physicalPage e = of_nat k \<and> virtualPage e = VirtualPageNumber (PhysicalPageTable m ! k)
              then e\<lparr>te_valid := False\<rparr> else e) (tlb m)\<rparr>)"
proof -
  have i: "pageTable m = Some s" "thread_space m (currentThread m) = Some s" "spaces m s = Some sp"
    and ok: "vm_ok None (currentThread m) (as_pageTable sp) (vSpace sp) (mainMemory m) (tlb m) (PhysicalPageTable m)"
    using inv by (simp_all add: vm_inv_def)
  note w = vm_okD [OF ok]
  have o: "OwnerThread (PhysicalPageTable m ! k) = Some (currentThread m)" "ov < length (as_pageTable sp)"
    using w(7) [OF k(1) _ k(2)] by (auto simp: ov)
  show ?thesis using i o k w(1,3)
    by (simp add: evict_frame_def Let_def evict_owner_def upd_pte_eq swap_out_def space_of_def upd_ppt_def flip: ov)
qed

lemma pick_bound: "\<forall>i \<in> set is. i < n \<Longrightarrow> e < n \<Longrightarrow> pick full stamp t is e < n"
  by (induction "is" arbitrary: e) auto

text \<open>A frame for an absent page, taken from another page if need be.\<close>

lemma fill_frame_eq:
  assumes "pageTable m = Some s" "thread_space m (currentThread m) = Some s" "spaces m s = Some sp"
    "unat v < length (as_pageTable sp)" "length (vSpace sp) = 128 * length (as_pageTable sp)" "length (mainMemory m) = 4096" "k < 32"
  obtains e f where "fill_frame k v m = Inr (m\<lparr>
      mainMemory := blit (slice (128 * unat v) 128 (vSpace sp)) (mainMemory m) (128 * k),
      PhysicalPageTable := (PhysicalPageTable m)[k := f],
      spaces := (spaces m)(s \<mapsto> sp\<lparr>as_pageTable := (as_pageTable sp)[unat v := e]\<rparr>)\<rparr>)"
    "te_valid e" "\<not> readOnly e" "physicalPage e = of_nat k" "virtualPage e = v"
    "pp_valid f" "OwnerThread f = Some (currentThread m)" "VirtualPageNumber f = v"
proof -
  let ?f = "(PhysicalPageTable m ! k)\<lparr>pp_LastHitTime := totalTicks (mstats m), pp_valid := True,
      OwnerThread := Some (currentThread m), VirtualPageNumber := v\<rparr>"
  let ?e = "(as_pageTable sp ! unat v)\<lparr>te_valid := True, used := False, readOnly := False, physicalPage := of_nat k,
      virtualPage := v, InTime := totalTicks (mstats m), LastHitTime := totalTicks (mstats m)\<rparr>"
  have "fill_frame k v m = Inr (m\<lparr>
      mainMemory := blit (slice (128 * unat v) 128 (vSpace sp)) (mainMemory m) (128 * k),
      PhysicalPageTable := (PhysicalPageTable m)[k := ?f],
      spaces := (spaces m)(s \<mapsto> sp\<lparr>as_pageTable := (as_pageTable sp)[unat v := ?e]\<rparr>)\<rparr>)"
    using assms by (simp add: fill_frame_def swap_in_def space_of_def upd_ppt_def upd_pte_eq Let_def)
  then show ?thesis by (rule that) simp_all
qed

lemma vm_ok_free:
  assumes "vm_ok None cur pt vs mem t ppt" "\<not> pp_valid (ppt ! k)"
  shows "vm_ok (Some k) cur pt vs mem t ppt"
  using assms by (auto simp: vm_ok_def)

text \<open>What the routines of paging leave alone.\<close>

definition context_of :: "('a Machine_scheme) \<Rightarrow> nat option \<times> 32 word \<times> (nat \<Rightarrow> nat option) \<times> nat \<times> 32 word list \<times> Statistics \<times> bool \<times> 'a" where
  "context_of m = (pageTable m, pageTableSize m, thread_space m, currentThread m, registers m, mstats m, user_mode m, Machine.more m)"

lemma evict_frame_pages:
  assumes inv: "vm_inv s sp m" and k: "k < 32" and v: "v < length (as_pageTable sp)" "\<not> te_valid (as_pageTable sp ! v)"
  obtains m1 sp1 where "evict_frame k m = Inr m1" "context_of m1 = context_of m" "spaces m1 s = Some sp1" "mainMemory m1 = mainMemory m"
    "vm_ok (Some k) (currentThread m) (as_pageTable sp1) (vSpace sp1) (mainMemory m) (tlb m1) (PhysicalPageTable m1)"
    "length (as_pageTable sp1) = length (as_pageTable sp)" "numPages sp1 = numPages sp"
    "\<not> te_valid (as_pageTable sp1 ! v)"
    "\<And>x. x < length (as_pageTable sp) \<Longrightarrow> vpage (as_pageTable sp1) (vSpace sp1) (mainMemory m) x = page_of sp m x"
    "\<And>j. j < 4 \<Longrightarrow> te_valid (tlb m1 ! j) \<Longrightarrow> tlb m1 ! j = tlb m ! j"
proof -
  have i: "pageTable m = Some s" "thread_space m (currentThread m) = Some s" "spaces m s = Some sp"
    and ok: "vm_ok None (currentThread m) (as_pageTable sp) (vSpace sp) (mainMemory m) (tlb m) (PhysicalPageTable m)"
    using inv by (simp_all add: vm_inv_def)
  show ?thesis
  proof (cases "pp_valid (PhysicalPageTable m ! k)")
    case False
    then have "evict_frame k m = Inr m" by (simp add: evict_frame_def Let_def)
    then show ?thesis using that [of m sp] i v(2) vm_ok_free [OF ok False] by (simp add: page_of_def)
  next
    case True
    define ov where "ov = unat (VirtualPageNumber (PhysicalPageTable m ! k))"
    have o: "ov < length (as_pageTable sp)" "te_valid (as_pageTable sp ! ov)"
      using vm_okD(7) [OF ok k _ True] by (auto simp: ov_def)
    note ev = vm_ok_evict [OF ok k True ov_def refl refl refl refl]
    define sp1 where "sp1 = sp\<lparr>vSpace := blit (frame_bytes (mainMemory m) k) (vSpace sp) (128 * ov),
        as_pageTable := (as_pageTable sp)[ov := (as_pageTable sp ! ov)\<lparr>te_dirty := False, te_valid := False\<rparr>]\<rparr>"
    define t1 where "t1 = map (\<lambda>e. if te_valid e \<and> physicalPage e = of_nat k \<and> virtualPage e = VirtualPageNumber (PhysicalPageTable m ! k)
              then e\<lparr>te_valid := False\<rparr> else e) (tlb m)"
    define m1 where "m1 = m\<lparr>PhysicalPageTable := (PhysicalPageTable m)[k := (PhysicalPageTable m ! k)\<lparr>pp_dirty := False\<rparr>],
      spaces := (spaces m)(s \<mapsto> sp1), tlb := t1\<rparr>"
    have "evict_frame k m = Inr m1"
      using evict_frame_eq [OF inv k True ov_def] by (simp add: m1_def sp1_def t1_def)
    moreover have "context_of m1 = context_of m" "spaces m1 s = Some sp1" "mainMemory m1 = mainMemory m"
      by (simp_all add: m1_def context_of_def)
    moreover have "vm_ok (Some k) (currentThread m) (as_pageTable sp1) (vSpace sp1) (mainMemory m) (tlb m1) (PhysicalPageTable m1)"
      using ev(1) by (simp add: m1_def sp1_def t1_def)
    moreover have "length (as_pageTable sp1) = length (as_pageTable sp)" "numPages sp1 = numPages sp" by (simp_all add: sp1_def)
    moreover have "\<not> te_valid (as_pageTable sp1 ! v)" using v o by (cases "v = ov") (simp_all add: sp1_def)
    moreover have "vpage (as_pageTable sp1) (vSpace sp1) (mainMemory m) x = page_of sp m x" if "x < length (as_pageTable sp)" for x
      using ev(2) [OF that] by (simp add: sp1_def page_of_def)
    moreover have "tlb m1 ! j = tlb m ! j" if "j < 4" "te_valid (tlb m1 ! j)" for j
      using that vm_okD(4) [OF ok] by (auto simp: m1_def t1_def split: if_splits)
    ultimately show ?thesis by (rule that) auto
  qed
qed

lemma AllocatePhysicalPage_pages:
  assumes inv: "vm_inv s sp m" and v: "unat v < length (as_pageTable sp)" "\<not> te_valid (as_pageTable sp ! unat v)"
  obtains m' k sp' where "AllocatePhysicalPage m v = Inr (m', k)" "same_space s sp m sp' m'"
    "te_valid (as_pageTable sp' ! unat v)" "\<forall>j < 4. te_valid (tlb m' ! j) \<longrightarrow> tlb m' ! j = tlb m ! j"
proof -
  define k where "k = pick_frame (PhysicalPageTable m)"
  have k: "k < 32" unfolding k_def pick_frame_def by (rule pick_bound) auto
  obtain m1 sp1 where m1: "evict_frame k m = Inr m1" "context_of m1 = context_of m" "spaces m1 s = Some sp1"
    "mainMemory m1 = mainMemory m"
    "vm_ok (Some k) (currentThread m) (as_pageTable sp1) (vSpace sp1) (mainMemory m) (tlb m1) (PhysicalPageTable m1)"
    "length (as_pageTable sp1) = length (as_pageTable sp)" "numPages sp1 = numPages sp" "\<not> te_valid (as_pageTable sp1 ! unat v)"
    "\<And>x. x < length (as_pageTable sp) \<Longrightarrow> vpage (as_pageTable sp1) (vSpace sp1) (mainMemory m) x = page_of sp m x"
    "\<And>j. j < 4 \<Longrightarrow> te_valid (tlb m1 ! j) \<Longrightarrow> tlb m1 ! j = tlb m ! j"
    using evict_frame_pages [OF inv k v] by blast
  have c1: "pageTable m1 = Some s" "thread_space m1 (currentThread m1) = Some s" "currentThread m1 = currentThread m"
    using inv m1(2) by (auto simp: context_of_def vm_inv_def)
  have l: "unat v < length (as_pageTable sp1)" "length (vSpace sp1) = 128 * length (as_pageTable sp1)" "length (mainMemory m1) = 4096"
    using v(1) m1(4,6) vm_okD(1,3) [OF m1(5)] by simp_all
  obtain e f where fill: "fill_frame k v m1 = Inr (m1\<lparr>
      mainMemory := blit (slice (128 * unat v) 128 (vSpace sp1)) (mainMemory m1) (128 * k),
      PhysicalPageTable := (PhysicalPageTable m1)[k := f],
      spaces := (spaces m1)(s \<mapsto> sp1\<lparr>as_pageTable := (as_pageTable sp1)[unat v := e]\<rparr>)\<rparr>)"
    "te_valid e" "\<not> readOnly e" "physicalPage e = of_nat k" "virtualPage e = v"
    "pp_valid f" "OwnerThread f = Some (currentThread m1)" "VirtualPageNumber f = v"
    using fill_frame_eq [OF c1(1,2) m1(3) l k] by metis
  let ?m' = "m1\<lparr>mainMemory := blit (slice (128 * unat v) 128 (vSpace sp1)) (mainMemory m1) (128 * k),
      PhysicalPageTable := (PhysicalPageTable m1)[k := f],
      spaces := (spaces m1)(s \<mapsto> sp1\<lparr>as_pageTable := (as_pageTable sp1)[unat v := e]\<rparr>)\<rparr>"
  let ?sp' = "sp1\<lparr>as_pageTable := (as_pageTable sp1)[unat v := e]\<rparr>"
  have ev: "virtualPage e = of_nat (unat v)" "VirtualPageNumber f = of_nat (unat v)" "OwnerThread f = Some (currentThread m)"
    using fill(5,7,8) c1(3) by simp_all
  note ff = vm_ok_fill [OF m1(5) k l(1) m1(8) fill(2,3,4) ev(1) fill(6) ev(3,2) refl]
  have "AllocatePhysicalPage m v = Inr (?m', k)"
    using m1(1) fill(1) by (simp add: AllocatePhysicalPage_def k_def Let_def)
  moreover have "same_space s sp m ?sp' ?m'"
    using inv m1(2,4,6,7,9) ff by (simp add: same_space_def vm_inv_def context_of_def page_of_def)
  moreover have "te_valid (as_pageTable ?sp' ! unat v)" using fill(2) l(1) by simp
  ultimately show ?thesis by (rule that) (use m1(10) in simp)
qed

lemma tlb_find_SomeD:
  "tlb_find t v is = Some i \<Longrightarrow> i \<in> set is \<and> te_valid (t ! i) \<and> virtualPage (t ! i) = v"
  by (induction t v "is" rule: tlb_find.induct) (auto split: if_split_asm)

lemma tlb_find_NoneD:
  "tlb_find t v is = None \<Longrightarrow> i \<in> set is \<Longrightarrow> te_valid (t ! i) \<Longrightarrow> virtualPage (t ! i) \<noteq> v"
  by (induction t v "is" rule: tlb_find.induct) (auto split: if_split_asm)

lemma tlb_find_ex:
  assumes "i \<in> set is" "te_valid (t ! i)" "virtualPage (t ! i) = v"
  obtains j where "tlb_find t v is = Some j"
  using assms tlb_find_NoneD [of t v "is" i] by (cases "tlb_find t v is") auto

lemma same_space_refl: "vm_inv s sp m \<Longrightarrow> same_space s sp m sp m"
  by (simp add: same_space_def)

lemma same_space_inv: "same_space s sp m sp' m' \<Longrightarrow> vm_inv s sp' m'"
  by (simp add: same_space_def)

lemma same_space_trans:
  "same_space s sp m sp1 m1 \<Longrightarrow> length (as_pageTable sp1) = length (as_pageTable sp) \<Longrightarrow>
    same_space s sp1 m1 sp2 m2 \<Longrightarrow> same_space s sp m sp2 m2"
  by (simp add: same_space_def)

lemma same_space_length:
  "vm_inv s sp m \<Longrightarrow> same_space s sp m sp' m' \<Longrightarrow> length (as_pageTable sp') = length (as_pageTable sp)"
  by (simp add: same_space_def vm_inv_def)

lemma vm_invD:
  assumes "vm_inv s sp m"
  shows "pageTable m = Some s" "thread_space m (currentThread m) = Some s" "spaces m s = Some sp" "pageTableSize m = numPages sp"
    "length (as_pageTable sp) = unat (numPages sp)" "length (registers m) = 40"
    "vm_ok None (currentThread m) (as_pageTable sp) (vSpace sp) (mainMemory m) (tlb m) (PhysicalPageTable m)"
  using assms unfolding vm_inv_def by blast+

lemma vm_inv_get_pte:
  assumes "vm_inv s sp m" "unat v < length (as_pageTable sp)"
  shows "get_pte m (pageTable m) v = Inr (as_pageTable sp ! unat v)"
  unfolding vm_invD(1) [OF assms(1)] by (rule get_pte_eq [OF vm_invD(3) [OF assms(1)] assms(2)])

lemma refill_pages:
  assumes inv: "vm_inv s sp m" and i: "i < 4" and v: "unat v < length (as_pageTable sp)"
    and miss: "tlb_find (tlb m) v [0..<TLBSize] = None"
  obtains m' sp' j where "refill i m v = Inr m'" "same_space s sp m sp' m'" "tlb_find (tlb m') v [0..<TLBSize] = Some j"
proof -
  note m = vm_invD(1,3) [OF inv] and ok = vm_invD(7) [OF inv]
  let ?e = "tlb m ! i"
  obtain m1 sp1 where m1: "(if te_valid ?e then upd_pte (pageTable m) (virtualPage ?e) (\<lambda>_. ?e) m else Inr m) = Inr m1"
    "same_space s sp m sp1 m1" "tlb m1 = tlb m"
  proof (cases "te_valid ?e")
    case True
    let ?v = "unat (virtualPage ?e)"
    have e: "?v < length (as_pageTable sp)" using vm_okD(8) [OF ok i True] by simp
    note wb = vm_ok_writeback [OF ok i True refl]
    let ?sp1 = "sp\<lparr>as_pageTable := (as_pageTable sp)[?v := ?e]\<rparr>"
    have "same_space s sp m ?sp1 (m\<lparr>spaces := (spaces m)(s \<mapsto> ?sp1)\<rparr>)"
      using inv wb by (simp add: same_space_def vm_inv_def page_of_def)
    then show ?thesis using that True m upd_pte_eq [OF m(2) e] by simp
  next
    case False
    then show ?thesis using that [of m sp] same_space_refl [OF inv] by simp
  qed
  have inv1: "vm_inv s sp1 m1" and l1: "length (as_pageTable sp1) = length (as_pageTable sp)"
    using same_space_inv [OF m1(2)] same_space_length [OF inv m1(2)] .
  have p1: "get_pte m1 (pageTable m1) v = Inr (as_pageTable sp1 ! unat v)"
    by (rule vm_inv_get_pte [OF inv1 v [folded l1]])
  obtain m2 sp2 where m2: "(if te_valid (as_pageTable sp1 ! unat v) then Inr m1
      else bindE (AllocatePhysicalPage m1 v) (\<lambda>(m, _). Inr m)) = Inr m2"
    "same_space s sp1 m1 sp2 m2" "te_valid (as_pageTable sp2 ! unat v)"
    "\<forall>j < 4. te_valid (tlb m2 ! j) \<longrightarrow> tlb m2 ! j = tlb m ! j"
  proof (cases "te_valid (as_pageTable sp1 ! unat v)")
    case True
    then show ?thesis using that [of m1 sp1] same_space_refl [OF inv1] m1(3) by simp
  next
    case False
    have v1: "unat v < length (as_pageTable sp1)" using v unfolding l1 .
    obtain m2 k sp2 where a: "AllocatePhysicalPage m1 v = Inr (m2, k)" "same_space s sp1 m1 sp2 m2"
      "te_valid (as_pageTable sp2 ! unat v)" "\<forall>j < 4. te_valid (tlb m2 ! j) \<longrightarrow> tlb m2 ! j = tlb m1 ! j"
      by (rule AllocatePhysicalPage_pages [OF inv1 v1 False])
    have "(if te_valid (as_pageTable sp1 ! unat v) then Inr m1
      else bindE (AllocatePhysicalPage m1 v) (\<lambda>(m, _). Inr m)) = Inr m2" using False a(1) by simp
    then show ?thesis using a(2,3) a(4) [unfolded m1(3)] by (rule that)
  qed
  have inv2: "vm_inv s sp2 m2" and l2: "unat v < length (as_pageTable sp2)"
    using same_space_inv [OF m2(2)] same_space_length [OF inv1 m2(2)] v l1 by simp_all
  note ok2 = vm_invD(7) [OF inv2] and p2 = vm_inv_get_pte [OF inv2 l2]
  let ?p = "(as_pageTable sp2 ! unat v)\<lparr>InTime := totalTicks (mstats m2)\<rparr>"
  let ?m' = "upd_tlb i (\<lambda>_. ?p) m2"
  have new: "virtualPage (tlb m2 ! j) \<noteq> of_nat (unat v)" if "j < 4" "te_valid (tlb m2 ! j)" for j
    using m2(4) tlb_find_NoneD [OF miss, of j] that by simp
  have "vm_ok None (currentThread m2) (as_pageTable sp2) (vSpace sp2) (mainMemory m2) ((tlb m2)[i := ?p]) (PhysicalPageTable m2)"
    by (rule vm_ok_load [OF ok2 i l2 m2(3) new]) (use m2(3) in simp_all)
  then have "same_space s sp2 m2 sp2 ?m'" using inv2 by (simp add: same_space_def vm_inv_def upd_tlb_def page_of_def)
  then have "same_space s sp m sp2 ?m'"
    using same_space_trans [OF m1(2) l1 same_space_trans [OF m2(2) same_space_length [OF inv1 m2(2)]]] by blast
  moreover have "refill i m v = Inr ?m'" using m1(1) p1 m2(1) p2 by (simp add: refill_def)
  moreover obtain j where "tlb_find (tlb ?m') v [0..<TLBSize] = Some j"
  proof (rule tlb_find_ex)
    show "i \<in> set [0..<TLBSize]" using i by simp
    show "te_valid (tlb ?m' ! i)" "virtualPage (tlb ?m' ! i) = v"
      using i vm_okD(4,6) [OF ok2] l2 m2(3) by (simp_all add: upd_tlb_def)
  qed
  ultimately show ?thesis using that by blast
qed

end
