(* ===== verification/Mips_Sim.thy ===== *)
theory Mips_Sim
  imports Virt_Mem
begin

text \<open>
  The interpreter of user instructions, \<^verbatim>\<open>code/machine/mipssim.h\<close> and \<^verbatim>\<open>mipssim.cc\<close>. Registers are
  32-bit words: signed arithmetic wraps as on the host, \<^verbatim>\<open>>>\<close> on an \<^verbatim>\<open>int\<close> is arithmetic, and the one
  quotient the host traps on, \<^verbatim>\<open>INT_MIN / -1\<close>, is a fault. What the interpreter calls in the kernel is
  the parameter \<open>K\<close> of \<open>Virt_Mem\<close>.
\<close>

section \<open>Operation codes\<close>

abbreviation (input) OP_ADD :: nat where "OP_ADD \<equiv> 1"
abbreviation (input) OP_ADDI :: nat where "OP_ADDI \<equiv> 2"
abbreviation (input) OP_ADDIU :: nat where "OP_ADDIU \<equiv> 3"
abbreviation (input) OP_ADDU :: nat where "OP_ADDU \<equiv> 4"
abbreviation (input) OP_AND :: nat where "OP_AND \<equiv> 5"
abbreviation (input) OP_ANDI :: nat where "OP_ANDI \<equiv> 6"
abbreviation (input) OP_BEQ :: nat where "OP_BEQ \<equiv> 7"
abbreviation (input) OP_BGEZ :: nat where "OP_BGEZ \<equiv> 8"
abbreviation (input) OP_BGEZAL :: nat where "OP_BGEZAL \<equiv> 9"
abbreviation (input) OP_BGTZ :: nat where "OP_BGTZ \<equiv> 10"
abbreviation (input) OP_BLEZ :: nat where "OP_BLEZ \<equiv> 11"
abbreviation (input) OP_BLTZ :: nat where "OP_BLTZ \<equiv> 12"
abbreviation (input) OP_BLTZAL :: nat where "OP_BLTZAL \<equiv> 13"
abbreviation (input) OP_BNE :: nat where "OP_BNE \<equiv> 14"
abbreviation (input) OP_DIV :: nat where "OP_DIV \<equiv> 16"
abbreviation (input) OP_DIVU :: nat where "OP_DIVU \<equiv> 17"
abbreviation (input) OP_J :: nat where "OP_J \<equiv> 18"
abbreviation (input) OP_JAL :: nat where "OP_JAL \<equiv> 19"
abbreviation (input) OP_JALR :: nat where "OP_JALR \<equiv> 20"
abbreviation (input) OP_JR :: nat where "OP_JR \<equiv> 21"
abbreviation (input) OP_LB :: nat where "OP_LB \<equiv> 22"
abbreviation (input) OP_LBU :: nat where "OP_LBU \<equiv> 23"
abbreviation (input) OP_LH :: nat where "OP_LH \<equiv> 24"
abbreviation (input) OP_LHU :: nat where "OP_LHU \<equiv> 25"
abbreviation (input) OP_LUI :: nat where "OP_LUI \<equiv> 26"
abbreviation (input) OP_LW :: nat where "OP_LW \<equiv> 27"
abbreviation (input) OP_LWL :: nat where "OP_LWL \<equiv> 28"
abbreviation (input) OP_LWR :: nat where "OP_LWR \<equiv> 29"
abbreviation (input) OP_MFHI :: nat where "OP_MFHI \<equiv> 31"
abbreviation (input) OP_MFLO :: nat where "OP_MFLO \<equiv> 32"
abbreviation (input) OP_MTHI :: nat where "OP_MTHI \<equiv> 34"
abbreviation (input) OP_MTLO :: nat where "OP_MTLO \<equiv> 35"
abbreviation (input) OP_MULT :: nat where "OP_MULT \<equiv> 36"
abbreviation (input) OP_MULTU :: nat where "OP_MULTU \<equiv> 37"
abbreviation (input) OP_NOR :: nat where "OP_NOR \<equiv> 38"
abbreviation (input) OP_OR :: nat where "OP_OR \<equiv> 39"
abbreviation (input) OP_ORI :: nat where "OP_ORI \<equiv> 40"
abbreviation (input) OP_RFE :: nat where "OP_RFE \<equiv> 41"
abbreviation (input) OP_SB :: nat where "OP_SB \<equiv> 42"
abbreviation (input) OP_SH :: nat where "OP_SH \<equiv> 43"
abbreviation (input) OP_SLL :: nat where "OP_SLL \<equiv> 44"
abbreviation (input) OP_SLLV :: nat where "OP_SLLV \<equiv> 45"
abbreviation (input) OP_SLT :: nat where "OP_SLT \<equiv> 46"
abbreviation (input) OP_SLTI :: nat where "OP_SLTI \<equiv> 47"
abbreviation (input) OP_SLTIU :: nat where "OP_SLTIU \<equiv> 48"
abbreviation (input) OP_SLTU :: nat where "OP_SLTU \<equiv> 49"
abbreviation (input) OP_SRA :: nat where "OP_SRA \<equiv> 50"
abbreviation (input) OP_SRAV :: nat where "OP_SRAV \<equiv> 51"
abbreviation (input) OP_SRL :: nat where "OP_SRL \<equiv> 52"
abbreviation (input) OP_SRLV :: nat where "OP_SRLV \<equiv> 53"
abbreviation (input) OP_SUB :: nat where "OP_SUB \<equiv> 54"
abbreviation (input) OP_SUBU :: nat where "OP_SUBU \<equiv> 55"
abbreviation (input) OP_SW :: nat where "OP_SW \<equiv> 56"
abbreviation (input) OP_SWL :: nat where "OP_SWL \<equiv> 57"
abbreviation (input) OP_SWR :: nat where "OP_SWR \<equiv> 58"
abbreviation (input) OP_XOR :: nat where "OP_XOR \<equiv> 59"
abbreviation (input) OP_XORI :: nat where "OP_XORI \<equiv> 60"
abbreviation (input) OP_SYSCALL :: nat where "OP_SYSCALL \<equiv> 61"
abbreviation (input) OP_UNIMP :: nat where "OP_UNIMP \<equiv> 62"
abbreviation (input) OP_RES :: nat where "OP_RES \<equiv> 63"
abbreviation (input) SPECIAL :: nat where "SPECIAL \<equiv> 100"
abbreviation (input) BCOND :: nat where "BCOND \<equiv> 101"

datatype Format = IFMT | JFMT | RFMT

record OpInfo =
  oi_opCode :: nat
  format :: Format

record Instruction =
  i_value :: "32 word"
  opCode :: nat
  rs :: nat
  rt :: nat
  rd :: nat
  extra :: "32 word"

definition opTable :: "OpInfo list" where
  "opTable = [
    \<lparr>oi_opCode = SPECIAL, format = RFMT\<rparr>, \<lparr>oi_opCode = BCOND, format = IFMT\<rparr>,
    \<lparr>oi_opCode = OP_J, format = JFMT\<rparr>, \<lparr>oi_opCode = OP_JAL, format = JFMT\<rparr>] @
   map (\<lambda>c. \<lparr>oi_opCode = c, format = IFMT\<rparr>) [
    OP_BEQ, OP_BNE, OP_BLEZ, OP_BGTZ,
    OP_ADDI, OP_ADDIU, OP_SLTI, OP_SLTIU,
    OP_ANDI, OP_ORI, OP_XORI, OP_LUI,
    OP_UNIMP, OP_UNIMP, OP_UNIMP, OP_UNIMP,
    OP_RES, OP_RES, OP_RES, OP_RES,
    OP_RES, OP_RES, OP_RES, OP_RES,
    OP_RES, OP_RES, OP_RES, OP_RES,
    OP_LB, OP_LH, OP_LWL, OP_LW,
    OP_LBU, OP_LHU, OP_LWR, OP_RES,
    OP_SB, OP_SH, OP_SWL, OP_SW,
    OP_RES, OP_RES, OP_SWR, OP_RES,
    OP_UNIMP, OP_UNIMP, OP_UNIMP, OP_UNIMP,
    OP_RES, OP_RES, OP_RES, OP_RES,
    OP_UNIMP, OP_UNIMP, OP_UNIMP, OP_UNIMP,
    OP_RES, OP_RES, OP_RES, OP_RES]"

definition specialTable :: "nat list" where
  "specialTable = [
    OP_SLL, OP_RES, OP_SRL, OP_SRA, OP_SLLV, OP_RES, OP_SRLV, OP_SRAV,
    OP_JR, OP_JALR, OP_RES, OP_RES, OP_SYSCALL, OP_UNIMP, OP_RES, OP_RES,
    OP_MFHI, OP_MTHI, OP_MFLO, OP_MTLO, OP_RES, OP_RES, OP_RES, OP_RES,
    OP_MULT, OP_MULTU, OP_DIV, OP_DIVU, OP_RES, OP_RES, OP_RES, OP_RES,
    OP_ADD, OP_ADDU, OP_SUB, OP_SUBU, OP_AND, OP_OR, OP_XOR, OP_NOR,
    OP_RES, OP_RES, OP_SLT, OP_SLTU, OP_RES, OP_RES, OP_RES, OP_RES,
    OP_RES, OP_RES, OP_RES, OP_RES, OP_RES, OP_RES, OP_RES, OP_RES,
    OP_RES, OP_RES, OP_RES, OP_RES, OP_RES, OP_RES, OP_RES, OP_RES]"

abbreviation (input) SIGN_BIT :: "32 word" where "SIGN_BIT \<equiv> 0x80000000"
abbreviation (input) R31 :: nat where "R31 \<equiv> 31"

definition IndexToAddr :: "32 word \<Rightarrow> 32 word" where
  "IndexToAddr x = push_bit 2 x"

section \<open>Decoding\<close>

text \<open>The decoded form of the instruction \<open>v\<close>; \<^verbatim>\<open>value\<close> is unsigned, so its shifts are logical.\<close>

definition Decode_extra :: "Format \<Rightarrow> 32 word \<Rightarrow> 32 word" where
  "Decode_extra fmt v =
     (case fmt of
        IFMT \<Rightarrow> (let e = v AND 0xffff in if e AND 0x8000 \<noteq> 0 then e OR 0xffff0000 else e)
      | RFMT \<Rightarrow> drop_bit 6 v AND 0x1f
      | JFMT \<Rightarrow> v AND 0x3ffffff)"

definition Decode_bcond :: "32 word \<Rightarrow> nat" where
  "Decode_bcond v =
     (let i = v AND 0x1f0000 in
      if i = 0 then OP_BLTZ
      else if i = 0x10000 then OP_BGEZ
      else if i = 0x100000 then OP_BLTZAL
      else if i = 0x110000 then OP_BGEZAL
      else OP_UNIMP)"

definition Decode :: "32 word \<Rightarrow> Instruction" where
  "Decode v =
     (let opPtr = opTable ! unat (drop_bit 26 v AND 0x3f); c = oi_opCode opPtr in
      \<lparr>i_value = v,
       opCode = (if c = SPECIAL then specialTable ! unat (v AND 0x3f)
                 else if c = BCOND then Decode_bcond v else c),
       rs = unat (drop_bit 21 v AND 0x1f),
       rt = unat (drop_bit 16 v AND 0x1f),
       rd = unat (drop_bit 11 v AND 0x1f),
       extra = Decode_extra (format opPtr) v\<rparr>)"

section \<open>Multiplication\<close>

text \<open>The main loop of \<^verbatim>\<open>Mult\<close>; \<open>n\<close> counts the iterations that are left.\<close>

fun Mult_loop :: "nat \<Rightarrow> 32 word \<Rightarrow> 32 word \<Rightarrow> 32 word \<Rightarrow> 32 word \<Rightarrow> 32 word \<Rightarrow> 32 word \<times> 32 word" where
  "Mult_loop 0 a bHi bLo hi lo = (hi, lo)"
| "Mult_loop (Suc n) a bHi bLo hi lo =
     (let lo' = (if a AND 1 \<noteq> 0 then lo + bLo else lo);
          hi' = (if a AND 1 \<noteq> 0 then (if lo' < bLo then hi + 1 else hi) + bHi else hi) in
      if a AND 1 \<noteq> 0 \<and> a AND 0xfffffffe = 0 then (hi', lo')
      else Mult_loop n (signed_drop_bit 1 a)
             (if bLo AND 0x80000000 \<noteq> 0 then push_bit 1 bHi OR 1 else push_bit 1 bHi) (push_bit 1 bLo) hi' lo')"

definition Mult :: "32 word \<Rightarrow> 32 word \<Rightarrow> bool \<Rightarrow> 32 word \<times> 32 word" where
  "Mult a b signedArith =
     (if a = 0 \<or> b = 0 then (0, 0)
      else
        let negative = (signedArith \<and> (a <s 0) \<noteq> (b <s 0));
            a = (if signedArith \<and> a <s 0 then - a else a);
            b = (if signedArith \<and> b <s 0 then - b else b);
            (hi, lo) = Mult_loop 32 a 0 b 0 0 in
        if negative then (if NOT lo + 1 = 0 then NOT hi + 1 else NOT hi, NOT lo + 1) else (hi, lo))"

section \<open>Execution\<close>

text \<open>
  A case of the switch of \<^verbatim>\<open>OneInstruction\<close> ends with \<^verbatim>\<open>break\<close>, giving \<^verbatim>\<open>nextLoadReg\<close>,
  \<^verbatim>\<open>nextLoadValue\<close> and \<^verbatim>\<open>pcAfter\<close>, or it returns (\<open>None\<close>).
\<close>

type_synonym 'm exec = "('m \<times> (32 word \<times> 32 word \<times> 32 word) option) result"

definition reg :: "'a Machine_scheme \<Rightarrow> nat \<Rightarrow> 32 word" where
  "reg m i = registers m ! i"

definition set_reg :: "nat \<Rightarrow> 32 word \<Rightarrow> 'a Machine_scheme \<Rightarrow> 'a Machine_scheme" where
  "set_reg i v m = m\<lparr>registers := (registers m)[i := v]\<rparr>"

definition fin :: "32 word \<Rightarrow> 'a Machine_scheme \<Rightarrow> 'a Machine_scheme exec" where
  "fin pcAfter m = Inr (m, Some (0, 0, pcAfter))"

definition trap :: "'a Machine_scheme Kernel \<Rightarrow> ExceptionType \<Rightarrow> 32 word \<Rightarrow> 'a Machine_scheme \<Rightarrow> 'a Machine_scheme exec" where
  "trap K which addr m = bindE (RaiseException K which addr m) (\<lambda>m. Inr (m, None))"

text \<open>\<^verbatim>\<open>if (!ReadMem(addr, sz, &value)) return;\<close> and the same for \<^verbatim>\<open>WriteMem\<close>.\<close>

definition reading :: "'a Machine_scheme Kernel \<Rightarrow> 32 word \<Rightarrow> int \<Rightarrow> 'a Machine_scheme \<Rightarrow>
    (32 word \<Rightarrow> 'a Machine_scheme \<Rightarrow> 'a Machine_scheme exec) \<Rightarrow> 'a Machine_scheme exec" where
  "reading K addr sz m k = bindE (ReadMem K m addr sz) (\<lambda>(m, r). case r of None \<Rightarrow> Inr (m, None) | Some v \<Rightarrow> k v m)"

definition writing :: "'a Machine_scheme Kernel \<Rightarrow> 32 word \<Rightarrow> int \<Rightarrow> 32 word \<Rightarrow> 32 word \<Rightarrow> 'a Machine_scheme \<Rightarrow> 'a Machine_scheme exec" where
  "writing K addr sz v pcAfter m = bindE (WriteMem K m addr sz v) (\<lambda>(m, r). if r then fin pcAfter m else Inr (m, None))"

text \<open>\<^verbatim>\<open>OP_ADD\<close> to \<^verbatim>\<open>OP_ANDI\<close>.\<close>

definition exec_add :: "'a Machine_scheme Kernel \<Rightarrow> Instruction \<Rightarrow> 32 word \<Rightarrow> 'a Machine_scheme \<Rightarrow> 'a Machine_scheme exec option" where
  "exec_add K i pcAfter m =
     (if opCode i = OP_ADD then Some (let sum = reg m (rs i) + reg m (rt i) in
          if (reg m (rs i) XOR reg m (rt i)) AND SIGN_BIT = 0 \<and> (reg m (rs i) XOR sum) AND SIGN_BIT \<noteq> 0
          then trap K OverflowException 0 m else fin pcAfter (set_reg (rd i) sum m))
      else if opCode i = OP_ADDI then Some (let sum = reg m (rs i) + extra i in
          if (reg m (rs i) XOR extra i) AND SIGN_BIT = 0 \<and> (extra i XOR sum) AND SIGN_BIT \<noteq> 0
          then trap K OverflowException 0 m else fin pcAfter (set_reg (rt i) sum m))
      else if opCode i = OP_ADDIU then Some (fin pcAfter (set_reg (rt i) (reg m (rs i) + extra i) m))
      else if opCode i = OP_ADDU then Some (fin pcAfter (set_reg (rd i) (reg m (rs i) + reg m (rt i)) m))
      else if opCode i = OP_AND then Some (fin pcAfter (set_reg (rd i) (reg m (rs i) AND reg m (rt i)) m))
      else if opCode i = OP_ANDI then Some (fin pcAfter (set_reg (rt i) (reg m (rs i) AND (extra i AND 0xffff)) m))
      else None)"

text \<open>\<^verbatim>\<open>OP_BEQ\<close> to \<^verbatim>\<open>OP_BNE\<close>.\<close>

definition exec_branch :: "'a Machine_scheme Kernel \<Rightarrow> Instruction \<Rightarrow> 32 word \<Rightarrow> 'a Machine_scheme \<Rightarrow> 'a Machine_scheme exec option" where
  "exec_branch K i pcAfter m =
     (let link = (\<lambda>m. set_reg R31 (reg m NextPCReg + 4) m);
          branch_if = (\<lambda>c m. fin (if c then reg m NextPCReg + IndexToAddr (extra i) else pcAfter) m);
          bgez = (\<lambda>m. branch_if (reg m (rs i) AND SIGN_BIT = 0) m);
          bltz = (\<lambda>m. branch_if (reg m (rs i) AND SIGN_BIT \<noteq> 0) m) in
      if opCode i = OP_BEQ then Some (branch_if (reg m (rs i) = reg m (rt i)) m)
      else if opCode i = OP_BGEZAL then Some (bgez (link m))
      else if opCode i = OP_BGEZ then Some (bgez m)
      else if opCode i = OP_BGTZ then Some (branch_if (0 <s reg m (rs i)) m)
      else if opCode i = OP_BLEZ then Some (branch_if (reg m (rs i) \<le>s 0) m)
      else if opCode i = OP_BLTZAL then Some (bltz (link m))
      else if opCode i = OP_BLTZ then Some (bltz m)
      else if opCode i = OP_BNE then Some (branch_if (reg m (rs i) \<noteq> reg m (rt i)) m)
      else None)"

text \<open>\<^verbatim>\<open>OP_DIV\<close> to \<^verbatim>\<open>OP_JR\<close>. \<^verbatim>\<open>/\<close> and \<^verbatim>\<open>%\<close> truncate.\<close>

definition exec_div :: "'a Machine_scheme Kernel \<Rightarrow> Instruction \<Rightarrow> 32 word \<Rightarrow> 'a Machine_scheme \<Rightarrow> 'a Machine_scheme exec option" where
  "exec_div K i pcAfter m =
     (let hilo = (\<lambda>h l. fin pcAfter (set_reg HiReg h (set_reg LoReg l m)));
          jump = (\<lambda>m. fin ((pcAfter AND 0xf0000000) OR IndexToAddr (extra i)) m);
          jr = (\<lambda>m. fin (reg m (rs i)) m) in
      if opCode i = OP_DIV then Some (let a = reg m (rs i); b = reg m (rt i) in
          if b = 0 then hilo 0 0
          else if a = SIGN_BIT \<and> b = - 1 then Inl BadAccess
          else hilo (word_of_int (c_mod (sint a) (sint b))) (word_of_int (c_div (sint a) (sint b))))
      else if opCode i = OP_DIVU then Some (let a = reg m (rs i); b = reg m (rt i) in
          if b = 0 then hilo 0 0 else hilo (a mod b) (a div b))
      else if opCode i = OP_JAL then Some (jump (set_reg R31 (reg m NextPCReg + 4) m))
      else if opCode i = OP_J then Some (jump m)
      else if opCode i = OP_JALR then Some (jr (set_reg (rd i) (reg m NextPCReg + 4) m))
      else if opCode i = OP_JR then Some (jr m)
      else None)"

text \<open>\<^verbatim>\<open>OP_LB\<close> to \<^verbatim>\<open>OP_LW\<close>.\<close>

definition exec_load :: "'a Machine_scheme Kernel \<Rightarrow> Instruction \<Rightarrow> 32 word \<Rightarrow> 'a Machine_scheme \<Rightarrow> 'a Machine_scheme exec option" where
  "exec_load K i pcAfter m =
     (let tmp = reg m (rs i) + extra i;
          load_byte = reading K tmp 1 m (\<lambda>v m.
            let v = (if v AND 0x80 \<noteq> 0 \<and> opCode i = OP_LB then v OR 0xffffff00 else v AND 0xff) in
            Inr (m, Some (of_nat (rt i), v, pcAfter)));
          load_half = (if tmp AND 1 \<noteq> 0 then trap K AddressErrorException tmp m
            else reading K tmp 2 m (\<lambda>v m.
              let v = (if v AND 0x8000 \<noteq> 0 \<and> opCode i = OP_LH then v OR 0xffff0000 else v AND 0xffff) in
              Inr (m, Some (of_nat (rt i), v, pcAfter)))) in
      if opCode i = OP_LB then Some load_byte
      else if opCode i = OP_LBU then Some load_byte
      else if opCode i = OP_LH then Some load_half
      else if opCode i = OP_LHU then Some load_half
      else if opCode i = OP_LUI then Some (fin pcAfter (set_reg (rt i) (push_bit 16 (extra i)) m))
      else if opCode i = OP_LW then Some (if tmp AND 3 \<noteq> 0 then trap K AddressErrorException tmp m
          else reading K tmp 4 m (\<lambda>v m. Inr (m, Some (of_nat (rt i), v, pcAfter))))
      else None)"

text \<open>\<^verbatim>\<open>OP_LWL\<close> and \<^verbatim>\<open>OP_LWR\<close>.\<close>

definition exec_load_part :: "'a Machine_scheme Kernel \<Rightarrow> Instruction \<Rightarrow> 32 word \<Rightarrow> 'a Machine_scheme \<Rightarrow> 'a Machine_scheme exec option" where
  "exec_load_part K i pcAfter m =
     (let tmp = reg m (rs i) + extra i;
          part = (\<lambda>merge. ASSERT (tmp AND 3 = 0) (reading K tmp 4 m (\<lambda>v m.
            let old = (if reg m LoadReg = of_nat (rt i) then reg m LoadValueReg else reg m (rt i)) in
            Inr (m, Some (of_nat (rt i), merge old v, pcAfter))))) in
      if opCode i = OP_LWL then Some (part (\<lambda>old v.
          if tmp AND 3 = 0 then v
          else if tmp AND 3 = 1 then (old AND 0xff) OR push_bit 8 v
          else if tmp AND 3 = 2 then (old AND 0xffff) OR push_bit 16 v
          else (old AND 0xffffff) OR push_bit 24 v))
      else if opCode i = OP_LWR then Some (part (\<lambda>old v.
          if tmp AND 3 = 0 then (old AND 0xffffff00) OR (signed_drop_bit 24 v AND 0xff)
          else if tmp AND 3 = 1 then (old AND 0xffff0000) OR (signed_drop_bit 16 v AND 0xffff)
          else if tmp AND 3 = 2 then (old AND 0xff000000) OR (signed_drop_bit 8 v AND 0xffffff)
          else v))
      else None)"

text \<open>\<^verbatim>\<open>OP_MFHI\<close> to \<^verbatim>\<open>OP_SH\<close>.\<close>

definition exec_move :: "'a Machine_scheme Kernel \<Rightarrow> Instruction \<Rightarrow> 32 word \<Rightarrow> 'a Machine_scheme \<Rightarrow> 'a Machine_scheme exec option" where
  "exec_move K i pcAfter m =
     (let mult = (\<lambda>s. let (h, l) = Mult (reg m (rs i)) (reg m (rt i)) s in
            fin pcAfter (set_reg LoReg l (set_reg HiReg h m))) in
      if opCode i = OP_MFHI then Some (fin pcAfter (set_reg (rd i) (reg m HiReg) m))
      else if opCode i = OP_MFLO then Some (fin pcAfter (set_reg (rd i) (reg m LoReg) m))
      else if opCode i = OP_MTHI then Some (fin pcAfter (set_reg HiReg (reg m (rs i)) m))
      else if opCode i = OP_MTLO then Some (fin pcAfter (set_reg LoReg (reg m (rs i)) m))
      else if opCode i = OP_MULT then Some (mult True)
      else if opCode i = OP_MULTU then Some (mult False)
      else if opCode i = OP_NOR then Some (fin pcAfter (set_reg (rd i) (NOT (reg m (rs i) OR reg m (rt i))) m))
      else if opCode i = OP_OR then Some (fin pcAfter (set_reg (rd i) (reg m (rs i) OR reg m (rs i)) m))
      else if opCode i = OP_ORI then Some (fin pcAfter (set_reg (rt i) (reg m (rs i) OR (extra i AND 0xffff)) m))
      else if opCode i = OP_SB then Some (writing K (reg m (rs i) + extra i) 1 (reg m (rt i)) pcAfter m)
      else if opCode i = OP_SH then Some (writing K (reg m (rs i) + extra i) 2 (reg m (rt i)) pcAfter m)
      else None)"

text \<open>\<^verbatim>\<open>OP_SLL\<close> to \<^verbatim>\<open>OP_SW\<close>.\<close>

definition exec_shift :: "'a Machine_scheme Kernel \<Rightarrow> Instruction \<Rightarrow> 32 word \<Rightarrow> 'a Machine_scheme \<Rightarrow> 'a Machine_scheme exec option" where
  "exec_shift K i pcAfter m =
     (let bit_of = (\<lambda>c. if c then 1 else 0); amount = unat (reg m (rs i) AND 0x1f) in
      if opCode i = OP_SLL then Some (fin pcAfter (set_reg (rd i) (push_bit (unat (extra i)) (reg m (rt i))) m))
      else if opCode i = OP_SLLV then Some (fin pcAfter (set_reg (rd i) (push_bit amount (reg m (rt i))) m))
      else if opCode i = OP_SLT then Some (fin pcAfter (set_reg (rd i) (bit_of (reg m (rs i) <s reg m (rt i))) m))
      else if opCode i = OP_SLTI then Some (fin pcAfter (set_reg (rt i) (bit_of (reg m (rs i) <s extra i)) m))
      else if opCode i = OP_SLTIU then Some (fin pcAfter (set_reg (rt i) (bit_of (reg m (rs i) < extra i)) m))
      else if opCode i = OP_SLTU then Some (fin pcAfter (set_reg (rd i) (bit_of (reg m (rs i) < reg m (rt i))) m))
      else if opCode i = OP_SRA then Some (fin pcAfter (set_reg (rd i) (signed_drop_bit (unat (extra i)) (reg m (rt i))) m))
      else if opCode i = OP_SRAV then Some (fin pcAfter (set_reg (rd i) (signed_drop_bit amount (reg m (rt i))) m))
      else if opCode i = OP_SRL then Some (fin pcAfter (set_reg (rd i) (signed_drop_bit (unat (extra i)) (reg m (rt i))) m))
      else if opCode i = OP_SRLV then Some (fin pcAfter (set_reg (rd i) (signed_drop_bit amount (reg m (rt i))) m))
      else if opCode i = OP_SUB then Some (let diff = reg m (rs i) - reg m (rt i) in
          if (reg m (rs i) XOR reg m (rt i)) AND SIGN_BIT \<noteq> 0 \<and> (reg m (rs i) XOR diff) AND SIGN_BIT \<noteq> 0
          then trap K OverflowException 0 m else fin pcAfter (set_reg (rd i) diff m))
      else if opCode i = OP_SUBU then Some (fin pcAfter (set_reg (rd i) (reg m (rs i) - reg m (rt i)) m))
      else if opCode i = OP_SW then Some (writing K (reg m (rs i) + extra i) 4 (reg m (rt i)) pcAfter m)
      else None)"

text \<open>\<^verbatim>\<open>OP_SWL\<close> to \<^verbatim>\<open>OP_UNIMP\<close>.\<close>

definition exec_store_part :: "'a Machine_scheme Kernel \<Rightarrow> Instruction \<Rightarrow> 32 word \<Rightarrow> 'a Machine_scheme \<Rightarrow> 'a Machine_scheme exec option" where
  "exec_store_part K i pcAfter m =
     (let tmp = reg m (rs i) + extra i;
          part = (\<lambda>merge. ASSERT (tmp AND 3 = 0) (reading K (tmp AND NOT 3) 4 m (\<lambda>v m.
            writing K (tmp AND NOT 3) 4 (merge v (reg m (rt i))) pcAfter m))) in
      if opCode i = OP_SWL then Some (part (\<lambda>v r.
          if tmp AND 3 = 0 then r
          else if tmp AND 3 = 1 then (v AND 0xff000000) OR (signed_drop_bit 8 r AND 0xffffff)
          else if tmp AND 3 = 2 then (v AND 0xffff0000) OR (signed_drop_bit 16 r AND 0xffff)
          else (v AND 0xffffff00) OR (signed_drop_bit 24 r AND 0xff)))
      else if opCode i = OP_SWR then Some (part (\<lambda>v r.
          if tmp AND 3 = 0 then (v AND 0xffffff) OR push_bit 24 r
          else if tmp AND 3 = 1 then (v AND 0xffff) OR push_bit 16 r
          else if tmp AND 3 = 2 then (v AND 0xff) OR push_bit 8 r
          else r))
      else if opCode i = OP_SYSCALL then Some (trap K SyscallException 0 m)
      else if opCode i = OP_XOR then Some (fin pcAfter (set_reg (rd i) (reg m (rs i) XOR reg m (rt i)) m))
      else if opCode i = OP_XORI then Some (fin pcAfter (set_reg (rt i) (reg m (rs i) XOR (extra i AND 0xffff)) m))
      else if opCode i = OP_RES then Some (trap K IllegalInstrException 0 m)
      else if opCode i = OP_UNIMP then Some (trap K IllegalInstrException 0 m)
      else None)"

text \<open>The switch: the groups of cases in the order of the code, and \<^verbatim>\<open>default\<close>.\<close>

fun first_case :: "'r option list \<Rightarrow> 'r \<Rightarrow> 'r" where
  "first_case [] dflt = dflt"
| "first_case (None # cs) dflt = first_case cs dflt"
| "first_case (Some r # cs) dflt = r"

definition execute :: "'a Machine_scheme Kernel \<Rightarrow> Instruction \<Rightarrow> 32 word \<Rightarrow> 'a Machine_scheme \<Rightarrow> 'a Machine_scheme exec" where
  "execute K i pcAfter m = first_case
     [exec_add K i pcAfter m, exec_branch K i pcAfter m, exec_div K i pcAfter m, exec_load K i pcAfter m,
      exec_load_part K i pcAfter m, exec_move K i pcAfter m, exec_shift K i pcAfter m, exec_store_part K i pcAfter m]
     (Inl AssertFailed)"

definition OneInstruction :: "'a Machine_scheme Kernel \<Rightarrow> 'a Machine_scheme \<Rightarrow> 'a Machine_scheme result" where
  "OneInstruction K m =
     bindE (ReadMem K m (reg m PCReg) 4) (\<lambda>(m, raw). case raw of None \<Rightarrow> Inr m | Some raw \<Rightarrow>
     bindE (execute K (Decode raw) (reg m NextPCReg + 4) m) (\<lambda>(m, r). case r of None \<Rightarrow> Inr m
     | Some (nextLoadReg, nextLoadValue, pcAfter) \<Rightarrow>
         bindE (DelayedLoad nextLoadReg nextLoadValue m) (\<lambda>m.
         OneTick K (set_reg NextPCReg pcAfter (set_reg PCReg (reg m NextPCReg) (set_reg PrevPCReg (reg m PCReg) m))))))"

text \<open>\<^verbatim>\<open>Run\<close> never returns; this is the state after \<open>n\<close> rounds of its loop, without single stepping.\<close>

fun Run_loop :: "'a Machine_scheme Kernel \<Rightarrow> nat \<Rightarrow> 'a Machine_scheme \<Rightarrow> 'a Machine_scheme result" where
  "Run_loop K 0 m = Inr m"
| "Run_loop K (Suc n) m = bindE (OneInstruction K m) (\<lambda>m. bindE (OneTick K m) (Run_loop K n))"

definition Run :: "'a Machine_scheme Kernel \<Rightarrow> nat \<Rightarrow> 'a Machine_scheme \<Rightarrow> 'a Machine_scheme result" where
  "Run K n m = Run_loop K n (m\<lparr>user_mode := True\<rparr>)"

section \<open>Words read as signed numbers\<close>

lemma sign_bit_iff: "(w :: 32 word) AND 0x80000000 \<noteq> 0 \<longleftrightarrow> sint w < 0"
  using and_exp_eq_0_iff_not_bit [of w 31] by (simp add: bit_last_iff [symmetric])

lemma sless_zero_iff: "(w :: 32 word) <s 0 \<longleftrightarrow> sint w < 0"
  by (simp add: word_sless_alt)

section \<open>Multiplication is exact\<close>

text \<open>The number a pair of registers stands for.\<close>

definition dword :: "32 word \<times> 32 word \<Rightarrow> int" where
  "dword p = uint (fst p) * 2 ^ 32 + uint (snd p)"

lemma dword_bounds: "0 \<le> dword p" "dword p < 2 ^ 64"
  using uint_lt2p [of "fst p"] uint_lt2p [of "snd p"] by (simp_all add: dword_def)

lemma int_double_mod: "(x mod 2 ^ 32) * 2 ^ 32 = (x * 2 ^ 32) mod (2 ^ 64 :: int)"
  using mult_mod_right [of "2 ^ 32 :: int" x "2 ^ 32"] by (simp add: mult.commute)

lemma dword_mod:
  assumes "uint h = x mod 2 ^ 32"
  shows "dword (h, l) = (x * 2 ^ 32 + uint l) mod 2 ^ 64"
proof -
  have "dword (h, l) = dword (h, l) mod 2 ^ 64" using dword_bounds [of "(h, l)"] by simp
  also have "\<dots> = ((x * 2 ^ 32) mod 2 ^ 64 + uint l) mod 2 ^ 64" using assms int_double_mod [of x] by (simp add: dword_def)
  finally show ?thesis by (simp add: mod_add_left_eq)
qed

text \<open>The carry test of the loop makes the addition exact.\<close>

lemma dword_add:
  "dword ((if l + bl < bl then h + 1 else h) + bh, l + bl) = (dword (h, l) + dword (bh, bl)) mod 2 ^ 64"
proof -
  define c :: int where "c = (if l + bl < bl then 1 else 0)"
  have b: "0 \<le> uint l" "uint l < 2 ^ 32" "0 \<le> uint bl" "uint bl < 2 ^ 32"
    using uint_lt2p [of l] uint_lt2p [of bl] by simp_all
  have l: "uint (l + bl) = uint l + uint bl - c * 2 ^ 32"
    using b by (auto simp: c_def uint_plus_if' word_less_alt split: if_splits)
  have "uint ((if l + bl < bl then h + 1 else h) + bh) = (uint h + c + uint bh) mod 2 ^ 32"
    by (simp add: c_def uint_word_ariths mod_simps)
  note h = dword_mod [OF this, of "l + bl"]
  have "(uint h + c + uint bh) * 2 ^ 32 + uint (l + bl) = dword (h, l) + dword (bh, bl)"
    unfolding l dword_def fst_conv snd_conv by (simp add: distrib_right)
  then show ?thesis unfolding h by (rule arg_cong)
qed

lemma dword_shift:
  "dword (if bl AND 0x80000000 \<noteq> 0 then push_bit 1 bh OR 1 else push_bit 1 bh, push_bit 1 bl) = (2 * dword (bh, bl)) mod 2 ^ 64"
proof -
  define c :: int where "c = (if bl AND 0x80000000 \<noteq> 0 then 1 else 0)"
  have b: "0 \<le> uint bl" "uint bl < 2 ^ 32" using uint_lt2p [of bl] by simp_all
  have c: "c = (if uint bl < 2 ^ 31 then 0 else 1)"
    using b by (simp add: c_def sign_bit_iff sint_cases)
  have l: "uint (push_bit 1 bl) = 2 * uint bl - c * 2 ^ 32"
  proof -
    have m: "uint (push_bit 1 bl) = (2 * uint bl) mod 2 ^ 32" by (simp add: uint_word_ariths mult.commute)
    show ?thesis
    proof (cases "uint bl < 2 ^ 31")
      case False
      have "(2 * uint bl) mod 2 ^ 32 = ((2 * uint bl - 2 ^ 32) + 2 ^ 32) mod 2 ^ 32" by simp
      also have "\<dots> = 2 * uint bl - 2 ^ 32"
        using False b by (simp only: mod_add_self2) (rule mod_pos_pos_trivial; simp)
      finally show ?thesis using m False by (simp add: c)
    qed (use b m in \<open>simp add: c\<close>)
  qed
  have "push_bit 1 bh OR 1 = push_bit 1 bh + (1 :: 32 word)"
    by (simp add: or_one_eq)
  then have "uint (if bl AND 0x80000000 \<noteq> 0 then push_bit 1 bh OR 1 else push_bit 1 bh) = (2 * uint bh + c) mod 2 ^ 32"
    by (simp add: c_def uint_word_ariths mod_simps mult.commute)
  note h = dword_mod [OF this, of "push_bit 1 bl"]
  have "(2 * uint bh + c) * 2 ^ 32 + uint (push_bit 1 bl) = 2 * dword (bh, bl)"
    unfolding l dword_def fst_conv snd_conv by (simp add: distrib_right)
  then show ?thesis unfolding h by (rule arg_cong)
qed

lemma dword_neg: "dword (if NOT l + 1 = 0 then NOT h + 1 else NOT h, NOT l + 1) = (- dword (h, l)) mod 2 ^ 64"
proof -
  define c :: int where "c = (if l = 0 then 1 else 0)"
  have e: "NOT l + 1 = - l" "NOT h + 1 = - h" "NOT h = - h - 1" by (simp_all add: not_eq_complement)
  have b: "0 \<le> uint l" "uint l < 2 ^ 32" using uint_lt2p [of l] by simp_all
  have l: "uint (NOT l + 1) = (1 - c) * 2 ^ 32 - uint l"
    unfolding e(1) using b by (auto simp: c_def uint_word_ariths zmod_zminus1_eq_if uint_0_iff)
  have "uint (if NOT l + 1 = 0 then NOT h + 1 else NOT h) = (- uint h - 1 + c) mod 2 ^ 32"
  proof (cases "l = 0")
    case True
    then show ?thesis unfolding e by (simp add: c_def uint_word_ariths)
  next
    case False
    then show ?thesis unfolding e(1,3) by (simp add: c_def uint_word_ariths mod_diff_left_eq)
  qed
  note h = dword_mod [OF this, of "NOT l + 1"]
  have "(- uint h - 1 + c) * 2 ^ 32 + uint (NOT l + 1) = - dword (h, l)"
    unfolding l dword_def fst_conv snd_conv by (simp add: left_diff_distrib distrib_right)
  then show ?thesis unfolding h by (rule arg_cong)
qed

lemma odd_only_one:
  assumes "a AND 1 \<noteq> 0" "a AND 0xfffffffe = (0 :: 32 word)"
  shows "a = 1"
proof -
  have "(0xfffffffe :: 32 word) = NOT 1" by (rule word_uint_eqI) simp
  with assms(2) have "a AND NOT 1 = 0" by (simp only: )
  then have "a AND 1 = a" by (metis and.right_neutral bit.conj_disj_distrib bit.disj_cancel_right or.right_neutral)
  then have "a mod 2 = a" by (simp add: and_one_eq)
  then show ?thesis using assms(1) by (cases "odd a") (simp_all add: mod_2_eq_odd and_one_eq)
qed

lemma low_bit: "(a :: 32 word) AND 1 \<noteq> 0 \<longleftrightarrow> odd (uint a)"
proof -
  have "odd a \<longleftrightarrow> odd (uint a)" unfolding bit_0 [symmetric] by (simp add: bit_uint_iff del: bit_0)
  then show ?thesis by (simp add: and_one_eq mod_2_eq_odd)
qed

lemma take_bit_shifted:
  assumes "n < 32"
  shows "uint (take_bit (Suc n) a) = 2 * uint (take_bit n (signed_drop_bit 1 a)) + of_bool (a AND 1 \<noteq> (0 :: 32 word))"
proof -
  have "take_bit n (signed_drop_bit 1 a) = take_bit n (drop_bit 1 a)"
    using assms by (intro bit_word_eqI) (auto simp: bit_simps)
  moreover have "take_bit 32 (uint a) = uint a" using uint_lt2p [of a] by (simp add: take_bit_int_eq_self_iff)
  ultimately have r: "uint (take_bit n (signed_drop_bit 1 a)) = take_bit n (uint a div 2)"
    by (simp only: unsigned_take_bit_eq) (simp add: unsigned_drop_bit_eq drop_bit_int_def)
  have "uint (take_bit (Suc n) a) = take_bit (Suc n) (uint a)" by (rule unsigned_take_bit_eq)
  also have "\<dots> = take_bit n (uint a div 2) * 2 + uint a mod 2" by (rule take_bit_Suc)
  finally show ?thesis unfolding r low_bit by (simp add: mod_2_eq_odd)
qed

lemma mod_add_mult_right: "(x + u * (y mod k)) mod k = (x + u * y) mod (k :: int)"
  by (metis mod_add_right_eq mod_mult_right_eq)

lemma Mult_loop_dword:
  "n \<le> 32 \<Longrightarrow> dword (Mult_loop n a bHi bLo hi lo) = (dword (hi, lo) + uint (take_bit n a) * dword (bHi, bLo)) mod 2 ^ 64"
proof (induction n arbitrary: a bHi bLo hi lo)
  case 0
  then show ?case using dword_bounds [of "(hi, lo)"] by simp
next
  case (Suc n)
  define lo' where "lo' = (if a AND 1 \<noteq> 0 then lo + bLo else lo)"
  define hi' where "hi' = (if a AND 1 \<noteq> 0 then (if lo' < bLo then hi + 1 else hi) + bHi else hi)"
  define odd_a :: int where "odd_a = of_bool (a AND 1 \<noteq> 0)"
  have acc: "dword (hi', lo') = (dword (hi, lo) + odd_a * dword (bHi, bLo)) mod 2 ^ 64"
    using dword_add [of lo bLo hi bHi] dword_bounds [of "(hi, lo)"] by (simp add: hi'_def lo'_def odd_a_def)
  show ?case
  proof (cases "a AND 1 \<noteq> 0 \<and> a AND 0xfffffffe = 0")
    case True
    then have "a = 1" by (intro odd_only_one) simp_all
    moreover have "Mult_loop (Suc n) a bHi bLo hi lo = (hi', lo')"
      using True unfolding Mult_loop.simps(2) Let_def lo'_def [symmetric] hi'_def [symmetric] by (simp only: simp_thms if_True)
    ultimately show ?thesis using acc by (simp add: odd_a_def)
  next
    case False
    let ?bh = "if bLo AND 0x80000000 \<noteq> 0 then push_bit 1 bHi OR 1 else push_bit 1 bHi"
    have "Mult_loop (Suc n) a bHi bLo hi lo = Mult_loop n (signed_drop_bit 1 a) ?bh (push_bit 1 bLo) hi' lo'"
      using False unfolding Mult_loop.simps(2) Let_def lo'_def [symmetric] hi'_def [symmetric] by (simp only: if_False)
    then have "dword (Mult_loop (Suc n) a bHi bLo hi lo) =
        (dword (hi', lo') + uint (take_bit n (signed_drop_bit 1 a)) * dword (?bh, push_bit 1 bLo)) mod 2 ^ 64"
      using Suc.IH [of "signed_drop_bit 1 a" ?bh "push_bit 1 bLo" hi' lo'] Suc.prems by simp
    also have "\<dots> = (dword (hi, lo) + odd_a * dword (bHi, bLo) + uint (take_bit n (signed_drop_bit 1 a)) * (2 * dword (bHi, bLo))) mod 2 ^ 64"
      unfolding acc dword_shift mod_add_left_eq by (rule mod_add_mult_right)
    also have "\<dots> = (dword (hi, lo) + uint (take_bit (Suc n) a) * dword (bHi, bLo)) mod 2 ^ 64"
      using take_bit_shifted [of n a] Suc.prems by (simp only: odd_a_def Suc_le_eq) (simp add: algebra_simps)
    finally show ?thesis .
  qed
qed

lemma dword_signed:
  assumes d: "dword (hi, lo) = x mod 2 ^ 64" and x: "- (2 ^ 63) \<le> x" "x < 2 ^ 63"
  shows "sint hi * 2 ^ 32 + uint lo = x"
proof -
  have b: "0 \<le> uint lo" "uint lo < 2 ^ 32" using uint_lt2p [of lo] by simp_all
  have n: "(2 :: int) ^ 31 = 2147483648" "(2 :: int) ^ 32 = 4294967296" "(2 :: int) ^ 63 = 9223372036854775808"
    "(2 :: int) ^ 64 = 18446744073709551616" by simp_all
  have s: "sint hi * 2 ^ 32 + uint lo = dword (hi, lo) - (if uint hi < 2 ^ 31 then 0 else 2 ^ 64)"
    by (simp add: sint_cases dword_def)
  show ?thesis
  proof (cases "0 \<le> x")
    case True
    then have "dword (hi, lo) = x" using d x by simp
    moreover from this have "uint hi < 2 ^ 31" using x b unfolding dword_def fst_conv snd_conv n by linarith
    ultimately show ?thesis using s by simp
  next
    case False
    have "x mod 2 ^ 64 = (x + 2 ^ 64) mod 2 ^ 64" by simp
    also have "\<dots> = x + 2 ^ 64" using False x by (intro mod_pos_pos_trivial) simp_all
    finally have "dword (hi, lo) = x + 2 ^ 64" using d by simp
    moreover from this have "\<not> uint hi < 2 ^ 31" using x b unfolding dword_def fst_conv snd_conv n by linarith
    ultimately show ?thesis using s by simp
  qed
qed

definition magnitude :: "32 word \<Rightarrow> 32 word" where
  "magnitude a = (if a <s 0 then - a else a)"

lemma uint_magnitude: "uint (magnitude a) = \<bar>sint a\<bar>"
proof (cases "sint a < 0")
  case True
  then have "uint a \<ge> 2 ^ 31" "uint a < 2 ^ 32" "sint a = uint a - 2 ^ 32"
    using uint_lt2p [of a] by (auto simp: sint_cases split: if_splits)
  moreover from this have "uint (- a) = 2 ^ 32 - uint a"
    by (simp add: uint_word_ariths zmod_zminus1_eq_if)
  ultimately show ?thesis using True by (simp add: magnitude_def sless_zero_iff)
next
  case False
  then have "sint a = uint a" using uint_lt2p [of a] by (auto simp: sint_cases split: if_splits)
  then show ?thesis using False by (simp add: magnitude_def sless_zero_iff)
qed

lemma sint_abs_le: "\<bar>sint (a :: 32 word)\<bar> \<le> 2 ^ 31"
  using uint_lt2p [of a] by (simp add: sint_cases)

lemma Mult_loop_product: "dword (Mult_loop 32 a 0 b 0 0) = uint a * uint b"
proof -
  have "0 \<le> uint a * uint b" "uint a * uint b < 2 ^ 32 * 2 ^ 32"
    using uint_lt2p [of a] uint_lt2p [of b] by (simp, intro mult_strict_mono) simp_all
  then show ?thesis by (simp add: Mult_loop_dword take_bit_word_eq_self) (simp add: dword_def)
qed

lemma Mult_unsigned: "dword (Mult a b False) = uint a * uint b"
  using Mult_loop_product [of a b] by (auto simp: Mult_def Let_def dword_def split: prod.splits)

lemma Mult_signed: "dword (Mult a b True) = (sint a * sint b) mod 2 ^ 64"
proof (cases "a = 0 \<or> b = 0")
  case True
  then show ?thesis by (auto simp: Mult_def dword_def)
next
  case False
  obtain hi lo where l: "Mult_loop 32 (magnitude a) 0 (magnitude b) 0 0 = (hi, lo)" by fastforce
  have p: "dword (hi, lo) = \<bar>sint a\<bar> * \<bar>sint b\<bar>"
    using Mult_loop_product [of "magnitude a" "magnitude b"] l by (simp add: uint_magnitude)
  have m: "Mult a b True = (if (sint a < 0) \<noteq> (sint b < 0)
      then (if NOT lo + 1 = 0 then NOT hi + 1 else NOT hi, NOT lo + 1) else (hi, lo))"
    using False l by (simp add: Mult_def Let_def magnitude_def sless_zero_iff)
  show ?thesis
  proof (cases "(sint a < 0) \<noteq> (sint b < 0)")
    case True
    then have "- (\<bar>sint a\<bar> * \<bar>sint b\<bar>) = sint a * sint b" by (auto simp: abs_if)
    then show ?thesis using True m dword_neg [of lo hi] p by simp
  next
    case F: False
    then have "\<bar>sint a\<bar> * \<bar>sint b\<bar> = sint a * sint b" by (auto simp: abs_if)
    then show ?thesis using F m p dword_bounds [of "(hi, lo)"] by simp
  qed
qed

text \<open>
  C21. \<^verbatim>\<open>Mult\<close> gives the exact double-length product: read as an unsigned number for unsigned operands,
  and as a two's complement number for signed operands, for all operands, \<^verbatim>\<open>INT_MIN\<close> included.
\<close>

theorem Mult_exact:
  "(case Mult a b False of (hi, lo) \<Rightarrow> uint hi * 2 ^ 32 + uint lo) = uint a * uint b \<and>
   (case Mult a b True of (hi, lo) \<Rightarrow> sint hi * 2 ^ 32 + uint lo) = sint a * sint b"
proof
  show "(case Mult a b False of (hi, lo) \<Rightarrow> uint hi * 2 ^ 32 + uint lo) = uint a * uint b"
    using Mult_unsigned [of a b] by (cases "Mult a b False") (simp add: dword_def)
  obtain hi lo where m: "Mult a b True = (hi, lo)" by fastforce
  have "\<bar>sint a * sint b\<bar> \<le> 2 ^ 31 * 2 ^ 31"
    unfolding abs_mult by (intro mult_mono sint_abs_le) simp_all
  then show "(case Mult a b True of (hi, lo) \<Rightarrow> sint hi * 2 ^ 32 + uint lo) = sint a * sint b"
    using dword_signed [of hi lo "sint a * sint b"] Mult_signed [of a b] m by simp
qed

section \<open>Arithmetic\<close>

lemma same_sign: "(x XOR y) AND 0x80000000 = 0 \<longleftrightarrow> ((sint x < 0) = (sint (y :: 32 word) < 0))"
proof -
  have "(x XOR y) AND 0x80000000 = 0 \<longleftrightarrow> bit x 31 = bit y 31"
    using and_exp_eq_0_iff_not_bit [of "x XOR y" 31] by (simp add: bit_simps)
  then show ?thesis by (simp add: bit_last_iff [symmetric])
qed

lemma sint_range: "- (2 ^ 31) \<le> sint (x :: 32 word)" "sint (x :: 32 word) < 2 ^ 31"
  using sint_ge [of x] sint_lt [of x] by simp_all

lemma sint_word_of_int_cases:
  assumes "- (2 ^ 32) \<le> z" "z < 2 ^ 32"
  shows "sint (word_of_int z :: 32 word) = (if z < - (2 ^ 31) then z + 2 ^ 32 else if z < 2 ^ 31 then z else z - 2 ^ 32)"
proof -
  have u: "uint (word_of_int z :: 32 word) = (if z < 0 then z + 2 ^ 32 else z)"
  proof (cases "z < 0")
    case True
    have "z mod 2 ^ 32 = (z + 2 ^ 32) mod 2 ^ 32" by simp
    also have "\<dots> = z + 2 ^ 32" using assms True by (intro mod_pos_pos_trivial) simp_all
    finally show ?thesis using True by (simp add: uint_word_of_int)
  qed (use assms in \<open>simp add: uint_word_of_int\<close>)
  show ?thesis unfolding sint_cases u by auto
qed

text \<open>The result an addition or subtraction of signed registers should have.\<close>

definition signed_result :: "'a Machine_scheme Kernel \<Rightarrow> nat \<Rightarrow> int \<Rightarrow> 32 word \<Rightarrow> 'a Machine_scheme \<Rightarrow> 'a Machine_scheme exec" where
  "signed_result K d z pcAfter m =
     (if in_int32 z then fin pcAfter (set_reg d (word_of_int z) m) else trap K OverflowException 0 m)"

lemma add_overflow_test:
  "((x XOR y) AND 0x80000000 = 0 \<and> (x XOR (x + y)) AND 0x80000000 \<noteq> 0) \<longleftrightarrow> \<not> in_int32 (sint x + sint (y :: 32 word))"
proof -
  note b = sint_range [of x] sint_range [of y]
  have "x + y = word_of_int (sint x + sint y)" by simp
  then have "sint (x + y) = (if sint x + sint y < - (2 ^ 31) then sint x + sint y + 2 ^ 32
      else if sint x + sint y < 2 ^ 31 then sint x + sint y else sint x + sint y - 2 ^ 32)"
    using sint_word_of_int_cases [of "sint x + sint y"] b by simp
  then show ?thesis unfolding same_sign in_int32_def using b by (auto split: if_splits)
qed

lemma sub_overflow_test:
  "((x XOR y) AND 0x80000000 \<noteq> 0 \<and> (x XOR (x - y)) AND 0x80000000 \<noteq> 0) \<longleftrightarrow> \<not> in_int32 (sint x - sint (y :: 32 word))"
proof -
  note b = sint_range [of x] sint_range [of y]
  have "x - y = word_of_int (sint x - sint y)" by simp
  then have "sint (x - y) = (if sint x - sint y < - (2 ^ 31) then sint x - sint y + 2 ^ 32
      else if sint x - sint y < 2 ^ 31 then sint x - sint y else sint x - sint y - 2 ^ 32)"
    using sint_word_of_int_cases [of "sint x - sint y"] b by simp
  then show ?thesis unfolding same_sign in_int32_def using b by (auto split: if_splits)
qed

lemmas exec_defs = execute_def exec_add_def exec_branch_def exec_div_def exec_load_def exec_load_part_def
  exec_move_def exec_shift_def exec_store_part_def Let_def

text \<open>
  C23. The tests on sign bits decide overflow exactly: \<^verbatim>\<open>ADD\<close>, \<^verbatim>\<open>ADDI\<close> and \<^verbatim>\<open>SUB\<close> store the sum or
  difference of the signed values when it fits in 32 bits, and otherwise raise the overflow exception
  and leave the target register alone.
\<close>

theorem overflow_exact:
  "execute K (i\<lparr>opCode := OP_ADD\<rparr>) pcAfter m = signed_result K (rd i) (sint (reg m (rs i)) + sint (reg m (rt i))) pcAfter m \<and>
   execute K (i\<lparr>opCode := OP_ADDI\<rparr>) pcAfter m = signed_result K (rt i) (sint (reg m (rs i)) + sint (extra i)) pcAfter m \<and>
   execute K (i\<lparr>opCode := OP_SUB\<rparr>) pcAfter m = signed_result K (rd i) (sint (reg m (rs i)) - sint (reg m (rt i))) pcAfter m"
proof (intro conjI)
  have c: "((x XOR y) AND 0x80000000 = 0 \<and> (y XOR (x + y)) AND 0x80000000 \<noteq> 0) \<longleftrightarrow> \<not> in_int32 (sint x + sint y)" for x y :: "32 word"
    using add_overflow_test [of y x] by (simp add: xor.commute add.commute)
  show "execute K (i\<lparr>opCode := OP_ADD\<rparr>) pcAfter m = signed_result K (rd i) (sint (reg m (rs i)) + sint (reg m (rt i))) pcAfter m"
    using add_overflow_test [of "reg m (rs i)" "reg m (rt i)"] by (auto simp: exec_defs signed_result_def)
  show "execute K (i\<lparr>opCode := OP_ADDI\<rparr>) pcAfter m = signed_result K (rt i) (sint (reg m (rs i)) + sint (extra i)) pcAfter m"
    using c [of "reg m (rs i)" "extra i"] by (auto simp: exec_defs signed_result_def)
  show "execute K (i\<lparr>opCode := OP_SUB\<rparr>) pcAfter m = signed_result K (rd i) (sint (reg m (rs i)) - sint (reg m (rt i))) pcAfter m"
    using sub_overflow_test [of "reg m (rs i)" "reg m (rt i)"] by (auto simp: exec_defs signed_result_def)
qed

text \<open>An arithmetic shift divides the signed value; it is a logical one only of a non-negative register or by nothing.\<close>

lemma sint_signed_shift: "sint (signed_drop_bit n (w :: 32 word)) = sint w div 2 ^ n"
  by (simp add: sint_signed_drop_bit_eq drop_bit_eq_div)

lemma signed_shift_logical: "uint (signed_drop_bit n (w :: 32 word)) = uint w div 2 ^ n \<longleftrightarrow> 0 \<le> sint w \<or> n = 0"
proof (cases "0 \<le> sint w")
  case True
  then have "\<not> bit w 31" using bit_last_iff [of w] by simp
  then have "signed_drop_bit n w = drop_bit n w"
    by (intro bit_word_eqI) (auto simp: bit_simps min_def dest: bit_imp_le_length)
  moreover have "uint (drop_bit n w) = uint w div 2 ^ n" unfolding drop_bit_eq_div [symmetric]
    using uint_lt2p [of w] by (simp add: unsigned_drop_bit_eq take_bit_int_eq_self)
  ultimately show ?thesis using True by simp
next
  case neg: False
  show ?thesis
  proof (cases "n = 0")
    case False
    have "sint (signed_drop_bit n w) < 0" unfolding sint_signed_shift using neg by (simp add: div_neg_pos_less0)
    then have "\<not> unat (signed_drop_bit n w) < 2 ^ 31" using sint_small [of "signed_drop_bit n w"] by auto
    then have "int (2 ^ 31) \<le> int (unat (signed_drop_bit n w))" by (simp only: of_nat_le_iff not_less)
    then have "uint (signed_drop_bit n w) \<ge> 2 ^ 31" by simp
    moreover have "uint w div 2 ^ n \<le> uint w div 2 ^ 1" using False by (intro zdiv_mono2) (auto simp: self_le_power)
    moreover have "uint w div 2 ^ 1 < 2 ^ 31" using uint_lt2p [of w] by simp
    ultimately show ?thesis using neg False by simp
  qed simp
qed

text \<open>
  C24. \<^verbatim>\<open>OR\<close> copies its first operand, whatever the second is. All four right shifts divide the signed value of the register by the power
  of two, rounding down, which is right for \<^verbatim>\<open>SRA\<close> and \<^verbatim>\<open>SRAV\<close>; so \<^verbatim>\<open>SRL\<close> and \<^verbatim>\<open>SRLV\<close>, which should divide the unsigned value,
  are right just for non-negative registers and the shift by 0.
\<close>

theorem OR_SRL_wrong:
  "execute K (i\<lparr>opCode := OP_OR\<rparr>) pcAfter m = fin pcAfter (set_reg (rd i) (reg m (rs i)) m) \<and>
   (\<exists>w. execute K (i\<lparr>opCode := OP_SRA\<rparr>) pcAfter m = fin pcAfter (set_reg (rd i) w m) \<and>
     sint w = sint (reg m (rt i)) div 2 ^ unat (extra i)) \<and>
   (\<exists>w. execute K (i\<lparr>opCode := OP_SRAV\<rparr>) pcAfter m = fin pcAfter (set_reg (rd i) w m) \<and>
     sint w = sint (reg m (rt i)) div 2 ^ unat (reg m (rs i) AND 0x1f)) \<and>
   (\<exists>w. execute K (i\<lparr>opCode := OP_SRL\<rparr>) pcAfter m = fin pcAfter (set_reg (rd i) w m) \<and>
     sint w = sint (reg m (rt i)) div 2 ^ unat (extra i) \<and>
     (uint w = uint (reg m (rt i)) div 2 ^ unat (extra i)) = (0 \<le> sint (reg m (rt i)) \<or> extra i = 0)) \<and>
   (\<exists>w. execute K (i\<lparr>opCode := OP_SRLV\<rparr>) pcAfter m = fin pcAfter (set_reg (rd i) w m) \<and>
     sint w = sint (reg m (rt i)) div 2 ^ unat (reg m (rs i) AND 0x1f) \<and>
     (uint w = uint (reg m (rt i)) div 2 ^ unat (reg m (rs i) AND 0x1f)) = (0 \<le> sint (reg m (rt i)) \<or> reg m (rs i) AND 0x1f = 0))"
proof (intro conjI)
  show "execute K (i\<lparr>opCode := OP_OR\<rparr>) pcAfter m = fin pcAfter (set_reg (rd i) (reg m (rs i)) m)" by (simp add: exec_defs)
  have z: "unat (x :: 32 word) = 0 \<longleftrightarrow> x = 0" for x by (simp add: unat_eq_0)
  note sh = sint_signed_shift signed_shift_logical z
  show "\<exists>w. execute K (i\<lparr>opCode := OP_SRA\<rparr>) pcAfter m = fin pcAfter (set_reg (rd i) w m) \<and>
     sint w = sint (reg m (rt i)) div 2 ^ unat (extra i)"
    by (rule exI [of _ "signed_drop_bit (unat (extra i)) (reg m (rt i))"]) (simp add: exec_defs sh)
  show "\<exists>w. execute K (i\<lparr>opCode := OP_SRAV\<rparr>) pcAfter m = fin pcAfter (set_reg (rd i) w m) \<and>
     sint w = sint (reg m (rt i)) div 2 ^ unat (reg m (rs i) AND 0x1f)"
    by (rule exI [of _ "signed_drop_bit (unat (reg m (rs i) AND 0x1f)) (reg m (rt i))"]) (simp add: exec_defs sh)
  show "\<exists>w. execute K (i\<lparr>opCode := OP_SRL\<rparr>) pcAfter m = fin pcAfter (set_reg (rd i) w m) \<and>
     sint w = sint (reg m (rt i)) div 2 ^ unat (extra i) \<and>
     (uint w = uint (reg m (rt i)) div 2 ^ unat (extra i)) = (0 \<le> sint (reg m (rt i)) \<or> extra i = 0)"
    by (rule exI [of _ "signed_drop_bit (unat (extra i)) (reg m (rt i))"]) (simp add: exec_defs sh)
  show "\<exists>w. execute K (i\<lparr>opCode := OP_SRLV\<rparr>) pcAfter m = fin pcAfter (set_reg (rd i) w m) \<and>
     sint w = sint (reg m (rt i)) div 2 ^ unat (reg m (rs i) AND 0x1f) \<and>
     (uint w = uint (reg m (rt i)) div 2 ^ unat (reg m (rs i) AND 0x1f)) = (0 \<le> sint (reg m (rt i)) \<or> reg m (rs i) AND 0x1f = 0)"
    by (rule exI [of _ "signed_drop_bit (unat (reg m (rs i) AND 0x1f)) (reg m (rt i))"]) (simp add: exec_defs sh)
qed

section \<open>Decoding what an assembler encodes\<close>

definition enc_R :: "5 word \<Rightarrow> 5 word \<Rightarrow> 5 word \<Rightarrow> 5 word \<Rightarrow> 6 word \<Rightarrow> 32 word" where
  "enc_R s t d shamt funct = push_bit 21 (ucast s) OR (push_bit 16 (ucast t) OR (push_bit 11 (ucast d) OR
     (push_bit 6 (ucast shamt) OR ucast funct)))"

definition enc_I :: "6 word \<Rightarrow> 5 word \<Rightarrow> 5 word \<Rightarrow> 16 word \<Rightarrow> 32 word" where
  "enc_I opc s t imm = push_bit 26 (ucast opc) OR (push_bit 21 (ucast s) OR (push_bit 16 (ucast t) OR ucast imm))"

definition enc_J :: "6 word \<Rightarrow> 26 word \<Rightarrow> 32 word" where
  "enc_J opc target = push_bit 26 (ucast opc) OR ucast target"

lemma field5: "unat (drop_bit n (v :: 32 word) AND 0x1f) = unat (ucast (drop_bit n v) :: 5 word)"
proof -
  have "drop_bit n v AND 0x1f = take_bit 5 (drop_bit n v)" by (simp add: take_bit_eq_mask mask_eq_exp_minus_1)
  then show ?thesis by (simp add: unsigned_ucast_eq unsigned_take_bit_eq)
qed

lemma field5_word: "(w :: 32 word) AND 0x1f = ucast (ucast w :: 5 word)"
proof -
  have "w AND 0x1f = take_bit 5 w" by (simp add: take_bit_eq_mask mask_eq_exp_minus_1)
  also have "\<dots> = ucast (ucast w :: 5 word)" by (rule bit_word_eqI) (auto simp: bit_simps)
  finally show ?thesis .
qed

lemma field6: "unat (drop_bit n (v :: 32 word) AND 0x3f) = unat (ucast (drop_bit n v) :: 6 word)"
proof -
  have "drop_bit n v AND 0x3f = take_bit 6 (drop_bit n v)" by (simp add: take_bit_eq_mask mask_eq_exp_minus_1)
  then show ?thesis by (simp add: unsigned_ucast_eq unsigned_take_bit_eq)
qed

lemma opTable_pairs:
  "list_all (\<lambda>c. (oi_opCode c = SPECIAL \<longrightarrow> format c = RFMT) \<and> (oi_opCode c = BCOND \<longrightarrow> format c = IFMT)) opTable"
  "length opTable = 64"
  by (simp_all add: opTable_def)

lemma opTable_special: "oi_opCode (opTable ! unat (opc :: 6 word)) = SPECIAL \<Longrightarrow> format (opTable ! unat opc) = RFMT"
  using opTable_pairs unsigned_less [of opc, where 'a = nat] by (simp add: list_all_length)

lemma opTable_bcond: "oi_opCode (opTable ! unat (opc :: 6 word)) = BCOND \<Longrightarrow> format (opTable ! unat opc) = IFMT"
  using opTable_pairs unsigned_less [of opc, where 'a = nat] by (simp add: list_all_length)

lemma sign_extend:
  "(let e = (v :: 32 word) AND 0xffff in if e AND 0x8000 \<noteq> 0 then e OR 0xffff0000 else e) = scast (ucast v :: 16 word)"
proof -
  have m: "v AND 0xffff = take_bit 16 v" by (simp add: take_bit_eq_mask mask_eq_exp_minus_1)
  have t: "take_bit 16 v AND 0x8000 \<noteq> 0 \<longleftrightarrow> bit v 15"
    using and_exp_eq_0_iff_not_bit [of "take_bit 16 v" 15] by (simp add: bit_simps)
  have h: "(0xffff0000 :: 32 word) = NOT (mask 16)" by (rule word_uint_eqI) (simp add: mask_eq_exp_minus_1)
  have q: "15 \<le> n \<Longrightarrow> n < 16 \<Longrightarrow> n = 15" for n :: nat by simp
  show ?thesis unfolding Let_def m t h
    by (cases "bit v 15"; rule bit_word_eqI) (auto simp: bit_simps min_def dest: q)
qed

text \<open>The branches that compare with zero share one opcode; the field of the second register tells them apart.\<close>

definition bcond_op :: "5 word \<Rightarrow> nat" where
  "bcond_op t = (if t = 0x00 then OP_BLTZ else if t = 0x01 then OP_BGEZ else if t = 0x10 then OP_BLTZAL else if t = 0x11 then OP_BGEZAL
     else OP_UNIMP)"

lemma bcond_field: "((v :: 32 word) AND 0x1f0000 = push_bit 16 (ucast (u :: 5 word))) = (ucast (drop_bit 16 v) = u)"
proof
  have m: "(0x1f0000 :: 32 word) = push_bit 16 (mask 5)" by (simp add: mask_eq_exp_minus_1)
  show "ucast (drop_bit 16 v) = u" if "v AND 0x1f0000 = push_bit 16 (ucast u)"
  proof (rule bit_word_eqI)
    fix n assume "n < LENGTH(5)"
    moreover have "bit (v AND 0x1f0000) (16 + n) = bit (push_bit 16 (ucast u :: 32 word)) (16 + n)" using that by simp
    ultimately show "bit (ucast (drop_bit 16 v) :: 5 word) n = bit u n" unfolding m by (auto simp: bit_simps)
  qed
  show "v AND 0x1f0000 = push_bit 16 (ucast u)" if "ucast (drop_bit 16 v) = u"
    unfolding that [symmetric] m by (rule bit_word_eqI) (auto simp: bit_simps)
qed

lemma Decode_bcond_op: "Decode_bcond v = bcond_op (ucast (drop_bit 16 v))"
  using bcond_field [of v 0] bcond_field [of v 1] bcond_field [of v "0x10"] bcond_field [of v "0x11"]
  by (simp add: Decode_bcond_def bcond_op_def Let_def)

text \<open>
  C22. \<^verbatim>\<open>Decode\<close> recovers the fields an assembler put into an instruction word: the three registers, the
  shift amount and the function code of the register format, the registers and the sign-extended immediate of the
  immediate format, with the kind of branch for the opcode that compares with zero, and the target of a jump.
\<close>

theorem Decode_encode:
  "(let i = Decode (enc_R s t d shamt funct) in
      opCode i = specialTable ! unat funct \<and> rs i = unat s \<and> rt i = unat t \<and> rd i = unat d \<and> extra i = ucast shamt) \<and>
   (let i = Decode (enc_I opc s t imm); c = opTable ! unat opc in
      format c = IFMT \<longrightarrow>
      opCode i = (if oi_opCode c = BCOND then bcond_op t else oi_opCode c) \<and> rs i = unat s \<and> rt i = unat t \<and> extra i = scast imm) \<and>
   (let i = Decode (enc_J opc target); c = opTable ! unat opc in
      format c = JFMT \<longrightarrow> opCode i = oi_opCode c \<and> extra i = ucast target)"
proof -
  have R: "ucast (drop_bit 21 (enc_R s t d shamt funct)) = s" "ucast (drop_bit 16 (enc_R s t d shamt funct)) = t"
    "ucast (drop_bit 11 (enc_R s t d shamt funct)) = d" "ucast (drop_bit 26 (enc_R s t d shamt funct)) = (0 :: 6 word)"
    "ucast (enc_R s t d shamt funct) = funct" "ucast (drop_bit 6 (enc_R s t d shamt funct)) = shamt"
    by (rule bit_word_eqI; auto simp: enc_R_def bit_simps dest: bit_imp_le_length)+
  have I: "ucast (drop_bit 21 (enc_I opc s t imm)) = s" "ucast (drop_bit 16 (enc_I opc s t imm)) = t"
    "ucast (drop_bit 26 (enc_I opc s t imm)) = opc" "ucast (enc_I opc s t imm) = imm"
    by (rule bit_word_eqI; auto simp: enc_I_def bit_simps dest: bit_imp_le_length)+
  have J: "ucast (drop_bit 26 (enc_J opc target)) = opc" "enc_J opc target AND 0x3ffffff = ucast target"
    subgoal by (rule bit_word_eqI; auto simp: enc_J_def bit_simps dest: bit_imp_le_length)
    subgoal
    proof -
      have "enc_J opc target AND 0x3ffffff = take_bit 26 (enc_J opc target)"
        by (simp add: take_bit_eq_mask mask_eq_exp_minus_1)
      also have "\<dots> = ucast target"
        by (rule bit_word_eqI) (auto simp: enc_J_def bit_simps dest: bit_imp_le_length)
      finally show ?thesis .
    qed
    done
  have op0: "opTable ! 0 = \<lparr>oi_opCode = SPECIAL, format = RFMT\<rparr>" by (simp add: opTable_def)
  have spec: "oi_opCode (opTable ! unat opc) = SPECIAL \<Longrightarrow> format (opTable ! unat opc) = RFMT"
    using opTable_special [of opc] by simp
  have "let i = Decode (enc_R s t d shamt funct) in
      opCode i = specialTable ! unat funct \<and> rs i = unat s \<and> rt i = unat t \<and> rd i = unat d \<and> extra i = ucast shamt"
    using field6 [of 0 "enc_R s t d shamt funct"] field5_word [of "drop_bit 6 (enc_R s t d shamt funct)"]
    by (simp add: Decode_def Let_def field5 field6 R op0 Decode_extra_def)
  moreover have "let i = Decode (enc_I opc s t imm); c = opTable ! unat opc in
      format c = IFMT \<longrightarrow>
      opCode i = (if oi_opCode c = BCOND then bcond_op t else oi_opCode c) \<and> rs i = unat s \<and> rt i = unat t \<and> extra i = scast imm"
    using sign_extend [of "enc_I opc s t imm"] spec
    by (auto simp: Decode_def Let_def field5 field6 I Decode_bcond_op Decode_extra_def)
  moreover have "let i = Decode (enc_J opc target); c = opTable ! unat opc in
      format c = JFMT \<longrightarrow> opCode i = oi_opCode c \<and> extra i = ucast target"
    using spec opTable_bcond [of opc] by (auto simp: Decode_def Let_def field6 J Decode_extra_def)
  ultimately show ?thesis by blast
qed

theorem Decode_encode_witness:
  "Decode (enc_R 1 2 3 0 32) = \<lparr>i_value = 0x00221820, opCode = OP_ADD, rs = 1, rt = 2, rd = 3, extra = 0\<rparr> \<and>
   extra (Decode (enc_I 8 1 2 0xfffe)) = - 2 \<and> extra (Decode (enc_J 2 5)) = 5 \<and> opCode (Decode (enc_I 1 4 17 8)) = OP_BGEZAL"
proof -
  have "opCode (Decode (enc_R 1 2 3 0 32)) = OP_ADD \<and> rs (Decode (enc_R 1 2 3 0 32)) = 1 \<and> rt (Decode (enc_R 1 2 3 0 32)) = 2 \<and>
      rd (Decode (enc_R 1 2 3 0 32)) = 3 \<and> extra (Decode (enc_R 1 2 3 0 32)) = 0 \<and> i_value (Decode (enc_R 1 2 3 0 32)) = 0x00221820"
    using Decode_encode [of 1 2 3 0 32] by (simp add: Let_def specialTable_def) (simp add: Decode_def Let_def enc_R_def)
  moreover have "extra (Decode (enc_I 8 1 2 0xfffe)) = - 2" using Decode_encode [of _ _ _ _ _ 8 "0xfffe"] by (simp add: Let_def opTable_def)
  moreover have "extra (Decode (enc_J 2 5)) = 5" using Decode_encode [of _ _ _ _ _ 2 _ 5] by (simp add: Let_def opTable_def)
  moreover have "opCode (Decode (enc_I 1 4 17 8)) = OP_BGEZAL" using Decode_encode [of _ 17 _ _ _ 1 8] by (simp add: Let_def opTable_def bcond_op_def)
  ultimately show ?thesis by simp
qed

end
