(* ===== verification/Host_Stub.thy ===== *)
theory Host_Stub
  imports Nachos_Prelude
begin

text \<open>
  The host interface of \<^verbatim>\<open>code/machine/sysdep.cc\<close> and the file system of the \<^verbatim>\<open>FILESYS_STUB\<close> build,
  the classes in \<^verbatim>\<open>code/filesys/openfile.h\<close> and \<^verbatim>\<open>filesys.h\<close> that pass files on to the host. The
  system calls of the host are not part of the program: they are the fields of the parameter \<open>P\<close>,
  functions on a state of the host.
\<close>

section \<open>System calls of the host\<close>

text \<open>
  \<open>h_open name create\<close> is \<^verbatim>\<open>open\<close>, with creation and truncation or without; \<open>h_read\<close> gives the result
  and the bytes stored in the buffer.
\<close>

record 'h Posix =
  h_open :: "byte list \<Rightarrow> bool \<Rightarrow> 'h \<Rightarrow> 'h \<times> int"
  h_read :: "int \<Rightarrow> int \<Rightarrow> 'h \<Rightarrow> 'h \<times> int \<times> byte list"
  h_write :: "int \<Rightarrow> byte list \<Rightarrow> 'h \<Rightarrow> 'h \<times> int"
  h_lseek :: "int \<Rightarrow> int \<Rightarrow> int \<Rightarrow> 'h \<Rightarrow> 'h \<times> int"
  h_close :: "int \<Rightarrow> 'h \<Rightarrow> 'h \<times> int"
  h_unlink :: "byte list \<Rightarrow> 'h \<Rightarrow> 'h \<times> int"
  h_select :: "int \<Rightarrow> 'h \<Rightarrow> 'h \<times> int"
  h_mkdir :: "byte list \<Rightarrow> 'h \<Rightarrow> 'h"
  h_rmdir :: "byte list \<Rightarrow> 'h \<Rightarrow> 'h"
  h_chdir :: "byte list \<Rightarrow> 'h \<Rightarrow> 'h"
  h_system :: "string \<Rightarrow> 'h \<Rightarrow> 'h"
  h_putchar :: "byte \<Rightarrow> 'h \<Rightarrow> 'h"
  h_getchar :: "'h \<Rightarrow> 'h \<times> 32 word"

definition PollFile :: "'h Posix \<Rightarrow> int \<Rightarrow> 'h \<Rightarrow> ('h \<times> bool) result" where
  "PollFile P fd h = (let (h, retVal) = h_select P fd h in
     ASSERT (retVal = 0 \<or> retVal = 1) (if retVal = 0 then Inr (h, False) else Inr (h, True)))"

definition OpenForWrite :: "'h Posix \<Rightarrow> byte list \<Rightarrow> 'h \<Rightarrow> ('h \<times> int) result" where
  "OpenForWrite P name h = (let (h, fd) = h_open P name True h in ASSERT (fd \<ge> 0) (Inr (h, fd)))"

definition OpenForReadWrite :: "'h Posix \<Rightarrow> byte list \<Rightarrow> bool \<Rightarrow> 'h \<Rightarrow> ('h \<times> int) result" where
  "OpenForReadWrite P name crashOnError h =
     (let (h, fd) = h_open P name False h in ASSERT (\<not> crashOnError \<or> fd \<ge> 0) (Inr (h, fd)))"

definition ReadPartial :: "'h Posix \<Rightarrow> int \<Rightarrow> int \<Rightarrow> 'h \<Rightarrow> 'h \<times> int \<times> byte list" where
  "ReadPartial P fd nBytes h = h_read P fd nBytes h"

definition WriteFile :: "'h Posix \<Rightarrow> int \<Rightarrow> byte list \<Rightarrow> 'h \<Rightarrow> 'h result" where
  "WriteFile P fd buffer h = (let (h, retVal) = h_write P fd buffer h in ASSERT (retVal = int (length buffer)) (Inr h))"

definition Lseek :: "'h Posix \<Rightarrow> int \<Rightarrow> int \<Rightarrow> int \<Rightarrow> 'h \<Rightarrow> 'h result" where
  "Lseek P fd offset whence h = (let (h, retVal) = h_lseek P fd offset whence h in ASSERT (retVal \<ge> 0) (Inr h))"

definition Tell :: "'h Posix \<Rightarrow> int \<Rightarrow> 'h \<Rightarrow> 'h \<times> int" where
  "Tell P fd h = h_lseek P fd 0 1 h"

definition Close :: "'h Posix \<Rightarrow> int \<Rightarrow> 'h \<Rightarrow> 'h result" where
  "Close P fd h = (let (h, retVal) = h_close P fd h in ASSERT (retVal \<ge> 0) (Inr h))"

definition Unlink :: "'h Posix \<Rightarrow> byte list \<Rightarrow> 'h \<Rightarrow> 'h \<times> bool" where
  "Unlink P name h = (let (h, retVal) = h_unlink P name h in (h, retVal \<noteq> 0))"

section \<open>Open files of the stub\<close>

record StubFile =
  sf_file :: int
  currentOffset :: int

definition Stub_new :: "int \<Rightarrow> StubFile" where
  "Stub_new f = \<lparr>sf_file = f, currentOffset = 0\<rparr>"

definition Stub_delete :: "'h Posix \<Rightarrow> StubFile \<Rightarrow> 'h \<Rightarrow> 'h result" where
  "Stub_delete P f h = Close P (sf_file f) h"

definition Stub_ReadAt :: "'h Posix \<Rightarrow> StubFile \<Rightarrow> int \<Rightarrow> int \<Rightarrow> 'h \<Rightarrow> ('h \<times> int \<times> byte list) result" where
  "Stub_ReadAt P f numBytes position h =
     bindE (Lseek P (sf_file f) position 0 h) (\<lambda>h. Inr (ReadPartial P (sf_file f) numBytes h))"

definition Stub_WriteAt :: "'h Posix \<Rightarrow> StubFile \<Rightarrow> byte list \<Rightarrow> int \<Rightarrow> 'h \<Rightarrow> ('h \<times> int) result" where
  "Stub_WriteAt P f buf position h =
     bindE (Lseek P (sf_file f) position 0 h) (\<lambda>h. bindE (WriteFile P (sf_file f) buf h) (\<lambda>h. Inr (h, int (length buf))))"

definition Stub_Read :: "'h Posix \<Rightarrow> StubFile \<Rightarrow> int \<Rightarrow> 'h \<Rightarrow> ('h \<times> StubFile \<times> int \<times> byte list) result" where
  "Stub_Read P f numBytes h = bindE (Stub_ReadAt P f numBytes (currentOffset f) h) (\<lambda>(h, numRead, bs).
     Inr (h, f\<lparr>currentOffset := currentOffset f + numRead\<rparr>, numRead, bs))"

definition Stub_Write :: "'h Posix \<Rightarrow> StubFile \<Rightarrow> byte list \<Rightarrow> 'h \<Rightarrow> ('h \<times> StubFile \<times> int) result" where
  "Stub_Write P f buf h = bindE (Stub_WriteAt P f buf (currentOffset f) h) (\<lambda>(h, numWritten).
     Inr (h, f\<lparr>currentOffset := currentOffset f + numWritten\<rparr>, numWritten))"

definition Stub_Length :: "'h Posix \<Rightarrow> StubFile \<Rightarrow> 'h \<Rightarrow> ('h \<times> int) result" where
  "Stub_Length P f h = bindE (Lseek P (sf_file f) 0 2 h) (\<lambda>h. Inr (Tell P (sf_file f) h))"

section \<open>The file system of the stub\<close>

definition Stub_Create :: "'h Posix \<Rightarrow> byte list \<Rightarrow> 'h \<Rightarrow> ('h \<times> bool) result" where
  "Stub_Create P name h = bindE (OpenForWrite P name h) (\<lambda>(h, fd).
     if fd = - 1 then Inr (h, False) else bindE (Close P fd h) (\<lambda>h. Inr (h, True)))"

definition Stub_Open :: "'h Posix \<Rightarrow> byte list \<Rightarrow> 'h \<Rightarrow> ('h \<times> StubFile option) result" where
  "Stub_Open P name h = bindE (OpenForReadWrite P name False h) (\<lambda>(h, fd).
     if fd = - 1 then Inr (h, None) else Inr (h, Some (Stub_new fd)))"

definition Stub_Remove :: "'h Posix \<Rightarrow> byte list \<Rightarrow> 'h \<Rightarrow> 'h \<times> bool" where
  "Stub_Remove P name h = (let (h, r) = Unlink P name h in (h, r = False))"

section \<open>Files the host serves\<close>

text \<open>
  What the code relies on for a descriptor open for reading, in the host states \<open>I\<close>: seeking to a
  position that is not negative succeeds, and a read there gives the bytes of \<open>data\<close> from the position
  on, as many as there are.
\<close>

definition serves :: "'h Posix \<Rightarrow> int \<Rightarrow> byte list \<Rightarrow> ('h \<Rightarrow> bool) \<Rightarrow> bool" where
  "serves P fd data I \<longleftrightarrow> (\<forall>h pos n. I h \<longrightarrow> 0 \<le> pos \<longrightarrow> 0 \<le> n \<longrightarrow>
     (case h_lseek P fd pos 0 h of (h1, r) \<Rightarrow> 0 \<le> r \<and>
       (case h_read P fd n h1 of (h2, k, bs) \<Rightarrow> I h2 \<and> bs = take (nat n) (drop (nat pos) data) \<and> k = int (length bs))))"

lemma Stub_ReadAt_serves:
  assumes "serves P fd data I" "I h" "0 \<le> pos" "0 \<le> n"
  obtains h' where "Stub_ReadAt P \<lparr>sf_file = fd, currentOffset = c\<rparr> n pos h =
      Inr (h', int (length (take (nat n) (drop (nat pos) data))), take (nat n) (drop (nat pos) data))" "I h'"
proof -
  obtain h1 r where e1: "h_lseek P fd pos 0 h = (h1, r)" by (cases "h_lseek P fd pos 0 h")
  obtain h2 k bs where e2: "h_read P fd n h1 = (h2, k, bs)" by (cases "h_read P fd n h1")
  note e = e1 e2
  note sv = assms(1) [unfolded serves_def, rule_format, OF assms(2-4), unfolded e1 prod.case e2]
  then have "0 \<le> r" "I h2" "bs = take (nat n) (drop (nat pos) data)" "k = int (length bs)" by simp_all
  then show ?thesis using e by (intro that [of h2]) (simp_all add: Stub_ReadAt_def Lseek_def ReadPartial_def)
qed

text \<open>
  In the stub build \<^verbatim>\<open>Create\<close> never reports that a file could not be created: where the host refuses,
  the test for \<^verbatim>\<open>-1\<close> is not reached because \<^verbatim>\<open>OpenForWrite\<close> aborts the kernel.
\<close>

theorem Stub_Create_aborts:
  "Stub_Create P name h = (case h_open P name True h of (h1, fd) \<Rightarrow>
     if fd < 0 then Inl AssertFailed else bindE (Close P fd h1) (\<lambda>h2. Inr (h2, True)))"
  by (simp add: Stub_Create_def OpenForWrite_def ASSERT_def split: prod.splits)

end
