(* ===== verification/Paging.thy ===== *)
theory Paging
  imports Virt_Mem
begin

text \<open>
  Demand paging is transparent: for a process that owns the frames in use, \<^verbatim>\<open>ReadMem\<close> and
  \<^verbatim>\<open>WriteMem\<close> of \<^verbatim>\<open>code/machine/translate.cc\<close> behave like a plain array of bytes, whatever pages
  are swapped in between; the page fault handler is the one of \<^verbatim>\<open>code/userprog/exception.cc\<close>, which
  calls \<^verbatim>\<open>LRU_TLB\<close>. With two processes this fails, and the theory shows where.
\<close>

section \<open>Bits that paging does not depend on\<close>

definition te_core :: "TranslationEntry \<Rightarrow> 32 word \<times> 32 word \<times> bool \<times> bool" where
  "te_core e = (virtualPage e, physicalPage e, te_valid e, readOnly e)"

definition pp_core :: "PhysicalPageEntry \<Rightarrow> 32 word \<times> nat option \<times> bool" where
  "pp_core f = (VirtualPageNumber f, OwnerThread f, pp_valid f)"

lemma te_core_nth:
  assumes "map te_core xs = map te_core ys" "i < length ys"
  shows "virtualPage (xs ! i) = virtualPage (ys ! i)" "physicalPage (xs ! i) = physicalPage (ys ! i)"
    "te_valid (xs ! i) = te_valid (ys ! i)" "readOnly (xs ! i) = readOnly (ys ! i)"
proof -
  have "length xs = length ys" using assms(1) map_eq_imp_length_eq by blast
  then have "te_core (xs ! i) = te_core (ys ! i)" using assms by (metis nth_map)
  then show "virtualPage (xs ! i) = virtualPage (ys ! i)" "physicalPage (xs ! i) = physicalPage (ys ! i)"
    "te_valid (xs ! i) = te_valid (ys ! i)" "readOnly (xs ! i) = readOnly (ys ! i)"
    by (simp_all add: te_core_def)
qed

lemma pp_core_nth:
  assumes "map pp_core xs = map pp_core ys" "i < length ys"
  shows "VirtualPageNumber (xs ! i) = VirtualPageNumber (ys ! i)" "OwnerThread (xs ! i) = OwnerThread (ys ! i)"
    "pp_valid (xs ! i) = pp_valid (ys ! i)"
proof -
  have "length xs = length ys" using assms(1) map_eq_imp_length_eq by blast
  then have "pp_core (xs ! i) = pp_core (ys ! i)" using assms by (metis nth_map)
  then show "VirtualPageNumber (xs ! i) = VirtualPageNumber (ys ! i)" "OwnerThread (xs ! i) = OwnerThread (ys ! i)"
    "pp_valid (xs ! i) = pp_valid (ys ! i)" by (simp_all add: pp_core_def)
qed

lemma vm_ok_cong:
  assumes ok: "vm_ok None cur pt vs mem t ppt" and eq: "map te_core pt' = map te_core pt" "map te_core t' = map te_core t"
    "map pp_core ppt' = map pp_core ppt" and mem: "length mem' = length mem"
  shows "vm_ok None cur pt' vs mem' t' ppt'"
proof -
  note w = vm_okD [OF ok]
  have l: "length pt' = length pt" "length t' = length t" "length ppt' = length ppt"
    using eq map_eq_imp_length_eq by blast+
  note n = te_core_nth [OF eq(1)] te_core_nth [OF eq(2)] pp_core_nth [OF eq(3)]
  show ?thesis
  proof (rule vm_okI)
    show "virtualPage (pt' ! v) = of_nat v \<and> \<not> readOnly (pt' ! v) \<and> unat (physicalPage (pt' ! v)) < 32 \<and>
        None \<noteq> Some (unat (physicalPage (pt' ! v))) \<and> pp_valid (ppt' ! unat (physicalPage (pt' ! v))) \<and>
        VirtualPageNumber (ppt' ! unat (physicalPage (pt' ! v))) = of_nat v"
      if "v < length pt'" "te_valid (pt' ! v)" for v
    proof -
      have v: "v < length pt" "te_valid (pt ! v)" using that l(1) n(3) by simp_all
      then have "unat (physicalPage (pt ! v)) < length ppt" using w(5,6) by simp
      then show ?thesis using w(6) [OF v] n(1,2,4) [OF v(1)] n(9,11) by simp
    qed
    show "OwnerThread (ppt' ! k) = Some cur \<and> unat (VirtualPageNumber (ppt' ! k)) < length pt' \<and>
        te_valid (pt' ! unat (VirtualPageNumber (ppt' ! k))) \<and> physicalPage (pt' ! unat (VirtualPageNumber (ppt' ! k))) = of_nat k"
      if "k < 32" "None \<noteq> Some k" "pp_valid (ppt' ! k)" for k
    proof -
      have k: "k < length ppt" "pp_valid (ppt ! k)" using that w(5) n(11) by simp_all
      have wk: "OwnerThread (ppt ! k) = Some cur" "unat (VirtualPageNumber (ppt ! k)) < length pt"
        "te_valid (pt ! unat (VirtualPageNumber (ppt ! k)))" "physicalPage (pt ! unat (VirtualPageNumber (ppt ! k))) = of_nat k"
        using w(7) [OF that(1) that(2) k(2)] by blast+
      then show ?thesis using l(1) n(9,10) [OF k(1)] n(2,3) [OF wk(2)] by simp
    qed
    show "unat (virtualPage (t' ! i)) < length pt' \<and> te_valid (pt' ! unat (virtualPage (t' ! i))) \<and>
        physicalPage (t' ! i) = physicalPage (pt' ! unat (virtualPage (t' ! i))) \<and> \<not> readOnly (t' ! i)"
      if "i < 4" "te_valid (t' ! i)" for i
    proof -
      have i: "i < length t" "te_valid (t ! i)" using that w(4) n(7) by simp_all
      have wi: "unat (virtualPage (t ! i)) < length pt" "te_valid (pt ! unat (virtualPage (t ! i)))"
        "physicalPage (t ! i) = physicalPage (pt ! unat (virtualPage (t ! i)))" "\<not> readOnly (t ! i)"
        using w(8) [OF that(1) i(2)] by blast+
      then show ?thesis using l(1) n(5,6,8) [OF i(1)] n(2,3) [OF wi(1)] by simp
    qed
    show "i = j" if "i < 4" "j < 4" "te_valid (t' ! i)" "te_valid (t' ! j)" "virtualPage (t' ! i) = virtualPage (t' ! j)" for i j
      using that w(4) n(5,7) by (intro w(9)) simp_all
  qed (use w l mem in simp_all)
qed

lemma tlb_find_cong:
  assumes "map te_core t' = map te_core t" "\<forall>i \<in> set is. i < length t"
  shows "tlb_find t' v is = tlb_find t v is"
  using assms(2) by (induction "is") (simp_all add: te_core_nth [OF assms(1)])

lemma vm_inv_cong:
  assumes "vm_inv s sp m" "pageTable m' = pageTable m" "pageTableSize m' = pageTableSize m" "thread_space m' = thread_space m"
    "currentThread m' = currentThread m" "spaces m' = spaces m" "mainMemory m' = mainMemory m" "tlb m' = tlb m"
    "PhysicalPageTable m' = PhysicalPageTable m" "length (registers m') = 40"
  shows "vm_inv s sp m'"
  using assms by (simp add: vm_inv_def)

section \<open>The memory a process sees\<close>

definition mem_of :: "AddrSpace \<Rightarrow> ('a Machine_scheme) \<Rightarrow> byte list" where
  "mem_of sp m = map (\<lambda>j. page_of sp m (j div 128) ! (j mod 128)) [0..<128 * length (as_pageTable sp)]"

definition sees :: "nat \<Rightarrow> AddrSpace \<Rightarrow> ('a Machine_scheme) \<Rightarrow> AddrSpace \<Rightarrow> ('a Machine_scheme) \<Rightarrow> bool" where
  "sees s sp m sp' m' \<longleftrightarrow> vm_inv s sp' m' \<and> numPages sp' = numPages sp \<and> Machine.more m' = Machine.more m \<and>
     (\<forall>v < length (as_pageTable sp). page_of sp' m' v = page_of sp m v)"

lemma seesD:
  assumes "sees s sp m sp' m'"
  shows "vm_inv s sp' m'" "numPages sp' = numPages sp" "v < length (as_pageTable sp) \<Longrightarrow> page_of sp' m' v = page_of sp m v"
    "Machine.more m' = Machine.more m"
  using assms unfolding sees_def by blast+

lemma sees_length: "vm_inv s sp m \<Longrightarrow> sees s sp m sp' m' \<Longrightarrow> length (as_pageTable sp') = length (as_pageTable sp)"
  by (simp add: sees_def vm_inv_def)

lemma sees_trans:
  assumes "vm_inv s sp m" "sees s sp m sp1 m1" "sees s sp1 m1 sp2 m2"
  shows "sees s sp m sp2 m2"
  using assms(2,3) sees_length [OF assms(1,2)] by (simp add: sees_def)

lemma same_space_sees: "same_space s sp m sp' m' \<Longrightarrow> sees s sp m sp' m'"
  by (simp add: same_space_def sees_def)

lemma sees_mem: "vm_inv s sp m \<Longrightarrow> sees s sp m sp' m' \<Longrightarrow> mem_of sp' m' = mem_of sp m"
  using sees_length [of s sp m sp' m'] seesD(3) [of s sp m sp' m'] by (auto simp: mem_of_def)

lemma length_mem_of [simp]: "length (mem_of sp m) = 128 * length (as_pageTable sp)"
  by (simp add: mem_of_def)

lemma nth_mem_of: "j < 128 * length (as_pageTable sp) \<Longrightarrow> mem_of sp m ! j = page_of sp m (j div 128) ! (j mod 128)"
  by (simp add: mem_of_def)

text \<open>Accesses of one, two or four bytes, aligned: they do not cross the end of a page.\<close>

definition access :: "32 word \<Rightarrow> int \<Rightarrow> bool" where
  "access va sz \<longleftrightarrow> sz = 1 \<or> sz = 2 \<and> va AND 1 = 0 \<or> sz = 4 \<and> va AND 3 = 0"

lemma unat_and_low: "unat ((va :: 32 word) AND 1) = unat va mod 2" "unat (va AND 3) = unat va mod 4"
proof -
  show "unat (va AND 1) = unat va mod 2" by (simp add: and_one_eq unat_mod)
  have "va AND 3 = take_bit 2 va" by (simp add: take_bit_eq_mask mask_eq_exp_minus_1)
  then show "unat (va AND 3) = unat va mod 4" by (simp add: unsigned_take_bit_eq take_bit_nat_def)
qed

lemma access_page:
  assumes "access va sz"
  shows "0 < sz" "unat va mod 128 + nat sz \<le> 128"
    "\<not> (sz = 4 \<and> va AND 3 \<noteq> 0 \<or> sz = 2 \<and> va AND 1 \<noteq> 0)"
proof -
  have z: "va AND 1 = 0 \<longleftrightarrow> unat va mod 2 = 0" "va AND 3 = 0 \<longleftrightarrow> unat va mod 4 = 0"
    by (simp_all add: unat_eq_0 [symmetric] unat_and_low)
  have "unat va mod 2 = unat va mod 128 mod 2" "unat va mod 4 = unat va mod 128 mod 4" by (simp_all add: mod_mod_cancel)
  moreover have "k + 2 \<le> 128" if "k mod 2 = 0" "k < 128" for k :: nat using that by presburger
  moreover have "k + 4 \<le> 128" if "k mod 4 = 0" "k < 128" for k :: nat using that by presburger
  ultimately have "unat va mod 2 = 0 \<Longrightarrow> unat va mod 128 + 2 \<le> 128" "unat va mod 4 = 0 \<Longrightarrow> unat va mod 128 + 4 \<le> 128"
    by simp_all
  then show "0 < sz" "unat va mod 128 + nat sz \<le> 128" "\<not> (sz = 4 \<and> va AND 3 \<noteq> 0 \<or> sz = 2 \<and> va AND 1 \<noteq> 0)"
    using assms z by (auto simp: access_def)
qed

lemma unat_page: "unat ((va :: 32 word) div 128) = unat va div 128" "unat (va mod 128) = unat va mod 128"
  by (simp_all add: unat_div unat_mod)

text \<open>Translation of an access whose page is in the buffer.\<close>

definition phys :: "AddrSpace \<Rightarrow> 32 word \<Rightarrow> nat" where
  "phys sp va = unat (physicalPage (as_pageTable sp ! (unat va div 128))) * 128 + unat va mod 128"

lemma map_te_core_upd: "te_core (f (t ! i)) = te_core (t ! i) \<Longrightarrow> map te_core (t[i := f (t ! i)]) = map te_core t"
  by (cases "i < length t") (simp_all add: map_update list_update_same_conv list_update_beyond)

lemma map_pp_core_upd: "pp_core (f (t ! i)) = pp_core (t ! i) \<Longrightarrow> map pp_core (t[i := f (t ! i)]) = map pp_core t"
  by (cases "i < length t") (simp_all add: map_update list_update_same_conv list_update_beyond)

lemma vm_inv_bits:
  assumes inv: "vm_inv s sp m" and pt: "map te_core pt' = map te_core (as_pageTable sp)" and t: "map te_core t' = map te_core (tlb m)"
    and ppt: "map pp_core ppt' = map pp_core (PhysicalPageTable m)"
    and m': "m' = m\<lparr>tlb := t', TLBHit := h, PhysicalPageTable := ppt', spaces := (spaces m)(s \<mapsto> sp\<lparr>as_pageTable := pt'\<rparr>)\<rparr>"
  shows "sees s sp m (sp\<lparr>as_pageTable := pt'\<rparr>) m'"
proof -
  have l: "length pt' = length (as_pageTable sp)" using pt map_eq_imp_length_eq by blast
  have "vm_ok None (currentThread m) pt' (vSpace sp) (mainMemory m) t' ppt'"
    by (rule vm_ok_cong [OF vm_invD(7) [OF inv] pt t ppt refl])
  then have "vm_inv s (sp\<lparr>as_pageTable := pt'\<rparr>) m'" using vm_invD(1-6) [OF inv] l by (simp add: vm_inv_def m')
  moreover have "page_of (sp\<lparr>as_pageTable := pt'\<rparr>) m' v = page_of sp m v" if "v < length (as_pageTable sp)" for v
    using te_core_nth [OF pt that] by (simp add: page_of_def vpage_def m')
  ultimately show ?thesis unfolding sees_def by (simp add: m')
qed

lemma Translate_hit:
  assumes inv: "vm_inv s sp m" and a: "access va sz" and hit: "tlb_find (tlb m) (va div 128) [0..<TLBSize] = Some i"
  obtains m' sp' where "Translate m va sz w = Inr (m', NoException, phys sp' va)" "sees s sp m sp' m'"
    "registers m' = registers m" "tlb_find (tlb m') (va div 128) [0..<TLBSize] = Some i" "te_valid (as_pageTable sp' ! (unat va div 128))"
    "unat va div 128 < length (as_pageTable sp)"
proof -
  let ?v = "va div 128" and ?t = "tlb m ! i" and ?now = "totalTicks (mstats m)"
  note ok = vm_invD(7) [OF inv] and w = vm_okD [OF vm_invD(7) [OF inv]]
  have h: "i < 4" "te_valid ?t" "virtualPage ?t = ?v" using tlb_find_SomeD [OF hit] by auto
  define f where "f = unat (physicalPage ?t)"
  have e: "unat ?v < length (as_pageTable sp)" "te_valid (as_pageTable sp ! unat ?v)"
    "physicalPage ?t = physicalPage (as_pageTable sp ! unat ?v)" "\<not> readOnly ?t"
    using w(8) [OF h(1,2)] unfolding h(3) by blast+
  have f: "f < 32" using w(6) [OF e(1,2)] e(3) by (simp add: f_def)
  define pt' where "pt' = (if w then (as_pageTable sp)[unat ?v := (as_pageTable sp ! unat ?v)\<lparr>te_dirty := True\<rparr>] else as_pageTable sp)"
  define e' where "e' = (if w then ?t\<lparr>used := True, te_dirty := True, LastHitTime := ?now\<rparr> else ?t\<lparr>used := True, LastHitTime := ?now\<rparr>)"
  define p' where "p' = (let p = PhysicalPageTable m ! f in
    if w then p\<lparr>pp_dirty := True, pp_LastHitTime := ?now\<rparr> else p\<lparr>pp_LastHitTime := ?now\<rparr>)"
  define sp' where "sp' = sp\<lparr>as_pageTable := pt'\<rparr>"
  define m' where "m' = m\<lparr>tlb := (tlb m)[i := e'], TLBHit := TLBHit m + 1, PhysicalPageTable := (PhysicalPageTable m)[f := p'],
    spaces := (spaces m)(s \<mapsto> sp')\<rparr>"
  have c: "map te_core pt' = map te_core (as_pageTable sp)" "map te_core ((tlb m)[i := e']) = map te_core (tlb m)"
    "map pp_core ((PhysicalPageTable m)[f := p']) = map pp_core (PhysicalPageTable m)"
    using map_te_core_upd [of "\<lambda>e. e\<lparr>te_dirty := True\<rparr>" "as_pageTable sp" "unat ?v"] map_te_core_upd [of "\<lambda>_. e'" "tlb m" i]
      map_pp_core_upd [of "\<lambda>_. p'" "PhysicalPageTable m" f]
    by (simp_all add: pt'_def e'_def p'_def te_core_def pp_core_def Let_def)
  have s: "sees s sp m sp' m'" unfolding sp'_def m'_def by (rule vm_inv_bits [OF inv c refl])
  have phys: "phys sp' va = f * 128 + unat va mod 128"
    using te_core_nth(2) [OF c(1) e(1)] e(3) by (simp add: phys_def sp'_def f_def unat_page)
  have bound: "int (f * 128 + unat va mod 128) + sz \<le> 4096" using f access_page(1,2) [OF a] by simp
  have "Translate m va sz w = Inr (m', NoException, phys sp' va)"
  proof (cases w)
    case True
    have m': "m' = m\<lparr>TLBHit := TLBHit m + 1, spaces := (spaces m)(s \<mapsto> sp'), tlb := (tlb m)[i := e'],
        PhysicalPageTable := (PhysicalPageTable m)[f := p']\<rparr>"
      unfolding m'_def by (rule Machine.equality) simp_all
    show ?thesis
      using True access_page(3) [OF a] hit e(1,4) f h(1) vm_invD(1,3) [OF inv] w(4,5) bound
      unfolding Translate_def m' phys
      by (simp add: Let_def upd_tlb_def upd_ppt_def upd_pte_eq unat_page sp'_def pt'_def e'_def p'_def del: of_nat_add of_nat_mult flip: f_def)
  next
    case False
    have m': "m' = m\<lparr>TLBHit := TLBHit m + 1, tlb := (tlb m)[i := e'], PhysicalPageTable := (PhysicalPageTable m)[f := p']\<rparr>"
      unfolding m'_def using False vm_invD(3) [OF inv] by (intro Machine.equality) (simp_all add: sp'_def pt'_def fun_upd_idem)
    show ?thesis
      using False access_page(3) [OF a] hit e(1,4) f h(1) w(4,5) bound
      unfolding Translate_def m' phys
      by (simp add: Let_def upd_tlb_def upd_ppt_def unat_page e'_def p'_def del: of_nat_add of_nat_mult flip: f_def)
  qed
  moreover have "tlb_find (tlb m') ?v [0..<TLBSize] = Some i"
    using tlb_find_cong [OF c(2), of "[0..<4]" ?v] hit w(4) by (simp add: m'_def)
  moreover have "te_valid (as_pageTable sp' ! (unat va div 128))" "unat va div 128 < length (as_pageTable sp)"
    using te_core_nth(3) [OF c(1) e(1)] e(1,2) by (simp_all add: sp'_def unat_page)
  ultimately show ?thesis using s that by (simp add: m'_def)
qed

section \<open>Page faults\<close>

text \<open>The register a delayed load is directed to is a general one.\<close>

definition load_pending_ok :: "('a Machine_scheme) \<Rightarrow> bool" where
  "load_pending_ok m \<longleftrightarrow> unat (registers m ! LoadReg) < 32"

text \<open>
  What the machine relies on: a page fault is served from the bad address by \<^verbatim>\<open>LRU_TLB\<close>, and a tick only
  moves the clock, which is so as long as no interrupt is due.
\<close>

locale paging_kernel =
  fixes K :: "('a Machine_scheme) Kernel"
  assumes page_fault: "ExceptionHandler K PageFaultException m = LRU_TLB m (registers m ! BadVAddrReg)"
    and tick: "\<exists>st. OneTick K m = Inr (m\<lparr>mstats := st\<rparr>)"
begin

lemma RaiseException_page:
  assumes inv: "vm_inv s sp m" and p: "load_pending_ok m" and va: "unat va div 128 < length (as_pageTable sp)"
    and miss: "tlb_find (tlb m) (va div 128) [0..<TLBSize] = None"
  obtains m' sp' j where "RaiseException K PageFaultException va m = Inr m'" "sees s sp m sp' m'"
    "tlb_find (tlb m') (va div 128) [0..<TLBSize] = Some j" "load_pending_ok m'"
proof -
  define r where "r = (registers m)[BadVAddrReg := va, unat (registers m ! LoadReg) := registers m ! LoadValueReg, LoadReg := 0, LoadValueReg := 0, 0 := 0]"
  have l: "length (registers m) = 40" by (rule vm_invD(6) [OF inv])
  have r: "length r = 40" "r ! BadVAddrReg = va" "r ! LoadReg = 0"
    using l p by (simp_all add: r_def load_pending_ok_def)
  have d: "DelayedLoad 0 0 (m\<lparr>registers := (registers m)[BadVAddrReg := va]\<rparr>) = Inr (m\<lparr>registers := r\<rparr>)"
    using p l by (simp add: DelayedLoad_def Let_def r_def load_pending_ok_def)
  obtain st where t: "OneTick K (m\<lparr>registers := r, user_mode := False\<rparr>) = Inr (m\<lparr>registers := r, user_mode := False, mstats := st\<rparr>)"
    using tick by fastforce
  let ?m1 = "m\<lparr>registers := r, user_mode := False, mstats := st\<rparr>"
  have inv1: "vm_inv s sp ?m1" by (rule vm_inv_cong [OF inv]) (simp_all add: r)
  have "pick te_valid LastHitTime (tlb ?m1) [0..<TLBSize] 0 < 4" by (rule pick_bound) auto
  moreover have "unat (va div 128) < length (as_pageTable sp)" "tlb_find (tlb ?m1) (va div 128) [0..<TLBSize] = None"
    using va miss by (simp_all add: unat_page)
  ultimately obtain m2 sp2 j where m2: "LRU_TLB ?m1 va = Inr m2" "same_space s sp ?m1 sp2 m2"
    "tlb_find (tlb m2) (va div 128) [0..<TLBSize] = Some j"
    unfolding LRU_TLB_def by (rule refill_pages [OF inv1])
  let ?m' = "m2\<lparr>user_mode := True\<rparr>"
  have "RaiseException K PageFaultException va m = Inr ?m'"
    using d t m2(1) r(2) by (simp add: RaiseException_def page_fault)
  moreover have "sees s sp m sp2 ?m'"
  proof -
    have "vm_inv s sp2 ?m'" by (rule vm_inv_cong [OF same_space_inv [OF m2(2)]]) (simp_all add: vm_invD(6) [OF same_space_inv [OF m2(2)]])
    then show ?thesis using m2(2) by (simp add: sees_def same_space_def page_of_def)
  qed
  moreover have "tlb_find (tlb ?m') (va div 128) [0..<TLBSize] = Some j" using m2(3) by simp
  moreover have "load_pending_ok ?m'" using m2(2) r(3) by (simp add: load_pending_ok_def same_space_def)
  ultimately show ?thesis by (rule that)
qed

lemma Translate_miss:
  assumes "access va sz" "tlb_find (tlb m) (va div 128) [0..<TLBSize] = None"
  shows "Translate m va sz w = Inr (m\<lparr>TLBMiss := TLBMiss m + 1\<rparr>, PageFaultException, 0)"
  using access_page(3) [OF assms(1)] assms(2) unfolding Translate_def by (simp add: Let_def)

lemma translate_retry_ok:
  assumes inv: "vm_inv s sp m" and p: "load_pending_ok m" and a: "access va sz" and va: "unat va div 128 < length (as_pageTable sp)"
  obtains m' sp' where "translate_retry K m va sz w = Inr (m', Some (phys sp' va))" "sees s sp m sp' m'"
    "load_pending_ok m'" "te_valid (as_pageTable sp' ! (unat va div 128))"
proof (cases "tlb_find (tlb m) (va div 128) [0..<TLBSize]")
  case (Some i)
  obtain m' sp' where t: "Translate m va sz w = Inr (m', NoException, phys sp' va)" "sees s sp m sp' m'"
    "registers m' = registers m" "tlb_find (tlb m') (va div 128) [0..<TLBSize] = Some i" "te_valid (as_pageTable sp' ! (unat va div 128))"
    "unat va div 128 < length (as_pageTable sp)"
    by (rule Translate_hit [OF inv a Some])
  have "translate_retry K m va sz w = Inr (m', Some (phys sp' va))" using t(1) by (simp add: translate_retry_def)
  moreover have "load_pending_ok m'" using p t(3) by (simp add: load_pending_ok_def)
  ultimately show ?thesis using t(2,5) by (intro that)
next
  case None
  let ?m0 = "m\<lparr>TLBMiss := TLBMiss m + 1\<rparr>"
  have inv0: "vm_inv s sp ?m0" by (rule vm_inv_cong [OF inv]) (simp_all add: vm_invD(6) [OF inv])
  have p0: "load_pending_ok ?m0" "tlb_find (tlb ?m0) (va div 128) [0..<TLBSize] = None" using p None by (simp_all add: load_pending_ok_def)
  obtain m1 sp1 i where m1: "RaiseException K PageFaultException va ?m0 = Inr m1" "sees s sp ?m0 sp1 m1"
    "tlb_find (tlb m1) (va div 128) [0..<TLBSize] = Some i" "load_pending_ok m1"
    by (rule RaiseException_page [OF inv0 p0(1) va p0(2)])
  have inv1: "vm_inv s sp1 m1" by (rule seesD(1) [OF m1(2)])
  obtain m2 sp2 where t2: "Translate m1 va sz w = Inr (m2, NoException, phys sp2 va)" "sees s sp1 m1 sp2 m2"
    "registers m2 = registers m1" "tlb_find (tlb m2) (va div 128) [0..<TLBSize] = Some i" "te_valid (as_pageTable sp2 ! (unat va div 128))"
    "unat va div 128 < length (as_pageTable sp1)"
    by (rule Translate_hit [OF inv1 a m1(3)])
  have inv2: "vm_inv s sp2 m2" by (rule seesD(1) [OF t2(2)])
  obtain m3 sp3 where t3: "Translate m2 va sz w = Inr (m3, NoException, phys sp3 va)" "sees s sp2 m2 sp3 m3"
    "registers m3 = registers m2" "tlb_find (tlb m3) (va div 128) [0..<TLBSize] = Some i" "te_valid (as_pageTable sp3 ! (unat va div 128))"
    "unat va div 128 < length (as_pageTable sp2)"
    by (rule Translate_hit [OF inv2 a t2(4)])
  have "translate_retry K m va sz w = Inr (m3, Some (phys sp3 va))"
    using Translate_miss [OF a None] m1(1) t2(1) t3(1) by (simp add: translate_retry_def)
  moreover have "sees s sp m sp3 m3"
  proof -
    have "sees s sp ?m0 sp3 m3"
      by (rule sees_trans [OF inv0 sees_trans [OF inv0 m1(2) t2(2)] t3(2)])
    then show ?thesis by (simp add: sees_def page_of_def)
  qed
  moreover have "load_pending_ok m3" using m1(4) t2(3) t3(3) by (simp add: load_pending_ok_def)
  ultimately show ?thesis using t3(5) by (intro that)
qed

end

section \<open>Reading and writing\<close>

lemma access_cases: "access va sz \<Longrightarrow> sz = 1 \<or> sz = 2 \<or> sz = 4"
  by (auto simp: access_def)

lemma load_cong:
  assumes sz: "sz = 1 \<or> sz = 2 \<or> sz = 4" and b: "pa + nat sz \<le> length mem" "pa' + nat sz \<le> length mem'"
    and eq: "\<And>j. j < nat sz \<Longrightarrow> mem ! (pa + j) = mem' ! (pa' + j)"
  shows "load mem pa sz = load mem' pa' sz"
  using sz
proof (elim disjE)
  assume "sz = 4"
  then have "slice pa 4 mem = slice pa' 4 mem'" using b eq by (intro nth_equalityI) (simp_all add: nth_slice)
  then show ?thesis using \<open>sz = 4\<close> by (simp add: load_def)
qed (use eq [of 0] eq [of 1] in \<open>simp_all add: load_def\<close>)

lemma load_total: "sz = 1 \<or> sz = 2 \<or> sz = 4 \<Longrightarrow> \<exists>v. load mem pa sz = Inr v"
  by (auto simp: load_def)

lemma store_blit:
  assumes sz: "sz = 1 \<or> sz = 2 \<or> sz = 4" and b: "pa + nat sz \<le> length mem"
  shows "store mem pa sz v = Inr (blit (take (nat sz) (word_bytes v)) mem pa)"
  using sz
proof (elim disjE)
  assume "sz = 1"
  then show ?thesis using b by (simp add: store_def blit_def word_bytes_def upd_conv_take_nth_drop)
next
  assume "sz = 2"
  moreover have "mem[pa := x, pa + 1 := y] = blit [x, y] mem pa" for x y
    using b \<open>sz = 2\<close> by (intro nth_equalityI) (auto simp: nth_blit nth_list_update nth_Cons')
  ultimately show ?thesis by (simp add: store_def word_bytes_def numeral_eq_Suc)
next
  assume "sz = 4"
  then show ?thesis by (simp add: store_def)
qed

lemma page_split:
  assumes "r < 128"
  shows "(128 * q + r) div 128 = (q :: nat)" "(128 * q + r) mod 128 = r"
  using assms by simp_all

lemma other_page: "u \<noteq> v \<Longrightarrow> i < 128 \<Longrightarrow> r + n \<le> 128 \<Longrightarrow> \<not> (128 * v + r \<le> 128 * u + i \<and> 128 * u + i < 128 * v + r + (n :: nat))"
  by (cases "u < v") linarith+

lemma page_end: "v < l \<Longrightarrow> r + n \<le> 128 \<Longrightarrow> 128 * v + r + n \<le> 128 * (l :: nat)"
  by linarith

lemma same_page:
  assumes "p = 128 * f + r" "x = 128 * v + r" "j = 128 * v + (i :: nat)"
  shows "(p \<le> 128 * f + i \<and> 128 * f + i < p + n) \<longleftrightarrow> (x \<le> j \<and> j < x + n)" "128 * f + i - p = j - x"
  using assms by linarith+

lemma frame_nth:
  assumes inv: "vm_inv s sp m" and va: "unat va div 128 < length (as_pageTable sp)" and v: "te_valid (as_pageTable sp ! (unat va div 128))"
    and j: "unat va mod 128 + j < 128"
  shows "phys sp va + j < 4096" "mainMemory m ! (phys sp va + j) = mem_of sp m ! (unat va + j)" "unat va + j < 128 * length (as_pageTable sp)"
proof -
  note w = vm_okD [OF vm_invD(7) [OF inv]]
  define f where "f = unat (physicalPage (as_pageTable sp ! (unat va div 128)))"
  have f: "f < 32" using w(6) [OF va v] by (simp add: f_def)
  have ph: "phys sp va + j = 128 * f + (unat va mod 128 + j)" by (simp add: phys_def f_def)
  show "phys sp va + j < 4096" using f j unfolding ph by linarith
  have d: "unat va + j = 128 * (unat va div 128) + (unat va mod 128 + j)" by simp
  have dm: "(unat va + j) div 128 = unat va div 128" "(unat va + j) mod 128 = unat va mod 128 + j"
    unfolding d by (rule page_split [OF j])+
  show b: "unat va + j < 128 * length (as_pageTable sp)" using va j unfolding d by linarith
  have "page_of sp m (unat va div 128) = slice (128 * f) 128 (mainMemory m)"
    using v by (simp add: page_of_def vpage_def frame_bytes_def f_def)
  then show "mainMemory m ! (phys sp va + j) = mem_of sp m ! (unat va + j)"
    unfolding nth_mem_of [OF b] dm using f w(3) j by (simp add: nth_slice ph)
qed

text \<open>A store through a translated address changes the memory of the process there.\<close>

lemma store_pages:
  assumes inv: "vm_inv s sp m" and va: "unat va div 128 < length (as_pageTable sp)" and v: "te_valid (as_pageTable sp ! (unat va div 128))"
    and n: "unat va mod 128 + length bs \<le> 128"
    and m': "m' = m\<lparr>mainMemory := blit bs (mainMemory m) (phys sp va)\<rparr>"
  shows "vm_inv s sp m'" "mem_of sp m' = blit bs (mem_of sp m) (unat va)"
proof -
  note ok = vm_invD(7) [OF inv] and w = vm_okD [OF vm_invD(7) [OF inv]]
  let ?v = "unat va div 128" and ?o = "unat va mod 128"
  define f where "f = unat (physicalPage (as_pageTable sp ! ?v))"
  have f: "f < 32" using w(6) [OF va v] by (simp add: f_def)
  have ph: "phys sp va = 128 * f + ?o" by (simp add: phys_def f_def)
  have b: "phys sp va + length bs \<le> length (mainMemory m)" using page_end [OF f n] w(3) unfolding ph by simp
  have d: "unat va = 128 * ?v + ?o" by simp
  have bv: "unat va + length bs \<le> 128 * length (as_pageTable sp)" using page_end [OF va n] by simp
  have "vm_ok None (currentThread m) (as_pageTable sp) (vSpace sp) (blit bs (mainMemory m) (phys sp va)) (tlb m) (PhysicalPageTable m)"
    by (rule vm_ok_cong [OF ok refl refl refl length_blit [OF b]])
  then show "vm_inv s sp m'" using vm_invD(1-6) [OF inv] by (simp add: m' vm_inv_def)
  show "mem_of sp m' = blit bs (mem_of sp m) (unat va)"
  proof (rule nth_equalityI)
    fix j assume "j < length (mem_of sp m')"
    then have j: "j < 128 * length (as_pageTable sp)" by simp
    let ?u = "j div 128" and ?i = "j mod 128"
    have jd: "j = 128 * ?u + ?i" by simp
    have u: "?u < length (as_pageTable sp)" using j by (simp add: less_mult_imp_div_less mult.commute)
    have i: "?i < 128" by simp
    have rhs: "blit bs (mem_of sp m) (unat va) ! j = (if unat va \<le> j \<and> j < unat va + length bs then bs ! (j - unat va) else page_of sp m ?u ! ?i)"
      using bv j by (simp add: nth_blit nth_mem_of)
    have lhs: "mem_of sp m' ! j = page_of sp m' ?u ! ?i" by (rule nth_mem_of [OF j])
    show "mem_of sp m' ! j = blit bs (mem_of sp m) (unat va) ! j"
    proof (cases "te_valid (as_pageTable sp ! ?u)")
      case False
      then have "?u \<noteq> ?v" using v by auto
      then have "\<not> (unat va \<le> j \<and> j < unat va + length bs)" using other_page [OF _ i n, of ?u ?v] by simp
      then show ?thesis unfolding lhs rhs if_not_P using False by (simp add: page_of_def vpage_def if_not_P m')
    next
      case True
      define g where "g = unat (physicalPage (as_pageTable sp ! ?u))"
      have g: "g < 32" using w(6) [OF u True] by (simp add: g_def)
      have same: "?u = ?v" if "g = f"
      proof -
        have "VirtualPageNumber (PhysicalPageTable m ! g) = of_nat ?u" "VirtualPageNumber (PhysicalPageTable m ! f) = of_nat ?v"
          using w(6) [OF u True] w(6) [OF va v] unfolding f_def g_def by blast+
        then have e: "(of_nat ?u :: 32 word) = of_nat ?v" unfolding that by (rule trans [OF sym])
        have "?u < 2 ^ 32" "?v < 2 ^ 32" using u va w(2) by simp_all
        from unat_small [OF this(1)] unat_small [OF this(2)] show ?thesis unfolding e by (rule trans [OF sym])
      qed
      have pg: "page_of sp mm ?u ! ?i = mainMemory mm ! (128 * g + ?i)" if "length (mainMemory mm) = 4096" for mm :: "'a Machine_scheme"
        using True g i that by (simp add: page_of_def vpage_def frame_bytes_def g_def nth_slice)
      have l': "length (mainMemory m') = 4096" using w(3) b by (simp add: m')
      have gi: "128 * g + ?i < length (mainMemory m)" using page_end [OF g, of ?i 1] i w(3) by simp
      have m'n: "mainMemory m' ! (128 * g + ?i) = (if phys sp va \<le> 128 * g + ?i \<and> 128 * g + ?i < phys sp va + length bs
          then bs ! (128 * g + ?i - phys sp va) else mainMemory m ! (128 * g + ?i))"
        using nth_blit [OF b gi] by (simp add: m')
      show ?thesis
      proof (cases "?u = ?v")
        case uv: True
        have "g = f" using uv by (simp add: g_def f_def)
        have "phys sp va = 128 * g + ?o" "j = 128 * ?v + ?i" using ph \<open>g = f\<close> jd uv by simp_all
        note sp = same_page(1) [OF this(1) d this(2), of "length bs"] same_page(2) [OF this(1) d this(2)]
        show ?thesis unfolding lhs rhs pg [OF l'] m'n pg [OF w(3)] sp ..
      next
        case uv: False
        then have "g \<noteq> f" using same by blast
        then have "\<not> (phys sp va \<le> 128 * g + ?i \<and> 128 * g + ?i < phys sp va + length bs)"
          unfolding ph by (rule other_page [OF _ i n])
        moreover have "\<not> (unat va \<le> j \<and> j < unat va + length bs)" using other_page [OF uv i n] by simp
        ultimately show ?thesis unfolding lhs rhs pg [OF l'] m'n by (simp only: if_False pg [OF w(3)])
      qed
    qed
  qed (use bv in simp)
qed

context paging_kernel
begin

lemma ReadMem_mem:
  assumes inv: "vm_inv s sp m" and p: "load_pending_ok m" and a: "access va sz" and va: "unat va div 128 < length (as_pageTable sp)"
  obtains m' sp' x where "ReadMem K m va sz = Inr (m', Some x)" "load (mem_of sp m) (unat va) sz = Inr x"
    "vm_inv s sp' m'" "numPages sp' = numPages sp" "mem_of sp' m' = mem_of sp m" "load_pending_ok m'"
    "Machine.more m' = Machine.more m"
proof -
  obtain m' sp' where t: "translate_retry K m va sz False = Inr (m', Some (phys sp' va))" "sees s sp m sp' m'"
    "load_pending_ok m'" "te_valid (as_pageTable sp' ! (unat va div 128))"
    by (rule translate_retry_ok [OF inv p a va])
  have inv': "vm_inv s sp' m'" and va': "unat va div 128 < length (as_pageTable sp')"
    using seesD(1) [OF t(2)] sees_length [OF inv t(2)] va by simp_all
  note mm = sees_mem [OF inv t(2)] and fr = frame_nth [OF inv' va' t(4)]
  have sz: "sz = 1 \<or> sz = 2 \<or> sz = 4" by (rule access_cases [OF a])
  obtain x where x: "load (mainMemory m') (phys sp' va) sz = Inr x" using load_total [OF sz] by blast
  have n: "0 < nat sz" "unat va mod 128 + (nat sz - 1) < 128" using access_page(1,2) [OF a] by simp_all
  have "load (mainMemory m') (phys sp' va) sz = load (mem_of sp' m') (unat va) sz"
  proof (rule load_cong [OF sz])
    show "phys sp' va + nat sz \<le> length (mainMemory m')" "unat va + nat sz \<le> length (mem_of sp' m')"
      using fr(1,3) [OF n(2)] n(1) vm_okD(3) [OF vm_invD(7) [OF inv']] by simp_all
    show "mainMemory m' ! (phys sp' va + j) = mem_of sp' m' ! (unat va + j)" if "j < nat sz" for j
      using that access_page(2) [OF a] by (intro fr(2)) simp
  qed
  then have "load (mem_of sp m) (unat va) sz = Inr x" using x mm by simp
  moreover have "ReadMem K m va sz = Inr (m', Some x)" using t(1) x by (simp add: ReadMem_def)
  ultimately show ?thesis using inv' seesD(2,4) [OF t(2)] mm t(3) by (intro that)
qed

lemma WriteMem_mem:
  assumes inv: "vm_inv s sp m" and p: "load_pending_ok m" and a: "access va sz" and va: "unat va div 128 < length (as_pageTable sp)"
  obtains m' sp' where "WriteMem K m va sz x = Inr (m', True)"
    "mem_of sp' m' = blit (take (nat sz) (word_bytes x)) (mem_of sp m) (unat va)"
    "vm_inv s sp' m'" "numPages sp' = numPages sp" "load_pending_ok m'" "Machine.more m' = Machine.more m"
proof -
  obtain m1 sp' where t: "translate_retry K m va sz True = Inr (m1, Some (phys sp' va))" "sees s sp m sp' m1"
    "load_pending_ok m1" "te_valid (as_pageTable sp' ! (unat va div 128))"
    by (rule translate_retry_ok [OF inv p a va])
  have inv1: "vm_inv s sp' m1" and va': "unat va div 128 < length (as_pageTable sp')"
    using seesD(1) [OF t(2)] sees_length [OF inv t(2)] va by simp_all
  have sz: "sz = 1 \<or> sz = 2 \<or> sz = 4" by (rule access_cases [OF a])
  let ?bs = "take (nat sz) (word_bytes x)"
  have l: "length ?bs = nat sz" using sz by auto
  have n: "unat va mod 128 + length ?bs \<le> 128" "unat va mod 128 + (nat sz - 1) < 128" "0 < nat sz"
    using access_page(1,2) [OF a] unfolding l by simp_all
  have "phys sp' va + nat sz \<le> length (mainMemory m1)"
    using frame_nth(1) [OF inv1 va' t(4) n(2)] n(3) vm_okD(3) [OF vm_invD(7) [OF inv1]] by simp
  then have wm: "WriteMem K m va sz x = Inr (m1\<lparr>mainMemory := blit ?bs (mainMemory m1) (phys sp' va)\<rparr>, True)"
    using t(1) store_blit [OF sz] by (simp add: WriteMem_def)
  note st = store_pages [OF inv1 va' t(4) n(1) refl]
  have "load_pending_ok (m1\<lparr>mainMemory := blit ?bs (mainMemory m1) (phys sp' va)\<rparr>)"
    "Machine.more (m1\<lparr>mainMemory := blit ?bs (mainMemory m1) (phys sp' va)\<rparr>) = Machine.more m"
    using t(3) seesD(4) [OF t(2)] by (simp_all add: load_pending_ok_def)
  with wm st(2) [unfolded sees_mem [OF inv t(2)]] st(1) seesD(2) [OF t(2)] show ?thesis by (rule that)
qed

text \<open>An address past the end of the address space.\<close>

lemma refill_outside:
  assumes inv: "vm_inv s sp m" and i: "i < 4" and v: "length (as_pageTable sp) \<le> unat v"
  shows "refill i m v = Inl BadAccess"
proof -
  note m = vm_invD(1,3) [OF inv] and ok = vm_invD(7) [OF inv]
  have "get_pte m (pageTable m) v = Inl BadAccess" using m v by (simp add: get_pte_def space_of_def arr_def)
  moreover have "get_pte (m\<lparr>spaces := (spaces m)(s \<mapsto> sp\<lparr>as_pageTable := (as_pageTable sp)[x := e]\<rparr>)\<rparr>) (pageTable m) v = Inl BadAccess" for x e
    using m v by (simp add: get_pte_def space_of_def arr_def)
  moreover have "unat (virtualPage (tlb m ! i)) < length (as_pageTable sp)" if "te_valid (tlb m ! i)"
    using vm_okD(8) [OF ok i that] by simp
  ultimately show ?thesis using m upd_pte_eq [OF m(2), of "virtualPage (tlb m ! i)"] by (simp add: refill_def)
qed

lemma ReadMem_outside:
  assumes inv: "vm_inv s sp m" and p: "load_pending_ok m" and a: "access va sz" and va: "length (as_pageTable sp) \<le> unat va div 128"
  shows "ReadMem K m va sz = Inl BadAccess" "WriteMem K m va sz x = Inl BadAccess"
proof -
  have miss: "tlb_find (tlb m) (va div 128) [0..<TLBSize] = None"
  proof (rule ccontr)
    assume "\<not> ?thesis"
    then obtain i where i: "tlb_find (tlb m) (va div 128) [0..<TLBSize] = Some i" by blast
    then have "i < 4" "te_valid (tlb m ! i)" "virtualPage (tlb m ! i) = va div 128" using tlb_find_SomeD [OF i] by auto
    then show False using vm_okD(8) [OF vm_invD(7) [OF inv], of i] va by (simp add: unat_page)
  qed
  define r where "r = (registers m)[BadVAddrReg := va, unat (registers m ! LoadReg) := registers m ! LoadValueReg, LoadReg := 0, LoadValueReg := 0, 0 := 0]"
  have l: "length (registers m) = 40" by (rule vm_invD(6) [OF inv])
  let ?m0 = "m\<lparr>TLBMiss := TLBMiss m + 1\<rparr>"
  have r: "length r = 40" "r ! BadVAddrReg = va" using l p by (simp_all add: r_def load_pending_ok_def)
  have d: "DelayedLoad 0 0 (?m0\<lparr>registers := (registers ?m0)[BadVAddrReg := va]\<rparr>) = Inr (?m0\<lparr>registers := r\<rparr>)"
    using p l by (simp add: DelayedLoad_def Let_def r_def load_pending_ok_def)
  obtain st where t: "OneTick K (?m0\<lparr>registers := r, user_mode := False\<rparr>) = Inr (?m0\<lparr>registers := r, user_mode := False, mstats := st\<rparr>)"
    using tick by fastforce
  have "vm_inv s sp (?m0\<lparr>registers := r, user_mode := False, mstats := st\<rparr>)" by (rule vm_inv_cong [OF inv]) (simp_all add: r)
  moreover have "pick te_valid LastHitTime (tlb m) [0..<TLBSize] 0 < 4" by (rule pick_bound) auto
  moreover have "length (as_pageTable sp) \<le> unat (va div 128)" using va by (simp add: unat_page)
  ultimately have "LRU_TLB (?m0\<lparr>registers := r, user_mode := False, mstats := st\<rparr>) va = Inl BadAccess"
    unfolding LRU_TLB_def using refill_outside by simp
  then have "translate_retry K m va sz w = Inl BadAccess" for w
    using Translate_miss [OF a miss] d t r(2) by (simp add: translate_retry_def RaiseException_def page_fault)
  then show "ReadMem K m va sz = Inl BadAccess" "WriteMem K m va sz x = Inl BadAccess"
    by (simp_all add: ReadMem_def WriteMem_def)
qed

end

section \<open>The consistency check\<close>

lemma foldE_unit: "(\<And>i. i \<in> set is \<Longrightarrow> f i () = Inr ()) \<Longrightarrow> foldE f is () = Inr ()"
  by (induction "is") simp_all

lemma check_ok:
  assumes inv: "vm_inv s sp m"
  shows "TLB_PageTable_check m = Inr ()"
proof -
  note w = vm_okD [OF vm_invD(7) [OF inv]]
  have "foldE (\<lambda>i _. let e = tlb m ! i in
       if te_valid e then
         bindE (get_pte m (pageTable m) (virtualPage e)) (\<lambda>p.
         ASSERT (physicalPage e = physicalPage p) (ASSERT (te_valid p) (
         bindE (arr (PhysicalPageTable m) (physicalPage e)) (\<lambda>f. ASSERT (pp_valid f) (Inr ())))))
       else Inr ()) [0..<TLBSize] () = Inr ()"
  proof (rule foldE_unit)
    fix i assume "i \<in> set [0..<4]"
    then have i: "i < 4" by simp
    have "physicalPage (tlb m ! i) = physicalPage p \<and> te_valid p \<and> unat (physicalPage p) < 32 \<and> pp_valid (PhysicalPageTable m ! unat (physicalPage p))"
      if "te_valid (tlb m ! i)" "p = as_pageTable sp ! unat (virtualPage (tlb m ! i))" for p
      using w(8) [OF i that(1)] w(6) [of "unat (virtualPage (tlb m ! i))"] that(2) by blast
    then show "(let e = tlb m ! i in
       if te_valid e then
         bindE (get_pte m (pageTable m) (virtualPage e)) (\<lambda>p.
         ASSERT (physicalPage e = physicalPage p) (ASSERT (te_valid p) (
         bindE (arr (PhysicalPageTable m) (physicalPage e)) (\<lambda>f. ASSERT (pp_valid f) (Inr ())))))
       else Inr ()) = Inr ()"
      using w(5) w(8) [OF i] vm_inv_get_pte [OF inv, of "virtualPage (tlb m ! i)"] by (simp add: Let_def arr_def)
  qed
  moreover have "foldE (\<lambda>i _. bindE (get_pte m (pageTable m) (of_nat i)) (\<lambda>p.
       if te_valid p then
         bindE (arr (PhysicalPageTable m) (physicalPage p)) (\<lambda>f.
         ASSERT (pp_valid f) (ASSERT (VirtualPageNumber f = of_nat i) (Inr ())))
       else Inr ())) [0..<unat (pageTableSize m)] () = Inr ()"
  proof (rule foldE_unit)
    fix i assume "i \<in> set [0..<unat (pageTableSize m)]"
    then have i: "i < length (as_pageTable sp)" using vm_invD(4,5) [OF inv] by simp
    have u: "unat (of_nat i :: 32 word) = i" using i w(2) by (intro unat_small) simp
    show "bindE (get_pte m (pageTable m) (of_nat i)) (\<lambda>p.
       if te_valid p then
         bindE (arr (PhysicalPageTable m) (physicalPage p)) (\<lambda>f.
         ASSERT (pp_valid f) (ASSERT (VirtualPageNumber f = of_nat i) (Inr ())))
       else Inr ()) = Inr ()"
      using vm_inv_get_pte [OF inv, of "of_nat i"] i w(5) w(6) [OF i] unfolding u by (simp add: arr_def)
  qed
  ultimately show ?thesis unfolding TLB_PageTable_check_def by simp
qed

section \<open>Two processes\<close>

lemma evict_frame_foreign:
  assumes k: "pp_valid (PhysicalPageTable m ! k)" "OwnerThread (PhysicalPageTable m ! k) = Some T"
      "VirtualPageNumber (PhysicalPageTable m ! k) = ov" and T: "thread_space m T = Some q" "spaces m q = Some sq"
    and P: "pageTable m = Some s" "spaces m s = Some sp" "q \<noteq> s"
    and l: "unat ov < length (as_pageTable sq)" "unat ov < length (as_pageTable sp)" "length (vSpace sq) = 128 * length (as_pageTable sq)"
      "length (mainMemory m) = 4096" "k < 32"
  obtains m1 pt' where "evict_frame k m = Inr m1" "context_of m1 = context_of m" "mainMemory m1 = mainMemory m"
    "spaces m1 s = Some (sp\<lparr>as_pageTable := pt'\<rparr>)" "length pt' = length (as_pageTable sp)" "\<not> te_valid (pt' ! unat ov)"
proof -
  let ?e = "(as_pageTable sp ! unat ov)\<lparr>te_dirty := False, te_valid := False\<rparr>"
  have sw: "128 * unat ov + 128 \<le> length (vSpace sq)" "128 * k + 128 \<le> length (mainMemory m)" using l by simp_all
  obtain m1 where m1: "evict_frame k m = Inr m1"
    "spaces m1 s = Some (sp\<lparr>as_pageTable := (as_pageTable sp)[unat ov := ?e]\<rparr>)" "context_of m1 = context_of m" "mainMemory m1 = mainMemory m"
    using k T P l(1,2) sw by (simp add: evict_frame_def Let_def evict_owner_def upd_pte_eq swap_out_def space_of_def upd_ppt_def context_of_def)
  then show ?thesis using l(2) by (intro that [of m1 "(as_pageTable sp)[unat ov := ?e]"]) simp_all
qed

text \<open>
  C25. With two processes, taking a frame from another process marks the page of the same number absent in
  the page table of the process that runs, although that page is resident. From then on the process
  sees the old contents of the page in \<^verbatim>\<open>vSpace\<close> instead of what it has written.
\<close>

theorem foreign_eviction_loses_page:
  assumes k: "k = pick_frame (PhysicalPageTable m)" "k < 32" "pp_valid (PhysicalPageTable m ! k)" "OwnerThread (PhysicalPageTable m ! k) = Some T"
      "VirtualPageNumber (PhysicalPageTable m ! k) = ov" and T: "thread_space m T = Some q" "spaces m q = Some sq"
    and P: "pageTable m = Some s" "thread_space m (currentThread m) = Some s" "spaces m s = Some sp" "q \<noteq> s"
    and l: "unat ov < length (as_pageTable sq)" "unat ov < length (as_pageTable sp)" "length (vSpace sq) = 128 * length (as_pageTable sq)"
      "length (vSpace sp) = 128 * length (as_pageTable sp)" "length (mainMemory m) = 4096"
    and v: "unat v < length (as_pageTable sp)" "v \<noteq> ov" and res: "te_valid (as_pageTable sp ! unat ov)"
  shows "page_of sp m (unat ov) = frame_bytes (mainMemory m) (unat (physicalPage (as_pageTable sp ! unat ov))) \<and>
    (\<exists>m' sp'. AllocatePhysicalPage m v = Inr (m', k) \<and> spaces m' s = Some sp' \<and>
       page_of sp' m' (unat ov) = slice (128 * unat ov) 128 (vSpace sp))"
proof
  show "page_of sp m (unat ov) = frame_bytes (mainMemory m) (unat (physicalPage (as_pageTable sp ! unat ov)))"
    using res by (simp add: page_of_def vpage_def)
  obtain m1 pt' where m1: "evict_frame k m = Inr m1" "context_of m1 = context_of m" "mainMemory m1 = mainMemory m"
    "spaces m1 s = Some (sp\<lparr>as_pageTable := pt'\<rparr>)" "length pt' = length (as_pageTable sp)" "\<not> te_valid (pt' ! unat ov)"
    by (rule evict_frame_foreign [OF k(3,4,5) T P(1,3,4) l(1,2,3,5) k(2)])
  have c: "pageTable m1 = Some s" "thread_space m1 (currentThread m1) = Some s" using m1(2) P by (simp_all add: context_of_def)
  have l1: "unat v < length (as_pageTable (sp\<lparr>as_pageTable := pt'\<rparr>))" "length (vSpace (sp\<lparr>as_pageTable := pt'\<rparr>)) = 128 * length (as_pageTable (sp\<lparr>as_pageTable := pt'\<rparr>))"
    "length (mainMemory m1) = 4096" using v l m1(3,5) by simp_all
  obtain e f where fill: "fill_frame k v m1 = Inr (m1\<lparr>
      mainMemory := blit (slice (128 * unat v) 128 (vSpace (sp\<lparr>as_pageTable := pt'\<rparr>))) (mainMemory m1) (128 * k),
      PhysicalPageTable := (PhysicalPageTable m1)[k := f],
      spaces := (spaces m1)(s \<mapsto> (sp\<lparr>as_pageTable := pt'\<rparr>)\<lparr>as_pageTable := (as_pageTable (sp\<lparr>as_pageTable := pt'\<rparr>))[unat v := e]\<rparr>)\<rparr>)"
    using fill_frame_eq [OF c m1(4) l1 k(2)] by metis
  have "unat v \<noteq> unat ov" using v(2) by (simp add: word_unat_eq_iff)
  with m1 fill k(1) show "\<exists>m' sp'. AllocatePhysicalPage m v = Inr (m', k) \<and> spaces m' s = Some sp' \<and>
       page_of sp' m' (unat ov) = slice (128 * unat ov) 128 (vSpace sp)"
    by (simp add: AllocatePhysicalPage_def Let_def page_of_def vpage_def)
qed

lemma pick_same: "\<forall>i \<in> set is. full (t ! i) \<and> stamp (t ! i) = stamp (t ! e) \<Longrightarrow> pick full stamp t is e = e"
  by (induction "is") simp_all

text \<open>A machine with two processes: the first owns frame 0, the second runs and has its page 0 in frame 1.\<close>

definition ex_pte :: TranslationEntry where
  "ex_pte = \<lparr>virtualPage = 0, physicalPage = 1, te_valid = True, readOnly = False, used = True, te_dirty = True, InTime = 0, LastHitTime = 0\<rparr>"

definition ex_space :: AddrSpace where
  "ex_space = \<lparr>as_pageTable = [ex_pte, ex_pte\<lparr>te_valid := False\<rparr>], numPages = 2, vSpace = replicate 256 0\<rparr>"

definition ex_two :: Machine where
  "ex_two = (new_Machine (\<lambda>_. ex_pte)
     (map (\<lambda>i. \<lparr>VirtualPageNumber = 0, OwnerThread = Some (if i = 0 then 0 else 1), pp_LastHitTime = 0, pp_valid = True, pp_dirty = True\<rparr>) [0..<32])
     new_Statistics 1)\<lparr>mainMemory := replicate 4096 7, pageTable := Some 1, pageTableSize := 2,
     spaces := [0 \<mapsto> ex_space, 1 \<mapsto> ex_space], thread_space := [0 \<mapsto> 0, 1 \<mapsto> 1]\<rparr>"

theorem foreign_eviction_loses_page_witness:
  "page_of ex_space ex_two 0 = replicate 128 7 \<and>
   (\<exists>m' sp'. AllocatePhysicalPage ex_two 1 = Inr (m', 0) \<and> spaces m' 1 = Some sp' \<and> page_of sp' m' 0 = replicate 128 0)"
proof -
  have "pick_frame (PhysicalPageTable ex_two) = 0"
    unfolding pick_frame_def by (rule pick_same) (simp add: ex_two_def new_Machine_def del: upt_rec_numeral)
  moreover have "PhysicalPageTable ex_two ! 0 = \<lparr>VirtualPageNumber = 0, OwnerThread = Some 0, pp_LastHitTime = 0, pp_valid = True, pp_dirty = True\<rparr>"
    by (simp add: ex_two_def new_Machine_def del: upt_rec_numeral)
  ultimately show ?thesis
    using foreign_eviction_loses_page [of 0 ex_two 0 0 0 ex_space 1 ex_space 1]
    by (simp add: ex_two_def new_Machine_def ex_space_def ex_pte_def frame_bytes_def slice_def min_def del: upt_rec_numeral)
qed

end
