(* ===== verification/Process_Image.thy ===== *)
theory Process_Image
  imports Host_Stub Paging
begin

text \<open>
  Loading a program: the constructor of \<^verbatim>\<open>AddrSpace\<close> in \<^verbatim>\<open>code/userprog/addrspace.cc\<close>, the object file
  format of \<^verbatim>\<open>code/bin/noff.h\<close>, and \<^verbatim>\<open>StartProcess\<close> of \<^verbatim>\<open>code/userprog/progtest.cc\<close> up to the jump to
  the user program. The executable is a file of the host.
\<close>

section \<open>Object files\<close>

abbreviation (input) NOFFMAGIC :: "32 word" where "NOFFMAGIC \<equiv> 0xbadfad"
abbreviation (input) UserStackSize :: "32 word" where "UserStackSize \<equiv> 1024"

record Segment =
  virtualAddr :: "32 word"
  inFileAddr :: "32 word"
  seg_size :: "32 word"

record NoffHeader =
  noffMagic :: "32 word"
  code :: Segment
  initData :: Segment
  uninitData :: Segment

definition Segment_of :: "byte list \<Rightarrow> nat \<Rightarrow> Segment" where
  "Segment_of bs k = \<lparr>virtualAddr = bytes_word (slice k 4 bs), inFileAddr = bytes_word (slice (k + 4) 4 bs),
     seg_size = bytes_word (slice (k + 8) 4 bs)\<rparr>"

definition NoffHeader_of :: "byte list \<Rightarrow> NoffHeader" where
  "NoffHeader_of bs = \<lparr>noffMagic = bytes_word (slice 0 4 bs), code = Segment_of bs 4,
     initData = Segment_of bs 16, uninitData = Segment_of bs 28\<rparr>"

text \<open>The host is little-endian, as the machine is.\<close>

definition WordToHost :: "32 word \<Rightarrow> 32 word" where
  "WordToHost w = w"

definition SwapSegment :: "Segment \<Rightarrow> Segment" where
  "SwapSegment s = s\<lparr>seg_size := WordToHost (seg_size s), virtualAddr := WordToHost (virtualAddr s),
     inFileAddr := WordToHost (inFileAddr s)\<rparr>"

definition SwapHeader :: "NoffHeader \<Rightarrow> NoffHeader" where
  "SwapHeader n = n\<lparr>noffMagic := WordToHost (noffMagic n), code := SwapSegment (code n),
     initData := SwapSegment (initData n), uninitData := SwapSegment (uninitData n)\<rparr>"

section \<open>The constructor\<close>

text \<open>
  \<open>junk\<close> is what \<^verbatim>\<open>new\<close> finds in memory: the entries of the page table and the bytes of \<^verbatim>\<open>vSpace\<close>;
  \<open>jh\<close> is the header before the file is read into it.
\<close>

definition read_into :: "'h Posix \<Rightarrow> StubFile \<Rightarrow> byte list \<Rightarrow> 32 word \<Rightarrow> 32 word \<Rightarrow> 32 word \<Rightarrow> 'h \<Rightarrow> ('h \<times> byte list) result" where
  "read_into P f buf at numBytes position h =
     bindE (Stub_ReadAt P f (sint numBytes) (sint position) h) (\<lambda>(h, k, bs).
     if 0 \<le> sint at \<and> unat at + length bs \<le> length buf then Inr (h, blit bs buf (unat at)) else Inl BadAccess)"

definition new_AddrSpace :: "'h Posix \<Rightarrow> (nat \<Rightarrow> TranslationEntry) \<Rightarrow> (nat \<Rightarrow> byte) \<Rightarrow> byte list \<Rightarrow> StubFile \<Rightarrow> 'h \<Rightarrow> ('h \<times> AddrSpace) result" where
  "new_AddrSpace P junk jb jh executable h =
     bindE (read_into P executable jh 0 40 0 h) (\<lambda>(h, hb).
     let noffH = NoffHeader_of hb;
         noffH = (if noffMagic noffH \<noteq> NOFFMAGIC \<and> WordToHost (noffMagic noffH) = NOFFMAGIC then SwapHeader noffH else noffH) in
     ASSERT (noffMagic noffH = NOFFMAGIC)
      (let sz = seg_size (code noffH) + seg_size (initData noffH) + seg_size (uninitData noffH) + UserStackSize;
           np = sz div 128 + (if sz mod 128 > 0 then 1 else 0);
           sz = np * 128;
           pt = map (\<lambda>i. (junk i)\<lparr>te_valid := False, te_dirty := False\<rparr>) [0..<unat np];
           vs = map jb [0..<unat sz] in
       bindE (if 0 <s seg_size (code noffH)
              then read_into P executable vs 0 (seg_size (code noffH)) (inFileAddr (code noffH)) h else Inr (h, vs)) (\<lambda>(h, vs).
       bindE (if 0 <s seg_size (initData noffH)
              then read_into P executable vs (virtualAddr (initData noffH)) (seg_size (initData noffH)) (inFileAddr (initData noffH)) h
              else Inr (h, vs)) (\<lambda>(h, vs).
       Inr (h, \<lparr>as_pageTable = pt, numPages = np, vSpace = vs\<rparr>)))))"

text \<open>
  \<^verbatim>\<open>StartProcess\<close> up to \<^verbatim>\<open>machine->Run()\<close>; \<open>s\<close> is the address of the new address space. \<open>None\<close>: there is
  no such file.
\<close>

definition StartProcess :: "'h Posix \<Rightarrow> (nat \<Rightarrow> TranslationEntry) \<Rightarrow> (nat \<Rightarrow> byte) \<Rightarrow> byte list \<Rightarrow> nat \<Rightarrow> byte list \<Rightarrow>
    'h \<Rightarrow> 'a Machine_scheme \<Rightarrow> ('h \<times> 'a Machine_scheme option) result" where
  "StartProcess P junk jb jh s filename h m =
     bindE (Stub_Open P filename h) (\<lambda>(h, r). case r of None \<Rightarrow> Inr (h, None) | Some executable \<Rightarrow>
     bindE (new_AddrSpace P junk jb jh executable h) (\<lambda>(h, sp).
     let m = m\<lparr>spaces := (spaces m)(s \<mapsto> sp), thread_space := (thread_space m)(currentThread m := Some s)\<rparr> in
     bindE (Stub_delete P executable h) (\<lambda>h.
     bindE (InitRegisters sp m) (\<lambda>m.
     bindE (RestoreState s m) (\<lambda>m. Inr (h, Some m))))))"

section \<open>What is loaded\<close>

text \<open>An object file with its segments inside the file and inside the address space, data after code.\<close>

definition total_size :: "NoffHeader \<Rightarrow> nat" where
  "total_size n = unat (seg_size (code n)) + unat (seg_size (initData n)) + unat (seg_size (uninitData n)) + 1024"

definition noff_fits :: "byte list \<Rightarrow> NoffHeader \<Rightarrow> bool" where
  "noff_fits data n \<longleftrightarrow> 40 \<le> length data \<and> n = NoffHeader_of (take 40 data) \<and> noffMagic n = NOFFMAGIC \<and>
     total_size n < 2 ^ 31 \<and> length data < 2 ^ 31 \<and>
     unat (inFileAddr (code n)) + unat (seg_size (code n)) \<le> length data \<and>
     unat (inFileAddr (initData n)) + unat (seg_size (initData n)) \<le> length data \<and>
     unat (seg_size (code n)) \<le> unat (virtualAddr (initData n)) \<and>
     unat (virtualAddr (initData n)) + unat (seg_size (initData n)) \<le> total_size n"

definition segment_bytes :: "byte list \<Rightarrow> Segment \<Rightarrow> byte list" where
  "segment_bytes data s = slice (unat (inFileAddr s)) (unat (seg_size s)) data"

text \<open>What the loader makes of it: the code at address 0, the data at its address; \<open>jb\<close> fills what no segment covers.\<close>

definition loaded_bytes :: "byte list \<Rightarrow> NoffHeader \<Rightarrow> (nat \<Rightarrow> byte) \<Rightarrow> nat \<Rightarrow> byte" where
  "loaded_bytes data n jb j =
     (if j < unat (seg_size (code n)) then segment_bytes data (code n) ! j
      else if unat (virtualAddr (initData n)) \<le> j \<and> j < unat (virtualAddr (initData n)) + unat (seg_size (initData n))
      then segment_bytes data (initData n) ! (j - unat (virtualAddr (initData n)))
      else jb j)"

text \<open>
  What the object file format asks for: both segments at their \<^verbatim>\<open>virtualAddr\<close>. The loader ignores that of the code, so the two agree for
  executables whose code belongs at address 0.
\<close>

definition image :: "byte list \<Rightarrow> NoffHeader \<Rightarrow> (nat \<Rightarrow> byte) \<Rightarrow> nat \<Rightarrow> byte" where
  "image data n jb j =
     (let c = unat (virtualAddr (code n)); d = unat (virtualAddr (initData n)) in
      if c \<le> j \<and> j < c + unat (seg_size (code n)) then segment_bytes data (code n) ! (j - c)
      else if d \<le> j \<and> j < d + unat (seg_size (initData n)) then segment_bytes data (initData n) ! (j - d)
      else jb j)"

definition noff_ok :: "byte list \<Rightarrow> NoffHeader \<Rightarrow> bool" where
  "noff_ok data n \<longleftrightarrow> noff_fits data n \<and> virtualAddr (code n) = 0"

lemma loaded_image: "noff_ok data n \<Longrightarrow> loaded_bytes data n jb = image data n jb"
  by (simp add: noff_ok_def image_def loaded_bytes_def fun_eq_iff Let_def)

lemma read_into_serves:
  assumes sv: "serves P fd data I" "I h" and n: "unat n < 2 ^ 31" "unat pos < 2 ^ 31" "unat pos + unat n \<le> length data"
    and b: "unat at < 2 ^ 31" "unat at + unat n \<le> length buf"
  obtains h' where "read_into P \<lparr>sf_file = fd, currentOffset = c\<rparr> buf at n pos h = Inr (h', blit (slice (unat pos) (unat n) data) buf (unat at))" "I h'"
proof -
  note si = sint_small [OF n(1)] sint_small [OF n(2)] sint_small [OF b(1)]
  have z: "0 \<le> sint pos" "0 \<le> sint n" by (simp_all add: si)
  obtain h' where h': "Stub_ReadAt P \<lparr>sf_file = fd, currentOffset = c\<rparr> (sint n) (sint pos) h =
      Inr (h', int (length (take (nat (sint n)) (drop (nat (sint pos)) data))), take (nat (sint n)) (drop (nat (sint pos)) data))" "I h'"
    by (rule Stub_ReadAt_serves [OF sv z])
  have "take (nat (sint n)) (drop (nat (sint pos)) data) = slice (unat pos) (unat n) data" by (simp add: si slice_def)
  then have "read_into P \<lparr>sf_file = fd, currentOffset = c\<rparr> buf at n pos h = Inr (h', blit (slice (unat pos) (unat n) data) buf (unat at))"
    using h'(1) b n by (simp add: read_into_def si)
  then show ?thesis using h'(2) by (rule that)
qed

lemma pages_of_size:
  assumes "sz < 2 ^ 31" "np = of_nat sz div (128 :: 32 word) + (if of_nat sz mod (128 :: 32 word) > 0 then 1 else 0)"
  shows "sz \<le> 128 * unat np" "unat np < 2 ^ 25" "unat (np * 128) = 128 * unat np"
proof -
  have u: "unat (of_nat sz :: 32 word) = sz" using assms(1) by (intro unat_small) simp
  have m: "of_nat sz mod (128 :: 32 word) > 0 \<longleftrightarrow> sz mod 128 > 0"
    by (simp add: word_less_nat_alt unat_mod u)
  define q r where "q = sz div 128" and "r = sz mod 128"
  have qr: "sz = 128 * q + r" "r < 128" by (simp_all add: q_def r_def)
  have np: "unat np = q + (if r > 0 then 1 else 0)"
    using assms by (simp add: unat_word_ariths unat_div u m q_def r_def)
  have "q < 2 ^ 24" using qr(1) assms(1) by simp
  with qr np show a: "sz \<le> 128 * unat np" "unat np < 2 ^ 25" by simp_all
  then show "unat (np * 128) = 128 * unat np" by (simp add: unat_word_ariths)
qed

text \<open>The two segments copied into the new array.\<close>

lemma two_blits:
  assumes "length xs = n" "n \<le> v" "v + length ys \<le> length vs"
  shows "blit ys (blit xs vs 0) v = map (\<lambda>j. if j < n then xs ! j else if v \<le> j \<and> j < v + length ys then ys ! (j - v) else vs ! j) [0..<length vs]"
proof (rule nth_equalityI)
  fix j assume "j < length (blit ys (blit xs vs 0) v)"
  then have "j < length vs" using assms by simp
  then show "blit ys (blit xs vs 0) v ! j =
      map (\<lambda>j. if j < n then xs ! j else if v \<le> j \<and> j < v + length ys then ys ! (j - v) else vs ! j) [0..<length vs] ! j"
    using assms by (auto simp: nth_blit)
qed (use assms in simp)

lemma noff_fitsD:
  assumes "noff_fits data n"
  shows "40 \<le> length data" "NoffHeader_of (take 40 data) = n" "noffMagic n = NOFFMAGIC" "total_size n < 2 ^ 31" "length data < 2 ^ 31"
    "unat (inFileAddr (code n)) + unat (seg_size (code n)) \<le> length data"
    "unat (inFileAddr (initData n)) + unat (seg_size (initData n)) \<le> length data"
    "unat (seg_size (code n)) \<le> unat (virtualAddr (initData n))"
    "unat (virtualAddr (initData n)) + unat (seg_size (initData n)) \<le> total_size n"
  using assms unfolding noff_fits_def by blast+

text \<open>A segment is read only if its size is positive; an empty one changes nothing.\<close>

lemma read_segment:
  assumes sv: "serves P fd data I" "I h" and b: "unat (seg_size s) < 2 ^ 31" "unat (inFileAddr s) < 2 ^ 31" "unat at < 2 ^ 31"
    "unat (inFileAddr s) + unat (seg_size s) \<le> length data" "unat at + unat (seg_size s) \<le> length buf"
  obtains h' where "(if 0 <s seg_size s then read_into P \<lparr>sf_file = fd, currentOffset = c\<rparr> buf at (seg_size s) (inFileAddr s) h
      else Inr (h, buf)) = Inr (h', blit (segment_bytes data s) buf (unat at))" "I h'"
proof (cases "0 <s seg_size s")
  case True
  obtain h' where "read_into P \<lparr>sf_file = fd, currentOffset = c\<rparr> buf at (seg_size s) (inFileAddr s) h =
      Inr (h', blit (slice (unat (inFileAddr s)) (unat (seg_size s)) data) buf (unat at))" "I h'"
    by (rule read_into_serves [OF sv b(1,2,4,3,5)])
  then show ?thesis using True that by (simp add: segment_bytes_def)
next
  case False
  then have "sint (seg_size s) \<le> 0" by (simp add: word_sless_alt)
  then have "unat (seg_size s) = 0" unfolding sint_small [OF b(1)] by (simp add: uint_0_iff)
  then have "segment_bytes data s = []" by (simp add: segment_bytes_def slice_def)
  then show ?thesis using False that sv(2) by (simp add: blit_def)
qed

lemma new_AddrSpace_image:
  assumes sv: "serves P fd data I" "I h" and ok: "noff_fits data n" and jh: "length jh = 40"
  obtains h' sp where "new_AddrSpace P junk jb jh \<lparr>sf_file = fd, currentOffset = c\<rparr> h = Inr (h', sp)" "I h'"
    "length (as_pageTable sp) = unat (numPages sp)" "unat (numPages sp) < 2 ^ 25" "total_size n \<le> 128 * unat (numPages sp)"
    "\<forall>e \<in> set (as_pageTable sp). \<not> te_valid e" "vSpace sp = map (loaded_bytes data n jb) [0..<128 * unat (numPages sp)]"
proof -
  note o = noff_fitsD [OF ok]
  let ?f = "\<lparr>sf_file = fd, currentOffset = c\<rparr>" and ?c = "code n" and ?d = "initData n"
  define sz where "sz = seg_size (code n) + seg_size (initData n) + seg_size (uninitData n) + UserStackSize"
  define np where "np = sz div 128 + (if sz mod 128 > 0 then 1 else 0)"
  have szn: "sz = of_nat (total_size n)" by (simp add: sz_def total_size_def)
  note pg = pages_of_size [OF o(4) np_def [unfolded szn]]
  have sc: "unat (seg_size ?c) < 2 ^ 31" "unat (inFileAddr ?c) < 2 ^ 31" "unat (0 :: 32 word) < 2 ^ 31"
    and sd: "unat (seg_size ?d) < 2 ^ 31" "unat (inFileAddr ?d) < 2 ^ 31" "unat (virtualAddr ?d) < 2 ^ 31"
    using o(4,5,6,7,9) by simp_all
  let ?vs = "map jb [0..<unat (np * 128)]"
  have lv: "length ?vs = 128 * unat np" using pg(3) by simp
  let ?xs = "segment_bytes data ?c" and ?ys = "segment_bytes data ?d"
  have l: "length ?xs = unat (seg_size ?c)" "length ?ys = unat (seg_size ?d)" using o(6,7) by (simp_all add: segment_bytes_def)
  have b: "unat (0 :: 32 word) + unat (seg_size ?c) \<le> length ?vs" "unat (virtualAddr ?d) + length ?ys \<le> length ?vs"
    using o(8,9) pg(1) lv l(2) by simp_all
  have "unat (40 :: 32 word) < 2 ^ 31" "unat (0 :: 32 word) < 2 ^ 31" "unat (0 :: 32 word) + unat (40 :: 32 word) \<le> length data"
    "unat (0 :: 32 word) < 2 ^ 31" "unat (0 :: 32 word) + unat (40 :: 32 word) \<le> length jh" using o(1) jh by simp_all
  then obtain h1 where h1: "read_into P ?f jh 0 40 0 h = Inr (h1, blit (slice (unat (0 :: 32 word)) (unat (40 :: 32 word)) data) jh (unat (0 :: 32 word)))" "I h1"
    by (rule read_into_serves [OF sv])
  have hdr: "blit (slice (unat (0 :: 32 word)) (unat (40 :: 32 word)) data) jh (unat (0 :: 32 word)) = take 40 data"
    using o(1) jh by (simp add: slice_def blit_def)
  obtain h2 where h2: "(if 0 <s seg_size ?c then read_into P ?f ?vs 0 (seg_size ?c) (inFileAddr ?c) h1 else Inr (h1, ?vs)) =
      Inr (h2, blit ?xs ?vs (unat (0 :: 32 word)))" "I h2"
    by (rule read_segment [OF sv(1) h1(2) sc o(6) b(1)])
  have "unat (virtualAddr ?d) + unat (seg_size ?d) \<le> length (blit ?xs ?vs (unat (0 :: 32 word)))" using b l by simp
  then obtain h3 where h3: "(if 0 <s seg_size ?d then read_into P ?f (blit ?xs ?vs (unat (0 :: 32 word))) (virtualAddr ?d) (seg_size ?d) (inFileAddr ?d) h2
      else Inr (h2, blit ?xs ?vs (unat (0 :: 32 word)))) = Inr (h3, blit ?ys (blit ?xs ?vs (unat (0 :: 32 word))) (unat (virtualAddr ?d)))" "I h3"
    by (rule read_segment [OF sv(1) h2(2) sd o(7)])
  let ?sp = "\<lparr>as_pageTable = map (\<lambda>i. (junk i)\<lparr>te_valid := False, te_dirty := False\<rparr>) [0..<unat np],
      numPages = np, vSpace = blit ?ys (blit ?xs ?vs (unat (0 :: 32 word))) (unat (virtualAddr ?d))\<rparr>"
  have "new_AddrSpace P junk jb jh ?f h = Inr (h3, ?sp)"
    unfolding new_AddrSpace_def h1(1) hdr bindE_Inr prod.case Let_def o(2)
    by (simp only: o(3) simp_thms if_False if_True not_True_eq_False ASSERT_True sz_def [symmetric] np_def [symmetric] h2(1) h3(1) bindE_Inr prod.case)
  moreover have "vSpace ?sp = map (loaded_bytes data n jb) [0..<128 * unat (numPages ?sp)]"
    using two_blits [OF l(1) o(8) b(2)] lv l(2) by (simp add: loaded_bytes_def)
  ultimately show ?thesis using h3(2) pg(1,2) by (intro that [of h3 ?sp]) auto
qed

section \<open>The process before its first instruction\<close>

text \<open>A machine on which no process has pages.\<close>

definition unused :: "'a Machine_scheme \<Rightarrow> bool" where
  "unused m \<longleftrightarrow> length (registers m) = 40 \<and> length (mainMemory m) = 4096 \<and> length (tlb m) = 4 \<and> length (PhysicalPageTable m) = 32 \<and>
     (\<forall>e \<in> set (tlb m). \<not> te_valid e) \<and> (\<forall>f \<in> set (PhysicalPageTable m). \<not> pp_valid f)"

lemma clear_registers:
  "n \<le> 40 \<Longrightarrow> length (registers m) = 40 \<Longrightarrow>
    foldE (\<lambda>i m. WriteRegister m (int i) 0) [0..<n] m = Inr (m\<lparr>registers := replicate n 0 @ drop n (registers m)\<rparr>)"
proof (induction n)
  case (Suc n)
  have "(replicate n 0 @ drop n (registers m))[n := 0] = replicate (Suc n) 0 @ drop (Suc n) (registers m)"
    using Suc.prems by (simp add: list_update_append replicate_append_same [symmetric] Cons_nth_drop_Suc [symmetric])
  then show ?case using Suc by (simp add: foldE_append WriteRegister_def)
qed simp

lemma InitRegisters_eq:
  assumes "length (registers m) = 40"
  shows "InitRegisters sp m = Inr (m\<lparr>registers := (replicate 40 0)[PCReg := 0, NextPCReg := 4, StackReg := numPages sp * 128 - 16]\<rparr>)"
  using clear_registers [of 40 m] assms by (simp add: InitRegisters_def WriteRegister_def del: upt_rec_numeral)

lemma fresh_process_inv:
  assumes u: "unused m" and sp: "length (as_pageTable sp) = unat (numPages sp)" "unat (numPages sp) < 2 ^ 25"
    "\<forall>e \<in> set (as_pageTable sp). \<not> te_valid e" "length (vSpace sp) = 128 * unat (numPages sp)"
    and r: "length r = 40"
    and m': "m' = m\<lparr>registers := r, pageTable := Some s, pageTableSize := numPages sp, spaces := (spaces m)(s \<mapsto> sp),
      thread_space := (thread_space m)(currentThread m := Some s)\<rparr>"
  shows "vm_inv s sp m'" "mem_of sp m' = vSpace sp"
proof -
  have t: "\<not> te_valid (tlb m ! i)" if "i < 4" for i using u that by (simp add: unused_def)
  have f: "\<not> pp_valid (PhysicalPageTable m ! i)" if "i < 32" for i using u that by (simp add: unused_def)
  have p: "\<not> te_valid (as_pageTable sp ! i)" if "i < length (as_pageTable sp)" for i using sp(3) that by simp
  have "vm_ok None (currentThread m) (as_pageTable sp) (vSpace sp) (mainMemory m) (tlb m) (PhysicalPageTable m)"
    by (rule vm_okI) (use u sp t f p in \<open>auto simp: unused_def\<close>)
  then show "vm_inv s sp m'" using sp(1) r by (simp add: vm_inv_def m')
  show "mem_of sp m' = vSpace sp"
  proof (rule nth_equalityI)
    fix j assume "j < length (mem_of sp m')"
    then have j: "j < 128 * length (as_pageTable sp)" by simp
    have d: "j div 128 < length (as_pageTable sp)" using j by (simp add: less_mult_imp_div_less mult.commute)
    have b: "128 * (j div 128) + 128 \<le> length (vSpace sp)" using d sp(1,4) by simp
    show "mem_of sp m' ! j = vSpace sp ! j"
      unfolding nth_mem_of [OF j] using p [OF d] nth_slice [OF b, of "j mod 128"] by (simp add: page_of_def vpage_def)
  qed (use sp in simp)
qed

lemma StartProcess_image:
  assumes u: "unused m" and op: "h_open P name False h = (h0, fd)" "0 \<le> fd" and sv: "serves P fd data I" "I h0"
    and cl: "\<forall>h. I h \<longrightarrow> 0 \<le> snd (h_close P fd h)" and ok: "noff_fits data n" and jh: "length jh = 40"
  shows "\<exists>h' m' sp. StartProcess P junk jb jh s name h m = Inr (h', Some m') \<and> vm_inv s sp m' \<and>
    total_size n \<le> 128 * unat (numPages sp) \<and> mem_of sp m' = map (loaded_bytes data n jb) [0..<128 * unat (numPages sp)] \<and>
    registers m' ! PCReg = 0 \<and> registers m' ! NextPCReg = 4 \<and> registers m' ! StackReg = numPages sp * 128 - 16 \<and>
    load_pending_ok m'"
proof -
  obtain h1 sp where sp: "new_AddrSpace P junk jb jh \<lparr>sf_file = fd, currentOffset = 0\<rparr> h0 = Inr (h1, sp)" "I h1"
    "length (as_pageTable sp) = unat (numPages sp)" "unat (numPages sp) < 2 ^ 25" "total_size n \<le> 128 * unat (numPages sp)"
    "\<forall>e \<in> set (as_pageTable sp). \<not> te_valid e" "vSpace sp = map (loaded_bytes data n jb) [0..<128 * unat (numPages sp)]"
    by (rule new_AddrSpace_image [OF sv ok jh])
  obtain h2 r where c: "h_close P fd h1 = (h2, r)" by (cases "h_close P fd h1")
  have r0: "0 \<le> r" using cl sp(2) c by (metis snd_conv)
  let ?r = "(replicate 40 (0 :: 32 word))[PCReg := 0, NextPCReg := 4, StackReg := numPages sp * 128 - 16]"
  let ?m = "m\<lparr>registers := ?r, pageTable := Some s, pageTableSize := numPages sp, spaces := (spaces m)(s \<mapsto> sp),
      thread_space := (thread_space m)(currentThread m := Some s)\<rparr>"
  let ?m1 = "m\<lparr>spaces := (spaces m)(s \<mapsto> sp), thread_space := (thread_space m)(currentThread m := Some s)\<rparr>"
  have "InitRegisters sp ?m1 = Inr (?m1\<lparr>registers := ?r\<rparr>)" by (rule InitRegisters_eq) (use u in \<open>simp add: unused_def\<close>)
  then have st: "StartProcess P junk jb jh s name h m = Inr (h2, Some ?m)"
    using op sp(1) c r0 by (simp add: StartProcess_def Stub_Open_def OpenForReadWrite_def Stub_new_def Stub_delete_def Close_def
        RestoreState_def space_of_def)
  have lv: "length (vSpace sp) = 128 * unat (numPages sp)" unfolding sp(7) by simp
  have "vm_inv s sp ?m" "mem_of sp ?m = vSpace sp"
    by (rule fresh_process_inv [OF u sp(3,4,6) lv _ refl], simp)+
  then show ?thesis using st sp(5,7) by (intro exI [of _ h2] exI [of _ ?m] exI [of _ sp]) (simp add: load_pending_ok_def)
qed


text \<open>The address of the code in the header has no effect: the code is at address 0 of the process.\<close>

theorem code_address_ignored:
  assumes u: "unused m" and op: "h_open P name False h = (h0, fd)" "0 \<le> fd" and sv: "serves P fd data I" "I h0"
    and cl: "\<forall>h. I h \<longrightarrow> 0 \<le> snd (h_close P fd h)" and ok: "noff_fits data n" and jh: "length jh = 40"
  shows "\<exists>h' m' sp. StartProcess P junk jb jh s name h m = Inr (h', Some m') \<and>
    take (unat (seg_size (code n))) (mem_of sp m') = segment_bytes data (code n)"
proof -
  obtain h' m' sp where r: "StartProcess P junk jb jh s name h m = Inr (h', Some m')" "total_size n \<le> 128 * unat (numPages sp)"
    "mem_of sp m' = map (loaded_bytes data n jb) [0..<128 * unat (numPages sp)]"
    using StartProcess_image [OF assms, of junk jb s] by (elim exE conjE) (rule that)
  have "unat (seg_size (code n)) \<le> 128 * unat (numPages sp)" using r(2) by (simp add: total_size_def)
  moreover have "length (segment_bytes data (code n)) = unat (seg_size (code n))"
    using noff_fitsD(6) [OF ok] by (simp add: segment_bytes_def)
  ultimately have "take (unat (seg_size (code n))) (mem_of sp m') = segment_bytes data (code n)"
    unfolding r(3) take_map by (intro nth_equalityI) (simp_all add: loaded_bytes_def)
  with r(1) show ?thesis by blast
qed

text \<open>A host with one file, at descriptor 3, and its position as state: an object file with one instruction.\<close>

definition ex_data :: "byte list" where
  "ex_data = [0xad, 0xdf, 0xba, 0,  0, 0, 0, 0,  40, 0, 0, 0,  4, 0, 0, 0,
     4, 0, 0, 0,  44, 0, 0, 0,  0, 0, 0, 0,  4, 0, 0, 0,  44, 0, 0, 0,  0, 0, 0, 0,  1, 2, 3, 4]"

definition ex_posix :: "nat Posix" where
  "ex_posix = \<lparr>h_open = (\<lambda>_ _ h. (h, 3)),
     h_read = (\<lambda>_ n h. let bs = take (nat n) (drop h ex_data) in (h + length bs, int (length bs), bs)),
     h_write = (\<lambda>_ bs h. (h, int (length bs))), h_lseek = (\<lambda>_ p _ h. (nat p, p)), h_close = (\<lambda>_ h. (h, 0)), h_unlink = (\<lambda>_ h. (h, 0)),
     h_select = (\<lambda>_ h. (h, 0)), h_mkdir = (\<lambda>_ h. h), h_rmdir = (\<lambda>_ h. h), h_chdir = (\<lambda>_ h. h), h_system = (\<lambda>_ h. h),
     h_putchar = (\<lambda>_ h. h), h_getchar = (\<lambda>h. (h, 0))\<rparr>"

definition ex_fresh :: Machine where
  "ex_fresh = new_Machine (\<lambda>_. ex_pte) (replicate 32 \<lparr>VirtualPageNumber = 0, OwnerThread = None, pp_LastHitTime = 0, pp_valid = False, pp_dirty = False\<rparr>)
     new_Statistics 0"

lemma ex_serves: "serves ex_posix 3 ex_data (\<lambda>_. True)"
  by (simp add: serves_def ex_posix_def Let_def)

definition ex_noff :: NoffHeader where
  "ex_noff = \<lparr>noffMagic = NOFFMAGIC, code = \<lparr>virtualAddr = 0, inFileAddr = 40, seg_size = 4\<rparr>,
     initData = \<lparr>virtualAddr = 4, inFileAddr = 44, seg_size = 0\<rparr>, uninitData = \<lparr>virtualAddr = 4, inFileAddr = 44, seg_size = 0\<rparr>\<rparr>"

lemma ex_noff_ok: "noff_ok ex_data ex_noff"
  by (simp add: noff_ok_def noff_fits_def ex_noff_def ex_data_def NoffHeader_of_def Segment_of_def bytes_word_def slice_def total_size_def)

lemma ex_unused: "unused ex_fresh"
  by (auto simp: unused_def ex_fresh_def new_Machine_def)


end
