(* ===== verification/Syscalls.thy ===== *)
theory Syscalls
  imports Mips_Sim Process_Image
begin

text \<open>
  Entry into the kernel from user programs: \<^verbatim>\<open>ExceptionHandler\<close> of \<^verbatim>\<open>code/userprog/exception.cc\<close> with
  every system call, over the machine, the stub file system and the thread operations. A thread
  operation is seen from the thread that calls it, as a function on the state that includes what other
  threads do meanwhile.
\<close>

section \<open>State and environment\<close>

text \<open>The argument of a forked thread (\<^verbatim>\<open>struct ForkInfo\<close>) with the function it runs.\<close>

record ForkInfo =
  caller :: "nat option"
  pc :: "32 word"

datatype Forked = ForkWrapper ForkInfo | ExecWrapper ForkInfo

text \<open>
  Thread operations of the kernel: \<open>t_interrupts\<close> is what \<^verbatim>\<open>OneTick\<close> does after it has moved the clock,
  \<open>t_new\<close> is \<^verbatim>\<open>new Thread\<close> with a priority.
\<close>

record 'm Threads =
  t_interrupts :: "'m \<Rightarrow> 'm result"
  t_Yield :: "'m \<Rightarrow> 'm result"
  t_Finish :: "'m \<Rightarrow> 'm result"
  t_new :: "int \<Rightarrow> 'm \<Rightarrow> ('m \<times> nat) result"
  t_Fork :: "nat \<Rightarrow> Forked \<Rightarrow> 'm \<Rightarrow> 'm result"

record 'h KMachine = Machine +
  host :: 'h
  TidMap :: "bool list"
  getTid :: "nat \<Rightarrow> int"
  getPriority :: "nat \<Rightarrow> int"
  userRegisters :: "nat \<Rightarrow> 32 word list"
  open_files :: "32 word \<Rightarrow> StubFile option"

text \<open>
  The environment: the host, the threads, a bound on the rounds of a loop, the address the next
  \<^verbatim>\<open>new OpenFile\<close> gets, and what uninitialised variables and fresh arrays contain.
\<close>

record 'h Sys =
  posix :: "'h Posix"
  threads :: "'h KMachine Threads"
  rounds :: nat
  new_addr :: "'h KMachine \<Rightarrow> 32 word"
  uninit :: "32 word"
  heap_junk :: "nat \<Rightarrow> byte"

section \<open>Time\<close>

text \<open>\<^verbatim>\<open>Interrupt::OneTick\<close> moves the clock by the mode, then looks at interrupts.\<close>

definition advance_time :: "'a Machine_scheme \<Rightarrow> 'a Machine_scheme" where
  "advance_time m = (if \<not> user_mode m
     then m\<lparr>mstats := (mstats m)\<lparr>totalTicks := totalTicks (mstats m) + SystemTick, systemTicks := systemTicks (mstats m) + SystemTick\<rparr>\<rparr>
     else m\<lparr>mstats := (mstats m)\<lparr>totalTicks := totalTicks (mstats m) + UserTick, userTicks := userTicks (mstats m) + UserTick\<rparr>\<rparr>)"

definition one_tick :: "'h Sys \<Rightarrow> 'h KMachine \<Rightarrow> 'h KMachine result" where
  "one_tick E m = t_interrupts (threads E) (advance_time m)"

section \<open>Exceptions that are not system calls\<close>

definition fault_handler :: "ExceptionType \<Rightarrow> 'a Machine_scheme \<Rightarrow> 'a Machine_scheme result" where
  "fault_handler which m =
     (if which = PageFaultException
      then bindE (ReadRegister m (int BadVAddrReg)) (\<lambda>virtAddr. LRU_TLB m virtAddr)
      else Inl AssertFailed)"

text \<open>
  A system call that reads user memory can raise exceptions itself, but no system call: this is the
  kernel as \<^verbatim>\<open>ReadMem\<close> and \<^verbatim>\<open>WriteMem\<close> enter it from there.
\<close>

definition inner :: "'h Sys \<Rightarrow> 'h KMachine Kernel" where
  "inner E = \<lparr>ExceptionHandler = (\<lambda>which m. if which = SyscallException then Inl Diverges else fault_handler which m),
     OneTick = one_tick E\<rparr>"

section \<open>Arguments in user memory\<close>

text \<open>\<^verbatim>\<open>machine->ReadMem(address, 1, &value)\<close> with the result ignored.\<close>

definition read_byte :: "'h Sys \<Rightarrow> 32 word \<Rightarrow> 32 word \<Rightarrow> 'h KMachine \<Rightarrow> ('h KMachine \<times> 32 word) result" where
  "read_byte E address value m = bindE (ReadMem (inner E) m address 1) (\<lambda>(m, r).
     Inr (m, case r of None \<Rightarrow> value | Some v \<Rightarrow> v))"

fun name_length :: "'h Sys \<Rightarrow> nat \<Rightarrow> 32 word \<Rightarrow> 32 word \<Rightarrow> nat \<Rightarrow> 'h KMachine \<Rightarrow> ('h KMachine \<times> 32 word \<times> nat) result" where
  "name_length E 0 address value count m = Inl Diverges"
| "name_length E (Suc k) address value count m =
     bindE (read_byte E address value m) (\<lambda>(m, value).
     if value \<noteq> 0 then name_length E k (address + 1) value (count + 1) m else Inr (m, address + 1, count + 1))"

text \<open>The bytes \<^verbatim>\<open>address\<close>, \<^verbatim>\<open>address + 1\<close>, ... as the second loop reads them.\<close>

fun read_bytes :: "'h Sys \<Rightarrow> nat \<Rightarrow> 32 word \<Rightarrow> 32 word \<Rightarrow> 'h KMachine \<Rightarrow> ('h KMachine \<times> byte list) result" where
  "read_bytes E 0 address value m = Inr (m, [])"
| "read_bytes E (Suc n) address value m =
     bindE (read_byte E address value m) (\<lambda>(m, value).
     bindE (read_bytes E n (address + 1) value m) (\<lambda>(m, bs). Inr (m, ucast value # bs)))"

definition read_name :: "'h Sys \<Rightarrow> 32 word \<Rightarrow> 'h KMachine \<Rightarrow> ('h KMachine \<times> byte list) result" where
  "read_name E address m =
     bindE (name_length E (rounds E) address (uninit E) 0 m) (\<lambda>(m, address, count).
     read_bytes E count (address - of_nat count) 0 m)"

text \<open>The C string in an array of characters.\<close>

definition c_string :: "byte list \<Rightarrow> byte list" where
  "c_string bs = takeWhile (\<lambda>b. b \<noteq> 0) bs"

definition arg :: "'h KMachine \<Rightarrow> nat \<Rightarrow> 32 word result" where
  "arg m i = ReadRegister m (int i)"

section \<open>System calls\<close>

definition sys_Halt :: "'h Sys \<Rightarrow> 'h KMachine \<Rightarrow> 'h KMachine result" where
  "sys_Halt E m = Inl Exited"

text \<open>\<^verbatim>\<open>Exit\<close> gives the frames of the process back.\<close>

definition exit_page :: "nat \<Rightarrow> 'h KMachine \<Rightarrow> 'h KMachine result" where
  "exit_page i m = bindE (get_pte m (pageTable m) (of_nat i)) (\<lambda>e.
     if te_valid e then
       bindE (upd_pte (pageTable m) (of_nat i) (\<lambda>e. e\<lparr>te_valid := False\<rparr>) m) (\<lambda>m.
       bindE (arr (PhysicalPageTable m) (physicalPage e)) (\<lambda>f.
       if pp_valid f then Inr (upd_ppt (unat (physicalPage e)) (\<lambda>f. f\<lparr>pp_valid := False\<rparr>) m) else Inr m))
     else Inr m)"

definition sys_Exit :: "'h Sys \<Rightarrow> 'h KMachine \<Rightarrow> 'h KMachine result" where
  "sys_Exit E m =
     bindE (foldE exit_page [0..<unat (pageTableSize m)] m) (\<lambda>m.
     bindE (IncrementPC m) (\<lambda>m. t_Finish (threads E) m))"

definition sys_Create :: "'h Sys \<Rightarrow> 'h KMachine \<Rightarrow> 'h KMachine result" where
  "sys_Create E m =
     bindE (arg m 4) (\<lambda>address. bindE (read_name E address m) (\<lambda>(m, fileName).
     bindE (Stub_Create (posix E) (c_string fileName) (host m)) (\<lambda>(h, _).
     IncrementPC (m\<lparr>host := h\<rparr>))))"

definition sys_Open :: "'h Sys \<Rightarrow> 'h KMachine \<Rightarrow> 'h KMachine result" where
  "sys_Open E m =
     bindE (arg m 4) (\<lambda>address. bindE (read_name E address m) (\<lambda>(m, fileName).
     bindE (Stub_Open (posix E) (c_string fileName) (host m)) (\<lambda>(h, f).
     let m = m\<lparr>host := h\<rparr> in
     bindE (case f of None \<Rightarrow> WriteRegister m 2 0
            | Some f \<Rightarrow> WriteRegister (m\<lparr>open_files := (open_files m)(new_addr E m \<mapsto> f)\<rparr>) 2 (new_addr E m)) (\<lambda>m.
     IncrementPC m))))"

definition sys_Close :: "'h Sys \<Rightarrow> 'h KMachine \<Rightarrow> 'h KMachine result" where
  "sys_Close E m =
     bindE (arg m 4) (\<lambda>p.
     bindE (if p = 0 then Inr m
            else case open_files m p of None \<Rightarrow> Inl BadAccess
              | Some f \<Rightarrow> bindE (Stub_delete (posix E) f (host m)) (\<lambda>h. Inr (m\<lparr>host := h, open_files := (open_files m)(p := None)\<rparr>))) (\<lambda>m.
     IncrementPC m))"

definition sys_Write :: "'h Sys \<Rightarrow> 'h KMachine \<Rightarrow> 'h KMachine result" where
  "sys_Write E m =
     bindE (arg m 4) (\<lambda>addr. bindE (arg m 5) (\<lambda>sz. bindE (arg m 6) (\<lambda>openfile.
     if sint sz < 0 then Inl BadAccess
     else
       bindE (read_bytes E (nat (sint sz)) addr 0 m) (\<lambda>(m, data).
       bindE (if openfile \<noteq> 1
              then (case open_files m openfile of None \<Rightarrow> Inl BadAccess
                | Some f \<Rightarrow> bindE (Stub_Write (posix E) f data (host m)) (\<lambda>(h, f, _).
                    Inr (m\<lparr>host := h, open_files := (open_files m)(openfile \<mapsto> f)\<rparr>)))
              else Inr (m\<lparr>host := fold (h_putchar (posix E)) data (host m)\<rparr>)) (\<lambda>m.
       IncrementPC m)))))"

text \<open>\<^verbatim>\<open>data[i] = getchar()\<close> keeps the low byte.\<close>

fun read_stdin :: "'h Posix \<Rightarrow> nat \<Rightarrow> 'h \<Rightarrow> 'h \<times> byte list" where
  "read_stdin P 0 h = (h, [])"
| "read_stdin P (Suc n) h = (let (h, c) = h_getchar P h; (h, bs) = read_stdin P n h in (h, ucast c # bs))"

definition write_bytes :: "'h Sys \<Rightarrow> 32 word \<Rightarrow> byte list \<Rightarrow> 'h KMachine \<Rightarrow> 'h KMachine result" where
  "write_bytes E addr data m = foldE (\<lambda>(i, b) m. bindE (WriteMem (inner E) m (addr + of_nat i) 1 (scast b)) (\<lambda>(m, _). Inr m))
     (enumerate 0 data) m"

definition sys_Read :: "'h Sys \<Rightarrow> 'h KMachine \<Rightarrow> 'h KMachine result" where
  "sys_Read E m =
     bindE (arg m 4) (\<lambda>addr. bindE (arg m 5) (\<lambda>sz. bindE (arg m 6) (\<lambda>openfile.
     if sint sz < 0 then Inl BadAccess
     else
       let fresh = map (heap_junk E) [0..<nat (sint sz)] in
       bindE (if openfile \<noteq> 0
              then (case open_files m openfile of None \<Rightarrow> Inl BadAccess
                | Some f \<Rightarrow> bindE (Stub_Read (posix E) f (sint sz) (host m)) (\<lambda>(h, f, res, bs).
                    if length bs \<le> length fresh
                    then Inr (m\<lparr>host := h, open_files := (open_files m)(openfile \<mapsto> f)\<rparr>, res, blit bs fresh 0)
                    else Inl BadAccess))
              else (let (h, bs) = read_stdin (posix E) (nat (sint sz)) (host m) in Inr (m\<lparr>host := h\<rparr>, sint sz, bs))) (\<lambda>(m, res, data).
       bindE (write_bytes E addr data m) (\<lambda>m.
       bindE (WriteRegister m 2 (word_of_int res)) (\<lambda>m.
       IncrementPC m))))))"

definition sys_Exec :: "'h Sys \<Rightarrow> 'h KMachine \<Rightarrow> 'h KMachine result" where
  "sys_Exec E m =
     bindE (arg m 4) (\<lambda>address.
     bindE (t_new (threads E) (getPriority m (currentThread m) - 1) m) (\<lambda>(m, t).
     bindE (t_Fork (threads E) t (ExecWrapper \<lparr>caller = thread_space m (currentThread m), pc = address\<rparr>) m) (\<lambda>m.
     bindE (WriteRegister m 2 (word_of_int (getTid m t))) (\<lambda>m.
     IncrementPC m))))"

definition sys_Fork :: "'h Sys \<Rightarrow> 'h KMachine \<Rightarrow> 'h KMachine result" where
  "sys_Fork E m =
     bindE (arg m 4) (\<lambda>funcPc.
     let info = \<lparr>caller = thread_space m (currentThread m), pc = funcPc\<rparr> in
     bindE (t_new (threads E) 127 m) (\<lambda>(m, t).
     bindE (t_Fork (threads E) t (ForkWrapper info) m) (\<lambda>m.
     bindE (WriteRegister m 2 (word_of_int (getTid m t))) (\<lambda>m.
     IncrementPC m))))"

definition sys_Yield :: "'h Sys \<Rightarrow> 'h KMachine \<Rightarrow> 'h KMachine result" where
  "sys_Yield E m = bindE (IncrementPC m) (\<lambda>m. t_Yield (threads E) m)"

text \<open>\<^verbatim>\<open>TidMap[tid]\<close>.\<close>

definition tid_used :: "'h KMachine \<Rightarrow> int \<Rightarrow> bool result" where
  "tid_used m tid = (if 0 \<le> tid \<and> tid < int (length (TidMap m)) then Inr (TidMap m ! nat tid) else Inl BadAccess)"

fun join_loop :: "'h Sys \<Rightarrow> nat \<Rightarrow> int \<Rightarrow> 'h KMachine \<Rightarrow> 'h KMachine result" where
  "join_loop E 0 tid m = Inl Diverges"
| "join_loop E (Suc k) tid m = bindE (tid_used m tid) (\<lambda>u.
     if u \<and> tid \<noteq> getTid m (currentThread m) then bindE (t_Yield (threads E) m) (join_loop E k tid) else Inr m)"

definition sys_Join :: "'h Sys \<Rightarrow> 'h KMachine \<Rightarrow> 'h KMachine result" where
  "sys_Join E m = bindE (arg m 4) (\<lambda>tid. bindE (join_loop E (rounds E) (sint tid) m) (\<lambda>m. IncrementPC m))"

text \<open>The calls that pass a path on to the host.\<close>

definition sys_path :: "'h Sys \<Rightarrow> (byte list \<Rightarrow> 'h \<Rightarrow> 'h) \<Rightarrow> 'h KMachine \<Rightarrow> 'h KMachine result" where
  "sys_path E f m =
     bindE (arg m 4) (\<lambda>address. bindE (read_name E address m) (\<lambda>(m, fileName).
     IncrementPC (m\<lparr>host := f (c_string fileName) (host m)\<rparr>)))"

definition sys_RDir :: "'h Sys \<Rightarrow> 'h KMachine \<Rightarrow> 'h KMachine result" where
  "sys_RDir E m = sys_path E (h_rmdir (posix E)) m"

definition sys_CDir :: "'h Sys \<Rightarrow> 'h KMachine \<Rightarrow> 'h KMachine result" where
  "sys_CDir E m = sys_path E (h_mkdir (posix E)) m"

definition sys_Remove :: "'h Sys \<Rightarrow> 'h KMachine \<Rightarrow> 'h KMachine result" where
  "sys_Remove E m = sys_path E (\<lambda>name h. fst (Stub_Remove (posix E) name h)) m"

definition sys_Ls :: "'h Sys \<Rightarrow> 'h KMachine \<Rightarrow> 'h KMachine result" where
  "sys_Ls E m = IncrementPC (m\<lparr>host := h_system (posix E) ''ls'' (host m)\<rparr>)"

definition sys_Pwd :: "'h Sys \<Rightarrow> 'h KMachine \<Rightarrow> 'h KMachine result" where
  "sys_Pwd E m = IncrementPC (m\<lparr>host := h_system (posix E) ''pwd'' (host m)\<rparr>)"

definition sys_Cd :: "'h Sys \<Rightarrow> 'h KMachine \<Rightarrow> 'h KMachine result" where
  "sys_Cd E m = sys_path E (h_chdir (posix E)) m"

definition sys_Help :: "'h Sys \<Rightarrow> 'h KMachine \<Rightarrow> 'h KMachine result" where
  "sys_Help E m = IncrementPC m"

section \<open>The handler\<close>

text \<open>The calls by their codes in \<^verbatim>\<open>syscall.h\<close>.\<close>

definition syscall_table :: "('h Sys \<Rightarrow> 'h KMachine \<Rightarrow> 'h KMachine result) list" where
  "syscall_table = [sys_Halt, sys_Exit, sys_Exec, sys_Join, sys_Create, sys_Open, sys_Read, sys_Write, sys_Close,
     sys_Fork, sys_Yield, sys_Remove, sys_CDir, sys_RDir, sys_Pwd, sys_Ls, sys_Cd, sys_Help]"

definition exception_handler :: "'h Sys \<Rightarrow> ExceptionType \<Rightarrow> 'h KMachine \<Rightarrow> 'h KMachine result" where
  "exception_handler E which m =
     bindE (ReadRegister m 2) (\<lambda>type.
     if which = SyscallException
     then (let table = syscall_table in if unat type < length table then (table ! unat type) E m else Inr m)
     else fault_handler which m)"

definition nachos :: "'h Sys \<Rightarrow> 'h KMachine Kernel" where
  "nachos E = \<lparr>ExceptionHandler = exception_handler E, OneTick = one_tick E\<rparr>"

section \<open>Forked threads\<close>

definition SaveUserState :: "'h KMachine \<Rightarrow> 'h KMachine" where
  "SaveUserState m = m\<lparr>userRegisters := (userRegisters m)(currentThread m := registers m)\<rparr>"

definition RestoreUserState :: "'h KMachine \<Rightarrow> 'h KMachine" where
  "RestoreUserState m = m\<lparr>registers := userRegisters m (currentThread m)\<rparr>"

text \<open>\<^verbatim>\<open>ForkWrapper\<close> up to \<^verbatim>\<open>machine->Run()\<close>; \<open>s\<close> is the address of the copy.\<close>

definition ForkWrapper_start :: "'h Sys \<Rightarrow> (nat \<Rightarrow> TranslationEntry) \<Rightarrow> nat \<Rightarrow> ForkInfo \<Rightarrow> 'h KMachine \<Rightarrow> 'h KMachine result" where
  "ForkWrapper_start E junk s info m =
     bindE (space_of m (caller info)) (\<lambda>(_, sp).
     let m = m\<lparr>spaces := (spaces m)(s \<mapsto> CopyFrom junk sp), thread_space := (thread_space m)(currentThread m := Some s)\<rparr> in
     bindE (RestoreState s m) (\<lambda>m.
     bindE (WriteRegister m (int PCReg) (pc info)) (\<lambda>m.
     bindE (WriteRegister m (int NextPCReg) (pc info + 4)) (\<lambda>m.
     Inr (SaveUserState m)))))"

text \<open>
  \<^verbatim>\<open>ExecWrapper\<close> up to \<^verbatim>\<open>machine->Run()\<close>: the name is read while the thread borrows the address space of
  the caller. \<open>None\<close>: the file does not exist.
\<close>

definition ExecWrapper_start :: "'h Sys \<Rightarrow> (nat \<Rightarrow> TranslationEntry) \<Rightarrow> byte list \<Rightarrow> nat \<Rightarrow> ForkInfo \<Rightarrow> 'h KMachine \<Rightarrow>
    ('h KMachine \<times> bool) result" where
  "ExecWrapper_start E junk jh s info m =
     (let m = m\<lparr>thread_space := (thread_space m)(currentThread m := caller info)\<rparr> in
      bindE (read_name E (pc info) m) (\<lambda>(m, fileName).
      bindE (Stub_Open (posix E) (c_string fileName) (host m)) (\<lambda>(h, f).
      case f of None \<Rightarrow> Inr (m\<lparr>host := h\<rparr>, False)
      | Some executable \<Rightarrow>
          bindE (new_AddrSpace (posix E) junk (heap_junk E) jh executable h) (\<lambda>(h, sp).
          let m = m\<lparr>host := h, spaces := (spaces m)(s \<mapsto> sp), thread_space := (thread_space m)(currentThread m := Some s)\<rparr> in
          bindE (InitRegisters sp m) (\<lambda>m.
          bindE (RestoreState s m) (\<lambda>m.
          bindE (Stub_delete (posix E) executable (host m)) (\<lambda>h. Inr (m\<lparr>host := h\<rparr>, True))))))))"

section \<open>Paging under this kernel\<close>

text \<open>
  The kernel without interrupts that are due. This is how the kernel runs unless it was started with
  \<^verbatim>\<open>-rs\<close>: no other option starts the timer.
\<close>

definition quiet :: "'h Sys \<Rightarrow> 'h Sys" where
  "quiet E = E\<lparr>threads := (threads E)\<lparr>t_interrupts := Inr\<rparr>\<rparr>"

lemma one_tick_quiet: "\<exists>st. one_tick (quiet E) m = Inr (m\<lparr>mstats := st\<rparr>)"
  by (auto simp: one_tick_def quiet_def advance_time_def)

interpretation quiet_kernel: paging_kernel "nachos (quiet E)" for E
  by unfold_locales (simp_all add: nachos_def exception_handler_def fault_handler_def ReadRegister_def one_tick_quiet)

interpretation quiet_inner: paging_kernel "inner (quiet E)" for E
  by unfold_locales (simp_all add: inner_def fault_handler_def ReadRegister_def one_tick_quiet)

text \<open>Sequences of accesses to memory, on the machine and on an array of bytes.\<close>

datatype MemOp = Rd "32 word" int | Wr "32 word" int "32 word"

fun vm_run :: "'a Machine_scheme Kernel \<Rightarrow> MemOp list \<Rightarrow> 'a Machine_scheme \<Rightarrow> ('a Machine_scheme \<times> 32 word list) result" where
  "vm_run K [] m = Inr (m, [])"
| "vm_run K (Rd va sz # ops) m = bindE (ReadMem K m va sz) (\<lambda>(m, r). case r of None \<Rightarrow> Inl AssertFailed
     | Some x \<Rightarrow> bindE (vm_run K ops m) (\<lambda>(m, xs). Inr (m, x # xs)))"
| "vm_run K (Wr va sz x # ops) m = bindE (WriteMem K m va sz x) (\<lambda>(m, r). if r then vm_run K ops m else Inl AssertFailed)"

fun flat_run :: "MemOp list \<Rightarrow> byte list \<Rightarrow> (byte list \<times> 32 word list) result" where
  "flat_run [] mem = Inr (mem, [])"
| "flat_run (Rd va sz # ops) mem = bindE (load mem (unat va) sz) (\<lambda>x. bindE (flat_run ops mem) (\<lambda>(mem, xs). Inr (mem, x # xs)))"
| "flat_run (Wr va sz x # ops) mem = bindE (store mem (unat va) sz x) (flat_run ops)"

fun op_ok :: "nat \<Rightarrow> MemOp \<Rightarrow> bool" where
  "op_ok n (Rd va sz) \<longleftrightarrow> access va sz \<and> unat va div 128 < n"
| "op_ok n (Wr va sz x) \<longleftrightarrow> access va sz \<and> unat va div 128 < n"

lemma access_in_memory:
  assumes "access va sz" "unat va div 128 < n"
  shows "unat va + nat sz \<le> 128 * n"
  using page_end [OF assms(2) access_page(2) [OF assms(1)]] by simp

lemma vm_run_flat:
  assumes "vm_inv s sp m" "load_pending_ok m" "list_all (op_ok (unat (numPages sp))) ops"
  shows "\<exists>m' sp' mem' xs. vm_run (nachos (quiet E)) ops m = Inr (m', xs) \<and> flat_run ops (mem_of sp m) = Inr (mem', xs) \<and>
    vm_inv s sp' m' \<and> mem_of sp' m' = mem'"
  using assms
proof (induction ops arbitrary: m sp)
  case Nil
  then show ?case by (auto intro: exI [of _ sp])
next
  case (Cons op ops)
  note inv = Cons.prems(1) and p = Cons.prems(2) and l = vm_invD(5) [OF Cons.prems(1)]
  show ?case
  proof (cases op)
    case (Rd va sz)
    have a: "access va sz" "unat va div 128 < length (as_pageTable sp)" and ops: "list_all (op_ok (unat (numPages sp))) ops"
      using Cons.prems(3) l Rd by simp_all
    obtain m1 sp1 x where r: "ReadMem (nachos (quiet E)) m va sz = Inr (m1, Some x)" "load (mem_of sp m) (unat va) sz = Inr x"
      "vm_inv s sp1 m1" "numPages sp1 = numPages sp" "mem_of sp1 m1 = mem_of sp m" "load_pending_ok m1"
      "Machine.more m1 = Machine.more m"
      by (rule quiet_kernel.ReadMem_mem [OF inv p a])
    from Cons.IH [OF r(3,6)] ops r(4,5) obtain m' sp' mem' xs where
      "vm_run (nachos (quiet E)) ops m1 = Inr (m', xs)" "flat_run ops (mem_of sp m) = Inr (mem', xs)" "vm_inv s sp' m'" "mem_of sp' m' = mem'"
      by auto
    with r(1,2) Rd show ?thesis by auto
  next
    case (Wr va sz x)
    have a: "access va sz" "unat va div 128 < length (as_pageTable sp)" and ops: "list_all (op_ok (unat (numPages sp))) ops"
      using Cons.prems(3) l Wr by simp_all
    obtain m1 sp1 where r: "WriteMem (nachos (quiet E)) m va sz x = Inr (m1, True)"
      "mem_of sp1 m1 = blit (take (nat sz) (word_bytes x)) (mem_of sp m) (unat va)" "vm_inv s sp1 m1" "numPages sp1 = numPages sp" "load_pending_ok m1"
      "Machine.more m1 = Machine.more m"
      by (rule quiet_kernel.WriteMem_mem [OF inv p a])
    have st: "store (mem_of sp m) (unat va) sz x = Inr (mem_of sp1 m1)"
      unfolding r(2) by (rule store_blit [OF access_cases [OF a(1)]]) (simp add: access_in_memory [OF a])
    from Cons.IH [OF r(3,5)] ops r(4) obtain m' sp' mem' xs where
      "vm_run (nachos (quiet E)) ops m1 = Inr (m', xs)" "flat_run ops (mem_of sp1 m1) = Inr (mem', xs)" "vm_inv s sp' m'" "mem_of sp' m' = mem'"
      by auto
    with r(1) st Wr show ?thesis by auto
  qed
qed

text \<open>
  C18. Demand paging is transparent: for a process that owns the frames in use, any sequence of aligned
  reads and writes inside its address space gives the values an array of bytes would give, whatever
  pages are loaded, evicted and refilled in between, and leaves the memory the array would have; no
  access faults, and the tables pass the consistency check of the code afterwards.
\<close>

theorem paging_transparent:
  assumes "vm_inv s sp m" "load_pending_ok m" "list_all (op_ok (unat (numPages sp))) ops"
  shows "\<exists>m' sp' mem' xs. vm_run (nachos (quiet E)) ops m = Inr (m', xs) \<and> flat_run ops (mem_of sp m) = Inr (mem', xs) \<and>
    vm_inv s sp' m' \<and> mem_of sp' m' = mem' \<and> TLB_PageTable_check m' = Inr ()"
proof -
  obtain m' sp' mem' xs where r: "vm_run (nachos (quiet E)) ops m = Inr (m', xs)" "flat_run ops (mem_of sp m) = Inr (mem', xs)"
    "vm_inv s sp' m'" "mem_of sp' m' = mem'" using vm_run_flat [OF assms, of E] by (elim exE conjE) (rule that)
  moreover have "TLB_PageTable_check m' = Inr ()" by (rule check_ok [OF r(3)])
  ultimately show ?thesis by (intro exI conjI)
qed

text \<open>
  The page fault handler does not test the page number against the size of the page table: an access
  of a user program past the end of its address space makes the kernel read outside the page table.
\<close>

theorem outside_access_unchecked:
  assumes "vm_inv s sp m" "load_pending_ok m" "access va sz" "unat (numPages sp) \<le> unat va div 128"
  shows "ReadMem (nachos (quiet E)) m va sz = Inl BadAccess \<and> WriteMem (nachos (quiet E)) m va sz x = Inl BadAccess"
proof -
  have "length (as_pageTable sp) \<le> unat va div 128" using assms(4) vm_invD(5) [OF assms(1)] by simp
  from quiet_kernel.ReadMem_outside [OF assms(1-3) this] show ?thesis by simp
qed

section \<open>Strings passed to system calls\<close>

text \<open>What reading user memory from a system call keeps.\<close>

definition kept :: "nat \<Rightarrow> AddrSpace \<Rightarrow> 'h KMachine \<Rightarrow> AddrSpace \<Rightarrow> 'h KMachine \<Rightarrow> bool" where
  "kept s sp m sp' m' \<longleftrightarrow> vm_inv s sp' m' \<and> load_pending_ok m' \<and> numPages sp' = numPages sp \<and> mem_of sp' m' = mem_of sp m \<and>
     Machine.more m' = Machine.more m"

lemma kept_refl: "vm_inv s sp m \<Longrightarrow> load_pending_ok m \<Longrightarrow> kept s sp m sp m"
  by (simp add: kept_def)

lemma keptD:
  assumes "kept s sp m sp' m'"
  shows "vm_inv s sp' m'" "load_pending_ok m'" "numPages sp' = numPages sp" "mem_of sp' m' = mem_of sp m" "Machine.more m' = Machine.more m"
  using assms unfolding kept_def by blast+

lemma kept_trans: "kept s sp m sp1 m1 \<Longrightarrow> kept s sp1 m1 sp2 m2 \<Longrightarrow> kept s sp m sp2 m2"
  unfolding kept_def by simp

lemma read_byte_mem:
  assumes inv: "vm_inv s sp m" "load_pending_ok m" and a: "a < 128 * unat (numPages sp)"
  obtains m' sp' where "read_byte (quiet E) (of_nat a) v m = Inr (m', scast (mem_of sp m ! a))" "kept s sp m sp' m'"
proof -
  have n: "unat (numPages sp) < 2 ^ 25" using vm_okD(2) [OF vm_invD(7) [OF inv(1)]] vm_invD(5) [OF inv(1)] by simp
  then have u: "unat (of_nat a :: 32 word) = a" using a by (intro unat_small) simp
  have "access (of_nat a) 1" by (simp add: access_def)
  moreover have "unat (of_nat a :: 32 word) div 128 < length (as_pageTable sp)"
    using a vm_invD(5) [OF inv(1)] unfolding u by (simp add: less_mult_imp_div_less mult.commute)
  ultimately obtain m' sp' x where r: "ReadMem (inner (quiet E)) m (of_nat a) 1 = Inr (m', Some x)" "load (mem_of sp m) (unat (of_nat a :: 32 word)) 1 = Inr x"
    "vm_inv s sp' m'" "numPages sp' = numPages sp" "mem_of sp' m' = mem_of sp m" "load_pending_ok m'" "Machine.more m' = Machine.more m"
    by (rule quiet_inner.ReadMem_mem [OF inv])
  have "x = scast (mem_of sp m ! a)" using r(2) unfolding u by (simp add: load_def)
  moreover have "kept s sp m sp' m'" using r(3-7) by (simp add: kept_def)
  ultimately show ?thesis using r(1) by (intro that [of m' sp']) (simp_all add: read_byte_def)
qed

lemma ucast_scast_byte: "ucast (scast (b :: byte) :: 32 word) = b"
proof -
  have q: "7 \<le> n \<Longrightarrow> n < 8 \<Longrightarrow> n = 7" for n :: nat by simp
  show ?thesis by (rule bit_word_eqI) (auto simp: bit_simps min_def dest: q)
qed

lemma scast_byte_zero: "(scast (b :: byte) :: 32 word) = 0 \<longleftrightarrow> b = 0"
  by (metis scast_0 ucast_0 ucast_scast_byte)

lemma name_length_mem:
  assumes "vm_inv s sp m" "load_pending_ok m" "a + length str < 128 * unat (numPages sp)" "slice a (length str) (mem_of sp m) = str"
    "0 \<notin> set str" "mem_of sp m ! (a + length str) = 0" "length str < k"
  shows "\<exists>m' sp'. name_length (quiet E) k (of_nat a) v c m = Inr (m', of_nat (a + length str + 1), c + length str + 1) \<and> kept s sp m sp' m'"
  using assms
proof (induction str arbitrary: a k v c m sp)
  case Nil
  obtain m' sp' where r: "read_byte (quiet E) (of_nat a) v m = Inr (m', scast (mem_of sp m ! a))" "kept s sp m sp' m'"
    using Nil.prems by (elim read_byte_mem [of s sp m a E v]) simp_all
  show ?case using Nil.prems(6,7) r by (cases k) auto
next
  case (Cons b str)
  have len: "a + length (b # str) \<le> length (mem_of sp m)"
    using Cons.prems(3) vm_invD(5) [OF Cons.prems(1)] by simp
  have b: "mem_of sp m ! a = b" using Cons.prems(4) nth_slice [OF len, of 0] by simp
  have str: "slice (a + 1) (length str) (mem_of sp m) = str"
    using Cons.prems(4) len by (simp add: slice_def Cons_nth_drop_Suc [symmetric])
  obtain m1 sp1 where r: "read_byte (quiet E) (of_nat a) v m = Inr (m1, scast (mem_of sp m ! a))" "kept s sp m sp1 m1"
    using Cons.prems(1-3) by (elim read_byte_mem [of s sp m a E v]) simp_all
  obtain k' where k: "k = Suc k'" using Cons.prems(7) by (cases k) auto
  note d = keptD [OF r(2)]
  have "\<exists>m' sp'. name_length (quiet E) k' (of_nat (a + 1)) (scast b) (c + 1) m1 = Inr (m', of_nat (a + 1 + length str + 1), c + 1 + length str + 1) \<and> kept s sp1 m1 sp' m'"
    by (rule Cons.IH [OF d(1,2)]) (use Cons.prems str k in \<open>simp_all add: d\<close>)
  then obtain m' sp' where n: "name_length (quiet E) k' (of_nat (a + 1)) (scast b) (c + 1) m1 = Inr (m', of_nat (a + 1 + length str + 1), c + 1 + length str + 1)"
    "kept s sp1 m1 sp' m'" by blast
  have "b \<noteq> 0" using Cons.prems(5) by auto
  then have "name_length (quiet E) k (of_nat a) v c m = Inr (m', of_nat (a + length (b # str) + 1), c + length (b # str) + 1)"
    using r(1) n(1) b k by (simp add: scast_byte_zero algebra_simps)
  then show ?case using kept_trans [OF r(2) n(2)] by blast
qed

lemma read_bytes_mem:
  assumes "vm_inv s sp m" "load_pending_ok m" "a + n \<le> 128 * unat (numPages sp)"
  shows "\<exists>m' sp'. read_bytes (quiet E) n (of_nat a) v m = Inr (m', slice a n (mem_of sp m)) \<and> kept s sp m sp' m'"
  using assms
proof (induction n arbitrary: a v m sp)
  case 0
  then show ?case using kept_refl by (auto simp: slice_def)
next
  case (Suc n)
  obtain m1 sp1 where r: "read_byte (quiet E) (of_nat a) v m = Inr (m1, scast (mem_of sp m ! a))" "kept s sp m sp1 m1"
    using Suc.prems by (elim read_byte_mem [of s sp m a E v]) simp_all
  note d = keptD [OF r(2)]
  have "\<exists>m' sp'. read_bytes (quiet E) n (of_nat (a + 1)) (scast (mem_of sp m ! a)) m1 = Inr (m', slice (a + 1) n (mem_of sp1 m1)) \<and> kept s sp1 m1 sp' m'"
    by (rule Suc.IH [OF d(1,2)]) (use Suc.prems in \<open>simp add: d\<close>)
  then obtain m' sp' where n: "read_bytes (quiet E) n (of_nat (a + 1)) (scast (mem_of sp m ! a)) m1 = Inr (m', slice (a + 1) n (mem_of sp m))" "kept s sp1 m1 sp' m'"
    unfolding d(4) by blast
  have "a < length (mem_of sp m)" using Suc.prems(3) vm_invD(5) [OF Suc.prems(1)] by simp
  then have "slice a (Suc n) (mem_of sp m) = mem_of sp m ! a # slice (a + 1) n (mem_of sp m)"
    by (simp add: slice_def Cons_nth_drop_Suc [symmetric])
  then show ?case using r(1) n kept_trans [OF r(2) n(2)] by (auto simp: ucast_scast_byte add.commute)
qed

lemma read_name_mem:
  assumes inv: "vm_inv s sp m" "load_pending_ok m" and a: "unat addr + length str < 128 * unat (numPages sp)"
    and str: "slice (unat addr) (length str) (mem_of sp m) = str" "0 \<notin> set str" "mem_of sp m ! (unat addr + length str) = 0"
    and k: "length str < rounds E"
  obtains m' sp' where "read_name (quiet E) addr m = Inr (m', str @ [0])" "kept s sp m sp' m'"
proof -
  let ?a = "unat addr"
  have ad: "of_nat ?a = addr" by simp
  obtain m1 sp1 where n: "name_length (quiet E) (rounds E) (of_nat ?a) (uninit E) 0 m = Inr (m1, of_nat (?a + length str + 1), 0 + length str + 1)"
    "kept s sp m sp1 m1"
    using name_length_mem [OF inv a str k, of E "uninit E" 0] by blast
  note d = keptD [OF n(2)]
  have "?a + (length str + 1) \<le> 128 * unat (numPages sp1)" using a d(3) by simp
  from read_bytes_mem [OF d(1,2) this, of E 0] obtain m2 sp2 where
    r: "read_bytes (quiet E) (length str + 1) (of_nat ?a) 0 m1 = Inr (m2, slice ?a (length str + 1) (mem_of sp m))" "kept s sp1 m1 sp2 m2"
    unfolding d(4) by blast
  have "?a + length str < length (mem_of sp m)" using a vm_invD(5) [OF inv(1)] by simp
  then have "slice ?a (length str + 1) (mem_of sp m) = str @ [0]"
    using str(1,3) by (simp add: slice_def take_Suc_conv_app_nth)
  then have "read_name (quiet E) addr m = Inr (m2, str @ [0])"
    using n(1) r(1) by (simp add: read_name_def quiet_def)
  then show ?thesis using kept_trans [OF n(2) r(2)] by (rule that)
qed


section \<open>A concrete process\<close>

text \<open>One process of two pages in swap space \<open>vs\<close>, on a machine with nothing loaded, and a kernel with one thread.\<close>

definition ex_sys :: "nat Sys" where
  "ex_sys = \<lparr>posix = ex_posix, threads = \<lparr>t_interrupts = Inr, t_Yield = Inr, t_Finish = (\<lambda>_. Inl Exited),
     t_new = (\<lambda>_ m. Inr (m, 1)), t_Fork = (\<lambda>_ _ m. Inr m)\<rparr>, rounds = 10, new_addr = (\<lambda>_. 16), uninit = 0, heap_junk = (\<lambda>_. 7)\<rparr>"

definition ex_proc :: "byte list \<Rightarrow> AddrSpace" where
  "ex_proc vs = \<lparr>as_pageTable = replicate 2 (ex_pte\<lparr>te_valid := False\<rparr>), numPages = 2, vSpace = vs\<rparr>"

definition ex_base :: "nat KMachine" where
  "ex_base = Machine.extend ex_fresh (KMachine.fields 0 [True] (\<lambda>_. 0) (\<lambda>_. 127) (\<lambda>_. replicate 40 0) (\<lambda>_. None))"

definition ex_km :: "byte list \<Rightarrow> 32 word list \<Rightarrow> nat KMachine" where
  "ex_km vs r = ex_base\<lparr>registers := r, pageTable := Some 0, pageTableSize := numPages (ex_proc vs), spaces := (spaces ex_base)(0 \<mapsto> ex_proc vs),
     thread_space := (thread_space ex_base)(currentThread ex_base := Some 0)\<rparr>"

lemma ex_base_unused: "unused ex_base"
  by (auto simp: unused_def ex_base_def ex_fresh_def new_Machine_def Machine.extend_def)

lemma ex_km_inv:
  assumes "length vs = 256" "length r = 40" "r ! LoadReg = 0"
  shows "vm_inv 0 (ex_proc vs) (ex_km vs r)" "mem_of (ex_proc vs) (ex_km vs r) = vs" "load_pending_ok (ex_km vs r)"
    "numPages (ex_proc vs) = 2"
proof -
  have "length (as_pageTable (ex_proc vs)) = unat (numPages (ex_proc vs))" "unat (numPages (ex_proc vs)) < 2 ^ 25"
    "\<forall>e \<in> set (as_pageTable (ex_proc vs)). \<not> te_valid e" "length (vSpace (ex_proc vs)) = 128 * unat (numPages (ex_proc vs))"
    using assms(1) by (auto simp: ex_proc_def)
  note f = fresh_process_inv [OF ex_base_unused this assms(2) ex_km_def]
  show "vm_inv 0 (ex_proc vs) (ex_km vs r)" "mem_of (ex_proc vs) (ex_km vs r) = vs" "numPages (ex_proc vs) = 2"
    using f by (simp_all add: ex_proc_def)
  show "load_pending_ok (ex_km vs r)" using assms(3) by (simp add: load_pending_ok_def ex_km_def)
qed

theorem paging_transparent_witness:
  "\<exists>m'. vm_run (nachos (quiet ex_sys)) [Wr 4 4 99, Rd 4 4, Rd 128 1] (ex_km (replicate 256 0) (replicate 40 0)) = Inr (m', [99, 0]) \<and>
     TLB_PageTable_check m' = Inr ()"
proof -
  let ?ops = "[Wr 4 4 99, Rd 4 4, Rd 128 1]" and ?vs = "replicate 256 (0 :: byte)"
  have a: "length ?vs = 256" "length (replicate 40 (0 :: 32 word)) = 40" "replicate 40 (0 :: 32 word) ! LoadReg = 0" by simp_all
  note k = ex_km_inv [OF a]
  have ok: "list_all (op_ok (unat (numPages (ex_proc ?vs)))) ?ops" unfolding k(4) by (simp add: access_def)
  have "flat_run ?ops ?vs = Inr (blit (word_bytes 99) ?vs 4, [99, 0])"
  proof -
    have "slice 4 4 (blit (word_bytes 99) ?vs 4) = word_bytes 99" using slice_blit_same [of 4 "word_bytes 99" ?vs] by simp
    moreover have "blit (word_bytes 99) ?vs 4 ! 128 = 0" by (simp add: nth_blit)
    ultimately show ?thesis by (simp add: store_def load_def)
  qed
  with paging_transparent [OF k(1,3) ok, of ex_sys] show ?thesis unfolding k(2) by auto
qed

theorem outside_access_unchecked_witness:
  "ReadMem (nachos (quiet ex_sys)) (ex_km (replicate 256 0) (replicate 40 0)) 256 4 = Inl BadAccess"
proof -
  have a: "length (replicate 256 (0 :: byte)) = 256" "length (replicate 40 (0 :: 32 word)) = 40" "replicate 40 (0 :: 32 word) ! LoadReg = 0" by simp_all
  note k = ex_km_inv [OF a]
  have "access 256 4" "unat (numPages (ex_proc (replicate 256 0))) \<le> unat (256 :: 32 word) div 128"
    unfolding k(4) by (simp_all add: access_def)
  from outside_access_unchecked [OF k(1,3) this, of ex_sys 0] show ?thesis by blast
qed


end
