(* ===== verification/Cpu_Type.thy ===== *)
theory Cpu_Type
  imports Syscalls
begin

text \<open>
  The types of the machine: the sizes of its arrays, register 0, and the number of the register a
  delayed load is for. They are kept by every instruction, under every kernel that keeps them; the
  exception handler with all its system calls does, when the thread operations do. \<open>User_Threads\<close> builds on this for
  several processes.
\<close>

section \<open>Machine states\<close>

text \<open>
  In the middle of an instruction register 0 may hold something else. \<open>J\<close> is what else is to be kept, of the
  running thread, the address spaces of the threads, and what the kernel adds to the machine.
\<close>

type_synonym 'a kept = "nat \<Rightarrow> (nat \<Rightarrow> nat option) \<Rightarrow> 'a \<Rightarrow> bool"

definition regs_ok :: "32 word list \<Rightarrow> bool" where
  "regs_ok r \<longleftrightarrow> length r = NumTotalRegs \<and> unat (r ! LoadReg) < 32 \<and> r ! 0 = 0"

definition cpu_sizes :: "'a kept \<Rightarrow> 'a Machine_scheme \<Rightarrow> bool" where
  "cpu_sizes J m \<longleftrightarrow> length (registers m) = NumTotalRegs \<and> unat (registers m ! LoadReg) < 32 \<and> length (mainMemory m) = MemorySize \<and>
     length (tlb m) = TLBSize \<and> length (PhysicalPageTable m) = NumPhysPages \<and> J (currentThread m) (thread_space m) (Machine.more m)"

definition cpu_ok :: "'a kept \<Rightarrow> 'a Machine_scheme \<Rightarrow> bool" where
  "cpu_ok J m \<longleftrightarrow> cpu_sizes J m \<and> registers m ! 0 = 0"

lemma cpu_ok_sizes: "cpu_ok J m \<Longrightarrow> cpu_sizes J m"
  by (simp add: cpu_ok_def)

text \<open>What does not touch registers and keeps the sizes of the other arrays.\<close>

definition regs_kept :: "'a Machine_scheme \<Rightarrow> 'a Machine_scheme \<Rightarrow> bool" where
  "regs_kept m m' \<longleftrightarrow> registers m' = registers m \<and> length (mainMemory m') = length (mainMemory m) \<and>
     length (tlb m') = length (tlb m) \<and> length (PhysicalPageTable m') = length (PhysicalPageTable m) \<and>
     currentThread m' = currentThread m \<and> thread_space m' = thread_space m \<and> Machine.more m' = Machine.more m"

lemma regs_kept_refl [simp]: "regs_kept m m"
  by (simp add: regs_kept_def)

lemma regs_kept_trans: "regs_kept m m1 \<Longrightarrow> regs_kept m1 m2 \<Longrightarrow> regs_kept m m2"
  by (simp add: regs_kept_def)

lemma regs_kept_ok: "regs_kept m m' \<Longrightarrow> cpu_ok J m' = cpu_ok J m" "regs_kept m m' \<Longrightarrow> cpu_sizes J m' = cpu_sizes J m"
  by (simp_all add: regs_kept_def cpu_ok_def cpu_sizes_def)

lemma upd_pte_regs: "gives (regs_kept m) (upd_pte p v f m)"
  by (auto simp: upd_pte_def space_of_def arr_def regs_kept_def split: option.splits)

lemma swap_out_regs: "gives (regs_kept m) (swap_out p v n m)"
  by (auto simp: swap_out_def space_of_def regs_kept_def split: option.splits)

lemma swap_in_regs: "gives (regs_kept m) (swap_in p v n m)"
  by (auto simp: swap_in_def space_of_def regs_kept_def split: option.splits)

lemma upd_tlb_regs [simp]: "regs_kept m (upd_tlb i f m)"
  by (simp add: regs_kept_def upd_tlb_def)

lemma upd_ppt_regs [simp]: "regs_kept m (upd_ppt i f m)"
  by (simp add: regs_kept_def upd_ppt_def)

text \<open>Sequences of such steps.\<close>

lemma gives_regs_bind: "gives (regs_kept m) r \<Longrightarrow> (\<And>m'. gives (regs_kept m') (f m')) \<Longrightarrow> gives (regs_kept m) (bindE r f)"
  by (auto simp: gives_def bindE_eq_Inr intro: regs_kept_trans)

lemma gives_regs_keep: "gives (regs_kept m) r \<Longrightarrow> (\<And>m'. gives (\<lambda>x. regs_kept m' (g x)) (f m')) \<Longrightarrow> gives (\<lambda>x. regs_kept m (g x)) (bindE r f)"
  by (auto simp: gives_def bindE_eq_Inr intro: regs_kept_trans)

lemma gives_True [simp]: "gives (\<lambda>_. True) r"
  by (simp add: gives_def)

lemma gives_read: "(\<And>x. gives R (f x)) \<Longrightarrow> gives R (bindE r f)"
  by (auto simp: gives_def bindE_eq_Inr)

lemma evict_owner_regs: "gives (regs_kept m) (evict_owner ppn v owner m)"
  unfolding evict_owner_def by (auto split: option.split intro!: gives_regs_bind upd_pte_regs swap_out_regs simp del: gives_bindE)

lemma evict_frame_regs: "gives (regs_kept m) (evict_frame ppn m)"
  unfolding evict_frame_def Let_def
  by (auto intro!: gives_regs_bind upd_pte_regs evict_owner_regs simp del: gives_bindE) (simp add: regs_kept_def)

lemma fill_frame_regs: "gives (regs_kept m) (fill_frame ppn v m)"
  unfolding fill_frame_def Let_def
  by (rule gives_regs_bind [OF swap_in_regs]) (rule gives_mono [OF upd_pte_regs], erule regs_kept_trans [OF upd_ppt_regs])

lemma AllocatePhysicalPage_regs: "gives (\<lambda>x. regs_kept m (fst x)) (AllocatePhysicalPage m v)"
  unfolding AllocatePhysicalPage_def Let_def
  by (intro gives_regs_keep [OF evict_frame_regs] gives_regs_keep [OF fill_frame_regs]) simp

lemma refill_regs: "gives (regs_kept m) (refill e m v)"
  unfolding refill_def
proof (intro gives_regs_bind gives_read)
  show "gives (regs_kept m) (if te_valid (tlb m ! e) then upd_pte (pageTable m) (virtualPage (tlb m ! e)) (\<lambda>_. tlb m ! e) m else Inr m)"
    by (simp add: upd_pte_regs)
  show "gives (regs_kept m') (if te_valid p then Inr m' else bindE (AllocatePhysicalPage m' v) (\<lambda>(m, _). Inr m))" for m' :: "'a Machine_scheme" and p
    using AllocatePhysicalPage_regs [of m' v] by (auto simp: gives_def bindE_eq_Inr)
qed simp

lemma LRU_TLB_regs: "gives (regs_kept m) (LRU_TLB m va)"
  unfolding LRU_TLB_def by (rule refill_regs)

lemma Translate_regs: "gives (\<lambda>x. regs_kept m (fst x)) (Translate m va sz w)"
  by (simp add: Translate_def Let_def regs_kept_def upd_tlb_def upd_ppt_def upd_pte_def space_of_def arr_def split: option.split)

lemma Translate_in_memory: "gives (\<lambda>(m', e, pa). e = NoException \<longrightarrow> int pa + sz \<le> int MemorySize) (Translate m va sz w)"
  by (simp add: Translate_def Let_def split: option.split)

section \<open>Kernels that keep the types\<close>

definition keeps :: "'a kept \<Rightarrow> ('a Machine_scheme \<Rightarrow> 'a Machine_scheme result) \<Rightarrow> bool" where
  "keeps J f \<longleftrightarrow> (\<forall>m. cpu_ok J m \<longrightarrow> gives (cpu_ok J) (f m))"

lemma keepsD: "keeps J f \<Longrightarrow> cpu_ok J m \<Longrightarrow> gives (cpu_ok J) (f m)"
  by (simp add: keeps_def)

lemma DelayedLoad_ok: "cpu_sizes J m \<Longrightarrow> unat r < 32 \<Longrightarrow> gives (cpu_ok J) (DelayedLoad r v m)"
  by (simp add: DelayedLoad_def cpu_ok_def cpu_sizes_def Let_def)

text \<open>How far an instruction has come: it is over, or its last part is still to do.\<close>

definition exec_ok :: "'a kept \<Rightarrow> 'a Machine_scheme \<times> (32 word \<times> 32 word \<times> 32 word) option \<Rightarrow> bool" where
  "exec_ok J x \<longleftrightarrow> (case snd x of None \<Rightarrow> cpu_ok J (fst x) | Some (r, _, _) \<Rightarrow> cpu_sizes J (fst x) \<and> unat r < 32)"

lemma set_reg_sizes: "cpu_sizes J m \<Longrightarrow> i \<noteq> LoadReg \<Longrightarrow> cpu_sizes J (set_reg i v m)"
  by (simp add: cpu_sizes_def set_reg_def)

lemma fin_ok: "cpu_sizes J m \<Longrightarrow> gives (exec_ok J) (fin pcAfter m)"
  by (simp add: fin_def exec_ok_def)

definition instr_ok :: "Instruction \<Rightarrow> bool" where
  "instr_ok i \<longleftrightarrow> rs i < 32 \<and> rt i < 32 \<and> rd i < 32"

lemma Decode_ok: "instr_ok (Decode w)"
proof -
  have "unat (v AND 31) < 32" for v :: "32 word"
  proof -
    have "v AND 31 \<le> 31" by (rule word_and_le1)
    then have "unat (v AND 31) \<le> unat (31 :: 32 word)" by (simp only: word_le_nat_alt)
    then show ?thesis by simp
  qed
  then show ?thesis by (simp add: instr_ok_def Decode_def Let_def)
qed

locale cpu_kernel =
  fixes J :: "'a kept" and K :: "'a Machine_scheme Kernel"
  assumes handler_keeps: "keeps J (ExceptionHandler K which)"
    and tick_keeps: "keeps J (OneTick K)"
begin

lemma RaiseException_ok:
  assumes "cpu_sizes J m"
  shows "gives (cpu_ok J) (RaiseException K which va m)"
proof -
  have mode: "cpu_ok J (m\<lparr>user_mode := b\<rparr>) = cpu_ok J m" for m :: "'a Machine_scheme" and b by (simp add: cpu_ok_def cpu_sizes_def)
  have "cpu_sizes J (m\<lparr>registers := (registers m)[BadVAddrReg := va]\<rparr>)" using assms by (simp add: cpu_sizes_def)
  then have "gives (cpu_ok J) (DelayedLoad 0 0 (m\<lparr>registers := (registers m)[BadVAddrReg := va]\<rparr>))" by (rule DelayedLoad_ok) simp
  then show ?thesis unfolding RaiseException_def gives_bindE
    by (rule gives_mono, intro gives_mono [OF keepsD [OF tick_keeps]] gives_mono [OF keepsD [OF handler_keeps]]) (simp_all add: mode)
qed

lemma translate_retry_types:
  assumes "cpu_ok J m"
  shows "gives (\<lambda>(m', r). cpu_ok J m' \<and> (\<forall>pa. r = Some pa \<longrightarrow> int pa + sz \<le> int MemorySize)) (translate_retry K m va sz w)"
proof -
  have tr: "gives (\<lambda>(m', e, pa). cpu_ok J m' \<and> (e = NoException \<longrightarrow> int pa + sz \<le> int MemorySize)) (Translate m va sz w)"
    if "cpu_ok J m" for m :: "'a Machine_scheme"
    using Translate_regs [of m va sz w] Translate_in_memory [of sz m va w] that by (auto simp: gives_def regs_kept_ok)
  have ra: "gives (cpu_ok J) (RaiseException K e va m)" if "cpu_ok J m" for e m by (rule RaiseException_ok [OF cpu_ok_sizes [OF that]])
  show ?thesis unfolding translate_retry_def gives_bindE
    by (rule gives_mono [OF tr [OF assms]])
      (auto split: prod.split if_split simp: ra intro!: gives_mono [OF ra] gives_mono [OF tr])
qed

lemma ReadMem_types: "cpu_ok J m \<Longrightarrow> gives (\<lambda>x. cpu_ok J (fst x)) (ReadMem K m va sz)"
  unfolding ReadMem_def gives_bindE
  by (rule gives_mono [OF translate_retry_types]) (auto split: option.splits simp: gives_def bindE_eq_Inr)

lemma WriteMem_types:
  assumes "cpu_ok J m"
  shows "gives (\<lambda>x. cpu_ok J (fst x)) (WriteMem K m va sz v)"
proof -
  have "gives (\<lambda>mem. cpu_ok J (m\<lparr>mainMemory := mem\<rparr>)) (store (mainMemory m) pa sz v)"
    if "cpu_ok J m" "int pa + sz \<le> int MemorySize" for m :: "'a Machine_scheme" and pa
    using that by (auto simp: store_def cpu_ok_def cpu_sizes_def)
  then show ?thesis unfolding WriteMem_def gives_bindE
    by (intro gives_mono [OF translate_retry_types [OF assms]]) (auto split: option.split)
qed

lemma trap_ok: "cpu_sizes J m \<Longrightarrow> gives (exec_ok J) (trap K e va m)"
  unfolding trap_def gives_bindE by (rule gives_mono [OF RaiseException_ok]) (simp_all add: exec_ok_def)

lemma reading_ok:
  "cpu_ok J m \<Longrightarrow> (\<And>v m. cpu_ok J m \<Longrightarrow> gives (exec_ok J) (k v m)) \<Longrightarrow> gives (exec_ok J) (reading K va sz m k)"
  unfolding reading_def gives_bindE by (rule gives_mono [OF ReadMem_types]) (auto split: option.split simp: exec_ok_def)

lemma writing_ok: "cpu_ok J m \<Longrightarrow> gives (exec_ok J) (writing K va sz v pcAfter m)"
  unfolding writing_def gives_bindE by (rule gives_mono [OF WriteMem_types]) (auto split: prod.split simp: exec_ok_def fin_def cpu_ok_sizes)

lemma loaded_ok: "cpu_ok J m \<Longrightarrow> n < 32 \<Longrightarrow> gives (exec_ok J) (Inr (m, Some (of_nat n, v, pcAfter)))"
  by (simp add: exec_ok_def cpu_ok_sizes unat_of_nat)

lemmas exec_intros = fin_ok set_reg_sizes trap_ok reading_ok writing_ok loaded_ok

lemma exec_add_ok: "instr_ok i \<Longrightarrow> cpu_ok J m \<Longrightarrow> exec_add K i pcAfter m = Some r \<Longrightarrow> gives (exec_ok J) r"
  using cpu_ok_sizes [of J m] unfolding exec_add_def Let_def instr_ok_def by (auto split: if_splits prod.splits intro!: exec_intros)

lemma exec_branch_ok: "instr_ok i \<Longrightarrow> cpu_ok J m \<Longrightarrow> exec_branch K i pcAfter m = Some r \<Longrightarrow> gives (exec_ok J) r"
  using cpu_ok_sizes [of J m] unfolding exec_branch_def Let_def instr_ok_def by (auto split: if_splits prod.splits intro!: exec_intros)

lemma exec_div_ok: "instr_ok i \<Longrightarrow> cpu_ok J m \<Longrightarrow> exec_div K i pcAfter m = Some r \<Longrightarrow> gives (exec_ok J) r"
  using cpu_ok_sizes [of J m] unfolding exec_div_def Let_def instr_ok_def by (auto split: if_splits prod.splits intro!: exec_intros)

lemma exec_load_ok: "instr_ok i \<Longrightarrow> cpu_ok J m \<Longrightarrow> exec_load K i pcAfter m = Some r \<Longrightarrow> gives (exec_ok J) r"
  using cpu_ok_sizes [of J m] unfolding exec_load_def Let_def instr_ok_def by (auto split: if_splits prod.splits intro!: exec_intros)

lemma exec_load_part_ok: "instr_ok i \<Longrightarrow> cpu_ok J m \<Longrightarrow> exec_load_part K i pcAfter m = Some r \<Longrightarrow> gives (exec_ok J) r"
  using cpu_ok_sizes [of J m] unfolding exec_load_part_def Let_def instr_ok_def by (auto split: if_splits prod.splits intro!: exec_intros)

lemma exec_move_ok: "instr_ok i \<Longrightarrow> cpu_ok J m \<Longrightarrow> exec_move K i pcAfter m = Some r \<Longrightarrow> gives (exec_ok J) r"
  using cpu_ok_sizes [of J m] unfolding exec_move_def Let_def instr_ok_def by (auto split: if_splits prod.splits intro!: exec_intros)

lemma exec_shift_ok: "instr_ok i \<Longrightarrow> cpu_ok J m \<Longrightarrow> exec_shift K i pcAfter m = Some r \<Longrightarrow> gives (exec_ok J) r"
  using cpu_ok_sizes [of J m] unfolding exec_shift_def Let_def instr_ok_def by (auto split: if_splits prod.splits intro!: exec_intros)

lemma exec_store_part_ok: "instr_ok i \<Longrightarrow> cpu_ok J m \<Longrightarrow> exec_store_part K i pcAfter m = Some r \<Longrightarrow> gives (exec_ok J) r"
  using cpu_ok_sizes [of J m] unfolding exec_store_part_def Let_def instr_ok_def by (auto split: if_splits prod.splits intro!: exec_intros)

lemma first_case_ok:
  "(\<And>r. Some r \<in> set cs \<Longrightarrow> gives (exec_ok J) r) \<Longrightarrow> gives (exec_ok J) dflt \<Longrightarrow> gives (exec_ok J) (first_case cs dflt)"
  by (induction cs dflt rule: first_case.induct) auto

lemma execute_ok:
  assumes "instr_ok i" "cpu_ok J m"
  shows "gives (exec_ok J) (execute K i pcAfter m)"
  unfolding execute_def
proof (rule first_case_ok)
  fix r
  assume "Some r \<in> set [exec_add K i pcAfter m, exec_branch K i pcAfter m, exec_div K i pcAfter m, exec_load K i pcAfter m,
      exec_load_part K i pcAfter m, exec_move K i pcAfter m, exec_shift K i pcAfter m, exec_store_part K i pcAfter m]"
  then consider "exec_add K i pcAfter m = Some r" | "exec_branch K i pcAfter m = Some r" | "exec_div K i pcAfter m = Some r"
    | "exec_load K i pcAfter m = Some r" | "exec_load_part K i pcAfter m = Some r" | "exec_move K i pcAfter m = Some r"
    | "exec_shift K i pcAfter m = Some r" | "exec_store_part K i pcAfter m = Some r" by auto
  then show "gives (exec_ok J) r"
    by cases (rule exec_add_ok [OF assms] exec_branch_ok [OF assms] exec_div_ok [OF assms] exec_load_ok [OF assms] exec_load_part_ok [OF assms]
      exec_move_ok [OF assms] exec_shift_ok [OF assms] exec_store_part_ok [OF assms], assumption)+
qed simp

lemma OneInstruction_ok:
  assumes "cpu_ok J m"
  shows "gives (cpu_ok J) (OneInstruction K m)"
proof -
  have last: "gives (cpu_ok J) (bindE (DelayedLoad r v m) (\<lambda>m.
      OneTick K (set_reg NextPCReg pcAfter (set_reg PCReg (reg m NextPCReg) (set_reg PrevPCReg (reg m PCReg) m)))))"
    if "cpu_sizes J m" "unat r < 32" for r v pcAfter m
    unfolding gives_bindE
    by (rule gives_mono [OF DelayedLoad_ok [OF that]], rule keepsD [OF tick_keeps]) (simp add: cpu_ok_def cpu_sizes_def set_reg_def)
  show ?thesis unfolding OneInstruction_def gives_bindE
  proof (rule gives_mono [OF ReadMem_types [OF assms]], clarify)
    fix m' :: "'a Machine_scheme" and raw :: "32 word option"
    assume "cpu_ok J (fst (m', raw))"
    then have m: "cpu_ok J m'" by simp
    show "gives (cpu_ok J) (case raw of None \<Rightarrow> Inr m' | Some raw \<Rightarrow>
        bindE (execute K (Decode raw) (reg m' NextPCReg + 4) m') (\<lambda>(m, r). case r of None \<Rightarrow> Inr m
        | Some (nextLoadReg, nextLoadValue, pcAfter) \<Rightarrow>
            bindE (DelayedLoad nextLoadReg nextLoadValue m) (\<lambda>m.
            OneTick K (set_reg NextPCReg pcAfter (set_reg PCReg (reg m NextPCReg) (set_reg PrevPCReg (reg m PCReg) m))))))"
    proof (cases raw)
      case (Some w)
      have "gives (exec_ok J) (execute K (Decode w) (reg m' NextPCReg + 4) m')" by (rule execute_ok [OF Decode_ok m])
      then show ?thesis unfolding Some option.case gives_bindE
        by (rule gives_mono) (auto simp: exec_ok_def last [unfolded gives_bindE] split: option.splits prod.splits)
    qed (simp add: m)
  qed
qed

lemma Run_ok:
  assumes "cpu_ok J m"
  shows "gives (cpu_ok J) (Run K n m)"
proof -
  have "gives (cpu_ok J) (Run_loop K n m)" if "cpu_ok J m" for m
    using that
  proof (induction n arbitrary: m)
    case (Suc n)
    show ?case unfolding Run_loop.simps gives_bindE
      by (rule gives_mono [OF OneInstruction_ok [OF Suc.prems]], rule gives_mono [OF keepsD [OF tick_keeps]]) (simp_all add: Suc.IH)
  qed simp
  moreover have "cpu_ok J (m\<lparr>user_mode := True\<rparr>)" using assms by (simp add: cpu_ok_def cpu_sizes_def)
  ultimately show ?thesis unfolding Run_def by blast
qed

end

section \<open>The kernel of Nachos\<close>

text \<open>
  The thread \<open>cur\<close> is running, and the registers saved for those of the threads \<open>W\<close> that have an address space are well-formed.
\<close>

definition saved_of :: "('h, unit) KMachine_ext \<Rightarrow> nat \<Rightarrow> 32 word list" where
  "saved_of x = userRegisters (Machine.extend ex_fresh x)"

definition users :: "nat set \<Rightarrow> nat \<Rightarrow> ('h, unit) KMachine_ext kept" where
  "users W cur c ts x \<longleftrightarrow> c = cur \<and> (\<forall>t \<in> W. ts t = None \<or> regs_ok (saved_of x t))"

lemma saved_of_more [simp]: "saved_of (Machine.more m) = userRegisters m"
  by (cases m) (simp add: saved_of_def Machine.extend_def)

text \<open>What is asked of the thread operations.\<close>

definition threads_typed :: "('h, unit) KMachine_ext kept \<Rightarrow> 'h Sys \<Rightarrow> bool" where
  "threads_typed J E \<longleftrightarrow> keeps J (t_interrupts (threads E)) \<and> keeps J (t_Yield (threads E)) \<and> keeps J (t_Finish (threads E)) \<and>
     (\<forall>t f. keeps J (t_Fork (threads E) t f)) \<and> (\<forall>p m. cpu_ok J m \<longrightarrow> gives (\<lambda>x. cpu_ok J (fst x)) (t_new (threads E) p m))"

lemma cpu_ok_upd [simp]:
  "cpu_ok (users W cur) (m\<lparr>host := h\<rparr>) = cpu_ok (users W cur) m" "cpu_ok (users W cur) (m\<lparr>open_files := f\<rparr>) = cpu_ok (users W cur) m"
  by (simp_all add: cpu_ok_def cpu_sizes_def users_def)

lemma advance_time_ok: "cpu_ok (users W cur) (advance_time m) = cpu_ok (users W cur) m"
  by (simp add: advance_time_def cpu_ok_def cpu_sizes_def)

lemma one_tick_keeps: "keeps (users W cur) (t_interrupts (threads E)) \<Longrightarrow> keeps (users W cur) (one_tick E)"
  by (simp add: keeps_def one_tick_def advance_time_ok)

lemma fault_handler_keeps: "keeps J (fault_handler which)"
proof -
  have "gives (cpu_ok J) (LRU_TLB m va)" if "cpu_ok J m" for m :: "'a Machine_scheme" and va
    by (rule gives_mono [OF LRU_TLB_regs]) (use that in \<open>simp add: regs_kept_ok\<close>)
  then show ?thesis by (simp add: keeps_def fault_handler_def ReadRegister_def)
qed

lemma inner_typed: "keeps (users W cur) (t_interrupts (threads E)) \<Longrightarrow> cpu_kernel (users W cur) (inner E)"
  using fault_handler_keeps [where J = "users W cur"] one_tick_keeps [of W cur E] by unfold_locales (auto simp: inner_def keeps_def)

interpretation quiet_cpu: cpu_kernel "users W cur" "inner (quiet E)" for W cur E
  by (rule inner_typed) (simp add: quiet_def keeps_def)

lemma WriteRegister_ok: "cpu_ok J m \<Longrightarrow> n \<noteq> 0 \<Longrightarrow> n \<noteq> int LoadReg \<Longrightarrow> gives (cpu_ok J) (WriteRegister m n v)"
  by (auto simp: WriteRegister_def cpu_ok_def cpu_sizes_def nth_list_update)

lemma IncrementPC_ok: "cpu_ok J m \<Longrightarrow> gives (cpu_ok J) (IncrementPC m)"
  unfolding IncrementPC_def gives_bindE
  by (intro gives_mono [OF WriteRegister_ok] WriteRegister_ok) simp_all

lemma read_byte_ok: "keeps (users W cur) (t_interrupts (threads E)) \<Longrightarrow> cpu_ok (users W cur) m \<Longrightarrow> gives (\<lambda>x. cpu_ok (users W cur) (fst x)) (read_byte E a v m)"
  unfolding read_byte_def gives_bindE
  by (rule gives_mono [OF cpu_kernel.ReadMem_types [OF inner_typed]]) (auto split: prod.split)

lemma name_length_ok:
  "keeps (users W cur) (t_interrupts (threads E)) \<Longrightarrow> cpu_ok (users W cur) m \<Longrightarrow> gives (\<lambda>x. cpu_ok (users W cur) (fst x)) (name_length E n a v c m)"
proof (induction n arbitrary: a v c m)
  case (Suc n)
  show ?case unfolding name_length.simps gives_bindE
    by (rule gives_mono [OF read_byte_ok [OF Suc.prems]]) (use Suc in \<open>auto split: prod.split\<close>)
qed simp

lemma read_bytes_ok:
  "keeps (users W cur) (t_interrupts (threads E)) \<Longrightarrow> cpu_ok (users W cur) m \<Longrightarrow> gives (\<lambda>x. cpu_ok (users W cur) (fst x)) (read_bytes E n a v m)"
proof (induction n arbitrary: a v m)
  case (Suc n)
  show ?case unfolding read_bytes.simps gives_bindE
    by (rule gives_mono [OF read_byte_ok [OF Suc.prems]]) (auto split: prod.split intro!: gives_mono [OF Suc.IH [OF Suc.prems(1)]])
qed simp

lemma read_name_ok:
  assumes "keeps (users W cur) (t_interrupts (threads E))" "cpu_ok (users W cur) m"
  shows "gives (\<lambda>x. cpu_ok (users W cur) (fst x)) (read_name E a m)"
  unfolding read_name_def gives_bindE
  by (rule gives_mono [OF name_length_ok [OF assms]]) (auto split: prod.split intro: read_bytes_ok [OF assms(1)])

lemma write_bytes_ok:
  assumes "keeps (users W cur) (t_interrupts (threads E))" "cpu_ok (users W cur) m"
  shows "gives (cpu_ok (users W cur)) (write_bytes E a bs m)"
  unfolding write_bytes_def
proof (rule gives_foldE)
  show "cpu_ok (users W cur) m" by (rule assms(2))
next
  fix x :: "nat \<times> byte" and m :: "'a KMachine"
  assume "cpu_ok (users W cur) m"
  then show "gives (cpu_ok (users W cur)) ((\<lambda>(i, b) m. bindE (WriteMem (inner E) m (a + of_nat i) 1 (scast b)) (\<lambda>(m, _). Inr m)) x m)"
    using cpu_kernel.WriteMem_types [OF inner_typed [OF assms(1)], of m] by (auto simp: gives_def bindE_eq_Inr split: prod.splits)
qed

lemma gives_typed_bind: "gives (\<lambda>x. cpu_ok J (fst x)) r \<Longrightarrow> (\<And>m y. cpu_ok J m \<Longrightarrow> gives (cpu_ok J) (f (m, y))) \<Longrightarrow> gives (cpu_ok J) (bindE r f)"
  by (auto simp: gives_def bindE_eq_Inr)

lemma gives_cpu_bind: "gives (cpu_ok J) r \<Longrightarrow> (\<And>m. cpu_ok J m \<Longrightarrow> gives (cpu_ok J) (f m)) \<Longrightarrow> gives (cpu_ok J) (bindE r f)"
  by (auto simp: gives_def bindE_eq_Inr)

lemma keepsI: "(\<And>m. cpu_ok (users W cur) m \<Longrightarrow> gives (cpu_ok (users W cur)) (f m)) \<Longrightarrow> keeps (users W cur) f"
  by (simp add: keeps_def)

lemma sys_path_keeps: "keeps (users W cur) (t_interrupts (threads E)) \<Longrightarrow> keeps (users W cur) (sys_path E f)"
  by (rule keepsI, unfold sys_path_def, rule gives_read, rule gives_typed_bind, erule (1) read_name_ok) (simp add: IncrementPC_ok)

lemma exit_page_keeps: "keeps (users W cur) (exit_page i)"
proof (rule keepsI)
  fix m :: "'a KMachine"
  assume m: "cpu_ok (users W cur) m"
  have u: "cpu_ok (users W cur) (upd_ppt j f m') = cpu_ok (users W cur) m'" for j f and m' :: "'a KMachine" using regs_kept_ok(1) [OF upd_ppt_regs] .
  have p: "gives (cpu_ok (users W cur)) (upd_pte p v f m)" for p v f by (rule gives_mono [OF upd_pte_regs]) (use m in \<open>simp add: regs_kept_ok\<close>)
  show "gives (cpu_ok (users W cur)) (exit_page i m)" unfolding exit_page_def
    by (rule gives_read) (auto simp: m u intro!: gives_mono [OF p] gives_read [where R = "cpu_ok (users W cur)", unfolded gives_bindE])
qed

lemma sys_Exit_keeps: "keeps (users W cur) (t_Finish (threads E)) \<Longrightarrow> keeps (users W cur) (sys_Exit E)"
  by (rule keepsI, unfold sys_Exit_def, rule gives_cpu_bind, rule gives_foldE, erule keepsD [OF exit_page_keeps], assumption,
      rule gives_cpu_bind, erule IncrementPC_ok, erule (1) keepsD)

lemma sys_Create_keeps: "keeps (users W cur) (t_interrupts (threads E)) \<Longrightarrow> keeps (users W cur) (sys_Create E)"
  by (rule keepsI, unfold sys_Create_def, rule gives_read, rule gives_typed_bind, erule (1) read_name_ok, simp only: prod.case,
      rule gives_read) (auto simp: IncrementPC_ok split: prod.split)

lemma sys_Open_keeps: "keeps (users W cur) (t_interrupts (threads E)) \<Longrightarrow> keeps (users W cur) (sys_Open E)"
  by (rule keepsI, unfold sys_Open_def, rule gives_read, rule gives_typed_bind, erule (1) read_name_ok, simp only: prod.case,
      rule gives_read) (auto simp: Let_def WriteRegister_ok IncrementPC_ok split: prod.split option.split intro!: gives_mono [OF WriteRegister_ok [where J = "users W cur"]])

lemma sys_Close_keeps: "keeps (users W cur) (sys_Close E)"
  by (rule keepsI, unfold sys_Close_def, rule gives_read, rule gives_cpu_bind)
    (auto simp: IncrementPC_ok gives_read split: option.split)

lemma sys_Write_keeps: "keeps (users W cur) (t_interrupts (threads E)) \<Longrightarrow> keeps (users W cur) (sys_Write E)"
  by (rule keepsI, unfold sys_Write_def, (rule gives_read)+, split if_split, intro conjI impI, simp, rule gives_typed_bind, erule (1) read_bytes_ok,
      simp only: prod.case, rule gives_cpu_bind)
    (auto simp: IncrementPC_ok split: option.split prod.split intro!: gives_read [where R = "cpu_ok (users W cur)", unfolded gives_bindE])

lemma sys_Read_keeps: "keeps (users W cur) (t_interrupts (threads E)) \<Longrightarrow> keeps (users W cur) (sys_Read E)"
  by (rule keepsI, unfold sys_Read_def Let_def, (rule gives_read)+, split if_split, intro conjI impI, simp, rule gives_typed_bind)
    (auto simp: write_bytes_ok gives_read split: option.split prod.split intro!: gives_mono [OF write_bytes_ok] gives_mono [OF WriteRegister_ok [where J = "users W cur"]] IncrementPC_ok)

lemma sys_fork_keeps:
  assumes "threads_typed (users W cur) E"
  shows "keeps (users W cur) (sys_Fork E)" "keeps (users W cur) (sys_Exec E)"
proof -
  have t: "gives (\<lambda>x. cpu_ok (users W cur) (fst x)) (t_new (threads E) p m)" "gives (cpu_ok (users W cur)) (t_Fork (threads E) i f m)" if "cpu_ok (users W cur) m" for p m i f
    using assms that by (simp_all add: threads_typed_def keeps_def)
  show "keeps (users W cur) (sys_Fork E)"
    by (rule keepsI, unfold sys_Fork_def Let_def, rule gives_read, rule gives_typed_bind, erule t(1), simp only: prod.case,
        rule gives_cpu_bind, erule t(2), rule gives_cpu_bind, rule WriteRegister_ok) (simp_all add: IncrementPC_ok)
  show "keeps (users W cur) (sys_Exec E)"
    by (rule keepsI, unfold sys_Exec_def Let_def, rule gives_read, rule gives_typed_bind, erule t(1), simp only: prod.case,
        rule gives_cpu_bind, erule t(2), rule gives_cpu_bind, rule WriteRegister_ok) (simp_all add: IncrementPC_ok)
qed

lemma join_loop_ok: "keeps (users W cur) (t_Yield (threads E)) \<Longrightarrow> cpu_ok (users W cur) m \<Longrightarrow> gives (cpu_ok (users W cur)) (join_loop E n t m)"
proof (induction n arbitrary: m)
  case (Suc n)
  show ?case unfolding join_loop.simps
    by (rule gives_read, split if_split, intro conjI impI, rule gives_cpu_bind, rule keepsD [OF Suc.prems]) (use Suc in simp_all)
qed simp

lemma sys_yield_keeps:
  assumes "keeps (users W cur) (t_Yield (threads E))"
  shows "keeps (users W cur) (sys_Yield E)" "keeps (users W cur) (sys_Join E)"
proof -
  show "keeps (users W cur) (sys_Yield E)"
    by (rule keepsI, unfold sys_Yield_def, rule gives_cpu_bind, erule IncrementPC_ok, erule keepsD [OF assms])
  show "keeps (users W cur) (sys_Join E)"
    by (rule keepsI, unfold sys_Join_def, rule gives_read, rule gives_cpu_bind, erule join_loop_ok [OF assms], erule IncrementPC_ok)
qed

lemma sys_misc_keeps: "keeps (users W cur) (sys_Halt E)" "keeps (users W cur) (sys_Ls E)" "keeps (users W cur) (sys_Pwd E)" "keeps (users W cur) (sys_Help E)"
  by (simp_all add: keeps_def sys_Halt_def sys_Ls_def sys_Pwd_def sys_Help_def IncrementPC_ok)

lemma syscall_table_keeps:
  assumes "threads_typed (users W cur) E" "f \<in> set syscall_table"
  shows "keeps (users W cur) (f E)"
proof -
  have t: "keeps (users W cur) (t_interrupts (threads E))" "keeps (users W cur) (t_Yield (threads E))" "keeps (users W cur) (t_Finish (threads E))"
    using assms(1) by (simp_all add: threads_typed_def)
  have p: "keeps (users W cur) (sys_RDir E)" "keeps (users W cur) (sys_CDir E)" "keeps (users W cur) (sys_Remove E)" "keeps (users W cur) (sys_Cd E)"
    using sys_path_keeps [OF t(1)] by (simp_all add: keeps_def sys_RDir_def sys_CDir_def sys_Remove_def sys_Cd_def)
  show ?thesis using assms(2) p sys_misc_keeps [where E = E] sys_yield_keeps [OF t(2)] sys_fork_keeps [OF assms(1)] sys_Read_keeps [OF t(1)]
      sys_Write_keeps [OF t(1)] sys_Close_keeps [where E = E] sys_Open_keeps [OF t(1)] sys_Create_keeps [OF t(1)] sys_Exit_keeps [OF t(3)]
    by (auto simp: syscall_table_def)
qed

lemma nachos_typed:
  assumes "threads_typed (users W cur) E"
  shows "cpu_kernel (users W cur) (nachos E)"
proof
  show "keeps (users W cur) (OneTick (nachos E))" using assms one_tick_keeps [where E = E] by (simp add: nachos_def threads_typed_def)
  fix which
  show "keeps (users W cur) (ExceptionHandler (nachos E) which)"
  proof (rule keepsI)
    fix m :: "'a KMachine"
    assume m: "cpu_ok (users W cur) m"
    have "keeps (users W cur) ((syscall_table ! n) E)" if "n < length (syscall_table :: ('a Sys \<Rightarrow> 'a KMachine \<Rightarrow> 'a KMachine result) list)" for n
      using syscall_table_keeps [OF assms nth_mem [OF that]] .
    then show "gives (cpu_ok (users W cur)) (ExceptionHandler (nachos E) which m)"
      using m keepsD [OF fault_handler_keeps m, of which] by (auto simp: nachos_def exception_handler_def ReadRegister_def Let_def keeps_def)
  qed
qed

end
