(* ===== verification/User_Threads.thy ===== *)
theory User_Threads
  imports Cpu_Type
begin

text \<open>
  Several user processes on one machine, as they are created by the system calls \<^verbatim>\<open>Fork\<close> and \<^verbatim>\<open>Exec\<close>, switched by \<^verbatim>\<open>Yield\<close>,
  \<^verbatim>\<open>Join\<close> and \<^verbatim>\<open>Exit\<close>, and started by \<^verbatim>\<open>ForkWrapper\<close> and \<^verbatim>\<open>ExecWrapper\<close>: what \<^verbatim>\<open>Scheduler::Run\<close> saves and restores of the machine.
  The thread operations, a parameter of the system calls in \<open>Syscalls\<close>, are here the steps of all threads. The timer is
  not started, so a thread is switched only where it calls \<^verbatim>\<open>Yield\<close> or \<^verbatim>\<open>Finish\<close> or forks a thread of higher priority; which of the other threads runs next is left open.
\<close>

section \<open>Threads and their switch\<close>

text \<open>
  Where a thread stands when it does not run: inside the \<^verbatim>\<open>Yield\<close> of the system call \<^verbatim>\<open>Yield\<close>, inside the loop of \<^verbatim>\<open>Join\<close>
  for a thread number, inside the \<^verbatim>\<open>Fork\<close> of \<^verbatim>\<open>Fork\<close> or \<^verbatim>\<open>Exec\<close> for the new thread, or before the first instruction of the function it was forked with.
\<close>

datatype stand = InUser | InJoin int | InFork nat | Start Forked

record 'h Users =
  mach :: "'h KMachine"
  stands :: "nat \<Rightarrow> stand option"
  threadToBeDestroyed :: "nat option"

text \<open>What \<^verbatim>\<open>Scheduler::Run\<close> does with the machine before the switch, and what it does after it.\<close>

definition switch_out :: "'h KMachine \<Rightarrow> 'h KMachine result" where
  "switch_out m = (if thread_space m (currentThread m) \<noteq> None then SaveState (SaveUserState m) else Inr m)"

definition switch_in :: "'h KMachine \<Rightarrow> 'h KMachine result" where
  "switch_in m = (case thread_space m (currentThread m) of None \<Rightarrow> Inr m | Some s \<Rightarrow> RestoreState s (RestoreUserState m))"

text \<open>\<^verbatim>\<open>delete threadToBeDestroyed\<close>: the number of the thread is free again.\<close>

definition destroy :: "nat option \<Rightarrow> 'h KMachine \<Rightarrow> 'h KMachine result" where
  "destroy d m = (case d of None \<Rightarrow> Inr m | Some t \<Rightarrow>
     bindE (tid_used m (getTid m t)) (\<lambda>used. ASSERT used (
       ASSERT (t \<noteq> currentThread m) (Inr (m\<lparr>TidMap := (TidMap m)[nat (getTid m t) := False]\<rparr>)))))"

text \<open>
  \<^verbatim>\<open>Scheduler::Run\<close>. A thread that has run before comes back behind the switch; a new one begins with the function it
  was forked with, and leaves the finished thread for later.
\<close>

definition Run_user :: "(nat \<Rightarrow> stand option) \<Rightarrow> nat option \<Rightarrow> nat \<Rightarrow> 'h KMachine \<Rightarrow> 'h Users result" where
  "Run_user st d t m = bindE (switch_out m) (\<lambda>m.
     let m = m\<lparr>currentThread := t\<rparr> in
     case st t of Some (Start f) \<Rightarrow> Inr \<lparr>mach = m, stands = st, threadToBeDestroyed = d\<rparr>
     | _ \<Rightarrow> bindE (destroy d m) (\<lambda>m. bindE (switch_in m) (\<lambda>m.
         Inr \<lparr>mach = m\<lparr>user_mode := st t = Some InUser\<rparr>, stands = st, threadToBeDestroyed = None\<rparr>)))"

text \<open>\<^verbatim>\<open>Thread::Yield\<close>: the scheduler finds no thread (\<open>None\<close>), or the thread \<open>u\<close>, which may be the running one.\<close>

definition Yield_user :: "(nat \<Rightarrow> stand option) \<Rightarrow> nat option \<Rightarrow> nat option \<Rightarrow> 'h KMachine \<Rightarrow> 'h Users result" where
  "Yield_user st d u m = (case u of
     None \<Rightarrow> Inr \<lparr>mach = m\<lparr>user_mode := st (currentThread m) = Some InUser\<rparr>, stands = st, threadToBeDestroyed = d\<rparr>
   | Some t \<Rightarrow> ASSERT (st t \<noteq> None) (Run_user st d t m))"

text \<open>\<^verbatim>\<open>Thread::Finish\<close>: \<^verbatim>\<open>Sleep\<close> until another thread is there, then \<^verbatim>\<open>Run\<close>.\<close>

definition Finish_user :: "(nat \<Rightarrow> stand option) \<Rightarrow> nat \<Rightarrow> 'h KMachine \<Rightarrow> 'h Users result" where
  "Finish_user st t m = (let st = st(currentThread m := None) in
     ASSERT (st t \<noteq> None) (Run_user st (Some (currentThread m)) t m))"

text \<open>\<^verbatim>\<open>new Thread\<close> at the address \<open>t\<close> with the number \<open>tid\<close>.\<close>

definition new_thread :: "nat \<Rightarrow> nat \<Rightarrow> int \<Rightarrow> 'h KMachine \<Rightarrow> ('h KMachine \<times> nat) result" where
  "new_thread t tid prio m = ASSERT (tid < length (TidMap m) \<and> \<not> TidMap m ! tid)
     (Inr (m\<lparr>TidMap := (TidMap m)[tid := True], getTid := (getTid m)(t := int tid), getPriority := (getPriority m)(t := prio),
        thread_space := (thread_space m)(t := None)\<rparr>, t))"

section \<open>System calls up to the thread operation they call\<close>

text \<open>No interrupt is due, and no thread operation is called.\<close>

definition alone :: "'h Sys \<Rightarrow> 'h Sys" where
  "alone E = E\<lparr>threads := \<lparr>t_interrupts = Inr, t_Yield = (\<lambda>_. Inl Blocked), t_Finish = (\<lambda>_. Inl Blocked),
     t_new = (\<lambda>_ _. Inl Blocked), t_Fork = (\<lambda>_ _ _. Inl Blocked)\<rparr>\<rparr>"

text \<open>The system call is followed up to its call of \<^verbatim>\<open>Yield\<close> or \<^verbatim>\<open>Finish\<close>, which is its last action.\<close>

definition up_to_switch :: "'h Sys \<Rightarrow> 'h Sys" where
  "up_to_switch E = (alone E)\<lparr>threads := (threads (alone E))\<lparr>t_Yield := Inr, t_Finish := Inr\<rparr>\<rparr>"

text \<open>
  \<^verbatim>\<open>Exec\<close> and \<^verbatim>\<open>Fork\<close> in two parts: the priority of the new thread and the function it is forked with, and what is left to do when \<^verbatim>\<open>Fork\<close>
  returns, with the number of the new thread.
\<close>

definition fork_args :: "'h KMachine \<Rightarrow> (int \<times> Forked) result" where
  "fork_args m = bindE (arg m 4) (\<lambda>a.
     let info = \<lparr>caller = thread_space m (currentThread m), pc = a\<rparr> in
     if reg m 2 = 2 then Inr (getPriority m (currentThread m) - 1, ExecWrapper info) else Inr (127, ForkWrapper info))"

definition fork_rest :: "int \<Rightarrow> 'h KMachine \<Rightarrow> 'h KMachine result" where
  "fork_rest tid m = bindE (WriteRegister m 2 (word_of_int tid)) (\<lambda>m. IncrementPC m)"

definition forking :: "nat \<Rightarrow> nat \<Rightarrow> 'h Sys \<Rightarrow> 'h Sys" where
  "forking t tid E = (alone E)\<lparr>threads := (threads (alone E))\<lparr>t_new := new_thread t tid, t_Fork := (\<lambda>_ _. Inr)\<rparr>\<rparr>"

text \<open>The parts are the system call, if the new thread does not run before \<^verbatim>\<open>Fork\<close> returns.\<close>

lemma fork_in_parts:
  assumes "t \<noteq> currentThread m"
  shows "reg m 2 = 2 \<Longrightarrow> sys_Exec (forking t tid E) m =
      bindE (fork_args m) (\<lambda>(prio, f). bindE (new_thread t tid prio m) (\<lambda>(m, t). fork_rest (getTid m t) m))"
    "reg m 2 = 9 \<Longrightarrow> sys_Fork (forking t tid E) m =
      bindE (fork_args m) (\<lambda>(prio, f). bindE (new_thread t tid prio m) (\<lambda>(m, t). fork_rest (getTid m t) m))"
  using assms by (simp_all add: sys_Exec_def sys_Fork_def forking_def alone_def fork_args_def fork_rest_def new_thread_def arg_def
      ReadRegister_def Let_def)

text \<open>The instruction at the program counter is a system call: the state in which the handler is called for it.\<close>

definition syscall_entry :: "'h Sys \<Rightarrow> 'h KMachine \<Rightarrow> 'h KMachine result" where
  "syscall_entry E m = bindE (ReadMem (nachos E) m (reg m PCReg) 4) (\<lambda>(m, raw). case raw of None \<Rightarrow> Inl Blocked | Some raw \<Rightarrow>
     if opCode (Decode raw) = OP_SYSCALL
     then bindE (DelayedLoad 0 0 (m\<lparr>registers := (registers m)[BadVAddrReg := 0]\<rparr>)) (\<lambda>m. one_tick E (m\<lparr>user_mode := False\<rparr>))
     else Inl Blocked)"

text \<open>The condition of the loop of \<^verbatim>\<open>Join\<close>.\<close>

definition join_waits :: "'h KMachine \<Rightarrow> int \<Rightarrow> bool result" where
  "join_waits m tid = bindE (tid_used m tid) (\<lambda>used. Inr (used \<and> tid \<noteq> getTid m (currentThread m)))"

section \<open>Runs of all threads\<close>

text \<open>
  In \<open>forks\<close>, \<^verbatim>\<open>ReadyToRun\<close> yields at once to a new thread of higher priority. In \<open>forked\<close>, the number of the new thread is read from its object,
  which may have been deleted since if the thread has finished.
\<close>

abbreviation stand_now :: "'h Users \<Rightarrow> stand option" where
  "stand_now s \<equiv> stands s (currentThread (mach s))"

inductive user_reach :: "'h Sys \<Rightarrow> 'h Users \<Rightarrow> bool" for E where
  boot: "unused m \<Longrightarrow> StartProcess (posix E) junk (heap_junk E) jh a name (host m) m = Inr (h, Some m') \<Longrightarrow>
    user_reach E \<lparr>mach = m'\<lparr>host := h, user_mode := True\<rparr>, stands = [currentThread m' \<mapsto> InUser], threadToBeDestroyed = None\<rparr>"
| time: "user_reach E s \<Longrightarrow> one_tick (alone E) (mach s) = Inr m \<Longrightarrow> user_reach E (s\<lparr>mach := m\<rparr>)"
| instruction: "user_reach E s \<Longrightarrow> stand_now s = Some InUser \<Longrightarrow> OneInstruction (nachos (alone E)) (mach s) = Inr m \<Longrightarrow>
    user_reach E (s\<lparr>mach := m\<rparr>)"
| forks: "user_reach E s \<Longrightarrow> stand_now s = Some InUser \<Longrightarrow> syscall_entry (up_to_switch E) (mach s) = Inr m1 \<Longrightarrow>
    reg m1 2 \<in> {2, 9} \<Longrightarrow> fork_args m1 = Inr (prio, f) \<Longrightarrow> stands s t = None \<Longrightarrow> new_thread t tid prio m1 = Inr (m, t) \<Longrightarrow>
    u = None \<or> prio < getPriority m (currentThread m) \<Longrightarrow>
    Yield_user ((stands s)(t \<mapsto> Start f, currentThread m \<mapsto> InFork t)) (threadToBeDestroyed s) u m = Inr s' \<Longrightarrow> user_reach E s'"
| forked: "user_reach E s \<Longrightarrow> stand_now s = Some (InFork t) \<Longrightarrow> stands s t = None \<or> tid = getTid (mach s) t \<Longrightarrow>
    fork_rest tid (mach s) = Inr m \<Longrightarrow>
    user_reach E (s\<lparr>mach := m\<lparr>user_mode := True\<rparr>, stands := (stands s)(currentThread m \<mapsto> InUser)\<rparr>)"
| yields: "user_reach E s \<Longrightarrow> stand_now s = Some InUser \<Longrightarrow> syscall_entry (up_to_switch E) (mach s) = Inr m1 \<Longrightarrow>
    reg m1 2 = 10 \<Longrightarrow> sys_Yield (up_to_switch E) m1 = Inr m \<Longrightarrow> Yield_user (stands s) (threadToBeDestroyed s) u m = Inr s' \<Longrightarrow>
    user_reach E s'"
| exits: "user_reach E s \<Longrightarrow> stand_now s = Some InUser \<Longrightarrow> syscall_entry (up_to_switch E) (mach s) = Inr m1 \<Longrightarrow>
    reg m1 2 = 1 \<Longrightarrow> sys_Exit (up_to_switch E) m1 = Inr m \<Longrightarrow> Finish_user (stands s) t m = Inr s' \<Longrightarrow> user_reach E s'"
| joins: "user_reach E s \<Longrightarrow> stand_now s = Some InUser \<Longrightarrow> syscall_entry (up_to_switch E) (mach s) = Inr m \<Longrightarrow>
    reg m 2 = 3 \<Longrightarrow> arg m 4 = Inr tid \<Longrightarrow> join_waits m (sint tid) = Inr True \<Longrightarrow>
    Yield_user ((stands s)(currentThread m \<mapsto> InJoin (sint tid))) (threadToBeDestroyed s) u m = Inr s' \<Longrightarrow> user_reach E s'"
| joins_again: "user_reach E s \<Longrightarrow> stand_now s = Some (InJoin tid) \<Longrightarrow> join_waits (mach s) tid = Inr True \<Longrightarrow>
    Yield_user (stands s) (threadToBeDestroyed s) u (mach s) = Inr s' \<Longrightarrow> user_reach E s'"
| joined: "user_reach E s \<Longrightarrow> stand_now s = Some (InJoin tid) \<Longrightarrow> join_waits (mach s) tid = Inr False \<Longrightarrow>
    IncrementPC (mach s) = Inr m \<Longrightarrow>
    user_reach E (s\<lparr>mach := m\<lparr>user_mode := True\<rparr>, stands := (stands s)(currentThread m \<mapsto> InUser)\<rparr>)"
| starts: "user_reach E s \<Longrightarrow> stand_now s = Some (Start (ForkWrapper info)) \<Longrightarrow> spaces (mach s) a = None \<Longrightarrow>
    ForkWrapper_start (alone E) junk a info (mach s) = Inr m \<Longrightarrow>
    user_reach E (s\<lparr>mach := m\<lparr>user_mode := True\<rparr>, stands := (stands s)(currentThread m \<mapsto> InUser)\<rparr>)"
| starts_file: "user_reach E s \<Longrightarrow> stand_now s = Some (Start (ExecWrapper info)) \<Longrightarrow> spaces (mach s) a = None \<Longrightarrow>
    ExecWrapper_start (alone E) junk jh a info (mach s) = Inr (m, True) \<Longrightarrow>
    user_reach E (s\<lparr>mach := m\<lparr>user_mode := True\<rparr>, stands := (stands s)(currentThread m \<mapsto> InUser)\<rparr>)"
| no_file: "user_reach E s \<Longrightarrow> stand_now s = Some (Start (ExecWrapper info)) \<Longrightarrow>
    ExecWrapper_start (alone E) junk jh a info (mach s) = Inr (m, False) \<Longrightarrow> Finish_user (stands s) t m = Inr s' \<Longrightarrow>
    user_reach E s'"

section \<open>Types of the machine\<close>

text \<open>The threads that have run before: what is saved for them is used when they run again.\<close>

definition waits :: "(nat \<Rightarrow> stand option) \<Rightarrow> nat set" where
  "waits st = {t. \<exists>x. st t = Some x \<and> (\<forall>f. x \<noteq> Start f)}"

abbreviation here_ok :: "(nat \<Rightarrow> stand option) \<Rightarrow> 'h KMachine \<Rightarrow> bool" where
  "here_ok st m \<equiv> cpu_ok (users (waits st - {currentThread m}) (currentThread m)) m"

definition users_ok :: "'h Users \<Rightarrow> bool" where
  "users_ok s \<longleftrightarrow> here_ok (stands s) (mach s)"

lemma waits_upd [simp]:
  "waits (st(t \<mapsto> InUser)) = insert t (waits st)" "waits (st(t \<mapsto> InJoin i)) = insert t (waits st)"
  "waits (st(t \<mapsto> InFork u)) = insert t (waits st)"
  "waits (st(t \<mapsto> Start f)) = waits st - {t}" "waits (st(t := None)) = waits st - {t}" "waits Map.empty = {}"
  by (auto simp: waits_def)

lemma users_mono: "cpu_ok (users W c) m \<Longrightarrow> W' \<subseteq> W \<Longrightarrow> cpu_ok (users W' c) m"
  by (auto simp: cpu_ok_def cpu_sizes_def users_def)

lemma cpu_ok_running: "cpu_ok (users W c) m \<Longrightarrow> currentThread m = c"
  by (simp add: cpu_ok_def cpu_sizes_def users_def)

lemma cpu_ok_mode [simp]: "cpu_ok J (m\<lparr>user_mode := b\<rparr>) = cpu_ok J m"
  by (simp add: cpu_ok_def cpu_sizes_def)

lemma cpu_ok_regs: "cpu_ok J m \<Longrightarrow> regs_ok (registers m)"
  by (simp add: cpu_ok_def cpu_sizes_def regs_ok_def)

lemma SaveState_keeps: "cpu_ok J m \<Longrightarrow> gives (cpu_ok J) (SaveState m)"
proof -
  have "gives (cpu_ok J) (upd_pte p v f m)" if "cpu_ok J m" for p v f and m :: "'a Machine_scheme"
    by (rule gives_mono [OF upd_pte_regs]) (use that in \<open>simp add: regs_kept_ok\<close>)
  then show "cpu_ok J m \<Longrightarrow> gives (cpu_ok J) (SaveState m)"
    unfolding SaveState_def by (elim gives_foldE [rotated]) (auto simp: Let_def regs_kept_ok(1) [OF upd_tlb_regs] intro!: gives_cpu_bind)
qed

lemma RestoreState_keeps: "cpu_ok J m \<Longrightarrow> gives (cpu_ok J) (RestoreState a m)"
  by (auto simp: RestoreState_def space_of_def cpu_ok_def cpu_sizes_def split: option.split)

lemma switch_out_ok:
  assumes "here_ok st m"
  shows "gives (cpu_ok (users (waits st) (currentThread m))) (switch_out m)"
proof (cases "thread_space m (currentThread m)")
  case None
  with assms show ?thesis by (auto simp: switch_out_def cpu_ok_def cpu_sizes_def users_def)
next
  case (Some a)
  have "cpu_ok (users (waits st) (currentThread m)) (SaveUserState m)"
    using assms cpu_ok_regs [OF assms] by (auto simp: SaveUserState_def cpu_ok_def cpu_sizes_def users_def)
  with Some show ?thesis by (simp add: switch_out_def SaveState_keeps)
qed

lemma switch_in_ok:
  assumes "cpu_ok (users W t) m" "t \<in> W"
  shows "gives (cpu_ok (users W t)) (switch_in m)"
proof (cases "thread_space m (currentThread m)")
  case (Some a)
  then have "cpu_ok (users W t) (RestoreUserState m)" using assms by (auto simp: RestoreUserState_def cpu_ok_def cpu_sizes_def users_def regs_ok_def)
  with Some show ?thesis by (simp add: switch_in_def RestoreState_keeps)
qed (simp add: switch_in_def assms)

lemma destroy_ok: "cpu_ok (users W c) m \<Longrightarrow> gives (cpu_ok (users W c)) (destroy d m)"
  by (auto simp: destroy_def tid_used_def cpu_ok_def cpu_sizes_def users_def split: option.split)

lemma Run_user_ok:
  assumes "here_ok st m" "st t \<noteq> None"
  shows "gives users_ok (Run_user st d t m)"
  unfolding Run_user_def gives_bindE
proof (rule gives_mono [OF switch_out_ok [OF assms(1)]])
  fix m1
  assume "cpu_ok (users (waits st) (currentThread m)) m1"
  then have m1: "cpu_ok (users (waits st) t) (m1\<lparr>currentThread := t\<rparr>)" by (auto simp: cpu_ok_def cpu_sizes_def users_def)
  then have new: "gives users_ok (Inr \<lparr>mach = m1\<lparr>currentThread := t\<rparr>, stands = st, threadToBeDestroyed = d\<rparr>)"
    by (auto simp: users_ok_def elim: users_mono)
  have old: "gives users_ok (bindE (destroy d (m1\<lparr>currentThread := t\<rparr>)) (\<lambda>m. bindE (switch_in m) (\<lambda>m.
      Inr \<lparr>mach = m\<lparr>user_mode := st t = Some InUser\<rparr>, stands = st, threadToBeDestroyed = None\<rparr>)))" if "t \<in> waits st"
    unfolding gives_bindE
    by (rule gives_mono [OF destroy_ok [OF m1]], erule gives_mono [OF switch_in_ok [OF _ that]])
      (auto simp: users_ok_def cpu_ok_running elim: users_mono)
  have "t \<in> waits st \<or> (\<exists>f. st t = Some (Start f))" using assms(2) by (auto simp: waits_def)
  with new old show "gives users_ok (let m = m1\<lparr>currentThread := t\<rparr> in
     case st t of Some (Start f) \<Rightarrow> Inr \<lparr>mach = m, stands = st, threadToBeDestroyed = d\<rparr>
     | _ \<Rightarrow> bindE (destroy d m) (\<lambda>m. bindE (switch_in m) (\<lambda>m.
         Inr \<lparr>mach = m\<lparr>user_mode := st t = Some InUser\<rparr>, stands = st, threadToBeDestroyed = None\<rparr>)))"
    by (auto simp: waits_def Let_def split: option.split stand.split)
qed

lemma Yield_user_ok: "here_ok st m \<Longrightarrow> gives users_ok (Yield_user st d u m)"
  by (cases u) (simp_all add: Yield_user_def users_ok_def Run_user_ok)

lemma Finish_user_ok: "here_ok st m \<Longrightarrow> gives users_ok (Finish_user st t m)"
  by (simp add: Finish_user_def Let_def Run_user_ok users_mono)

text \<open>System calls and the functions of new threads.\<close>

lemma typed_threads:
  "threads_typed (users W c) (alone E)" "threads_typed (users W c) (up_to_switch E)"
  by (auto simp: threads_typed_def alone_def up_to_switch_def keeps_def)

interpretation alone_cpu: cpu_kernel "users W c" "nachos (alone E)" for W c E
  by (rule nachos_typed [OF typed_threads(1)])

interpretation switch_cpu: cpu_kernel "users W c" "nachos (up_to_switch E)" for W c E
  by (rule nachos_typed [OF typed_threads(2)])

lemma typed_interrupts: "threads_typed J E \<Longrightarrow> keeps J (t_interrupts (threads E))"
  by (simp add: threads_typed_def)

lemma syscall_entry_ok:
  assumes "cpu_ok (users W c) m"
  shows "gives (cpu_ok (users W c)) (syscall_entry (up_to_switch E) m)"
proof -
  have "keeps (users W c) (one_tick (up_to_switch E))" by (rule one_tick_keeps [OF typed_interrupts [OF typed_threads(2)]])
  then have "gives (cpu_ok (users W c)) (bindE (DelayedLoad 0 0 (m\<lparr>registers := (registers m)[BadVAddrReg := 0]\<rparr>))
      (\<lambda>m. one_tick (up_to_switch E) (m\<lparr>user_mode := False\<rparr>)))" if "cpu_ok (users W c) m" for m
    using that by (intro gives_cpu_bind DelayedLoad_ok) (auto simp: keeps_def cpu_ok_def cpu_sizes_def)
  then show ?thesis unfolding syscall_entry_def
    by (intro gives_typed_bind [OF switch_cpu.ReadMem_types [OF assms]]) (auto split: option.split)
qed

lemma InitRegisters_ok: "cpu_sizes J m \<Longrightarrow> gives (cpu_ok J) (InitRegisters sp m)"
  by (auto simp: cpu_ok_def cpu_sizes_def InitRegisters_eq nth_list_update)

lemma users_own_space:
  "cpu_ok (users (W - {currentThread m}) c) m \<Longrightarrow>
    cpu_ok (users (W - {currentThread m}) c) (m\<lparr>spaces := p, thread_space := (thread_space m)(currentThread m := a)\<rparr>)"
  by (auto simp: cpu_ok_def cpu_sizes_def users_def)

lemma users_own_registers:
  "cpu_ok (users (W - {c}) c) m \<Longrightarrow> cpu_ok (users (W - {c}) c) (SaveUserState m)"
  by (auto simp: SaveUserState_def cpu_ok_def cpu_sizes_def users_def)

lemma ForkWrapper_start_ok:
  assumes "here_ok st m"
  shows "gives (cpu_ok (users (waits st - {currentThread m}) (currentThread m))) (ForkWrapper_start E junk a info m)"
  unfolding ForkWrapper_start_def Let_def
  by (rule gives_read, clarify, intro gives_cpu_bind RestoreState_keeps WriteRegister_ok users_own_space [OF assms])
    (auto simp: users_own_registers)

lemma new_process_ok:
  assumes "cpu_ok (users (W - {currentThread m}) c) m"
  shows "gives (\<lambda>x. cpu_ok (users (W - {currentThread m}) c) (fst x)) (
    bindE (InitRegisters sp (m\<lparr>host := h, spaces := p, thread_space := (thread_space m)(currentThread m := Some a)\<rparr>)) (\<lambda>m.
    bindE (RestoreState a m) (\<lambda>m. bindE (Stub_delete P executable (host m)) (\<lambda>h. Inr (m\<lparr>host := h\<rparr>, True)))))"
proof -
  have "cpu_sizes (users (W - {currentThread m}) c) (m\<lparr>host := h, spaces := p, thread_space := (thread_space m)(currentThread m := Some a)\<rparr>)"
    using assms by (auto simp: cpu_ok_def cpu_sizes_def users_def)
  then show ?thesis unfolding gives_bindE
    by (rule gives_mono [OF InitRegisters_ok]) (rule gives_mono [OF RestoreState_keeps], assumption, simp add: gives_def)
qed

lemma ExecWrapper_start_ok:
  fixes m :: "'h KMachine"
  assumes "here_ok st m"
  shows "gives (\<lambda>x. cpu_ok (users (waits st - {currentThread m}) (currentThread m)) (fst x)) (ExecWrapper_start (alone E) junk jh a info m)"
proof -
  let ?J = "users (waits st - {currentThread m}) (currentThread m)"
  have "cpu_ok ?J (m\<lparr>thread_space := (thread_space m)(currentThread m := caller info)\<rparr>)"
    using users_own_space [OF assms, where p = "spaces m" and a = "caller info"] by simp
  note n = read_name_ok [OF typed_interrupts [OF typed_threads(1)] this]
  show ?thesis unfolding ExecWrapper_start_def Let_def gives_bindE [of _ "read_name _ _ _"]
  proof (rule gives_mono [OF n], clarify)
    fix m1 :: "'h KMachine" and name :: "byte list"
    assume "cpu_ok ?J (fst (m1, name))"
    then have m1: "cpu_ok ?J m1" "currentThread m1 = currentThread m" by (auto dest: cpu_ok_running)
    show "gives (\<lambda>x. cpu_ok ?J (fst x)) (bindE (Stub_Open (posix (alone E)) (c_string name) (host m1)) (\<lambda>(h, f).
      case f of None \<Rightarrow> Inr (m1\<lparr>host := h\<rparr>, False)
      | Some executable \<Rightarrow> bindE (new_AddrSpace (posix (alone E)) junk (heap_junk (alone E)) jh executable h) (\<lambda>(h, sp).
          bindE (InitRegisters sp (m1\<lparr>host := h, spaces := (spaces m1)(a \<mapsto> sp), thread_space := (thread_space m1)(currentThread m1 \<mapsto> a)\<rparr>)) (\<lambda>m.
          bindE (RestoreState a m) (\<lambda>m. bindE (Stub_delete (posix (alone E)) executable (host m)) (\<lambda>h. Inr (m\<lparr>host := h\<rparr>, True)))))))"
      by (rule gives_read, clarify, split option.split, intro conjI allI impI, simp add: m1, rule gives_read, clarify)
        (use new_process_ok [of "waits st" m1] m1 in simp)
  qed
qed

lemma still_here: "gives (cpu_ok (users (waits st - {currentThread m}) (currentThread m))) r \<Longrightarrow> gives (here_ok st) r"
  by (rule gives_mono, assumption) (use cpu_ok_running in fastforce)

lemma here_ok_kept: "here_ok st m \<Longrightarrow> keeps (users (waits st - {currentThread m}) (currentThread m)) f \<Longrightarrow> gives (here_ok st) (f m)"
  by (rule still_here, erule (1) keepsD [rotated])

lemma here_ok_entry: "here_ok st m \<Longrightarrow> gives (here_ok st) (syscall_entry (up_to_switch E) m)"
  by (rule still_here, rule syscall_entry_ok)

lemma boot_ok:
  assumes "unused m" "StartProcess P junk jb jh a name (host m) m = Inr (h, Some m')"
  shows "here_ok [currentThread m' \<mapsto> InUser] (m'\<lparr>host := h\<rparr>)"
proof -
  obtain p sp where p: "bindE (InitRegisters sp (m\<lparr>spaces := p, thread_space := (thread_space m)(currentThread m \<mapsto> a)\<rparr>)) (RestoreState a) = Inr m'"
    using assms(2) by (auto simp: StartProcess_def bindE_eq_Inr split: option.splits prod.splits) blast
  let ?m = "m\<lparr>spaces := p, thread_space := (thread_space m)(currentThread m \<mapsto> a)\<rparr>"
  have "length (registers ?m) = 40" using assms(1) by (simp add: unused_def)
  with p assms(1) show ?thesis
    by (auto simp: InitRegisters_eq RestoreState_def space_of_def unused_def cpu_ok_def cpu_sizes_def users_def bindE_eq_Inr nth_list_update split: option.splits)
qed

lemma entered_ok: "users_ok s \<Longrightarrow> syscall_entry (up_to_switch E) (mach s) = Inr m \<Longrightarrow> here_ok (stands s) m"
  unfolding users_ok_def by (rule givesD [OF here_ok_entry])

lemma at_Yield_ok: "here_ok st m1 \<Longrightarrow> sys_Yield (up_to_switch E) m1 = Inr m \<Longrightarrow> here_ok st m"
  by (rule givesD [OF here_ok_kept [OF _ sys_yield_keeps(1)]]) (simp_all add: up_to_switch_def alone_def keeps_def)

lemma at_Finish_ok: "here_ok st m1 \<Longrightarrow> sys_Exit (up_to_switch E) m1 = Inr m \<Longrightarrow> here_ok st m"
  by (rule givesD [OF here_ok_kept [OF _ sys_Exit_keeps]]) (simp_all add: up_to_switch_def alone_def keeps_def)

lemma new_thread_ok: "here_ok st m \<Longrightarrow> new_thread t tid prio m = Inr (m', t') \<Longrightarrow> here_ok st m'"
  by (auto simp: new_thread_def ASSERT_def cpu_ok_def cpu_sizes_def users_def split: if_splits)

lemma fork_rest_ok: "here_ok st m \<Longrightarrow> fork_rest tid m = Inr m' \<Longrightarrow> here_ok st m'"
  unfolding fork_rest_def by (rule givesD [OF still_here [OF gives_cpu_bind]]) (auto intro: WriteRegister_ok IncrementPC_ok)

lemma file_start_ok:
  assumes "here_ok st m" "ExecWrapper_start (alone E) junk jh a info m = Inr (m', b)"
  shows "here_ok st m'"
proof -
  have "cpu_ok (users (waits st - {currentThread m}) (currentThread m)) m'" using givesD [OF ExecWrapper_start_ok [OF assms(1)] assms(2)] by simp
  with cpu_ok_running [OF this] show ?thesis by simp
qed

lemma back_in_user: "here_ok st m \<Longrightarrow> users_ok (s\<lparr>mach := m\<lparr>user_mode := True\<rparr>, stands := st(currentThread m \<mapsto> InUser)\<rparr>)"
  by (simp add: users_ok_def)

lemma users_ok_reach: "user_reach E s \<Longrightarrow> users_ok s"
proof (induction rule: user_reach.induct)
  case (boot m junk jh a name h m')
  from boot_ok [OF this] show ?case by (simp add: users_ok_def)
next
  case (time s m)
  have "keeps (users W c) (one_tick (alone E))" for W c by (rule one_tick_keeps [OF typed_interrupts [OF typed_threads(1)]])
  from givesD [OF here_ok_kept [OF time.IH [unfolded users_ok_def] this] time.hyps(2)] show ?case by (simp add: users_ok_def)
next
  case (instruction s m)
  from givesD [OF still_here [OF alone_cpu.OneInstruction_ok [OF instruction.IH [unfolded users_ok_def]]] instruction.hyps(3)]
  show ?case by (simp add: users_ok_def)
next
  case (forks s m1 prio f t tid m u s')
  have "here_ok (stands s) m" by (rule new_thread_ok [OF entered_ok [OF forks.IH forks.hyps(3)] forks.hyps(7)])
  then have "here_ok ((stands s)(t \<mapsto> Start f, currentThread m \<mapsto> InFork t)) m" by (auto elim: users_mono)
  from givesD [OF Yield_user_ok [OF this] forks.hyps(9)] show ?case .
next
  case (forked s t tid m)
  show ?case by (rule back_in_user, rule fork_rest_ok [OF forked.IH [unfolded users_ok_def] forked.hyps(4)])
next
  case (yields s m1 m u s')
  show ?case by (rule givesD [OF Yield_user_ok yields.hyps(6)], rule at_Yield_ok [OF entered_ok [OF yields.IH yields.hyps(3)] yields.hyps(5)])
next
  case (exits s m1 m t s')
  show ?case by (rule givesD [OF Finish_user_ok exits.hyps(6)], rule at_Finish_ok [OF entered_ok [OF exits.IH exits.hyps(3)] exits.hyps(5)])
next
  case (joins s m tid u s')
  have "here_ok ((stands s)(currentThread m \<mapsto> InJoin (sint tid))) m" using entered_ok [OF joins.IH joins.hyps(3)] by simp
  from givesD [OF Yield_user_ok [OF this] joins.hyps(7)] show ?case .
next
  case (joins_again s tid u s')
  show ?case by (rule givesD [OF Yield_user_ok [OF joins_again.IH [unfolded users_ok_def]] joins_again.hyps(4)])
next
  case (joined s tid m)
  show ?case by (rule back_in_user, rule givesD [OF still_here [OF IncrementPC_ok [OF joined.IH [unfolded users_ok_def]]] joined.hyps(4)])
next
  case (starts s info a junk m)
  show ?case
    by (rule back_in_user, rule givesD [OF still_here [OF ForkWrapper_start_ok [OF starts.IH [unfolded users_ok_def]]] starts.hyps(4)])
next
  case (starts_file s info a junk jh m)
  show ?case by (rule back_in_user, rule file_start_ok [OF starts_file.IH [unfolded users_ok_def] starts_file.hyps(4)])
next
  case (no_file s info junk jh a m t s')
  show ?case by (rule givesD [OF Finish_user_ok no_file.hyps(4)], rule file_start_ok [OF no_file.IH [unfolded users_ok_def] no_file.hyps(3)])
qed

text \<open>The state in which the handler is called is the one in which the instruction calls it.\<close>

lemma OneInstruction_syscall:
  assumes "syscall_entry E m = Inr m1"
  shows "OneInstruction (nachos E) m = bindE (exception_handler E SyscallException m1) (\<lambda>m. Inr (m\<lparr>user_mode := True\<rparr>))"
proof -
  obtain m0 raw m2 where r: "ReadMem (nachos E) m (reg m PCReg) 4 = Inr (m0, Some raw)" "opCode (Decode raw) = OP_SYSCALL"
    "DelayedLoad 0 0 (m0\<lparr>registers := (registers m0)[BadVAddrReg := 0]\<rparr>) = Inr m2" "one_tick E (m2\<lparr>user_mode := False\<rparr>) = Inr m1"
    using assms by (auto simp: syscall_entry_def bindE_eq_Inr split: option.splits if_splits)
  have "execute (nachos E) (Decode raw) pcAfter m0 = trap (nachos E) SyscallException 0 m0" for pcAfter
    using r(2) by (simp add: execute_def exec_add_def exec_branch_def exec_div_def exec_load_def exec_load_part_def exec_move_def
        exec_shift_def exec_store_part_def Let_def)
  then show ?thesis using r(1,3,4) by (simp add: OneInstruction_def trap_def RaiseException_def nachos_def bindE_assoc)
qed

text \<open>
  C31. The machine keeps its types, with any number of user processes: from the start of the first process on, through
  instructions, page faults, all system calls, new threads, switches between threads and the end of threads, the register file, memory, translation buffer and frame table
  keep their sizes, register 0 is 0, and a delayed load is for one of the 32 general registers; so are the registers that are saved for
  every process that waits to run again.
\<close>

theorem cpu_types_kept:
  assumes "user_reach E s"
  shows "regs_ok (registers (mach s)) \<and> length (mainMemory (mach s)) = MemorySize \<and> length (tlb (mach s)) = TLBSize \<and>
    length (PhysicalPageTable (mach s)) = NumPhysPages \<and>
    (\<forall>t x. stands s t = Some x \<and> t \<noteq> currentThread (mach s) \<and> (\<forall>f. x \<noteq> Start f) \<and> thread_space (mach s) t \<noteq> None \<longrightarrow>
      regs_ok (userRegisters (mach s) t))"
proof -
  have ok: "here_ok (stands s) (mach s)" using users_ok_reach [OF assms] by (simp add: users_ok_def)
  have "regs_ok (userRegisters (mach s) t)" if "t \<in> waits (stands s) - {currentThread (mach s)}" "thread_space (mach s) t \<noteq> None" for t
  proof -
    have "\<forall>t \<in> waits (stands s) - {currentThread (mach s)}. thread_space (mach s) t = None \<or> regs_ok (userRegisters (mach s) t)"
      using ok by (simp add: cpu_ok_def cpu_sizes_def users_def)
    from bspec [OF this that(1)] that(2) show ?thesis by simp
  qed
  then have "\<forall>t x. stands s t = Some x \<and> t \<noteq> currentThread (mach s) \<and> (\<forall>f. x \<noteq> Start f) \<and> thread_space (mach s) t \<noteq> None \<longrightarrow>
      regs_ok (userRegisters (mach s) t)" by (simp add: waits_def)
  then show ?thesis using ok cpu_ok_regs [OF ok] by (simp add: cpu_ok_def cpu_sizes_def)
qed

section \<open>A concrete process\<close>

text \<open>The first process is loaded from a file, and time passes.\<close>

lemma ex_booted:
  "\<exists>h m. StartProcess ex_posix (\<lambda>_. ex_pte) (heap_junk ex_sys) (replicate 40 0) 0 [] 0 ex_base = Inr (h, Some m)"
proof -
  have "h_open ex_posix [] False 0 = (0, 3)" and cl: "\<forall>h. True \<longrightarrow> 0 \<le> snd (h_close ex_posix 3 h)" and three: "(0 :: int) \<le> 3"
    by (simp_all add: ex_posix_def)
  moreover have "noff_fits ex_data ex_noff" using ex_noff_ok by (simp add: noff_ok_def)
  ultimately show ?thesis
    using StartProcess_image [OF ex_base_unused _ three ex_serves TrueI cl _ length_replicate, of "[]" 0 0 ex_noff "\<lambda>_. ex_pte" "heap_junk ex_sys" 0 0]
    by blast
qed

theorem cpu_types_kept_witness:
  "\<exists>s :: nat Users. user_reach ex_sys s \<and> stands s (currentThread (mach s)) = Some InUser \<and> regs_ok (registers (mach s))"
proof -
  obtain h m where "StartProcess ex_posix (\<lambda>_. ex_pte) (heap_junk ex_sys) (replicate 40 0) 0 [] 0 ex_base = Inr (h, Some m)"
    using ex_booted by blast
  moreover have "posix ex_sys = ex_posix" "host ex_base = 0"
    by (simp_all add: ex_sys_def ex_base_def Machine.extend_def KMachine.defs)
  ultimately have "user_reach ex_sys \<lparr>mach = m\<lparr>host := h, user_mode := True\<rparr>, stands = [currentThread m \<mapsto> InUser], threadToBeDestroyed = None\<rparr>"
    using user_reach.boot [OF ex_base_unused, of ex_sys] by auto
  moreover obtain m' where "one_tick (alone ex_sys) (m\<lparr>host := h, user_mode := True\<rparr>) = Inr m'" "currentThread m' = currentThread m"
    by (simp add: one_tick_def alone_def advance_time_def)
  ultimately have "user_reach ex_sys \<lparr>mach = m', stands = [currentThread m' \<mapsto> InUser], threadToBeDestroyed = None\<rparr>" (is "user_reach _ ?s")
    using user_reach.time [of ex_sys "\<lparr>mach = m\<lparr>host := h, user_mode := True\<rparr>, stands = [currentThread m \<mapsto> InUser], threadToBeDestroyed = None\<rparr>" m']
    by simp
  from this cpu_types_kept [OF this] show ?thesis by (intro exI [of _ ?s]) simp
qed

end
