(* ===== verification/Disk_Readers.thy ===== *)
theory Disk_Readers
  imports Synch_Disk
begin

text \<open>
  The readers and writers of a file on the synchronous disk (\<^verbatim>\<open>filesys/synchdisk.cc\<close>), for any number of threads: \<^verbatim>\<open>StartRead\<close>, \<^verbatim>\<open>EndRead\<close>,
  \<^verbatim>\<open>StartWrite\<close> and \<^verbatim>\<open>EndWrite\<close> statement by statement, so that other threads run between any two statements, and while a
  thread waits in \<^verbatim>\<open>P\<close> with \<^verbatim>\<open>rCntMutex\<close> held.
\<close>

section \<open>The calls as statements\<close>

text \<open>
  The next statement of a thread. \<open>Reads\<close> and \<open>Writes\<close> lie between a start and its end, and the next statement there is the first of
  the end; \<open>Idle\<close> is outside.
\<close>

datatype rw_point =
    Idle
  | SR_P | SR_Test | SR_RWP | SR_Inc | SR_V | Reads
  | ER_Dec | ER_Test | ER_RWV | ER_V
  | SW_P | Writes

definition rw_stmt :: "int \<Rightarrow> rw_point \<Rightarrow> SynchDisk \<Rightarrow> (SynchDisk \<times> rw_point) result" where
  "rw_stmt h p s =
     (case p of
        Idle \<Rightarrow> Inr (s, Idle)
      | SR_P \<Rightarrow> bindE (rCnt_P s h) (\<lambda>s. Inr (s, SR_Test))
      | SR_Test \<Rightarrow> bindE (no_reader s h) (\<lambda>z. Inr (s, if z then SR_RWP else SR_Inc))
      | SR_RWP \<Rightarrow> bindE (RW_P s h) (\<lambda>s. Inr (s, SR_Inc))
      | SR_Inc \<Rightarrow> bindE (add_reader 1 s h) (\<lambda>s. Inr (s, SR_V))
      | SR_V \<Rightarrow> bindE (rCnt_V s h) (\<lambda>s. Inr (tick s, Reads))
      | Reads \<Rightarrow> bindE (rCnt_P s h) (\<lambda>s. Inr (s, ER_Dec))
      | ER_Dec \<Rightarrow> bindE (add_reader (- 1) s h) (\<lambda>s. Inr (s, ER_Test))
      | ER_Test \<Rightarrow> bindE (no_reader s h) (\<lambda>z. Inr (s, if z then ER_RWV else ER_V))
      | ER_RWV \<Rightarrow> bindE (RW_V s h) (\<lambda>s. Inr (s, ER_V))
      | ER_V \<Rightarrow> bindE (rCnt_V s h) (\<lambda>s. Inr (tick s, Idle))
      | SW_P \<Rightarrow> bindE (RW_P s h) (\<lambda>s. Inr (tick s, Writes))
      | Writes \<Rightarrow> bindE (RW_V s h) (\<lambda>s. Inr (tick s, Idle)))"

text \<open>A call without interruption: statements until the call is over.\<close>

fun rw_alone :: "nat \<Rightarrow> int \<Rightarrow> rw_point \<Rightarrow> SynchDisk \<Rightarrow> SynchDisk result" where
  "rw_alone n h p s =
     bindE (rw_stmt h p s) (\<lambda>(s, p).
       if p \<in> {Idle, Reads, Writes} then Inr s else case n of 0 \<Rightarrow> Inl Diverges | Suc n \<Rightarrow> rw_alone n h p s)"

declare rw_alone.simps [simp del]

lemma calls_alone:
  "StartRead s h = rw_alone 4 h SR_P s" "EndRead s h = rw_alone 4 h Reads s"
  "StartWrite s h = rw_alone 4 h SW_P s" "EndWrite s h = rw_alone 4 h Writes s"
  by (auto simp: StartRead_def EndRead_def StartWrite_def EndWrite_def rw_stmt_def rw_alone.simps numeral_eq_Suc rw_prims
      split: sum.splits)

text \<open>
  The threads \<open>T\<close> use the file with header sector \<open>h\<close>. A thread outside starts a call, or a thread executes its next statement;
  meanwhile everything that does not concern the file may change. Nobody uses the file at the start.
\<close>

inductive file_rw_reach :: "int \<Rightarrow> 't set \<Rightarrow> SynchDisk \<Rightarrow> ('t \<Rightarrow> rw_point) \<Rightarrow> bool" for h T where
  file_rw_init: "rw_idle h s \<Longrightarrow> file_rw_reach h T s (\<lambda>_. Idle)"
| file_rw_call: "file_rw_reach h T s pc \<Longrightarrow> t \<in> T \<Longrightarrow> pc t = Idle \<Longrightarrow> p \<in> {SR_P, SW_P} \<Longrightarrow> file_rw_reach h T s (pc(t := p))"
| file_rw_next: "file_rw_reach h T s pc \<Longrightarrow> t \<in> T \<Longrightarrow> rw_stmt h (pc t) s = Inr (s', p) \<Longrightarrow> file_rw_reach h T s' (pc(t := p))"
| file_rw_other: "file_rw_reach h T s pc \<Longrightarrow> readerCnt s' = readerCnt s \<Longrightarrow> rCntMutex s' = rCntMutex s \<Longrightarrow> RW s' = RW s \<Longrightarrow> file_rw_reach h T s' pc"

section \<open>The invariant\<close>

text \<open>
  \<^verbatim>\<open>rCntMutex\<close> is held by one thread at most, \<^verbatim>\<open>readerCnt\<close> counts the readers, and \<^verbatim>\<open>RW\<close> is held by one writer or by the readers together.
\<close>

definition file_rw_nums :: "int \<Rightarrow> int \<Rightarrow> int \<Rightarrow> int \<Rightarrow> int \<Rightarrow> int \<Rightarrow> int \<Rightarrow> int \<Rightarrow> int \<Rightarrow> int \<Rightarrow> bool" where
  "file_rw_nums m c w pend rwv rwp mid cnt rd wr \<longleftrightarrow>
     0 \<le> m \<and> 0 \<le> w \<and> 0 \<le> pend \<and> 0 \<le> rwv \<and> 0 \<le> rwp \<and> 0 \<le> mid \<and> 0 \<le> cnt \<and> 0 \<le> rd \<and> 0 \<le> wr \<and>
     m + pend + rwv + rwp + mid + cnt = 1 \<and> c = cnt + rd \<and> w + wr + (if pend + rwv + cnt + rd = 0 then 0 else 1) = 1 \<and>
     (rwp + rwv = 0 \<or> c = 0)"

definition file_rw_ok :: "int \<Rightarrow> 't set \<Rightarrow> SynchDisk \<Rightarrow> ('t \<Rightarrow> rw_point) \<Rightarrow> bool" where
  "file_rw_ok h T s pc \<longleftrightarrow>
     0 \<le> h \<and> h < int (length (readerCnt s)) \<and> h < int (length (RW s)) \<and> h < int (length (rCntMutex s)) \<and>
     file_rw_nums (rCntMutex s ! nat h) (readerCnt s ! nat h) (RW s ! nat h)
       (int (count_at T pc {SR_Inc, ER_Test})) (int (count_at T pc {ER_RWV})) (int (count_at T pc {SR_RWP}))
       (int (count_at T pc {SR_Test, ER_V})) (int (count_at T pc {SR_V, ER_Dec})) (int (count_at T pc {Reads})) (int (count_at T pc {Writes}))"

text \<open>What each statement does to the numbers.\<close>

lemma file_rw_nums_step:
  assumes "file_rw_nums m c w pend rwv rwp mid cnt rd wr"
  shows "m \<noteq> 0 \<Longrightarrow> file_rw_nums (m - 1) c w pend rwv rwp (mid + 1) cnt rd wr"
    and "1 \<le> mid \<Longrightarrow> c = 0 \<Longrightarrow> file_rw_nums m c w pend rwv (rwp + 1) (mid - 1) cnt rd wr"
    and "1 \<le> mid \<Longrightarrow> c \<noteq> 0 \<Longrightarrow> file_rw_nums m c w (pend + 1) rwv rwp (mid - 1) cnt rd wr"
    and "1 \<le> rwp \<Longrightarrow> w \<noteq> 0 \<Longrightarrow> file_rw_nums m c (w - 1) (pend + 1) rwv (rwp - 1) mid cnt rd wr"
    and "1 \<le> pend \<Longrightarrow> file_rw_nums m (c + 1) w (pend - 1) rwv rwp mid (cnt + 1) rd wr"
    and "1 \<le> cnt \<Longrightarrow> file_rw_nums (m + 1) c w pend rwv rwp mid (cnt - 1) (rd + 1) wr"
    and "1 \<le> rd \<Longrightarrow> m \<noteq> 0 \<Longrightarrow> file_rw_nums (m - 1) c w pend rwv rwp mid (cnt + 1) (rd - 1) wr"
    and "1 \<le> cnt \<Longrightarrow> file_rw_nums m (c - 1) w (pend + 1) rwv rwp mid (cnt - 1) rd wr"
    and "1 \<le> pend \<Longrightarrow> c = 0 \<Longrightarrow> file_rw_nums m c w (pend - 1) (rwv + 1) rwp mid cnt rd wr"
    and "1 \<le> pend \<Longrightarrow> c \<noteq> 0 \<Longrightarrow> file_rw_nums m c w (pend - 1) rwv rwp (mid + 1) cnt rd wr"
    and "1 \<le> rwv \<Longrightarrow> file_rw_nums m c (w + 1) pend (rwv - 1) rwp (mid + 1) cnt rd wr"
    and "1 \<le> mid \<Longrightarrow> file_rw_nums (m + 1) c w pend rwv rwp (mid - 1) cnt rd wr"
    and "w \<noteq> 0 \<Longrightarrow> file_rw_nums m c (w - 1) pend rwv rwp mid cnt rd (wr + 1)"
    and "1 \<le> wr \<Longrightarrow> file_rw_nums m c (w + 1) pend rwv rwp mid cnt rd (wr - 1)"
  using assms by (auto simp: file_rw_nums_def split: if_splits)

lemma file_rw_ok_call:
  assumes "finite T" "t \<in> T" "file_rw_ok h T s pc" "pc t = Idle" "p \<in> {SR_P, SW_P}"
  shows "file_rw_ok h T s (pc(t := p))"
  using assms(3-) unfolding file_rw_ok_def int_count_at_upd [OF assms(1,2)] by auto

lemma file_rw_ok_next:
  assumes "finite T" "t \<in> T" "file_rw_ok h T s pc" "rw_stmt h (pc t) s = Inr (s', q)"
  shows "file_rw_ok h T s' (pc(t := q))"
proof -
  have pos: "1 \<le> int (count_at T pc P)" if "pc t \<in> P" for P
    using count_at_pos [of T t pc P] assms(1,2) that by simp
  have b: "0 \<le> h" "h < int (length (readerCnt s))" "h < int (length (RW s))" "h < int (length (rCntMutex s))"
    using assms(3) by (auto simp: file_rw_ok_def)
  note n = file_rw_nums_step [OF assms(3) [unfolded file_rw_ok_def, THEN conjunct2, THEN conjunct2, THEN conjunct2, THEN conjunct2]]
  note d = rw_stmt_def rw_prims tick_def nat_less_iff
  note u = file_rw_ok_def int_count_at_upd [OF assms(1,2)]
  show ?thesis
  proof (cases "pc t")
    case Idle
    then show ?thesis using assms(3,4) by (simp add: d fun_upd_idem)
  next
    case SR_P
    then show ?thesis using n(1) b assms(4) unfolding u by (auto simp: d split: if_splits)
  next
    case SR_Test
    then show ?thesis using n(2,3) b assms(4) pos [of "{SR_Test, ER_V}"] unfolding u by (auto simp: d split: if_splits)
  next
    case SR_RWP
    then show ?thesis using n(4) b assms(4) pos [of "{SR_RWP}"] unfolding u by (auto simp: d split: if_splits)
  next
    case SR_Inc
    then show ?thesis using n(5) b assms(4) pos [of "{SR_Inc, ER_Test}"] unfolding u by (auto simp: d split: if_splits)
  next
    case SR_V
    then show ?thesis using n(6) b assms(4) pos [of "{SR_V, ER_Dec}"] unfolding u by (auto simp: d split: if_splits)
  next
    case Reads
    then show ?thesis using n(7) b assms(4) pos [of "{Reads}"] unfolding u by (auto simp: d split: if_splits)
  next
    case ER_Dec
    then show ?thesis using n(8) b assms(4) pos [of "{SR_V, ER_Dec}"] unfolding u by (auto simp: d split: if_splits)
  next
    case ER_Test
    then show ?thesis using n(9,10) b assms(4) pos [of "{SR_Inc, ER_Test}"] unfolding u by (auto simp: d split: if_splits)
  next
    case ER_RWV
    then show ?thesis using n(11) b assms(4) pos [of "{ER_RWV}"] unfolding u by (auto simp: d split: if_splits)
  next
    case ER_V
    then show ?thesis using n(12) b assms(4) pos [of "{SR_Test, ER_V}"] unfolding u by (auto simp: d split: if_splits)
  next
    case SW_P
    then show ?thesis using n(13) b assms(4) unfolding u by (auto simp: d split: if_splits)
  next
    case Writes
    then show ?thesis using n(14) b assms(4) pos [of "{Writes}"] unfolding u by (auto simp: d split: if_splits)
  qed
qed

lemma file_rw_reach_ok: "file_rw_reach h T s pc \<Longrightarrow> finite T \<Longrightarrow> file_rw_ok h T s pc"
proof (induction rule: file_rw_reach.induct)
  case (file_rw_init s)
  then show ?case by (auto simp: file_rw_ok_def file_rw_nums_def rw_idle_def count_at_def)
next
  case (file_rw_other s pc s')
  then show ?case by (simp add: file_rw_ok_def)
qed (auto intro: file_rw_ok_call file_rw_ok_next)

text \<open>Only the two semaphores can keep a thread from going on.\<close>

lemma rw_stmt_enabled:
  assumes "file_rw_ok h T s pc"
    and "p \<in> {SR_P, Reads} \<Longrightarrow> rCntMutex s ! nat h \<noteq> 0" "p \<in> {SR_RWP, SW_P} \<Longrightarrow> RW s ! nat h \<noteq> 0"
  shows "\<exists>r. rw_stmt h p s = Inr r"
  using assms by (cases p) (auto simp: file_rw_ok_def rw_stmt_def rw_prims)

lemma file_rw_no_deadlock:
  assumes "finite T" "file_rw_ok h T s pc" "t \<in> T" "pc t \<noteq> Idle"
  shows "\<exists>t \<in> T. pc t \<noteq> Idle \<and> (\<exists>r. rw_stmt h (pc t) s = Inr r)"
proof (rule ccontr)
  assume no: "\<not> ?thesis"
  have stuck: "pc u \<in> {SR_P, Reads} \<and> rCntMutex s ! nat h = 0 \<or> pc u \<in> {SR_RWP, SW_P} \<and> RW s ! nat h = 0"
    if u: "u \<in> T" "pc u \<noteq> Idle" for u
  proof (rule ccontr)
    assume "\<not> ?thesis"
    then have "\<exists>r. rw_stmt h (pc u) s = Inr r" by (intro rw_stmt_enabled [OF assms(2)]) blast+
    with no u show False by blast
  qed
  have stuck_at: "pc u \<in> {Idle, SR_P, Reads, SR_RWP, SW_P}" if "u \<in> T" for u
    using stuck [OF that] by (cases "pc u = Idle") auto
  have z: "count_at T pc P = 0" if "P \<inter> {Idle, SR_P, Reads, SR_RWP, SW_P} = {}" for P
    by (rule count_at_none) (use stuck_at that in blast)
  have n: "file_rw_nums (rCntMutex s ! nat h) (readerCnt s ! nat h) (RW s ! nat h) 0 0 (int (count_at T pc {SR_RWP})) 0 0 (int (count_at T pc {Reads})) 0"
    using assms(2) by (simp add: file_rw_ok_def z)
  show False
  proof (cases "rCntMutex s ! nat h = 0")
    case True
    then have "count_at T pc {SR_RWP} \<noteq> 0" "RW s ! nat h \<noteq> 0" using n by (auto simp: file_rw_nums_def split: if_splits)
    then show False using stuck count_at_ex [of T pc "{SR_RWP}"] by fastforce
  next
    case False
    then have "count_at T pc {Reads} = 0" by (intro count_at_none) (use stuck in fastforce)
    then have "RW s ! nat h \<noteq> 0" using n by (auto simp: file_rw_nums_def)
    then show False using False stuck [OF assms(3,4)] by simp
  qed
qed

section \<open>Properties\<close>



end
