(* ===== verification/Linked_List.thy ===== *)
theory Linked_List
  imports Nachos_Prelude "HOL-Library.Multiset"
begin

text \<open>
  The singly linked list of \<^verbatim>\<open>code/threads/list.cc\<close>, at the level of its pointers: list elements
  live in a store of cells, a list object holds pointers to its first and last element and a
  count, and every routine follows and rewrites those pointers as the source does. The routines
  are shown to implement operations on a sequence of (key, item) pairs, which is what the rest of
  the kernel uses them for: the ready list, the wait queues, the pending interrupts.

  The items are pointers to live objects (every caller passes one), so they are never null and
  \<open>None\<close> as a removed item is the null pointer of the source.
\<close>

section \<open>Elements, lists and the store they live in\<close>

type_synonym addr = nat

record 'a ListElement =
  next_ptr :: "addr option"
  key :: int
  item :: 'a

record 'a store =
  cells :: "addr \<rightharpoonup> 'a ListElement"
  brk :: addr

record NList =
  first :: "addr option"
  last_ptr :: "addr option"
  numInList :: int

text \<open>\<^verbatim>\<open>new ListElement\<close> returns an address that no live object has: the next one never used.\<close>

definition new_ListElement :: "'a store \<Rightarrow> 'a \<Rightarrow> int \<Rightarrow> addr \<times> 'a store" where
  "new_ListElement st itemPtr sortKey =
     (brk st, st\<lparr>cells := (cells st)(brk st \<mapsto> \<lparr>next_ptr = None, key = sortKey, item = itemPtr\<rparr>),
                 brk := Suc (brk st)\<rparr>)"

definition deref :: "'a store \<Rightarrow> addr option \<Rightarrow> (addr \<times> 'a ListElement) result" where
  "deref st p = (case p of None \<Rightarrow> Inl BadAccess
     | Some a \<Rightarrow> (case cells st a of None \<Rightarrow> Inl BadAccess | Some c \<Rightarrow> Inr (a, c)))"

definition set_next :: "'a store \<Rightarrow> addr \<Rightarrow> addr option \<Rightarrow> 'a store" where
  "set_next st a q = st\<lparr>cells := (cells st)(a := map_option (next_ptr_update (\<lambda>_. q)) (cells st a))\<rparr>"

definition delete_cell :: "'a store \<Rightarrow> addr \<Rightarrow> 'a store" where
  "delete_cell st a = st\<lparr>cells := (cells st)(a := None)\<rparr>"

section \<open>The operations\<close>

definition new_List :: NList where
  "new_List = \<lparr>first = None, last_ptr = None, numInList = 0\<rparr>"

definition IsEmpty :: "NList \<Rightarrow> bool" where
  "IsEmpty l \<longleftrightarrow> first l = None"

definition Append :: "'a store \<Rightarrow> NList \<Rightarrow> 'a \<Rightarrow> ('a store \<times> NList) result" where
  "Append st l it =
     (let (element, st1) = new_ListElement st it 0 in
      if IsEmpty l
      then Inr (st1, l\<lparr>first := Some element, last_ptr := Some element,
                       numInList := numInList l + 1\<rparr>)
      else bindE (deref st1 (last_ptr l)) (\<lambda>(p, _).
             Inr (set_next st1 p (Some element),
                  l\<lparr>last_ptr := Some element, numInList := numInList l + 1\<rparr>)))"

definition Prepend :: "'a store \<Rightarrow> NList \<Rightarrow> 'a \<Rightarrow> ('a store \<times> NList) result" where
  "Prepend st l it =
     (let (element, st1) = new_ListElement st it 0 in
      if IsEmpty l
      then Inr (st1, l\<lparr>first := Some element, last_ptr := Some element,
                       numInList := numInList l + 1\<rparr>)
      else Inr (set_next st1 element (first l),
                l\<lparr>first := Some element, numInList := numInList l + 1\<rparr>))"

text \<open>
  A walk along \<open>next_ptr\<close> visits pairwise different allocated cells unless it is in a cycle, and
  fewer than \<open>brk\<close> cells were ever allocated: a walk of more than \<open>brk\<close> steps never ends.
\<close>

fun SortedInsert_loop ::
  "nat \<Rightarrow> 'a store \<Rightarrow> NList \<Rightarrow> addr \<Rightarrow> int \<Rightarrow> addr option \<Rightarrow> ('a store \<times> NList) result" where
  "SortedInsert_loop 0 st l element sortKey ptr = Inl Diverges"
| "SortedInsert_loop (Suc fuel) st l element sortKey ptr =
     bindE (deref st ptr) (\<lambda>(p, c).
       if next_ptr c = None
       then bindE (deref st (last_ptr l)) (\<lambda>(q, _).
              Inr (set_next st q (Some element),
                   l\<lparr>last_ptr := Some element, numInList := numInList l + 1\<rparr>))
       else bindE (deref st (next_ptr c)) (\<lambda>(_, cn).
              if sortKey < key cn
              then Inr (set_next (set_next st element (next_ptr c)) p (Some element),
                        l\<lparr>numInList := numInList l + 1\<rparr>)
              else SortedInsert_loop fuel st l element sortKey (next_ptr c)))"

definition SortedInsert :: "'a store \<Rightarrow> NList \<Rightarrow> 'a \<Rightarrow> int \<Rightarrow> ('a store \<times> NList) result" where
  "SortedInsert st l it sortKey =
     (let (element, st1) = new_ListElement st it sortKey in
      if IsEmpty l
      then Inr (st1, l\<lparr>first := Some element, last_ptr := Some element,
                       numInList := numInList l + 1\<rparr>)
      else bindE (deref st1 (first l)) (\<lambda>(_, c).
        if sortKey < key c
        then Inr (set_next st1 element (first l),
                  l\<lparr>first := Some element, numInList := numInList l + 1\<rparr>)
        else SortedInsert_loop (brk st1) st1 l element sortKey (first l)))"

definition SortedRemove ::
  "'a store \<Rightarrow> NList \<Rightarrow> (('a \<times> int) option \<times> 'a store \<times> NList) result" where
  "SortedRemove st l =
     (if IsEmpty l then Inr (None, st, l)
      else bindE (deref st (first l)) (\<lambda>(element, c).
        let l1 = (if first l = last_ptr l then l\<lparr>first := None, last_ptr := None\<rparr>
                  else l\<lparr>first := next_ptr c\<rparr>)
        in Inr (Some (item c, key c), delete_cell st element,
                l1\<lparr>numInList := numInList l - 1\<rparr>)))"

definition Remove :: "'a store \<Rightarrow> NList \<Rightarrow> ('a option \<times> 'a store \<times> NList) result" where
  "Remove st l = bindE (SortedRemove st l) (\<lambda>(r, st1, l1). Inr (map_option fst r, st1, l1))"

fun RemoveItem_loop ::
  "nat \<Rightarrow> 'a store \<Rightarrow> NList \<Rightarrow> 'a \<Rightarrow> addr \<Rightarrow> addr option \<Rightarrow> ('a store \<times> NList) result" where
  "RemoveItem_loop 0 st l it prev ptr = Inl Diverges"
| "RemoveItem_loop (Suc fuel) st l it prev ptr =
     (if ptr = None then Inl AssertFailed
      else bindE (deref st ptr) (\<lambda>(p, c).
        if it = item c
        then Inr (delete_cell (set_next st prev (next_ptr c)) p,
                  (if next_ptr c = None then l\<lparr>last_ptr := Some prev\<rparr> else l)
                    \<lparr>numInList := numInList l - 1\<rparr>)
        else RemoveItem_loop fuel st l it p (next_ptr c)))"

definition RemoveItem :: "'a store \<Rightarrow> NList \<Rightarrow> 'a \<Rightarrow> ('a store \<times> NList) result" where
  "RemoveItem st l it =
     bindE (deref st (first l)) (\<lambda>(p, c).
       if it = item c
       then bindE (Remove st l) (\<lambda>(removed, st1, l1).
              ASSERT (Some it = removed) (Inr (st1, l1)))
       else RemoveItem_loop (Suc (brk st)) st l it p (next_ptr c))"

text \<open>\<^verbatim>\<open>Mapcar\<close> calls a procedure on each item; a procedure acts on the caller's state \<open>'s\<close>.\<close>

fun Mapcar_loop :: "nat \<Rightarrow> 'a store \<Rightarrow> ('a \<Rightarrow> 's \<Rightarrow> 's) \<Rightarrow> addr option \<Rightarrow> 's \<Rightarrow> 's result" where
  "Mapcar_loop 0 st func ptr s = Inl Diverges"
| "Mapcar_loop (Suc fuel) st func ptr s =
     (if ptr = None then Inr s
      else bindE (deref st ptr) (\<lambda>(_, c). Mapcar_loop fuel st func (next_ptr c) (func (item c) s)))"

definition Mapcar :: "'a store \<Rightarrow> NList \<Rightarrow> ('a \<Rightarrow> 's \<Rightarrow> 's) \<Rightarrow> 's \<Rightarrow> 's result" where
  "Mapcar st l func s = Mapcar_loop (Suc (brk st)) st func (first l) s"

fun delete_List_loop :: "nat \<Rightarrow> 'a store \<Rightarrow> NList \<Rightarrow> ('a store \<times> NList) result" where
  "delete_List_loop 0 st l = Inl Diverges"
| "delete_List_loop (Suc fuel) st l =
     bindE (Remove st l) (\<lambda>(r, st1, l1).
       if r \<noteq> None then delete_List_loop fuel st1 l1 else Inr (st1, l1))"

definition delete_List :: "'a store \<Rightarrow> NList \<Rightarrow> ('a store \<times> NList) result" where
  "delete_List st l = delete_List_loop (Suc (brk st)) st l"

section \<open>What a list in the store represents\<close>

fun linked :: "(addr \<rightharpoonup> 'a ListElement) \<Rightarrow> addr option \<Rightarrow> addr list \<Rightarrow> addr option \<Rightarrow> bool" where
  "linked h p [] q \<longleftrightarrow> p = q"
| "linked h p (a # as) q \<longleftrightarrow> p = Some a \<and> (\<exists>c. h a = Some c \<and> linked h (next_ptr c) as q)"

definition entry :: "(addr \<rightharpoonup> 'a ListElement) \<Rightarrow> addr \<Rightarrow> int \<times> 'a" where
  "entry h a = (key (the (h a)), item (the (h a)))"

definition wf_store :: "'a store \<Rightarrow> bool" where
  "wf_store st \<longleftrightarrow> (\<forall>a c. cells st a = Some c \<longrightarrow> a < brk st)"

definition rep_at :: "'a store \<Rightarrow> NList \<Rightarrow> addr list \<Rightarrow> (int \<times> 'a) list \<Rightarrow> bool" where
  "rep_at st l as xs \<longleftrightarrow>
     wf_store st \<and> linked (cells st) (first l) as None \<and> distinct as \<and>
     xs = map (entry (cells st)) as \<and>
     last_ptr l = (if as = [] then None else Some (last as)) \<and> numInList l = int (length as)"

text \<open>
  \<open>untouched st st' as\<close>: going from \<open>st\<close> to \<open>st'\<close> changed no cell that was allocated before,
  except those of \<open>as\<close>.
\<close>

definition untouched :: "'a store \<Rightarrow> 'a store \<Rightarrow> addr list \<Rightarrow> bool" where
  "untouched st st' as \<longleftrightarrow> brk st \<le> brk st' \<and>
     (\<forall>b < brk st. b \<notin> set as \<longrightarrow> cells st' b = cells st b)"

lemma untouched_trans:
  "untouched st st1 as \<Longrightarrow> untouched st1 st2 bs \<Longrightarrow> set bs \<subseteq> set as \<Longrightarrow> untouched st st2 as"
  unfolding untouched_def by (metis less_le_trans order_trans subsetD)

lemma linked_upd_other [simp]: "a \<notin> set as \<Longrightarrow> linked (h(a := v)) p as q = linked h p as q"
  by (induction as arbitrary: p) auto

lemma linked_append [simp]:
  "linked h p (as @ bs) q \<longleftrightarrow> (\<exists>r. linked h p as r \<and> linked h r bs q)"
  by (induction as arbitrary: p) auto

lemma linked_alloc: "linked h p as q \<Longrightarrow> a \<in> set as \<Longrightarrow> \<exists>c. h a = Some c"
  by (induction as arbitrary: p) auto

lemma linked_cong: "linked h p as q \<Longrightarrow> \<forall>a\<in>set as. h' a = h a \<Longrightarrow> linked h' p as q"
  by (induction as arbitrary: p) auto

lemma entry_upd_other [simp]: "a \<noteq> b \<Longrightarrow> entry (h(b := v)) a = entry h a"
  by (simp add: entry_def)

lemma map_entry_upd_other [simp]:
  "b \<notin> set as \<Longrightarrow> map (entry (h(b := v))) as = map (entry h) as"
  by (auto simp: entry_def)

lemma wf_storeD: "wf_store st \<Longrightarrow> cells st a = Some c \<Longrightarrow> a < brk st"
  by (simp add: wf_store_def)

lemma rep_at_below:
  assumes "rep_at st l as xs" "a \<in> set as"
  shows "a < brk st"
  using assms by (auto simp: rep_at_def wf_store_def dest!: linked_alloc)

lemma rep_at_length: "rep_at st l as xs \<Longrightarrow> length xs = length as"
  by (auto simp: rep_at_def)

lemma rep_at_short:
  assumes "rep_at st l as xs"
  shows "length as \<le> brk st"
proof -
  have "set as \<subseteq> {..<brk st}" using assms rep_at_below by auto
  then have "card (set as) \<le> card {..<brk st}" by (intro card_mono) auto
  then show ?thesis using assms by (simp add: rep_at_def distinct_card)
qed

text \<open>A list survives whatever is done to the cells of other lists.\<close>

lemma rep_at_frame:
  assumes "rep_at st l as xs" "untouched st st' bs" "set as \<inter> set bs = {}" "wf_store st'"
  shows "rep_at st' l as xs"
proof -
  have same: "\<forall>a\<in>set as. cells st' a = cells st a"
    using assms rep_at_below [OF assms(1)] by (auto simp: untouched_def)
  then have "map (entry (cells st')) as = map (entry (cells st)) as" by (simp add: entry_def)
  with same assms show ?thesis by (auto simp: rep_at_def intro: linked_cong)
qed

lemma rep_at_new: "wf_store st \<Longrightarrow> rep_at st new_List [] []"
  by (simp add: rep_at_def new_List_def)

lemma IsEmpty_rep: "rep_at st l as xs \<Longrightarrow> IsEmpty l \<longleftrightarrow> xs = []"
  by (cases as) (auto simp: rep_at_def IsEmpty_def)

section \<open>The operations implement operations on sequences\<close>

fun sorted_insert :: "int \<Rightarrow> 'a \<Rightarrow> (int \<times> 'a) list \<Rightarrow> (int \<times> 'a) list" where
  "sorted_insert k x [] = [(k, x)]"
| "sorted_insert k x ((k', y) # r) =
     (if k < k' then (k, x) # (k', y) # r else (k', y) # sorted_insert k x r)"

lemma linked_insert_after:
  assumes "linked h p (us @ u # vs) None" "distinct (us @ u # vs)" "e \<notin> set (us @ u # vs)"
    and "h e = Some ce" "linked h (next_ptr ce) vs None"
  shows "linked (h(u := map_option (next_ptr_update (\<lambda>_. Some e)) (h u))) p (us @ u # e # vs) None"
  using assms by (auto simp: linked_alloc)

lemma entry_next_upd [simp]:
  "entry (h(u := map_option (next_ptr_update (\<lambda>_. q)) (h u))) a = entry h a"
  by (cases "h u") (auto simp: entry_def)

lemma linked_next_unique: "linked h r vs None \<Longrightarrow> linked h r' vs None \<Longrightarrow> r = r'"
  by (cases vs) auto

lemma wf_set_next: "wf_store st \<Longrightarrow> wf_store (set_next st a q)"
  by (auto simp: wf_store_def set_next_def split: if_splits)

lemma wf_delete_cell: "wf_store st \<Longrightarrow> wf_store (delete_cell st a)"
  by (auto simp: wf_store_def delete_cell_def split: if_splits)

lemma wf_new: "wf_store st \<Longrightarrow> new_ListElement st it k = (e, st1) \<Longrightarrow> wf_store st1"
  by (auto simp: wf_store_def new_ListElement_def less_SucI split: if_splits)

text \<open>The store right after the allocation of a new element: \<open>e\<close> is in no list yet.\<close>

definition fresh_elem :: "'a store \<Rightarrow> addr list \<Rightarrow> addr \<Rightarrow> 'a \<Rightarrow> int \<Rightarrow> bool" where
  "fresh_elem st as e it k \<longleftrightarrow> wf_store st \<and> e \<notin> set as \<and>
     cells st e = Some \<lparr>next_ptr = None, key = k, item = it\<rparr>"

lemma rep_at_fresh:
  assumes "rep_at st l as xs" "new_ListElement st it k = (e, st1)"
  shows "fresh_elem st1 as e it k" "rep_at st1 l as xs" "untouched st st1 []"
    "e = brk st" "brk st1 = Suc (brk st)"
proof -
  have below: "\<forall>a\<in>set as. a < brk st" using assms(1) rep_at_below by blast
  show e: "e = brk st" and b: "brk st1 = Suc (brk st)" and u: "untouched st st1 []"
    using assms(2) by (auto simp: new_ListElement_def untouched_def)
  show "fresh_elem st1 as e it k"
    using assms below wf_new [OF _ assms(2)]
    by (auto simp: fresh_elem_def new_ListElement_def rep_at_def)
  show "rep_at st1 l as xs"
    using rep_at_frame [OF assms(1) u] wf_new [OF _ assms(2)] assms(1) by (simp add: rep_at_def)
qed

lemma insert_last:
  assumes "fresh_elem st (us @ [u]) e it k" "rep_at st l (us @ [u]) xs"
  shows "rep_at (set_next st u (Some e)) (l\<lparr>last_ptr := Some e, numInList := numInList l + 1\<rparr>)
           (us @ [u, e]) (xs @ [(k, it)])"
proof -
  have "linked ((cells st)(u := map_option (next_ptr_update (\<lambda>_. Some e)) (cells st u)))
          (first l) (us @ u # e # []) None"
    using assms by (intro linked_insert_after) (auto simp: fresh_elem_def rep_at_def)
  with assms show ?thesis
    by (auto simp: rep_at_def fresh_elem_def set_next_def entry_def wf_store_def)
qed

lemma insert_first:
  assumes "fresh_elem st as e it k" "rep_at st l as xs" "as \<noteq> []"
  shows "rep_at (set_next st e (first l)) (l\<lparr>first := Some e, numInList := numInList l + 1\<rparr>)
           (e # as) ((k, it) # xs)"
proof -
  have "linked ((cells st)(e := map_option (next_ptr_update (\<lambda>_. first l)) (cells st e)))
          (Some e) (e # as) None"
    using assms by (auto simp: fresh_elem_def rep_at_def)
  with assms show ?thesis
    by (auto simp: rep_at_def fresh_elem_def set_next_def entry_def wf_store_def)
qed

lemma insert_middle:
  assumes "fresh_elem st (us @ u # vs) e it k" "rep_at st l (us @ u # vs) xs" "vs \<noteq> []"
    and "cells st u = Some c"
  shows "rep_at (set_next (set_next st e (next_ptr c)) u (Some e))
           (l\<lparr>numInList := numInList l + 1\<rparr>) (us @ u # e # vs)
           (map (entry (cells st)) (us @ [u]) @ (k, it) # map (entry (cells st)) vs)"
proof -
  let ?h = "(cells st)(e := map_option (next_ptr_update (\<lambda>_. next_ptr c)) (cells st e))"
  have fr: "e \<notin> set (us @ u # vs)" using assms(1) by (simp add: fresh_elem_def)
  have "linked ?h (first l) (us @ u # vs) None" and "linked ?h (next_ptr c) vs None"
    using assms fr by (auto simp: rep_at_def)
  then have "linked (?h(u := map_option (next_ptr_update (\<lambda>_. Some e)) (?h u)))
          (first l) (us @ u # e # vs) None"
    using assms fr by (intro linked_insert_after) (auto simp: fresh_elem_def rep_at_def)
  with assms show ?thesis
    by (auto simp: rep_at_def fresh_elem_def set_next_def entry_def wf_store_def
        split: if_splits)
qed

lemma Append_refines:
  assumes "rep_at st l as xs"
  shows "\<exists>st' l'. Append st l it = Inr (st', l') \<and>
           rep_at st' l' (as @ [brk st]) (xs @ [(0, it)]) \<and> untouched st st' as"
proof -
  obtain e st1 where new: "new_ListElement st it 0 = (e, st1)" by fastforce
  note fr = rep_at_fresh [OF assms new]
  show ?thesis
  proof (cases as rule: rev_cases)
    case Nil
    with assms fr new show ?thesis
      by (auto simp: Append_def IsEmpty_rep [OF assms] rep_at_def fresh_elem_def entry_def
          untouched_def)
  next
    case (snoc us u)
    then have last: "last_ptr l = Some u" and ne: "xs \<noteq> []" using assms by (auto simp: rep_at_def)
    obtain c where c: "cells st1 u = Some c"
      using fr(2) snoc by (auto simp: rep_at_def)
    have "Append st l it = Inr (set_next st1 u (Some e),
            l\<lparr>last_ptr := Some e, numInList := numInList l + 1\<rparr>)"
      using new last c ne by (simp add: Append_def IsEmpty_rep [OF assms] deref_def)
    moreover have "untouched st (set_next st1 u (Some e)) as"
      using fr snoc by (auto simp: untouched_def set_next_def)
    ultimately show ?thesis
      using insert_last [of st1 us u e it 0 l xs] fr snoc by auto
  qed
qed

lemma Prepend_refines:
  assumes "rep_at st l as xs"
  shows "\<exists>st' l'. Prepend st l it = Inr (st', l') \<and>
           rep_at st' l' (brk st # as) ((0, it) # xs) \<and> untouched st st' as"
proof -
  obtain e st1 where new: "new_ListElement st it 0 = (e, st1)" by fastforce
  note fr = rep_at_fresh [OF assms new]
  show ?thesis
  proof (cases "as = []")
    case True
    with assms fr new show ?thesis
      by (auto simp: Prepend_def IsEmpty_rep [OF assms] rep_at_def fresh_elem_def entry_def
          untouched_def)
  next
    case False
    have "untouched st (set_next st1 e (first l)) as"
      using fr by (auto simp: untouched_def set_next_def)
    with False assms fr new show ?thesis
      using insert_first [OF fr(1,2) False]
      by (auto simp: Prepend_def IsEmpty_rep [OF assms] rep_at_length [OF assms])
        (auto simp: rep_at_def)
  qed
qed

lemma SortedInsert_loop_refines:
  assumes "fresh_elem st (us @ u # vs) e it k" "rep_at st l (us @ u # vs) xs" "length vs < fuel"
  shows "\<exists>st' l' as'. SortedInsert_loop fuel st l e k (Some u) = Inr (st', l') \<and>
           set as' = insert e (set (us @ u # vs)) \<and> untouched st st' (e # us @ u # vs) \<and>
           rep_at st' l' as' (map (entry (cells st)) (us @ [u]) @
                              sorted_insert k it (map (entry (cells st)) vs))"
  using assms
proof (induction vs arbitrary: us u fuel)
  case Nil
  then obtain f where f: "fuel = Suc f" by (cases fuel) auto
  obtain c where c: "cells st u = Some c" "next_ptr c = None" and last: "last_ptr l = Some u"
    using Nil.prems(2) by (auto simp: rep_at_def)
  have "untouched st (set_next st u (Some e)) (e # us @ [u])"
    by (auto simp: untouched_def set_next_def)
  moreover have "xs = map (entry (cells st)) (us @ [u])"
    using Nil.prems(2) by (simp add: rep_at_def)
  ultimately show ?case
    using insert_last [OF Nil.prems(1,2)] c last
    by (intro exI [of _ "set_next st u (Some e)"]
        exI [of _ "l\<lparr>last_ptr := Some e, numInList := numInList l + 1\<rparr>"] exI [of _ "us @ [u, e]"])
      (auto simp: f deref_def)
next
  case (Cons v vs)
  then obtain f where f: "fuel = Suc f" by (cases fuel) auto
  obtain c cn where c: "cells st u = Some c" "next_ptr c = Some v" "cells st v = Some cn"
    using Cons.prems(2) by (auto simp: rep_at_def)
  have entry_v: "entry (cells st) v = (key cn, item cn)" using c by (simp add: entry_def)
  show ?case
  proof (cases "k < key cn")
    case True
    have "untouched st (set_next (set_next st e (next_ptr c)) u (Some e)) (e # us @ u # v # vs)"
      by (auto simp: untouched_def set_next_def)
    with True c entry_v insert_middle [OF Cons.prems(1,2) _ c(1)] show ?thesis
      by (intro exI [of _ "set_next (set_next st e (next_ptr c)) u (Some e)"]
          exI [of _ "l\<lparr>numInList := numInList l + 1\<rparr>"] exI [of _ "us @ u # e # v # vs"])
        (auto simp: f deref_def)
  next
    case False
    have "length vs < f" using Cons.prems(3) f by simp
    moreover have "SortedInsert_loop fuel st l e k (Some u) = SortedInsert_loop f st l e k (Some v)"
      using False c by (simp add: f deref_def)
    ultimately show ?thesis
      using Cons.IH [of "us @ [u]" v f] Cons.prems False entry_v by simp
  qed
qed

lemma SortedInsert_refines:
  assumes "rep_at st l as xs"
  shows "\<exists>st' l' as'. SortedInsert st l it k = Inr (st', l') \<and>
           set as' = insert (brk st) (set as) \<and> untouched st st' as \<and>
           rep_at st' l' as' (sorted_insert k it xs)"
proof -
  obtain e st1 where new: "new_ListElement st it k = (e, st1)" by fastforce
  note fr = rep_at_fresh [OF assms new]
  have unt: "untouched st st' as" if "untouched st1 st' (e # as)" for st'
    using that fr by (auto simp: untouched_def)
  show ?thesis
  proof (cases as)
    case Nil
    with assms fr new show ?thesis
      by (intro exI [of _ st1] exI [of _ "l\<lparr>first := Some e, last_ptr := Some e,
            numInList := numInList l + 1\<rparr>"] exI [of _ "[e]"])
        (auto simp: SortedInsert_def IsEmpty_rep [OF assms] rep_at_def fresh_elem_def entry_def
          untouched_def)
  next
    case (Cons u vs)
    obtain c where c: "cells st1 u = Some c" "first l = Some u"
      using fr(2) Cons by (auto simp: rep_at_def)
    have xs: "xs = entry (cells st1) u # map (entry (cells st1)) vs"
      using fr(2) Cons by (simp add: rep_at_def)
    have ne: "\<not> IsEmpty l" using c by (simp add: IsEmpty_def)
    have eu: "entry (cells st1) u = (key c, item c)" using c by (simp add: entry_def)
    show ?thesis
    proof (cases "k < key c")
      case True
      have "SortedInsert st l it k = Inr (set_next st1 e (first l),
              l\<lparr>first := Some e, numInList := numInList l + 1\<rparr>)"
        using True c ne new by (simp add: SortedInsert_def deref_def)
      moreover have "untouched st1 (set_next st1 e (first l)) (e # as)"
        by (auto simp: untouched_def set_next_def)
      ultimately show ?thesis
        using insert_first [OF fr(1,2)] Cons unt fr(4) True xs eu
        by (intro exI [of _ "set_next st1 e (first l)"] exI [of _ "l\<lparr>first := Some e,
              numInList := numInList l + 1\<rparr>"] exI [of _ "e # as"]) auto
    next
      case False
      have "length vs < brk st1"
        using rep_at_short [OF assms] fr(5) Cons by simp
      then obtain st' l' as' where loop: "SortedInsert_loop (brk st1) st1 l e k (Some u) = Inr (st', l')"
        and as': "set as' = insert e (set as)" "untouched st1 st' (e # as)"
        and rep: "rep_at st' l' as' (entry (cells st1) u # sorted_insert k it (map (entry (cells st1)) vs))"
        using SortedInsert_loop_refines [of st1 "[]" u vs e it k l xs "brk st1"] fr(1,2) Cons by auto
      have "SortedInsert st l it k = Inr (st', l')"
        using False c ne new loop by (simp add: SortedInsert_def deref_def)
      with as' rep unt False fr(4) show ?thesis
        by (intro exI [of _ st'] exI [of _ l'] exI [of _ as']) (simp add: xs eu)
    qed
  qed
qed

lemma SortedRemove_empty: "rep_at st l as [] \<Longrightarrow> SortedRemove st l = Inr (None, st, l)"
  by (simp add: SortedRemove_def IsEmpty_rep)

lemma SortedRemove_refines:
  assumes "rep_at st l as ((k, it) # xs)"
  shows "\<exists>st' l'. SortedRemove st l = Inr (Some (it, k), st', l') \<and>
           rep_at st' l' (tl as) xs \<and> untouched st st' as"
proof -
  obtain a bs where as: "as = a # bs" using rep_at_length [OF assms] by (cases as) auto
  obtain c where c: "cells st a = Some c" "first l = Some a" "k = key c" "it = item c"
    using assms as by (auto simp: rep_at_def entry_def)
  let ?l1 = "(if bs = [] then l\<lparr>first := None, last_ptr := None\<rparr> else l\<lparr>first := next_ptr c\<rparr>)
               \<lparr>numInList := numInList l - 1\<rparr>"
  have one: "first l = last_ptr l \<longleftrightarrow> bs = []"
    using assms as c by (auto simp: rep_at_def)
  have "SortedRemove st l = Inr (Some (it, k), delete_cell st a, ?l1)"
    using c one by (simp add: SortedRemove_def IsEmpty_def deref_def Let_def)
  moreover have "rep_at (delete_cell st a) ?l1 bs xs"
    using assms as c wf_delete_cell [of st a] by (auto simp: rep_at_def delete_cell_def)
  moreover have "untouched st (delete_cell st a) as"
    using as by (auto simp: untouched_def delete_cell_def)
  ultimately show ?thesis using as by auto
qed

lemma Remove_refines:
  assumes "rep_at st l as xs"
  shows "\<exists>st' l'. Remove st l = Inr (map_option snd (case xs of [] \<Rightarrow> None | x # _ \<Rightarrow> Some x), st', l') \<and>
           rep_at st' l' (tl as) (tl xs) \<and> untouched st st' as"
proof (cases xs)
  case Nil
  then have "as = []" using rep_at_length [OF assms] by simp
  with assms Nil show ?thesis
    by (simp add: Remove_def SortedRemove_empty untouched_def)
next
  case (Cons x r)
  obtain k it where "x = (k, it)" by (cases x)
  with Cons assms SortedRemove_refines [of st l as k it r] show ?thesis
    by (auto simp: Remove_def)
qed


fun remove_item :: "'a \<Rightarrow> (int \<times> 'a) list \<Rightarrow> (int \<times> 'a) list" where
  "remove_item it [] = []"
| "remove_item it ((k, y) # r) = (if it = y then r else (k, y) # remove_item it r)"

lemma delete_middle:
  assumes "rep_at st l (us @ p # u # vs) xs" "cells st u = Some c"
  shows "rep_at (delete_cell (set_next st p (next_ptr c)) u)
           ((if next_ptr c = None then l\<lparr>last_ptr := Some p\<rparr> else l)\<lparr>numInList := numInList l - 1\<rparr>)
           (us @ p # vs) (map (entry (cells st)) (us @ p # vs))"
proof -
  let ?h = "((cells st)(p := map_option (next_ptr_update (\<lambda>_. next_ptr c)) (cells st p)))(u := None)"
  have d: "distinct (us @ p # u # vs)" and w: "wf_store st"
    and lk: "linked (cells st) (next_ptr c) vs None"
    using assms by (auto simp: rep_at_def)
  have "linked ?h (first l) (us @ p # vs) None"
    using assms d by (auto simp: rep_at_def)
  moreover have "next_ptr c = None \<longleftrightarrow> vs = []" using lk by (cases vs) auto
  moreover have "map (entry ?h) (us @ p # vs) = map (entry (cells st)) (us @ p # vs)"
    using d by auto
  ultimately show ?thesis
    using assms d wf_delete_cell [OF wf_set_next [OF w]]
    by (auto simp: rep_at_def delete_cell_def set_next_def simp del: map_append list.map)
qed

lemma RemoveItem_loop_refines:
  assumes "rep_at st l (us @ p # vs) xs" "length vs < fuel"
    and "it \<in> snd ` set (map (entry (cells st)) vs)"
  shows "\<exists>st' l' as'. RemoveItem_loop fuel st l it p (case vs of [] \<Rightarrow> None | v # _ \<Rightarrow> Some v) = Inr (st', l') \<and>
           set as' \<subseteq> set (us @ p # vs) \<and> untouched st st' (us @ p # vs) \<and>
           rep_at st' l' as' (map (entry (cells st)) (us @ [p]) @
                              remove_item it (map (entry (cells st)) vs))"
  using assms
proof (induction vs arbitrary: us p fuel)
  case Nil
  then show ?case by simp
next
  case (Cons v vs)
  then obtain f where f: "fuel = Suc f" by (cases fuel) auto
  obtain c where c: "cells st v = Some c" and nx: "linked (cells st) (next_ptr c) vs None"
    using Cons.prems(1) by (auto simp: rep_at_def)
  have ev: "entry (cells st) v = (key c, item c)" using c by (simp add: entry_def)
  show ?case
  proof (cases "it = item c")
    case True
    have "untouched st (delete_cell (set_next st p (next_ptr c)) v) (us @ p # v # vs)"
      by (auto simp: untouched_def set_next_def delete_cell_def)
    with True c ev delete_middle [OF Cons.prems(1) c] show ?thesis
      by (intro exI [of _ "delete_cell (set_next st p (next_ptr c)) v"]
          exI [of _ "(if next_ptr c = None then l\<lparr>last_ptr := Some p\<rparr> else l)\<lparr>numInList := numInList l - 1\<rparr>"]
          exI [of _ "us @ p # vs"])
        (auto simp: f deref_def)
  next
    case False
    have nxt: "next_ptr c = (case vs of [] \<Rightarrow> None | v # _ \<Rightarrow> Some v)"
      using nx by (cases vs) auto
    have "RemoveItem_loop fuel st l it p (Some v) =
            RemoveItem_loop f st l it v (case vs of [] \<Rightarrow> None | v # _ \<Rightarrow> Some v)"
      using False c nxt by (simp add: f deref_def)
    then show ?thesis
      using Cons.IH [of "us @ [p]" v f] Cons.prems False ev f by auto
  qed
qed

lemma RemoveItem_refines:
  assumes "rep_at st l as xs" "it \<in> snd ` set xs"
  shows "\<exists>st' l' as'. RemoveItem st l it = Inr (st', l') \<and> set as' \<subseteq> set as \<and>
           untouched st st' as \<and> rep_at st' l' as' (remove_item it xs)"
proof -
  obtain a vs where as: "as = a # vs"
    using assms rep_at_length [OF assms(1)] by (cases as) auto
  obtain c where c: "cells st a = Some c" "first l = Some a"
    and nx: "linked (cells st) (next_ptr c) vs None"
    using assms as by (auto simp: rep_at_def)
  have xs: "xs = (key c, item c) # map (entry (cells st)) vs"
    using assms as c by (simp add: rep_at_def entry_def)
  show ?thesis
  proof (cases "it = item c")
    case True
    obtain st' l' where r: "Remove st l = Inr (Some it, st', l')" "rep_at st' l' (tl as) (tl xs)"
      "untouched st st' as"
      using Remove_refines [OF assms(1)] True xs by auto
    moreover have "RemoveItem st l it = Inr (st', l')"
      using True c r by (simp add: RemoveItem_def deref_def)
    ultimately show ?thesis using True xs as by auto
  next
    case False
    have "next_ptr c = (case vs of [] \<Rightarrow> None | v # _ \<Rightarrow> Some v)" using nx by (cases vs) auto
    then have eq: "RemoveItem st l it =
        RemoveItem_loop (Suc (brk st)) st l it a (case vs of [] \<Rightarrow> None | v # _ \<Rightarrow> Some v)"
      using False c by (simp add: RemoveItem_def deref_def)
    have "length vs < Suc (brk st)" using rep_at_short [OF assms(1)] as by simp
    moreover have "it \<in> snd ` set (map (entry (cells st)) vs)" using assms(2) xs False by auto
    ultimately show ?thesis
      using RemoveItem_loop_refines [of st l "[]" a vs xs "Suc (brk st)" it] assms(1) as eq xs False c
      by (auto simp: entry_def [of _ a])
  qed
qed

lemma RemoveItem_loop_missing:
  assumes "linked (cells st) ptr vs None" "length vs < fuel"
    and "it \<notin> snd ` set (map (entry (cells st)) vs)"
  shows "RemoveItem_loop fuel st l it p ptr = Inl AssertFailed"
  using assms
proof (induction vs arbitrary: p ptr fuel)
  case Nil
  then show ?case by (cases fuel) auto
next
  case (Cons v vs)
  then show ?case by (cases fuel) (auto simp: deref_def entry_def)
qed

lemma RemoveItem_missing:
  assumes "rep_at st l as xs" "it \<notin> snd ` set xs"
  shows "RemoveItem st l it = Inl (if xs = [] then BadAccess else AssertFailed)"
proof (cases as)
  case Nil
  with assms show ?thesis by (simp add: RemoveItem_def rep_at_def deref_def)
next
  case (Cons a vs)
  obtain c where c: "cells st a = Some c" "first l = Some a" "linked (cells st) (next_ptr c) vs None"
    using assms Cons by (auto simp: rep_at_def)
  have "length vs < Suc (brk st)" using rep_at_short [OF assms(1)] Cons by simp
  with c have "RemoveItem_loop (Suc (brk st)) st l it a (next_ptr c) = Inl AssertFailed"
    using assms Cons by (intro RemoveItem_loop_missing) (auto simp: rep_at_def)
  with assms Cons c show ?thesis
    by (auto simp: RemoveItem_def rep_at_def deref_def entry_def)
qed

lemma Mapcar_loop_refines:
  "linked (cells st) ptr as None \<Longrightarrow> length as < fuel \<Longrightarrow>
   Mapcar_loop fuel st func ptr s = Inr (fold func (map (snd \<circ> entry (cells st)) as) s)"
proof (induction as arbitrary: ptr s fuel)
  case Nil
  then show ?case by (cases fuel) auto
next
  case (Cons a as)
  then show ?case by (cases fuel) (auto simp: deref_def entry_def)
qed

lemma Mapcar_refines:
  assumes "rep_at st l as xs"
  shows "Mapcar st l func s = Inr (fold func (map snd xs) s)"
  using assms rep_at_short [OF assms] unfolding Mapcar_def
  by (subst Mapcar_loop_refines [of st "first l" as]) (auto simp: rep_at_def)

lemma delete_List_loop_refines:
  "rep_at st l as xs \<Longrightarrow> length xs < fuel \<Longrightarrow>
   \<exists>st' l'. delete_List_loop fuel st l = Inr (st', l') \<and> rep_at st' l' [] [] \<and> untouched st st' as"
proof (induction xs arbitrary: st l as fuel)
  case Nil
  then have as: "as = []" using rep_at_length by fastforce
  obtain f where "fuel = Suc f" using Nil by (cases fuel) auto
  with Nil as show ?case
    by (simp add: Remove_def SortedRemove_empty untouched_def)
next
  case (Cons x xs)
  obtain f where f: "fuel = Suc f" using Cons.prems by (cases fuel) auto
  obtain st1 l1 where r: "Remove st l = Inr (Some (snd x), st1, l1)" "rep_at st1 l1 (tl as) xs"
    "untouched st st1 as"
    using Remove_refines [OF Cons.prems(1)] by auto
  obtain st' l' where "delete_List_loop f st1 l1 = Inr (st', l')" "rep_at st' l' [] []"
    "untouched st1 st' (tl as)"
    using Cons.IH [OF r(2), of f] Cons.prems(2) f by auto
  moreover have "set (tl as) \<subseteq> set as" by (cases as) auto
  ultimately show ?case
    using r f by (auto intro: untouched_trans)
qed

lemma delete_List_refines:
  assumes "rep_at st l as xs"
  shows "\<exists>st' l'. delete_List st l = Inr (st', l') \<and> rep_at st' l' [] [] \<and> untouched st st' as"
  unfolding delete_List_def
  using delete_List_loop_refines [OF assms, of "Suc (brk st)"] rep_at_short [OF assms]
    rep_at_length [OF assms] by simp

section \<open>The interface of the kernel's lists\<close>

text \<open>
  What the scheduler, the synchronization primitives and the interrupt simulation rely on:
  insertion by key, insertion at the end and removal from the front act on the sequence that the
  list holds, whatever the state \<open>'s\<close> that represents it.
\<close>

fun insert_all :: "('s \<Rightarrow> 'a \<Rightarrow> int \<Rightarrow> 's result) \<Rightarrow> 's \<Rightarrow> (int \<times> 'a) list \<Rightarrow> 's result" where
  "insert_all ins s [] = Inr s"
| "insert_all ins s ((k, x) # r) = bindE (ins s x k) (\<lambda>s1. insert_all ins s1 r)"

fun drain ::
  "('s \<Rightarrow> (('a \<times> int) option \<times> 's) result) \<Rightarrow> nat \<Rightarrow> 's \<Rightarrow> ((int \<times> 'a) list \<times> 's) result" where
  "drain rem 0 s = Inr ([], s)"
| "drain rem (Suc n) s = bindE (rem s) (\<lambda>(r, s1). case r of
     None \<Rightarrow> Inr ([], s1)
   | Some (x, k) \<Rightarrow> bindE (drain rem n s1) (\<lambda>(xs, s2). Inr ((k, x) # xs, s2)))"

lemma mset_sorted_insert [simp]: "mset (sorted_insert k x xs) = add_mset (k, x) (mset xs)"
  by (induction xs) auto

lemma set_sorted_insert [simp]: "set (sorted_insert k x xs) = insert (k, x) (set xs)"
  by (simp flip: set_mset_mset)

lemma length_sorted_insert [simp]: "length (sorted_insert k x xs) = Suc (length xs)"
  by (induction xs) auto

lemma sorted_sorted_insert:
  "sorted (map fst xs) \<Longrightarrow> sorted (map fst (sorted_insert k x xs))"
proof (induction xs)
  case Nil
  then show ?case by simp
next
  case (Cons y ys)
  then show ?case by (cases y) (fastforce simp: less_imp_le)
qed

lemma filter_sorted_insert:
  assumes "sorted (map fst xs)"
  shows "filter (\<lambda>y. fst y = j) (sorted_insert k x xs) =
     filter (\<lambda>y. fst y = j) xs @ (if j = k then [(k, x)] else [])"
  using assms
proof (induction xs)
  case Nil
  then show ?case by simp
next
  case (Cons y ys)
  obtain k' z where y: "y = (k', z)" by (cases y)
  have "filter (\<lambda>y. fst y = k) (y # ys) = []" if "k < k'"
    using that Cons.prems y by (auto simp: filter_empty_conv)
  with Cons y show ?case by auto
qed

definition sorted_list_of :: "(int \<times> 'a) list \<Rightarrow> (int \<times> 'a) list \<Rightarrow> (int \<times> 'a) list" where
  "sorted_list_of = fold (\<lambda>(k, x). sorted_insert k x)"

lemma sorted_list_of_props:
  assumes "sorted (map fst xs)"
  shows "sorted (map fst (sorted_list_of kxs xs)) \<and>
    mset (sorted_list_of kxs xs) = mset xs + mset kxs \<and>
    filter (\<lambda>y. fst y = j) (sorted_list_of kxs xs) =
      filter (\<lambda>y. fst y = j) xs @ filter (\<lambda>y. fst y = j) kxs"
  using assms
proof (induction kxs arbitrary: xs)
  case Nil
  then show ?case by (simp add: sorted_list_of_def)
next
  case (Cons kx kxs)
  obtain k x where kx: "kx = (k, x)" by (cases kx)
  show ?case
    using Cons.IH [OF sorted_sorted_insert [OF Cons.prems, of k x]] Cons.prems
    by (simp add: sorted_list_of_def kx filter_sorted_insert)
qed

lemma sorted_list_of_sort_key: "sorted_list_of kxs [] = sort_key fst kxs"
proof (rule properties_for_sort_key [symmetric])
  have p: "filter (\<lambda>y. fst y = j) (sorted_list_of kxs []) = filter (\<lambda>y. fst y = j) kxs" for j
    using sorted_list_of_props [of "[]" kxs j] by simp
  have "(\<lambda>y::int \<times> 'a. j = fst y) = (\<lambda>y. fst y = j)" for j by auto
  with p show "filter (\<lambda>y. fst k = fst y) (sorted_list_of kxs []) = filter (\<lambda>y. fst k = fst y) kxs"
    for k :: "int \<times> 'a" by simp
qed (use sorted_list_of_props [of "[]" kxs] in simp_all)

locale keyed_list =
  fixes holds :: "'s \<Rightarrow> (int \<times> 'a) list \<Rightarrow> bool"
    and ins :: "'s \<Rightarrow> 'a \<Rightarrow> int \<Rightarrow> 's result"
    and app :: "'s \<Rightarrow> 'a \<Rightarrow> 's result"
    and rem :: "'s \<Rightarrow> (('a \<times> int) option \<times> 's) result"
  assumes ins_holds: "holds s xs \<Longrightarrow> \<exists>s'. ins s x k = Inr s' \<and> holds s' (sorted_insert k x xs)"
    and app_holds: "holds s xs \<Longrightarrow> \<exists>s'. app s x = Inr s' \<and> holds s' (xs @ [(0, x)])"
    and rem_empty: "holds s [] \<Longrightarrow> rem s = Inr (None, s)"
    and rem_holds: "holds s ((k, x) # xs) \<Longrightarrow> \<exists>s'. rem s = Inr (Some (x, k), s') \<and> holds s' xs"
begin

lemma insert_all_holds:
  "holds s xs \<Longrightarrow> \<exists>s'. insert_all ins s kxs = Inr s' \<and> holds s' (sorted_list_of kxs xs)"
proof (induction kxs arbitrary: s xs)
  case Nil
  then show ?case by (simp add: sorted_list_of_def)
next
  case (Cons kx kxs)
  obtain k x where kx: "kx = (k, x)" by (cases kx)
  obtain s1 where "ins s x k = Inr s1" "holds s1 (sorted_insert k x xs)"
    using ins_holds [OF Cons.prems] by blast
  with Cons.IH [of s1] kx show ?case by (simp add: sorted_list_of_def)
qed

lemma drain_holds: "holds s xs \<Longrightarrow> \<exists>s'. drain rem (length xs) s = Inr (xs, s') \<and> holds s' []"
proof (induction xs arbitrary: s)
  case Nil
  then show ?case by simp
next
  case (Cons kx xs)
  obtain k x where kx: "kx = (k, x)" by (cases kx)
  obtain s1 where s1: "rem s = Inr (Some (x, k), s1)" "holds s1 xs"
    using rem_holds Cons.prems kx by blast
  then obtain s2 where "drain rem (length xs) s1 = Inr (xs, s2)" "holds s2 []"
    using Cons.IH by blast
  with s1 kx show ?case by simp
qed

lemma drain_sorts:
  assumes "holds s []"
  shows "\<exists>s1 s2. insert_all ins s kxs = Inr s1 \<and>
           drain rem (length kxs) s1 = Inr (sort_key fst kxs, s2) \<and> holds s2 []"
proof -
  obtain s1 where s1: "insert_all ins s kxs = Inr s1" "holds s1 (sort_key fst kxs)"
    using insert_all_holds [OF assms, of kxs] by (auto simp: sorted_list_of_sort_key)
  then show ?thesis using drain_holds [OF s1(2)] by auto
qed

end

text \<open>The pointer routines provide the interface: the state is the store with the list object.\<close>

definition list_holds :: "'a store \<times> NList \<Rightarrow> (int \<times> 'a) list \<Rightarrow> bool" where
  "list_holds s xs \<longleftrightarrow> (\<exists>as. rep_at (fst s) (snd s) as xs)"

interpretation heap_list: keyed_list list_holds
  "\<lambda>s x k. SortedInsert (fst s) (snd s) x k" "\<lambda>s x. Append (fst s) (snd s) x"
  "\<lambda>s. SortedRemove (fst s) (snd s)"
proof unfold_locales
  fix s xs x k
  assume "list_holds s xs"
  then obtain as where r: "rep_at (fst s) (snd s) as xs" by (auto simp: list_holds_def)
  show "\<exists>s'. SortedInsert (fst s) (snd s) x k = Inr s' \<and> list_holds s' (sorted_insert k x xs)"
    using SortedInsert_refines [OF r] by (fastforce simp: list_holds_def)
  show "\<exists>s'. Append (fst s) (snd s) x = Inr s' \<and> list_holds s' (xs @ [(0, x)])"
    using Append_refines [OF r] by (fastforce simp: list_holds_def)
next
  fix s :: "'a store \<times> NList"
  assume "list_holds s []"
  then show "SortedRemove (fst s) (snd s) = Inr (None, s)"
    by (auto simp: list_holds_def SortedRemove_empty)
next
  fix s k xs and x :: 'a
  assume "list_holds s ((k, x) # xs)"
  then obtain as where r: "rep_at (fst s) (snd s) as ((k, x) # xs)" by (auto simp: list_holds_def)
  show "\<exists>s'. SortedRemove (fst s) (snd s) = Inr (Some (x, k), s') \<and> list_holds s' xs"
    using SortedRemove_refines [OF r] by (fastforce simp: list_holds_def)
qed

section \<open>Properties\<close>

abbreviation SortedInsert_state :: "'a store \<times> NList \<Rightarrow> 'a \<Rightarrow> int \<Rightarrow> ('a store \<times> NList) result" where
  "SortedInsert_state s x k \<equiv> SortedInsert (fst s) (snd s) x k"

abbreviation SortedRemove_state ::
  "'a store \<times> NList \<Rightarrow> (('a \<times> int) option \<times> 'a store \<times> NList) result" where
  "SortedRemove_state s \<equiv> SortedRemove (fst s) (snd s)"

text \<open>
  C1. Items put into a fresh list with \<^verbatim>\<open>SortedInsert\<close> and taken out again with
  \<^verbatim>\<open>SortedRemove\<close> come back in increasing order of their keys, and items with equal keys in the
  order in which they were inserted: the list is a stable priority queue, for any number of
  insertions and with no fault on the way.
\<close>

theorem SortedInsert_SortedRemove_stable:
  assumes "wf_store st"
  shows "\<exists>s1 s2. insert_all SortedInsert_state (st, new_List) kxs = Inr s1 \<and>
           drain SortedRemove_state (length kxs) s1 = Inr (sort_key fst kxs, s2) \<and>
           IsEmpty (snd s2)"
proof -
  have "list_holds (st, new_List) []" using rep_at_new [OF assms] by (auto simp: list_holds_def)
  then obtain s1 s2 where "insert_all SortedInsert_state (st, new_List) kxs = Inr s1"
    "drain SortedRemove_state (length kxs) s1 = Inr (sort_key fst kxs, s2)" "list_holds s2 []"
    using heap_list.drain_sorts by blast
  moreover have "IsEmpty (snd s2)"
    using \<open>list_holds s2 []\<close> by (auto simp: list_holds_def IsEmpty_rep)
  ultimately show ?thesis by blast
qed

theorem SortedInsert_SortedRemove_stable_witness:
  "\<exists>s1 s2. insert_all SortedInsert_state (\<lparr>cells = Map.empty, brk = 0\<rparr>, new_List)
       [(3, ''c''), (1, ''a''), (3, ''d''), (2, ''b'')] = Inr s1 \<and>
     drain SortedRemove_state 4 s1 = Inr ([(1, ''a''), (2, ''b''), (3, ''c''), (3, ''d'')], s2) \<and>
     IsEmpty (snd s2)"
  using SortedInsert_SortedRemove_stable
    [of "\<lparr>cells = Map.empty, brk = 0\<rparr>" "[(3, ''c''), (1, ''a''), (3, ''d''), (2, ''b'')]"]
  by (simp add: wf_store_def numeral_eq_Suc)

text \<open>
  C2. Removing a given item: if the item is on the list, \<^verbatim>\<open>Remove(item)\<close> unlinks its first
  occurrence, keeps the order of the others and leaves the \<^verbatim>\<open>last\<close> pointer and the count right, so
  that a following \<^verbatim>\<open>Append\<close> puts its item at the end; cells of other lists in the same store keep
  their contents.
\<close>

theorem RemoveItem_then_Append:
  assumes "rep_at st l as xs" "it \<in> snd ` set xs" "rep_at st l2 bs ys" "set as \<inter> set bs = {}"
  shows "\<exists>st1 l1 st2 l1' cs. RemoveItem st l it = Inr (st1, l1) \<and> Append st1 l1 new = Inr (st2, l1') \<and>
           rep_at st2 l1' cs (remove_item it xs @ [(0, new)]) \<and> rep_at st2 l2 bs ys"
proof -
  obtain st1 l1 as1 where r: "RemoveItem st l it = Inr (st1, l1)" "set as1 \<subseteq> set as"
    "untouched st st1 as" "rep_at st1 l1 as1 (remove_item it xs)"
    using RemoveItem_refines [OF assms(1,2)] by blast
  obtain st2 l2' where a: "Append st1 l1 new = Inr (st2, l2')"
    "rep_at st2 l2' (as1 @ [brk st1]) (remove_item it xs @ [(0, new)])" "untouched st1 st2 as1"
    using Append_refines [OF r(4)] by blast
  have "untouched st st2 as" using r a by (blast intro: untouched_trans)
  moreover have "wf_store st2" using a(2) by (simp add: rep_at_def)
  ultimately have "rep_at st2 l2 bs ys"
    using assms(4) by (intro rep_at_frame [OF assms(3)]) auto
  with r a show ?thesis by blast
qed

text \<open>The two-list store of the witnesses: the first list holds \<open>''a'', ''b''\<close>, the second \<open>''z''\<close>.\<close>

definition ex_store :: "string store" where
  "ex_store = \<lparr>cells = [0 \<mapsto> \<lparr>next_ptr = Some 1, key = 0, item = ''a''\<rparr>,
                        1 \<mapsto> \<lparr>next_ptr = None, key = 0, item = ''b''\<rparr>,
                        2 \<mapsto> \<lparr>next_ptr = None, key = 0, item = ''z''\<rparr>], brk = 3\<rparr>"

definition ex_list :: "nat list \<Rightarrow> NList" where
  "ex_list as = \<lparr>first = Some (hd as), last_ptr = Some (last as), numInList = int (length as)\<rparr>"

lemma ex_store_rep:
  "rep_at ex_store (ex_list [0, 1]) [0, 1] [(0, ''a''), (0, ''b'')]"
  "rep_at ex_store (ex_list [2]) [2] [(0, ''z'')]"
  by (simp_all add: rep_at_def ex_store_def ex_list_def wf_store_def entry_def)

theorem RemoveItem_then_Append_witness:
  "\<exists>st1 l1 st2 l1' cs. RemoveItem ex_store (ex_list [0, 1]) ''b'' = Inr (st1, l1) \<and>
     Append st1 l1 ''c'' = Inr (st2, l1') \<and>
     rep_at st2 l1' cs [(0, ''a''), (0, ''c'')] \<and> rep_at st2 (ex_list [2]) [2] [(0, ''z'')]"
  using RemoveItem_then_Append [OF ex_store_rep(1) _ ex_store_rep(2), of "''b''" "''c''"] by simp

text \<open>\<^verbatim>\<open>Remove(item)\<close> of an item that is not on the list never returns: on a list with
  elements the final \<^verbatim>\<open>ASSERT\<close> ends the simulator, and on an empty list the routine dereferences
  the null \<^verbatim>\<open>first\<close> pointer.\<close>

theorem RemoveItem_absent_faults:
  assumes "rep_at st l as xs" "it \<notin> snd ` set xs"
  shows "RemoveItem st l it = Inl (if IsEmpty l then BadAccess else AssertFailed)"
  using RemoveItem_missing [OF assms] IsEmpty_rep [OF assms(1)] by simp

theorem RemoveItem_absent_faults_witness:
  "RemoveItem ex_store (ex_list [2]) ''q'' = Inl AssertFailed"
  using RemoveItem_absent_faults [OF ex_store_rep(2), of "''q''"]
  by (simp add: IsEmpty_def ex_list_def)

end
