(* ===== verification/Kernel_State.thy ===== *)
theory Kernel_State
  imports Machine_Stats Linked_List
begin

text \<open>
  The state of the kernel of \<^verbatim>\<open>code/threads/\<close>: interrupts, threads, the ready list and the
  synchronisation objects. What a thread still has to do is a list of actions, innermost call first;
  an action is a call of a routine, or the rest of a routine after a call in it, with the local
  variables that are still needed. A context switch can happen inside every call, and only there.
  Lists of the code are sequences of pairs of key and item; \<open>Linked_List\<close> shows that the pointer
  routines act on them this way.
\<close>

section \<open>Actions\<close>

datatype IntStatus = IntOff | IntOn

datatype MachineStatus = IdleMode | SystemMode | UserMode

datatype IntType = TimerInt | DiskInt | ConsoleWriteInt | ConsoleReadInt | ElevatorInt | NetworkSendInt | NetworkRecvInt

datatype ThreadStatus = JUST_CREATED | RUNNING | READY | BLOCKED

text \<open>Functions are given by numbers, their addresses; threads and other objects likewise.\<close>

datatype int_act =
  SetLevel IntStatus
| OneTick
| Due_loop
| Handler_end MachineStatus
| OneTick_end MachineStatus
| Set_status MachineStatus
| Idle
| Idle_end
| Schedule nat int IntType
| TimerExpired
| TimerInterruptHandler
| Call nat

datatype thr_act =
  New_Thread nat int
| New_Thread_end nat int
| Delete_Thread nat
| Delete_Thread_end nat
| Fork nat nat
| Finish nat
| ThreadFinish
| Yield nat
| Yield_next
| Sleep nat
| Sleep_loop
| ReadyToRun nat
| Run nat
| Run_end
| Destroyed

datatype syn_act =
  P nat
| P_loop nat
| V nat
| V_inc nat
| Acquire nat
| Set_owner nat
| Release nat
| Cond_Wait nat nat
| Cond_block nat
| Signal nat nat
| Broadcast nat nat
| Broadcast_loop nat
| Barrier_Wait nat
| Barrier_arrive nat
| Barrier_loop nat
| Barrier_done nat
| SL_Append nat nat
| SL_put nat nat
| SL_Remove nat
| SL_wait nat
| SL_take nat

datatype act = Intr int_act | Thrd thr_act | Sync syn_act

section \<open>Objects\<close>

record PendingInterrupt =
  handler :: nat
  pi_when :: int
  int_type :: IntType

text \<open>\<open>stack\<close> is the word at the bottom of the stack, where the fencepost is, if a stack is allocated.\<close>

record Thread =
  tid :: int
  uid :: int
  priority :: int
  thread_status :: ThreadStatus
  stack :: "32 word option"

record Semaphore =
  sem_value :: int
  queue :: "nat list"

record Lock =
  OwnerId :: int
  mutex :: nat

record Barrier =
  nTotal :: int
  nArrived :: int
  cv :: nat
  barrier_lock :: nat

record SynchList =
  slist :: "nat list"
  slist_lock :: nat
  listEmpty :: nat

record Timer =
  randomize :: bool
  timer_handler :: nat
  timer_code :: nat

text \<open>
  \<open>code\<close> is the program text by address. \<open>random\<close> is what the host's \<^verbatim>\<open>Random\<close> returns, call by call;
  \<open>returned\<close> is the value a thread got from its last call that returns one.
\<close>

record KState =
  level :: IntStatus
  pending :: "(int \<times> PendingInterrupt) list"
  inHandler :: bool
  yieldOnReturn :: bool
  mstatus :: MachineStatus
  kstats :: Statistics
  timer :: Timer
  readyList :: "(int \<times> nat) list"
  running :: nat
  threadToBeDestroyed :: "nat option"
  thr :: "nat \<rightharpoonup> Thread"
  tid_map :: "bool list"
  MinAvailableTid :: int
  PCBList :: "(int \<times> nat) list"
  sems :: "nat \<Rightarrow> Semaphore"
  locks :: "nat \<Rightarrow> Lock"
  conds :: "nat \<Rightarrow> nat list"
  barriers :: "nat \<Rightarrow> Barrier"
  slists :: "nat \<Rightarrow> SynchList"
  returned :: "nat \<Rightarrow> nat"
  conts :: "nat \<Rightarrow> act list"
  code :: "nat \<Rightarrow> act list"
  random :: "nat \<Rightarrow> int"
  randoms_used :: nat

text \<open>The result of an action: the new state, and the actions its thread does next.\<close>

type_synonym outcome = "(KState \<times> act list) result"

definition thread_at :: "KState \<Rightarrow> nat \<Rightarrow> Thread result" where
  "thread_at s t = (case thr s t of None \<Rightarrow> Inl BadAccess | Some th \<Rightarrow> Inr th)"

definition setStatus :: "nat \<Rightarrow> ThreadStatus \<Rightarrow> KState \<Rightarrow> KState result" where
  "setStatus t st s = bindE (thread_at s t) (\<lambda>th. Inr (s\<lparr>thr := (thr s)(t \<mapsto> th\<lparr>thread_status := st\<rparr>)\<rparr>))"

definition getPriority :: "KState \<Rightarrow> nat \<Rightarrow> int result" where
  "getPriority s t = bindE (thread_at s t) (\<lambda>th. Inr (priority th))"

end
