(* ===== verification/Interrupts.thy ===== *)
theory Interrupts
  imports Kernel_State
begin

text \<open>
  The interrupt simulation of \<^verbatim>\<open>code/machine/interrupt.cc\<close> and the timer of \<^verbatim>\<open>code/machine/timer.cc\<close>.
  A routine gives the new state and what its caller has to do before it goes on.
\<close>

section \<open>Interrupts\<close>

definition Interrupt_SetLevel :: "IntStatus \<Rightarrow> KState \<Rightarrow> (KState \<times> IntStatus \<times> act list) result" where
  "Interrupt_SetLevel now s = ASSERT (now = IntOff \<or> \<not> inHandler s)
     (Inr (s\<lparr>level := now\<rparr>, level s, if now = IntOn \<and> level s = IntOff then [Intr OneTick] else []))"

definition advance :: "KState \<Rightarrow> KState" where
  "advance s = s\<lparr>kstats := (if mstatus s = SystemMode
     then (kstats s)\<lparr>totalTicks := totalTicks (kstats s) + SystemTick, systemTicks := systemTicks (kstats s) + SystemTick\<rparr>
     else (kstats s)\<lparr>totalTicks := totalTicks (kstats s) + UserTick, userTicks := userTicks (kstats s) + UserTick\<rparr>)\<rparr>"

text \<open>\<^verbatim>\<open>OneTick\<close> up to the loop, and after it.\<close>

definition Interrupt_OneTick :: "KState \<Rightarrow> outcome" where
  "Interrupt_OneTick s = Inr ((advance s)\<lparr>level := IntOff\<rparr>, [Intr Due_loop, Intr (OneTick_end (mstatus s))])"

definition Interrupt_OneTick_end :: "MachineStatus \<Rightarrow> KState \<Rightarrow> outcome" where
  "Interrupt_OneTick_end old s =
     (let s = s\<lparr>level := IntOn\<rparr> in
      if yieldOnReturn s
      then Inr (s\<lparr>yieldOnReturn := False, mstatus := SystemMode\<rparr>, [Thrd (Yield (running s)), Intr (Set_status old)])
      else Inr (s, []))"

definition Interrupt_YieldOnReturn :: "KState \<Rightarrow> KState result" where
  "Interrupt_YieldOnReturn s = ASSERT (inHandler s) (Inr (s\<lparr>yieldOnReturn := True\<rparr>))"

definition Interrupt_Schedule :: "nat \<Rightarrow> int \<Rightarrow> IntType \<Rightarrow> KState \<Rightarrow> KState result" where
  "Interrupt_Schedule h fromNow ty s =
     (let w = totalTicks (kstats s) + fromNow in
      ASSERT (fromNow > 0) (Inr (s\<lparr>pending := sorted_insert w \<lparr>handler = h, pi_when = w, int_type = ty\<rparr> (pending s)\<rparr>)))"

text \<open>
  \<^verbatim>\<open>CheckIfDue\<close> tells if a handler was called; then the actions are the handler and what follows it.
\<close>

definition Interrupt_CheckIfDue :: "bool \<Rightarrow> KState \<Rightarrow> (KState \<times> bool \<times> act list) result" where
  "Interrupt_CheckIfDue advanceClock s = ASSERT (level s = IntOff)
     (case pending s of
        [] \<Rightarrow> Inr (s, False, [])
      | (w, toOccur) # rest \<Rightarrow>
          let s1 = s\<lparr>pending := rest\<rparr>; back = s\<lparr>pending := sorted_insert w toOccur rest\<rparr> in
          if \<not> advanceClock \<and> w > totalTicks (kstats s) then Inr (back, False, [])
          else
            let st = kstats s;
                st1 = (if w > totalTicks st then st\<lparr>idleTicks := idleTicks st + (w - totalTicks st), totalTicks := w\<rparr> else st)
            in
            if mstatus s = IdleMode \<and> int_type toOccur = TimerInt \<and> rest = [] then Inr (back\<lparr>kstats := st1\<rparr>, False, [])
            else Inr (s1\<lparr>kstats := st1, inHandler := True, mstatus := SystemMode\<rparr>, True,
                   [Intr (Call (handler toOccur)), Intr (Handler_end (mstatus s))]))"

definition Interrupt_Handler_end :: "MachineStatus \<Rightarrow> KState \<Rightarrow> outcome" where
  "Interrupt_Handler_end old s = Inr (s\<lparr>mstatus := old, inHandler := False\<rparr>, [])"

definition Interrupt_Due_loop :: "KState \<Rightarrow> outcome" where
  "Interrupt_Due_loop s = bindE (Interrupt_CheckIfDue False s) (\<lambda>(s, fired, acts). Inr (s, if fired then acts @ [Intr Due_loop] else []))"

text \<open>When nothing is pending, \<^verbatim>\<open>Idle\<close> halts the machine, which ends the simulator.\<close>

definition Interrupt_Idle :: "KState \<Rightarrow> outcome" where
  "Interrupt_Idle s = bindE (Interrupt_CheckIfDue True (s\<lparr>mstatus := IdleMode\<rparr>)) (\<lambda>(s, fired, acts).
     if fired then Inr (s, acts @ [Intr Due_loop, Intr Idle_end]) else Inl Exited)"

definition Interrupt_Idle_end :: "KState \<Rightarrow> outcome" where
  "Interrupt_Idle_end s = Inr (s\<lparr>yieldOnReturn := False, mstatus := SystemMode\<rparr>, [])"

section \<open>The timer\<close>

definition TimeOfNextInterrupt :: "KState \<Rightarrow> KState \<times> int" where
  "TimeOfNextInterrupt s =
     (if randomize (timer s)
      then (s\<lparr>randoms_used := randoms_used s + 1\<rparr>, 1 + c_mod (random s (randoms_used s)) (TimerTicks * 2))
      else (s, TimerTicks))"

definition new_Timer :: "nat \<Rightarrow> bool \<Rightarrow> nat \<Rightarrow> KState \<Rightarrow> KState result" where
  "new_Timer timerHandler doRandom TimerHandler s =
     (let s = s\<lparr>timer := \<lparr>randomize = doRandom, timer_handler = timerHandler, timer_code = TimerHandler\<rparr>\<rparr>;
          (s, n) = TimeOfNextInterrupt s
      in Interrupt_Schedule TimerHandler n TimerInt s)"

definition Timer_Expired :: "KState \<Rightarrow> outcome" where
  "Timer_Expired s =
     (let (s, n) = TimeOfNextInterrupt s in
      bindE (Interrupt_Schedule (timer_code (timer s)) n TimerInt s) (\<lambda>s. Inr (s, [Intr (Call (timer_handler (timer s)))])))"

definition Timer_InterruptHandler :: "KState \<Rightarrow> outcome" where
  "Timer_InterruptHandler s =
     (if mstatus s \<noteq> IdleMode then bindE (Interrupt_YieldOnReturn s) (\<lambda>s. Inr (s, [])) else Inr (s, []))"

definition exec_int :: "int_act \<Rightarrow> KState \<Rightarrow> outcome" where
  "exec_int a s = (case a of
     SetLevel now \<Rightarrow> bindE (Interrupt_SetLevel now s) (\<lambda>(s, _, acts). Inr (s, acts))
   | OneTick \<Rightarrow> Interrupt_OneTick s
   | Due_loop \<Rightarrow> Interrupt_Due_loop s
   | Handler_end old \<Rightarrow> Interrupt_Handler_end old s
   | OneTick_end old \<Rightarrow> Interrupt_OneTick_end old s
   | Set_status old \<Rightarrow> Inr (s\<lparr>mstatus := old\<rparr>, [])
   | Idle \<Rightarrow> Interrupt_Idle s
   | Idle_end \<Rightarrow> Interrupt_Idle_end s
   | Schedule h n ty \<Rightarrow> bindE (Interrupt_Schedule h n ty s) (\<lambda>s. Inr (s, []))
   | TimerExpired \<Rightarrow> Timer_Expired s
   | TimerInterruptHandler \<Rightarrow> Timer_InterruptHandler s
   | Call f \<Rightarrow> Inr (s, code s f))"

end
