(* ===== verification/Thread_Sched.thy ===== *)
theory Thread_Sched
  imports Interrupts
begin

text \<open>
  Threads and the scheduler: \<^verbatim>\<open>code/threads/thread.cc\<close> and \<^verbatim>\<open>code/threads/scheduler.cc\<close> with
  \<^verbatim>\<open>SCHED_PRIO\<close>, in the build without user programs; the part of \<^verbatim>\<open>Scheduler::Run\<close> that saves and
  restores user registers is in \<open>Syscalls\<close>.
\<close>

section \<open>Creating and destroying threads\<close>

abbreviation (input) ThreadsNumLimit :: int where "ThreadsNumLimit \<equiv> 128"
abbreviation (input) STACK_FENCEPOST :: "32 word" where "STACK_FENCEPOST \<equiv> 0xdeadbeef"

text \<open>Reading \<^verbatim>\<open>TidMap[i]\<close>.\<close>

definition tid_at :: "KState \<Rightarrow> int \<Rightarrow> bool result" where
  "tid_at s i = (if 0 \<le> i \<and> i < int (length (tid_map s)) then Inr (tid_map s ! nat i) else Inl BadAccess)"

text \<open>
  The search for the next identifier: the \<^verbatim>\<open>break\<close> is not part of the \<^verbatim>\<open>if\<close>, so that the loop ends after
  its first round.
\<close>

definition next_tid :: "int \<Rightarrow> KState \<Rightarrow> KState result" where
  "next_tid i s =
     (if i < ThreadsNumLimit
      then bindE (tid_at s i) (\<lambda>used. Inr (if \<not> used then s\<lparr>MinAvailableTid := i\<rparr> else s))
      else Inr s)"

text \<open>
  The constructor up to the change of the interrupt level, for a thread at address \<open>t\<close>, and the rest.
  The members it sets in the rest are not read before.
\<close>

definition new_Thread :: "nat \<Rightarrow> int \<Rightarrow> KState \<Rightarrow> outcome" where
  "new_Thread t prio s =
     bindE (Interrupt_SetLevel IntOff s) (\<lambda>(s, oldLevel, acts).
     ASSERT (0 \<le> MinAvailableTid s \<and> MinAvailableTid s < ThreadsNumLimit)
     (bindE (tid_at s (MinAvailableTid s)) (\<lambda>used. ASSERT (\<not> used)
     (let i = MinAvailableTid s;
          s = s\<lparr>tid_map := (tid_map s)[nat i := True],
                thr := (thr s)(t \<mapsto> \<lparr>tid = i, uid = 0, priority = 0, thread_status = JUST_CREATED, stack = None\<rparr>)\<rparr> in
      bindE (next_tid (i + 1) s) (\<lambda>s.
      let s = (if MinAvailableTid s = i then s\<lparr>MinAvailableTid := ThreadsNumLimit\<rparr> else s) in
      Inr (s\<lparr>PCBList := sorted_insert i t (PCBList s)\<rparr>, acts @ [Intr (SetLevel oldLevel), Thrd (New_Thread_end t prio)]))))))"

definition new_Thread_end :: "nat \<Rightarrow> int \<Rightarrow> KState \<Rightarrow> outcome" where
  "new_Thread_end t prio s =
     bindE (thread_at s t) (\<lambda>th.
     Inr (s\<lparr>thr := (thr s)(t \<mapsto> th\<lparr>priority := prio, stack := None, thread_status := JUST_CREATED\<rparr>)\<rparr>, []))"

text \<open>\<^verbatim>\<open>List::Remove(item)\<close> with its failures (\<open>RemoveItem_missing\<close>).\<close>

definition list_remove :: "'a \<Rightarrow> (int \<times> 'a) list \<Rightarrow> (int \<times> 'a) list result" where
  "list_remove x xs = (if x \<in> snd ` set xs then Inr (remove_item x xs) else if xs = [] then Inl BadAccess else Inl AssertFailed)"

definition delete_Thread :: "nat \<Rightarrow> KState \<Rightarrow> outcome" where
  "delete_Thread t s =
     bindE (thread_at s t) (\<lambda>th.
     bindE (Interrupt_SetLevel IntOff s) (\<lambda>(s, oldLevel, acts).
     bindE (list_remove t (PCBList s)) (\<lambda>l.
     bindE (tid_at s (tid th)) (\<lambda>used. ASSERT used
     (Inr (s\<lparr>PCBList := l, tid_map := (tid_map s)[nat (tid th) := False], MinAvailableTid := min (tid th) (MinAvailableTid s)\<rparr>,
        acts @ [Intr (SetLevel oldLevel), Thrd (Delete_Thread_end t)]))))))"

definition delete_Thread_end :: "nat \<Rightarrow> KState \<Rightarrow> outcome" where
  "delete_Thread_end t s = ASSERT (t \<noteq> running s) (Inr (s\<lparr>thr := (thr s)(t := None)\<rparr>, []))"

text \<open>A new stack makes the thread enable interrupts, call the function, and finish (\<^verbatim>\<open>ThreadRoot\<close>).\<close>

definition StackAllocate :: "nat \<Rightarrow> nat \<Rightarrow> KState \<Rightarrow> KState result" where
  "StackAllocate t func s =
     bindE (thread_at s t) (\<lambda>th.
     Inr (s\<lparr>thr := (thr s)(t \<mapsto> th\<lparr>stack := Some STACK_FENCEPOST\<rparr>),
            conts := (conts s)(t := [Intr (SetLevel IntOn), Intr (Call func), Thrd ThreadFinish])\<rparr>))"

definition Thread_Fork :: "nat \<Rightarrow> nat \<Rightarrow> KState \<Rightarrow> outcome" where
  "Thread_Fork t func s =
     bindE (StackAllocate t func s) (\<lambda>s.
     bindE (Interrupt_SetLevel IntOff s) (\<lambda>(s, oldLevel, acts).
     Inr (s, acts @ [Thrd (ReadyToRun t), Intr (SetLevel oldLevel)])))"

definition CheckOverflow :: "nat \<Rightarrow> KState \<Rightarrow> unit result" where
  "CheckOverflow t s = bindE (thread_at s t) (\<lambda>th.
     case stack th of None \<Rightarrow> Inr () | Some w \<Rightarrow> ASSERT (w = STACK_FENCEPOST) (Inr ()))"

section \<open>The scheduler\<close>

definition Scheduler_ReadyToRun :: "nat \<Rightarrow> KState \<Rightarrow> outcome" where
  "Scheduler_ReadyToRun t s =
     bindE (setStatus t READY s) (\<lambda>s.
     bindE (getPriority s t) (\<lambda>p.
     let s = s\<lparr>readyList := sorted_insert p t (readyList s)\<rparr> in
     if t \<noteq> running s
     then bindE (getPriority s (running s)) (\<lambda>q. Inr (s, if p < q then [Thrd (Yield (running s))] else []))
     else Inr (s, [])))"

definition FindNextToRun :: "KState \<Rightarrow> (KState \<times> nat option) result" where
  "FindNextToRun s =
     (case readyList s of
        [] \<Rightarrow> Inr (s, None)
      | (_, candidate) # rest \<Rightarrow>
          bindE (thread_at s (running s)) (\<lambda>cur.
          let s = s\<lparr>readyList := rest\<rparr> in
          if thread_status cur = BLOCKED then Inr (s, Some candidate)
          else bindE (getPriority s candidate) (\<lambda>p.
            if p > priority cur then Inr (s\<lparr>readyList := sorted_insert p candidate rest\<rparr>, None)
            else Inr (s, Some candidate))))"

text \<open>
  \<^verbatim>\<open>Scheduler::Run\<close> up to \<^verbatim>\<open>SWITCH\<close>: the thread that runs is another one from here on, and the old one
  continues with the rest when it is switched to again.
\<close>

definition Scheduler_Run :: "nat \<Rightarrow> KState \<Rightarrow> outcome" where
  "Scheduler_Run nextThread s =
     bindE (CheckOverflow (running s) s) (\<lambda>_.
     bindE (setStatus nextThread RUNNING (s\<lparr>running := nextThread\<rparr>)) (\<lambda>s. Inr (s, [Thrd Run_end])))"

definition Scheduler_Run_end :: "KState \<Rightarrow> outcome" where
  "Scheduler_Run_end s = Inr (s, case threadToBeDestroyed s of None \<Rightarrow> [] | Some t \<Rightarrow> [Thrd (Delete_Thread t), Thrd Destroyed])"

section \<open>Giving up the processor\<close>

definition Thread_Yield :: "nat \<Rightarrow> KState \<Rightarrow> outcome" where
  "Thread_Yield t s =
     bindE (Interrupt_SetLevel IntOff s) (\<lambda>(s, oldLevel, acts). ASSERT (t = running s)
     (Inr (s, acts @ [Thrd (ReadyToRun t), Thrd Yield_next, Intr (SetLevel oldLevel)])))"

definition Thread_Yield_next :: "KState \<Rightarrow> outcome" where
  "Thread_Yield_next s = bindE (FindNextToRun s) (\<lambda>(s, nextThread).
     Inr (s, case nextThread of None \<Rightarrow> [] | Some n \<Rightarrow> [Thrd (Run n)]))"

definition Thread_Sleep :: "nat \<Rightarrow> KState \<Rightarrow> outcome" where
  "Thread_Sleep t s = ASSERT (t = running s) (ASSERT (level s = IntOff)
     (bindE (setStatus t BLOCKED s) (\<lambda>s. Inr (s, [Thrd Sleep_loop]))))"

definition Thread_Sleep_loop :: "KState \<Rightarrow> outcome" where
  "Thread_Sleep_loop s = bindE (FindNextToRun s) (\<lambda>(s, nextThread).
     Inr (s, case nextThread of None \<Rightarrow> [Intr Idle, Thrd Sleep_loop] | Some n \<Rightarrow> [Thrd (Run n)]))"

definition Thread_Finish :: "nat \<Rightarrow> KState \<Rightarrow> outcome" where
  "Thread_Finish t s =
     bindE (Interrupt_SetLevel IntOff s) (\<lambda>(s, _, acts). ASSERT (t = running s)
     (Inr (s\<lparr>threadToBeDestroyed := Some (running s)\<rparr>, acts @ [Thrd (Sleep t)])))"

definition exec_thr :: "thr_act \<Rightarrow> KState \<Rightarrow> outcome" where
  "exec_thr a s = (case a of
     New_Thread t prio \<Rightarrow> new_Thread t prio s
   | New_Thread_end t prio \<Rightarrow> new_Thread_end t prio s
   | Delete_Thread t \<Rightarrow> delete_Thread t s
   | Delete_Thread_end t \<Rightarrow> delete_Thread_end t s
   | Fork t func \<Rightarrow> Thread_Fork t func s
   | Finish t \<Rightarrow> Thread_Finish t s
   | ThreadFinish \<Rightarrow> Inr (s, [Thrd (Finish (running s))])
   | Yield t \<Rightarrow> Thread_Yield t s
   | Yield_next \<Rightarrow> Thread_Yield_next s
   | Sleep t \<Rightarrow> Thread_Sleep t s
   | Sleep_loop \<Rightarrow> Thread_Sleep_loop s
   | ReadyToRun t \<Rightarrow> Scheduler_ReadyToRun t s
   | Run n \<Rightarrow> Scheduler_Run n s
   | Run_end \<Rightarrow> Scheduler_Run_end s
   | Destroyed \<Rightarrow> Inr (s\<lparr>threadToBeDestroyed := None\<rparr>, []))"

end
