(* ===== verification/Synch_Prims.thy ===== *)
theory Synch_Prims
  imports Thread_Sched
begin

text \<open>
  Semaphores, locks, condition variables, barriers and synchronised lists:
  \<^verbatim>\<open>code/threads/synch.cc\<close> and \<^verbatim>\<open>code/threads/synchlist.cc\<close>.
\<close>

section \<open>Semaphores\<close>

definition new_Semaphore :: "int \<Rightarrow> Semaphore" where
  "new_Semaphore initialValue = \<lparr>sem_value = initialValue, queue = []\<rparr>"

definition set_sem :: "nat \<Rightarrow> Semaphore \<Rightarrow> KState \<Rightarrow> KState" where
  "set_sem m x s = s\<lparr>sems := (sems s)(m := x)\<rparr>"

definition Semaphore_P :: "nat \<Rightarrow> KState \<Rightarrow> outcome" where
  "Semaphore_P m s =
     bindE (Interrupt_SetLevel IntOff s) (\<lambda>(s, oldLevel, acts). Inr (s, acts @ [Sync (P_loop m), Intr (SetLevel oldLevel)]))"

text \<open>One test of the loop: the thread sleeps and tests again, or takes the value.\<close>

definition Semaphore_P_loop :: "nat \<Rightarrow> KState \<Rightarrow> outcome" where
  "Semaphore_P_loop m s =
     (let x = sems s m in
      if sem_value x = 0
      then Inr (set_sem m (x\<lparr>queue := queue x @ [running s]\<rparr>) s, [Thrd (Sleep (running s)), Sync (P_loop m)])
      else Inr (set_sem m (x\<lparr>sem_value := sem_value x - 1\<rparr>) s, []))"

definition Semaphore_V :: "nat \<Rightarrow> KState \<Rightarrow> outcome" where
  "Semaphore_V m s =
     bindE (Interrupt_SetLevel IntOff s) (\<lambda>(s, oldLevel, acts).
     let x = sems s m in
     case queue x of
       [] \<Rightarrow> Inr (s, acts @ [Sync (V_inc m), Intr (SetLevel oldLevel)])
     | t # ts \<Rightarrow> Inr (set_sem m (x\<lparr>queue := ts\<rparr>) s, acts @ [Thrd (ReadyToRun t), Sync (V_inc m), Intr (SetLevel oldLevel)]))"

definition Semaphore_V_inc :: "nat \<Rightarrow> KState \<Rightarrow> outcome" where
  "Semaphore_V_inc m s = (let x = sems s m in Inr (set_sem m (x\<lparr>sem_value := sem_value x + 1\<rparr>) s, []))"

section \<open>Locks\<close>

definition new_Lock :: "nat \<Rightarrow> Lock" where
  "new_Lock m = \<lparr>OwnerId = - 1, mutex = m\<rparr>"

definition set_lock_owner :: "nat \<Rightarrow> int \<Rightarrow> KState \<Rightarrow> KState" where
  "set_lock_owner l i s = s\<lparr>locks := (locks s)(l := (locks s l)\<lparr>OwnerId := i\<rparr>)\<rparr>"

definition isHeldByCurrentThread :: "nat \<Rightarrow> KState \<Rightarrow> bool result" where
  "isHeldByCurrentThread l s = bindE (thread_at s (running s)) (\<lambda>th. Inr (OwnerId (locks s l) = tid th))"

definition Lock_Acquire :: "nat \<Rightarrow> KState \<Rightarrow> outcome" where
  "Lock_Acquire l s =
     bindE (Interrupt_SetLevel IntOff s) (\<lambda>(s, oldLevel, acts).
     Inr (s, acts @ [Sync (P (mutex (locks s l))), Sync (Set_owner l), Intr (SetLevel oldLevel)]))"

definition Lock_Set_owner :: "nat \<Rightarrow> KState \<Rightarrow> outcome" where
  "Lock_Set_owner l s = bindE (thread_at s (running s)) (\<lambda>th. Inr (set_lock_owner l (tid th) s, []))"

definition Lock_Release :: "nat \<Rightarrow> KState \<Rightarrow> outcome" where
  "Lock_Release l s =
     bindE (Interrupt_SetLevel IntOff s) (\<lambda>(s, oldLevel, acts).
     bindE (isHeldByCurrentThread l s) (\<lambda>held. ASSERT held
     (Inr (set_lock_owner l (- 1) s, acts @ [Sync (V (mutex (locks s l))), Intr (SetLevel oldLevel)]))))"

section \<open>Condition variables\<close>

definition set_cond :: "nat \<Rightarrow> nat list \<Rightarrow> KState \<Rightarrow> KState" where
  "set_cond c ts s = s\<lparr>conds := (conds s)(c := ts)\<rparr>"

definition Condition_Wait :: "nat \<Rightarrow> nat \<Rightarrow> KState \<Rightarrow> outcome" where
  "Condition_Wait c l s =
     bindE (Interrupt_SetLevel IntOff s) (\<lambda>(s, oldLevel, acts).
     Inr (s, acts @ [Sync (Release l), Sync (Cond_block c), Sync (Acquire l), Intr (SetLevel oldLevel)]))"

definition Condition_block :: "nat \<Rightarrow> KState \<Rightarrow> outcome" where
  "Condition_block c s = Inr (set_cond c (conds s c @ [running s]) s, [Thrd (Sleep (running s))])"

definition Condition_Signal :: "nat \<Rightarrow> nat \<Rightarrow> KState \<Rightarrow> outcome" where
  "Condition_Signal c l s =
     bindE (Interrupt_SetLevel IntOff s) (\<lambda>(s, oldLevel, acts).
     bindE (isHeldByCurrentThread l s) (\<lambda>held.
     case conds s c of
       [] \<Rightarrow> Inr (s, acts @ [Intr (SetLevel oldLevel)])
     | t # ts \<Rightarrow>
         if held then Inr (set_cond c ts s, acts @ [Thrd (ReadyToRun t), Intr (SetLevel oldLevel)])
         else Inr (s, acts @ [Intr (SetLevel oldLevel)])))"

definition Condition_Broadcast :: "nat \<Rightarrow> nat \<Rightarrow> KState \<Rightarrow> outcome" where
  "Condition_Broadcast c l s =
     bindE (Interrupt_SetLevel IntOff s) (\<lambda>(s, oldLevel, acts).
     bindE (isHeldByCurrentThread l s) (\<lambda>held.
     Inr (s, acts @ (if held then [Sync (Broadcast_loop c)] else []) @ [Intr (SetLevel oldLevel)])))"

definition Condition_Broadcast_loop :: "nat \<Rightarrow> KState \<Rightarrow> outcome" where
  "Condition_Broadcast_loop c s =
     (case conds s c of
        [] \<Rightarrow> Inr (s, [])
      | t # ts \<Rightarrow> Inr (set_cond c ts s, [Thrd (ReadyToRun t), Sync (Broadcast_loop c)]))"

section \<open>Barriers\<close>

definition new_Barrier :: "int \<Rightarrow> nat \<Rightarrow> nat \<Rightarrow> Barrier" where
  "new_Barrier n c l = \<lparr>nTotal = n, nArrived = 0, cv = c, barrier_lock = l\<rparr>"

definition Barrier_Wait_start :: "nat \<Rightarrow> KState \<Rightarrow> outcome" where
  "Barrier_Wait_start b s =
     (let l = barrier_lock (barriers s b) in
      Inr (s, [Sync (Acquire l), Sync (Barrier_arrive b), Sync (Barrier_loop b), Sync (Barrier_done b), Sync (Release l)]))"

definition Barrier_count :: "nat \<Rightarrow> KState \<Rightarrow> outcome" where
  "Barrier_count b s = (let x = barriers s b in Inr (s\<lparr>barriers := (barriers s)(b := x\<lparr>nArrived := nArrived x + 1\<rparr>)\<rparr>, []))"

definition Barrier_Wait_loop :: "nat \<Rightarrow> KState \<Rightarrow> outcome" where
  "Barrier_Wait_loop b s =
     (let x = barriers s b in
      Inr (s, if nArrived x < nTotal x then [Sync (Cond_Wait (cv x) (barrier_lock x)), Sync (Barrier_loop b)] else []))"

definition Barrier_Wait_done :: "nat \<Rightarrow> KState \<Rightarrow> outcome" where
  "Barrier_Wait_done b s =
     (let x = barriers s b in
      Inr (s, if nArrived x = nTotal x then [Sync (Broadcast (cv x) (barrier_lock x))] else []))"

section \<open>Synchronised lists\<close>

definition set_slist :: "nat \<Rightarrow> nat list \<Rightarrow> KState \<Rightarrow> KState" where
  "set_slist q xs s = s\<lparr>slists := (slists s)(q := (slists s q)\<lparr>slist := xs\<rparr>)\<rparr>"

definition new_SynchList :: "nat \<Rightarrow> nat \<Rightarrow> SynchList" where
  "new_SynchList l c = \<lparr>slist = [], slist_lock = l, listEmpty = c\<rparr>"

definition SynchList_Append :: "nat \<Rightarrow> nat \<Rightarrow> KState \<Rightarrow> outcome" where
  "SynchList_Append q it s =
     (let x = slists s q in
      Inr (s, [Sync (Acquire (slist_lock x)), Sync (SL_put q it), Sync (Signal (listEmpty x) (slist_lock x)), Sync (Release (slist_lock x))]))"

definition SynchList_put :: "nat \<Rightarrow> nat \<Rightarrow> KState \<Rightarrow> outcome" where
  "SynchList_put q it s = Inr (set_slist q (slist (slists s q) @ [it]) s, [])"

definition SynchList_Remove :: "nat \<Rightarrow> KState \<Rightarrow> outcome" where
  "SynchList_Remove q s =
     (let x = slists s q in
      Inr (s, [Sync (Acquire (slist_lock x)), Sync (SL_wait q), Sync (SL_take q), Sync (Release (slist_lock x))]))"

definition SynchList_wait :: "nat \<Rightarrow> KState \<Rightarrow> outcome" where
  "SynchList_wait q s =
     (let x = slists s q in
      Inr (s, if slist x = [] then [Sync (Cond_Wait (listEmpty x) (slist_lock x)), Sync (SL_wait q)] else []))"

text \<open>Items are addresses, and 0 is \<^verbatim>\<open>NULL\<close>; removing from an empty list gives \<^verbatim>\<open>NULL\<close>.\<close>

definition SynchList_take :: "nat \<Rightarrow> KState \<Rightarrow> outcome" where
  "SynchList_take q s =
     (case slist (slists s q) of
        [] \<Rightarrow> Inl AssertFailed
      | it # rest \<Rightarrow> ASSERT (it \<noteq> 0) (Inr ((set_slist q rest s)\<lparr>returned := (returned s)(running s := it)\<rparr>, [])))"

definition exec_syn :: "syn_act \<Rightarrow> KState \<Rightarrow> outcome" where
  "exec_syn a s = (case a of
     P m \<Rightarrow> Semaphore_P m s
   | P_loop m \<Rightarrow> Semaphore_P_loop m s
   | V m \<Rightarrow> Semaphore_V m s
   | V_inc m \<Rightarrow> Semaphore_V_inc m s
   | Acquire l \<Rightarrow> Lock_Acquire l s
   | Set_owner l \<Rightarrow> Lock_Set_owner l s
   | Release l \<Rightarrow> Lock_Release l s
   | Cond_Wait c l \<Rightarrow> Condition_Wait c l s
   | Cond_block c \<Rightarrow> Condition_block c s
   | Signal c l \<Rightarrow> Condition_Signal c l s
   | Broadcast c l \<Rightarrow> Condition_Broadcast c l s
   | Broadcast_loop c \<Rightarrow> Condition_Broadcast_loop c s
   | Barrier_Wait b \<Rightarrow> Barrier_Wait_start b s
   | Barrier_arrive b \<Rightarrow> Barrier_count b s
   | Barrier_loop b \<Rightarrow> Barrier_Wait_loop b s
   | Barrier_done b \<Rightarrow> Barrier_Wait_done b s
   | SL_Append q it \<Rightarrow> SynchList_Append q it s
   | SL_put q it \<Rightarrow> SynchList_put q it s
   | SL_Remove q \<Rightarrow> SynchList_Remove q s
   | SL_wait q \<Rightarrow> SynchList_wait q s
   | SL_take q \<Rightarrow> SynchList_take q s)"

section \<open>Running the kernel\<close>

text \<open>
  One step: the running thread does its next action. A thread that has nothing left has returned from
  its first function, which \<^verbatim>\<open>ThreadFinish\<close> prevents.
\<close>

definition exec :: "act \<Rightarrow> KState \<Rightarrow> outcome" where
  "exec a s = (case a of Intr a \<Rightarrow> exec_int a s | Thrd a \<Rightarrow> exec_thr a s | Sync a \<Rightarrow> exec_syn a s)"

definition step :: "KState \<Rightarrow> KState result" where
  "step s = (case conts s (running s) of
     [] \<Rightarrow> Inl BadAccess
   | a # k \<Rightarrow> bindE (exec a s) (\<lambda>(s', acts). Inr (s'\<lparr>conts := (conts s')(running s := acts @ k)\<rparr>)))"

fun steps :: "nat \<Rightarrow> KState \<Rightarrow> KState result" where
  "steps 0 s = Inr s"
| "steps (Suc n) s = bindE (step s) (steps n)"

end
