(* ===== verification/Kernel_Safety.thy ===== *)
theory Kernel_Safety
  imports Synch_Prims
begin

text \<open>
  What holds of every run of the kernel, whatever the threads and interrupt handlers do: the value of a
  semaphore, mutual exclusion by locks, time and the order of interrupts.
\<close>

section \<open>Runs\<close>

text \<open>A run with its trace: the actions executed, each with the state before it.\<close>

inductive runs :: "KState \<Rightarrow> (KState \<times> act) list \<Rightarrow> KState \<Rightarrow> bool" for s where
  runs_refl: "runs s [] s"
| runs_step: "runs s tr s1 \<Longrightarrow> conts s1 (running s1) = a # k \<Longrightarrow> step s1 = Inr s2 \<Longrightarrow> runs s (tr @ [(s1, a)]) s2"

lemma steps_runs:
  assumes "steps n s1 = Inr s2" "runs s tr s1"
  shows "\<exists>tr'. runs s (tr @ tr') s2 \<and> length tr' = n"
  using assms
proof (induction n arbitrary: s1 tr)
  case 0
  then show ?case by auto
next
  case (Suc n)
  then obtain s' where s': "step s1 = Inr s'" "steps n s' = Inr s2" by (auto simp: bindE_eq_Inr)
  then obtain a k where c: "conts s1 (running s1) = a # k" by (cases "conts s1 (running s1)") (auto simp: step_def)
  obtain tr' where "runs s ((tr @ [(s1, a)]) @ tr') s2" "length tr' = n" using Suc.IH [OF s'(2) runs_step [OF Suc.prems(2) c s'(1)]] by blast
  then show ?case by (intro exI [of _ "(s1, a) # tr'"]) simp
qed

lemma stepE:
  assumes "step s = Inr s2" "conts s (running s) = a # k"
  obtains s' acts where "exec a s = Inr (s', acts)" "s2 = s'\<lparr>conts := (conts s')(running s := acts @ k)\<rparr>"
  using assms by (auto simp: step_def bindE_eq_Inr)

section \<open>Frames\<close>

lemmas int_defs = exec_int_def Interrupt_SetLevel_def Interrupt_OneTick_def advance_def Interrupt_Due_loop_def Interrupt_CheckIfDue_def
  Interrupt_Handler_end_def Interrupt_OneTick_end_def Interrupt_Idle_def Interrupt_Idle_end_def Interrupt_Schedule_def
  Timer_Expired_def Timer_InterruptHandler_def Interrupt_YieldOnReturn_def TimeOfNextInterrupt_def

lemmas thr_defs = exec_thr_def new_Thread_def new_Thread_end_def delete_Thread_def delete_Thread_end_def Thread_Fork_def StackAllocate_def
  Thread_Finish_def Thread_Yield_def Thread_Yield_next_def Thread_Sleep_def Thread_Sleep_loop_def Scheduler_ReadyToRun_def
  Scheduler_Run_def Scheduler_Run_end_def FindNextToRun_def next_tid_def setStatus_def getPriority_def thread_at_def Interrupt_SetLevel_def
  tid_at_def list_remove_def CheckOverflow_def

lemmas syn_defs = exec_syn_def Semaphore_P_def Semaphore_P_loop_def Semaphore_V_def Semaphore_V_inc_def Lock_Acquire_def Lock_Set_owner_def
  Lock_Release_def Condition_Wait_def Condition_block_def Condition_Signal_def Condition_Broadcast_def Condition_Broadcast_loop_def
  Barrier_Wait_start_def Barrier_count_def Barrier_Wait_loop_def Barrier_Wait_done_def SynchList_Append_def SynchList_put_def
  SynchList_Remove_def SynchList_wait_def SynchList_take_def set_sem_def set_lock_owner_def set_cond_def set_slist_def
  isHeldByCurrentThread_def thread_at_def Interrupt_SetLevel_def

lemmas outcome_splits = option.splits list.splits if_splits prod.splits int_act.splits thr_act.splits syn_act.splits

definition same_objects :: "KState \<Rightarrow> KState \<Rightarrow> bool" where
  "same_objects s s' \<longleftrightarrow> sems s' = sems s \<and> locks s' = locks s \<and> conds s' = conds s \<and> barriers s' = barriers s \<and>
     slists s' = slists s \<and> code s' = code s"

lemma exec_int_same: "gives (\<lambda>(s', acts). same_objects s s' \<and> thr s' = thr s \<and> conts s' = conts s \<and> running s' = running s) (exec_int a s)"
  by (cases a) (simp_all add: int_defs same_objects_def Let_def split: option.split list.split if_split prod.split)

lemma exec_thr_same: "gives (\<lambda>(s', acts). same_objects s s') (exec_thr a s)"
  by (cases a) (simp_all add: thr_defs same_objects_def Let_def split: option.split list.split if_split prod.split)

definition starts :: "act list \<Rightarrow> bool" where
  "starts k \<longleftrightarrow> (\<exists>f. k = [Intr (SetLevel IntOn), Intr (Call f), Thrd ThreadFinish])"

lemma startsI [simp]: "starts [Intr (SetLevel IntOn), Intr (Call f), Thrd ThreadFinish]"
  by (simp add: starts_def)

lemma exec_thr_conts: "gives (\<lambda>(s', acts). conts s' t = conts s t \<or> starts (conts s' t)) (exec_thr a s)"
  by (cases a) (simp_all add: thr_defs Let_def split: option.split list.split if_split prod.split)

definition tids_ok :: "KState \<Rightarrow> bool" where
  "tids_ok s \<longleftrightarrow> (\<forall>t th. thr s t = Some th \<longrightarrow> 0 \<le> tid th)"

lemma exec_thr_tids: "gives (\<lambda>(s', acts). tids_ok s \<longrightarrow> tids_ok s') (exec_thr a s)"
  by (cases a) (simp_all add: thr_defs tids_ok_def Let_def split: option.split list.split if_split prod.split)

lemma exec_syn_same: "gives (\<lambda>(s', acts). thr s' = thr s \<and> conts s' = conts s \<and> running s' = running s \<and> code s' = code s) (exec_syn a s)"
  by (cases a) (simp_all add: syn_defs Let_def split: option.split list.split if_split prod.split)

text \<open>The actions that a routine leaves to its caller.\<close>

fun is_sync :: "act \<Rightarrow> bool" where
  "is_sync (Sync a) = True"
| "is_sync a = False"

lemma exec_int_acts: "gives (\<lambda>(s', acts). list_all (\<lambda>x. \<not> is_sync x) acts \<or> acts \<in> range (code s)) (exec_int a s)"
  by (cases a) (simp_all add: int_defs Let_def split: option.split list.split if_split prod.split)

lemma exec_thr_acts: "gives (\<lambda>(s', acts). list_all (\<lambda>x. \<not> is_sync x) acts) (exec_thr a s)"
  by (cases a) (simp_all add: thr_defs Let_def split: option.split list.split if_split prod.split)

section \<open>Semaphores\<close>

definition passes :: "nat \<Rightarrow> KState \<times> act \<Rightarrow> bool" where
  "passes m e \<longleftrightarrow> snd e = Sync (P_loop m) \<and> sem_value (sems (fst e) m) \<noteq> 0"

definition posts :: "nat \<Rightarrow> KState \<times> act \<Rightarrow> bool" where
  "posts m e \<longleftrightarrow> snd e = Sync (V_inc m)"

definition number :: "('e \<Rightarrow> bool) \<Rightarrow> 'e list \<Rightarrow> nat" where
  "number p tr = length (filter p tr)"

lemma number_simps [simp]:
  "number p [] = 0" "number p (e # tr) = (if p e then 1 else 0) + number p tr" "number p (tr @ tr') = number p tr + number p tr'"
  by (simp_all add: number_def)

lemma exec_syn_value:
  "gives (\<lambda>(s', acts). sem_value (sems s' m) = sem_value (sems s m) + (if posts m (s, Sync a) then 1 else 0) - (if passes m (s, Sync a) then 1 else 0))
     (exec_syn a s)"
  by (cases a) (simp_all add: syn_defs passes_def posts_def Let_def split: option.split list.split if_split prod.split)

lemma exec_value:
  assumes "exec a s = Inr (s', acts)"
  shows "sem_value (sems s' m) = sem_value (sems s m) + (if posts m (s, a) then 1 else 0) - (if passes m (s, a) then 1 else 0)"
proof (cases a)
  case (Intr x)
  with assms givesD [OF exec_int_same, of x s "(s', acts)"] show ?thesis by (simp add: exec_def same_objects_def passes_def posts_def)
next
  case (Thrd x)
  with assms givesD [OF exec_thr_same, of x s "(s', acts)"] show ?thesis by (simp add: exec_def same_objects_def passes_def posts_def)
next
  case (Sync x)
  with assms givesD [OF exec_syn_value, of x s "(s', acts)" m] show ?thesis by (simp add: exec_def)
qed

lemma runs_value:
  "runs s tr s' \<Longrightarrow> sem_value (sems s' m) = sem_value (sems s m) + int (number (posts m) tr) - int (number (passes m) tr)"
proof (induction rule: runs.induct)
  case runs_refl
  show ?case by simp
next
  case (runs_step tr s1 a k s2)
  obtain s' acts where "exec a s1 = Inr (s', acts)" "s2 = s'\<lparr>conts := (conts s')(running s1 := acts @ k)\<rparr>"
    by (rule stepE [OF runs_step.hyps(3,2)])
  with exec_value [of a s1 s' acts m] runs_step.IH show ?case by auto
qed

lemma runs_value_nonneg: "runs s tr s' \<Longrightarrow> 0 \<le> sem_value (sems s m) \<Longrightarrow> 0 \<le> sem_value (sems s' m)"
proof (induction rule: runs.induct)
  case runs_refl
  then show ?case by simp
next
  case (runs_step tr s1 a k s2)
  obtain s' acts where "exec a s1 = Inr (s', acts)" "s2 = s'\<lparr>conts := (conts s')(running s1 := acts @ k)\<rparr>"
    by (rule stepE [OF runs_step.hyps(3,2)])
  with exec_value [of a s1 s' acts m] runs_step show ?case by (auto simp: passes_def)
qed

text \<open>
  C27. However threads and interrupt handlers interleave, a semaphore lets at most as many \<^verbatim>\<open>P\<close> through as
  its initial value plus the \<^verbatim>\<open>V\<close> completed so far: in every run its value is the initial value plus the
  completed \<^verbatim>\<open>V\<close> less the completed \<^verbatim>\<open>P\<close>, and it is never negative.
\<close>

theorem semaphore_safety:
  assumes "runs s tr s'" "0 \<le> sem_value (sems s m)"
  shows "sem_value (sems s' m) = sem_value (sems s m) + int (number (posts m) tr) - int (number (passes m) tr) \<and>
    int (number (passes m) tr) \<le> sem_value (sems s m) + int (number (posts m) tr)"
  using runs_value [OF assms(1), of m] runs_value_nonneg [OF assms] by simp

section \<open>Locks\<close>

text \<open>
  Lock \<open>l\<close> with its semaphore \<open>m\<close>: the actions that only the routines of \<^verbatim>\<open>Lock\<close> perform, and the
  events of a trace, by thread.
\<close>

definition lock_raw :: "nat \<Rightarrow> nat \<Rightarrow> act \<Rightarrow> bool" where
  "lock_raw l m a \<longleftrightarrow> a \<in> Sync ` {P m, P_loop m, V m, V_inc m, Set_owner l}"

definition by_thread :: "nat \<Rightarrow> (KState \<times> act \<Rightarrow> bool) \<Rightarrow> KState \<times> act \<Rightarrow> bool" where
  "by_thread t p e \<longleftrightarrow> p e \<and> running (fst e) = t"

definition takes :: "nat \<Rightarrow> KState \<times> act \<Rightarrow> bool" where
  "takes l e \<longleftrightarrow> snd e = Sync (Set_owner l)"

definition releases :: "nat \<Rightarrow> KState \<times> act \<Rightarrow> bool" where
  "releases l e \<longleftrightarrow> snd e = Sync (Release l)"

text \<open>What a thread still has to do: tests of \<^verbatim>\<open>P\<close>, entries of the owner, increments of \<^verbatim>\<open>V\<close>.\<close>

definition to_pass :: "nat \<Rightarrow> act \<Rightarrow> bool" where
  "to_pass m a \<longleftrightarrow> a = Sync (P m) \<or> a = Sync (P_loop m)"

definition to_post :: "nat \<Rightarrow> act \<Rightarrow> bool" where
  "to_post m a \<longleftrightarrow> a = Sync (V m) \<or> a = Sync (V_inc m)"

definition to_take :: "nat \<Rightarrow> act \<Rightarrow> bool" where
  "to_take l a \<longleftrightarrow> a = Sync (Set_owner l)"

text \<open>Behind each test there is its entry of the owner.\<close>

fun paired :: "nat \<Rightarrow> nat \<Rightarrow> act list \<Rightarrow> bool" where
  "paired l m [] = True"
| "paired l m (a # k) \<longleftrightarrow> number (to_pass m) (a # k) \<le> number (to_take l) (a # k) \<and> paired l m k"

lemma paired_le: "paired l m k \<Longrightarrow> number (to_pass m) k \<le> number (to_take l) k"
  by (cases k) simp_all

lemma lock_raw_free:
  assumes "list_all (\<lambda>a. \<not> lock_raw l m a) k"
  shows "number (to_pass m) k = 0" "number (to_post m) k = 0" "number (to_take l) k = 0" "paired l m (k @ k') = paired l m k'"
  using assms by (induction k) (auto simp: lock_raw_def to_pass_def to_post_def to_take_def dest: paired_le)

lemma not_sync_raw: "list_all (\<lambda>x. \<not> is_sync x) k \<Longrightarrow> list_all (\<lambda>a. \<not> lock_raw l m a) k"
  by (auto simp: list_all_iff lock_raw_def)

text \<open>How one action changes what its thread has to do.\<close>

definition lock_step :: "nat \<Rightarrow> nat \<Rightarrow> KState \<Rightarrow> act \<Rightarrow> act list \<Rightarrow> bool" where
  "lock_step l m s a acts \<longleftrightarrow>
     number (to_post m) acts + (if posts m (s, a) then 1 else 0) \<le> number (to_post m) [a] + (if releases l (s, a) then 1 else 0) \<and>
     number (to_take l) acts + number (to_pass m) [a] + (if takes l (s, a) then 1 else 0)
       \<le> number (to_pass m) acts + number (to_take l) [a] + (if passes m (s, a) then 1 else 0) \<and>
     (\<forall>k. paired l m (a # k) \<longrightarrow> paired l m (acts @ k))"

lemma lock_step_free: "list_all (\<lambda>a. \<not> lock_raw l m a) acts \<Longrightarrow> \<not> lock_raw l m a \<Longrightarrow> lock_step l m s a acts"
  using lock_raw_free [of l m acts] lock_raw_free [of l m "[a]"]
  by (auto simp: lock_step_def lock_raw_def posts_def takes_def)

definition lock_text :: "nat \<Rightarrow> nat \<Rightarrow> KState \<Rightarrow> bool" where
  "lock_text l m s \<longleftrightarrow> mutex (locks s l) = m \<and> (\<forall>l'. l' \<noteq> l \<longrightarrow> mutex (locks s l') \<noteq> m) \<and>
     (\<forall>f. list_all (\<lambda>a. \<not> lock_raw l m a) (code s f))"

lemma exec_syn_lock_step: "lock_text l m s \<Longrightarrow> gives (\<lambda>(s', acts). lock_step l m s (Sync a) acts) (exec_syn a s)"
  by (cases a) (auto simp: syn_defs lock_step_def lock_text_def to_pass_def to_post_def to_take_def passes_def posts_def takes_def releases_def Let_def
      split: option.split list.split if_split prod.split)

lemma exec_lock_step:
  assumes "lock_text l m s" "exec a s = Inr (s', acts)"
  shows "lock_step l m s a acts"
proof (cases a)
  case (Intr x)
  then have e: "exec_int x s = Inr (s', acts)" using assms(2) by (simp add: exec_def)
  then have "list_all (\<lambda>x. \<not> is_sync x) acts \<or> acts \<in> range (code s)" using givesD [OF exec_int_acts] by blast
  then have "list_all (\<lambda>a. \<not> lock_raw l m a) acts" using assms(1) not_sync_raw by (auto simp: lock_text_def)
  then show ?thesis using Intr by (intro lock_step_free) (auto simp: lock_raw_def)
next
  case (Thrd x)
  then have "exec_thr x s = Inr (s', acts)" using assms(2) by (simp add: exec_def)
  then have "list_all (\<lambda>x. \<not> is_sync x) acts" using givesD [OF exec_thr_acts] by blast
  then have "list_all (\<lambda>a. \<not> lock_raw l m a) acts" by (rule not_sync_raw)
  then show ?thesis using Thrd by (intro lock_step_free) (auto simp: lock_raw_def)
next
  case (Sync x)
  then have "exec_syn x s = Inr (s', acts)" using assms(2) by (simp add: exec_def)
  then show ?thesis using givesD [OF exec_syn_lock_step [OF assms(1)]] Sync by blast
qed

lemma exec_syn_locks: "gives (\<lambda>(s', acts). mutex (locks s' l) = mutex (locks s l) \<and>
    (OwnerId (locks s' l) = OwnerId (locks s l) \<or> a = Set_owner l \<or> a = Release l)) (exec_syn a s)"
  by (cases a) (simp_all add: syn_defs Let_def split: option.split list.split if_split prod.split)

lemma exec_locks_all:
  assumes "exec a s = Inr (s', acts)"
  shows "mutex (locks s' l) = mutex (locks s l) \<and> code s' = code s \<and> (tids_ok s \<longrightarrow> tids_ok s') \<and>
    (OwnerId (locks s' l) = OwnerId (locks s l) \<or> a = Sync (Set_owner l) \<or> a = Sync (Release l)) \<and>
    (conts s' t = conts s t \<or> starts (conts s' t))"
proof (cases a)
  case (Intr x)
  then show ?thesis using assms givesD [OF exec_int_same, of x s "(s', acts)"] by (simp add: exec_def same_objects_def tids_ok_def)
next
  case (Thrd x)
  then show ?thesis using assms givesD [OF exec_thr_same, of x s "(s', acts)"] givesD [OF exec_thr_tids, of x s "(s', acts)"]
      givesD [OF exec_thr_conts, of x s "(s', acts)" t] by (simp add: exec_def same_objects_def)
next
  case (Sync x)
  then show ?thesis using assms givesD [OF exec_syn_same, of x s "(s', acts)"] givesD [OF exec_syn_locks, of x s "(s', acts)" l]
    by (simp add: exec_def tids_ok_def)
qed

lemma exec_locks:
  assumes "exec a s = Inr (s', acts)"
  shows "mutex (locks s' l) = mutex (locks s l)" "code s' = code s" "tids_ok s \<Longrightarrow> tids_ok s'"
    "OwnerId (locks s' l) = OwnerId (locks s l) \<or> a = Sync (Set_owner l) \<or> a = Sync (Release l)"
    "conts s' t = conts s t \<or> starts (conts s' t)"
  using exec_locks_all [OF assms, of l t] by simp_all

lemma starts_raw: "starts k \<Longrightarrow> list_all (\<lambda>a. \<not> lock_raw l m a) k"
  by (auto simp: starts_def lock_raw_def)

text \<open>Sums over the threads of a trace.\<close>

lemma number_by_thread:
  "finite T \<Longrightarrow> (\<lambda>e. running (fst e)) ` set tr \<subseteq> T \<Longrightarrow> number p tr = (\<Sum>t\<in>T. number (by_thread t p) tr)"
proof (induction tr)
  case Nil
  then show ?case by simp
next
  case (Cons e tr)
  then have "(\<Sum>t\<in>T. if by_thread t p e then 1 else 0) = (if p e then 1 else (0 :: nat))" by (simp add: by_thread_def)
  with Cons show ?case by (simp add: sum.distrib)
qed

lemma number_le: "(\<And>t. number (by_thread t p) tr \<le> number (by_thread t q) tr) \<Longrightarrow> number p tr \<le> number q tr"
  using number_by_thread [of "(\<lambda>e. running (fst e)) ` set tr" tr p] number_by_thread [of "(\<lambda>e. running (fst e)) ` set tr" tr q]
  by (simp add: sum_mono)

definition lock_free :: "nat \<Rightarrow> nat \<Rightarrow> KState \<Rightarrow> bool" where
  "lock_free l m s \<longleftrightarrow> lock_text l m s \<and> tids_ok s \<and> (\<forall>t. list_all (\<lambda>a. \<not> lock_raw l m a) (conts s t)) \<and>
     sem_value (sems s m) = 1 \<and> OwnerId (locks s l) = - 1"

definition lock_todo :: "nat \<Rightarrow> nat \<Rightarrow> (KState \<times> act) list \<Rightarrow> nat \<Rightarrow> act list \<Rightarrow> bool" where
  "lock_todo l m tr t k \<longleftrightarrow>
     number (by_thread t (posts m)) tr + number (to_post m) k \<le> number (by_thread t (releases l)) tr \<and>
     number (by_thread t (takes l)) tr + number (to_take l) k \<le> number (by_thread t (passes m)) tr + number (to_pass m) k \<and>
     paired l m k"

lemma lock_todo_start:
  assumes "lock_todo l m tr t k" "list_all (\<lambda>a. \<not> lock_raw l m a) k'"
  shows "lock_todo l m tr t k'"
  using assms lock_raw_free [OF assms(2)] lock_raw_free(4) [OF assms(2), of "[]"] paired_le [of l m k] by (simp add: lock_todo_def)

lemma lock_todo_step:
  assumes "lock_todo l m tr t (a # k)" "lock_step l m s a acts" "running s = t"
  shows "lock_todo l m (tr @ [(s, a)]) t (acts @ k)"
  using assms by (auto simp: lock_todo_def lock_step_def by_thread_def)

lemma lock_todo_other:
  "lock_todo l m tr t k \<Longrightarrow> running s \<noteq> t \<Longrightarrow> lock_todo l m (tr @ [(s, a)]) t k"
  by (simp add: lock_todo_def by_thread_def)

lemma runs_lock:
  assumes "runs s tr s'" "lock_free l m s"
  shows "lock_text l m s' \<and> tids_ok s' \<and> (\<forall>t. lock_todo l m tr t (conts s' t))"
  using assms(1)
proof (induction rule: runs.induct)
  case runs_refl
  then show ?case using assms(2) lock_raw_free [of l m] lock_raw_free(4) [of l m _ "[]"] by (auto simp: lock_free_def lock_todo_def)
next
  case (runs_step tr s1 a k s2)
  obtain s' acts where e: "exec a s1 = Inr (s', acts)" and s2: "s2 = s'\<lparr>conts := (conts s')(running s1 := acts @ k)\<rparr>"
    by (rule stepE [OF runs_step.hyps(3,2)])
  note x = exec_locks [OF e]
  have t: "lock_text l m s2" "tids_ok s2" using runs_step.IH x(1-3) unfolding s2 by (auto simp: lock_text_def tids_ok_def)
  have "lock_todo l m (tr @ [(s1, a)]) t (conts s2 t)" for t
  proof (cases "t = running s1")
    case True
    have "lock_todo l m tr (running s1) (a # k)" using runs_step.IH unfolding runs_step.hyps(2) [symmetric] by blast
    moreover have "lock_step l m s1 a acts" using runs_step.IH exec_lock_step [OF _ e] by blast
    ultimately show ?thesis using lock_todo_step [of l m tr "running s1" a k s1 acts] unfolding True s2 by simp
  next
    case False
    have i: "lock_todo l m tr t (conts s1 t)" using runs_step.IH by blast
    have "lock_todo l m tr t (conts s' t)" using x(5) [of t]
    proof
      assume "starts (conts s' t)"
      then show ?thesis using lock_todo_start [OF i starts_raw] by blast
    qed (simp add: i)
    then show ?thesis using lock_todo_other [of l m tr t "conts s' t" s1 a] False unfolding s2 by simp
  qed
  with t show ?case by blast
qed

lemma runs_lock_counts:
  assumes "runs s tr s'" "lock_free l m s"
  shows "number (takes l) tr \<le> number (releases l) tr + 1"
proof -
  have todo: "lock_todo l m tr t (conts s' t)" for t using runs_lock [OF assms] by blast
  have "number (by_thread t (takes l)) tr \<le> number (by_thread t (passes m)) tr" for t
    using todo [of t] paired_le [of l m "conts s' t"] by (auto simp: lock_todo_def)
  then have "number (takes l) tr \<le> number (passes m) tr" by (rule number_le)
  moreover have "number (by_thread t (posts m)) tr \<le> number (by_thread t (releases l)) tr" for t
    using todo [of t] by (simp add: lock_todo_def)
  then have "number (posts m) tr \<le> number (releases l) tr" by (rule number_le)
  moreover have "number (passes m) tr \<le> 1 + number (posts m) tr"
    using runs_value [OF assms(1), of m] runs_value_nonneg [OF assms(1), of m] assms(2) by (simp add: lock_free_def)
  ultimately show ?thesis by simp
qed

lemma exec_owner:
  assumes "exec a s = Inr (s', acts)" "tids_ok s"
  shows "OwnerId (locks s' l) = (if takes l (s, a) then tid (the (thr s (running s))) else if releases l (s, a) then - 1 else OwnerId (locks s l))"
    "takes l (s, a) \<Longrightarrow> OwnerId (locks s' l) \<noteq> - 1"
    "releases l (s, a) \<Longrightarrow> thr s (running s) \<noteq> None \<and> OwnerId (locks s l) = tid (the (thr s (running s)))"
proof -
  have r: "thr s (running s) \<noteq> None \<and> OwnerId (locks s l) = tid (the (thr s (running s))) \<and> OwnerId (locks s' l) = - 1"
    if "a = Sync (Release l)"
    using assms(1) that by (auto simp: exec_def syn_defs ASSERT_eq_Inr bindE_eq_Inr split: option.splits)
  have t: "OwnerId (locks s' l) = tid (the (thr s (running s))) \<and> 0 \<le> tid (the (thr s (running s)))" if "a = Sync (Set_owner l)"
    using assms that by (auto simp: exec_def syn_defs bindE_eq_Inr tids_ok_def split: option.splits)
  show "OwnerId (locks s' l) = (if takes l (s, a) then tid (the (thr s (running s))) else if releases l (s, a) then - 1 else OwnerId (locks s l))"
    "takes l (s, a) \<Longrightarrow> OwnerId (locks s' l) \<noteq> - 1"
    "releases l (s, a) \<Longrightarrow> thr s (running s) \<noteq> None \<and> OwnerId (locks s l) = tid (the (thr s (running s)))"
    using r t exec_locks(4) [OF assms(1), of l] by (auto simp: takes_def releases_def)
qed

lemma runs_owner:
  assumes "runs s tr s'" "lock_free l m s"
  shows "number (takes l) tr = number (releases l) tr + (if OwnerId (locks s' l) = - 1 then 0 else 1) \<and>
    list_all (\<lambda>e. takes l e \<longrightarrow> OwnerId (locks (fst e) l) = - 1) tr"
  using assms(1)
proof (induction rule: runs.induct)
  case runs_refl
  then show ?case using assms(2) by (simp add: lock_free_def)
next
  case (runs_step tr s1 a k s2)
  obtain s' acts where e: "exec a s1 = Inr (s', acts)" and s2: "s2 = s'\<lparr>conts := (conts s')(running s1 := acts @ k)\<rparr>"
    by (rule stepE [OF runs_step.hyps(3,2)])
  have tids: "tids_ok s1" using runs_lock [OF runs_step.hyps(1) assms(2)] by blast
  note o = exec_owner [OF e tids, of l]
  have c: "number (takes l) (tr @ [(s1, a)]) \<le> number (releases l) (tr @ [(s1, a)]) + 1"
    by (rule runs_lock_counts [OF runs.runs_step [OF runs_step.hyps] assms(2)])
  have n: "\<not> (takes l (s1, a) \<and> releases l (s1, a))" by (auto simp: takes_def releases_def)
  have rel: "OwnerId (locks s1 l) \<noteq> - 1" if "releases l (s1, a)"
    using o(3) [OF that] tids by (fastforce simp: tids_ok_def)
  have "OwnerId (locks s1 l) = - 1" if "takes l (s1, a)"
    using c n that runs_step.IH by (auto split: if_splits)
  then show ?case using o(1,2) n rel runs_step.IH unfolding s2 by (auto split: if_splits)
qed

text \<open>
  C26. Mutual exclusion: in every run that starts with a lock nobody holds, whatever threads and handlers
  do with it, a thread becomes its owner only when it has no owner, and it is given back only by the
  thread that is its owner.
\<close>

theorem lock_exclusion:
  assumes "runs s tr s'" "lock_free l m s"
  shows "list_all (\<lambda>e. (snd e = Sync (Set_owner l) \<longrightarrow> OwnerId (locks (fst e) l) = - 1) \<and>
    (snd e = Sync (Release l) \<longrightarrow> OwnerId (locks (fst e) l) = tid (the (thr (fst e) (running (fst e)))))) tr"
  using assms(1)
proof (induction rule: runs.induct)
  case runs_refl
  show ?case by simp
next
  case (runs_step tr s1 a k s2)
  obtain s' acts where e: "exec a s1 = Inr (s', acts)" and s2: "s2 = s'\<lparr>conts := (conts s')(running s1 := acts @ k)\<rparr>"
    by (rule stepE [OF runs_step.hyps(3,2)])
  have tids: "tids_ok s1" using runs_lock [OF runs_step.hyps(1) assms(2)] by blast
  have "list_all (\<lambda>e. takes l e \<longrightarrow> OwnerId (locks (fst e) l) = - 1) (tr @ [(s1, a)])"
    using runs_owner [OF runs.runs_step [OF runs_step.hyps] assms(2)] by blast
  with runs_step.IH exec_owner(3) [OF e tids, of l] show ?case by (simp add: takes_def releases_def)
qed

section \<open>Time\<close>

definition time_inv :: "KState \<Rightarrow> bool" where
  "time_inv s \<longleftrightarrow> totalTicks (kstats s) = idleTicks (kstats s) + systemTicks (kstats s) + userTicks (kstats s) \<and>
     sorted (map fst (pending s)) \<and> (\<forall>(w, p) \<in> set (pending s). pi_when p = w)"

text \<open>Time does not go back, and what is pending for the future stays pending.\<close>

definition time_passes :: "KState \<Rightarrow> KState \<Rightarrow> bool" where
  "time_passes s s' \<longleftrightarrow> totalTicks (kstats s) \<le> totalTicks (kstats s') \<and>
     (\<forall>(w, p) \<in> set (pending s). w > totalTicks (kstats s') \<longrightarrow> (w, p) \<in> set (pending s'))"

lemma time_conts [simp]: "time_inv (s\<lparr>conts := c\<rparr>) = time_inv s" "time_passes s' (s\<lparr>conts := c\<rparr>) = time_passes s' s"
  by (simp_all add: time_inv_def time_passes_def)

lemma time_passes_refl: "time_passes s s"
  by (auto simp: time_passes_def)

lemma time_passes_trans: "time_passes s s1 \<Longrightarrow> time_passes s1 s2 \<Longrightarrow> time_passes s s2"
  by (fastforce simp: time_passes_def)

lemma Schedule_time: "time_inv s \<Longrightarrow> gives (\<lambda>s'. time_inv s' \<and> time_passes s s') (Interrupt_Schedule h n ty s)"
  by (auto simp: Interrupt_Schedule_def time_inv_def time_passes_def Let_def sorted_sorted_insert)

lemma CheckIfDue_time: "time_inv s \<Longrightarrow> gives (\<lambda>(s', fired, acts). time_inv s' \<and> time_passes s s') (Interrupt_CheckIfDue b s)"
  by (auto simp: Interrupt_CheckIfDue_def time_inv_def time_passes_def Let_def sorted_sorted_insert split: list.split)

lemma same_time: "time_inv s \<Longrightarrow> pending s' = pending s \<Longrightarrow> kstats s' = kstats s \<Longrightarrow> time_inv s' \<and> time_passes s s'"
  by (auto simp: time_inv_def time_passes_def)

lemma advance_time_inv: "time_inv s \<Longrightarrow> time_inv (advance s) \<and> time_passes s (advance s)"
  by (auto simp: time_inv_def time_passes_def advance_def)

lemma Due_loop_time: "time_inv s \<Longrightarrow> gives (\<lambda>(s', acts). time_inv s' \<and> time_passes s s') (Interrupt_Due_loop s)"
  unfolding Interrupt_Due_loop_def gives_bindE by (rule gives_mono [OF CheckIfDue_time]) auto

lemma Idle_time:
  assumes "time_inv s"
  shows "gives (\<lambda>(s', acts). time_inv s' \<and> time_passes s s') (Interrupt_Idle s)"
proof -
  have i: "time_inv (s\<lparr>mstatus := IdleMode\<rparr>)" "time_passes s' s'' \<longleftrightarrow> time_passes (s'\<lparr>mstatus := IdleMode\<rparr>) s''" for s' s''
    using assms by (simp_all add: time_inv_def time_passes_def)
  show ?thesis unfolding Interrupt_Idle_def gives_bindE i(2) [of s] by (rule gives_mono [OF CheckIfDue_time [OF i(1)]]) auto
qed

lemma Timer_Expired_time:
  assumes "time_inv s"
  shows "gives (\<lambda>(s', acts). time_inv s' \<and> time_passes s s') (Timer_Expired s)"
proof -
  obtain s1 n where n: "TimeOfNextInterrupt s = (s1, n)" by fastforce
  then have p: "pending s1 = pending s" "kstats s1 = kstats s" by (auto simp: TimeOfNextInterrupt_def split: if_splits)
  have "time_inv s1" "time_passes s s1" using same_time [OF assms p] by simp_all
  then show ?thesis unfolding Timer_Expired_def Let_def n prod.case gives_bindE
    by (intro gives_mono [OF Schedule_time]) (auto intro: time_passes_trans)
qed

lemma exec_int_time:
  assumes "time_inv s"
  shows "gives (\<lambda>(s', acts). time_inv s' \<and> time_passes s s') (exec_int a s)"
proof (cases a)
  case OneTick
  have "time_inv (s'\<lparr>level := x\<rparr>) = time_inv s'" "time_passes s (s'\<lparr>level := x\<rparr>) = time_passes s s'" for s' x
    by (simp_all add: time_inv_def time_passes_def)
  then show ?thesis using OneTick advance_time_inv [OF assms] by (simp add: exec_int_def Interrupt_OneTick_def)
next
  case (Schedule h n ty)
  then show ?thesis using Schedule_time [OF assms] by (simp add: exec_int_def)
qed (use assms same_time [OF assms] in \<open>simp_all add: exec_int_def Due_loop_time Idle_time Timer_Expired_time Interrupt_SetLevel_def
   Interrupt_Handler_end_def Interrupt_OneTick_end_def Interrupt_Idle_end_def Timer_InterruptHandler_def Interrupt_YieldOnReturn_def Let_def\<close>)

lemma exec_thr_clock: "gives (\<lambda>(s', acts). pending s' = pending s \<and> kstats s' = kstats s) (exec_thr a s)"
  by (cases a) (simp_all add: thr_defs Let_def split: option.split list.split if_split prod.split)

lemma exec_syn_clock: "gives (\<lambda>(s', acts). pending s' = pending s \<and> kstats s' = kstats s) (exec_syn a s)"
  by (cases a) (simp_all add: syn_defs Let_def split: option.split list.split if_split prod.split)

lemma exec_time:
  assumes "time_inv s" "exec a s = Inr (s', acts)"
  shows "time_inv s' \<and> time_passes s s'"
proof (cases a)
  case (Intr x)
  then show ?thesis using assms(2) givesD [OF exec_int_time [OF assms(1)], of x "(s', acts)"] by (simp add: exec_def)
next
  case (Thrd x)
  then show ?thesis using assms(2) givesD [OF exec_thr_clock, of x s "(s', acts)"] same_time [OF assms(1), of s'] by (simp add: exec_def)
next
  case (Sync x)
  then show ?thesis using assms(2) givesD [OF exec_syn_clock, of x s "(s', acts)"] same_time [OF assms(1), of s'] by (simp add: exec_def)
qed

text \<open>
  C28. In every run the simulated time is the sum of idle, system and user time and never goes back, the
  pending interrupts are in the order of their times, and no interrupt is taken off before its time has
  come.
\<close>

theorem time_invariant:
  assumes "runs s tr s'" "time_inv s"
  shows "time_inv s' \<and> totalTicks (kstats s) \<le> totalTicks (kstats s') \<and>
    (\<forall>(w, p) \<in> set (pending s). (w, p) \<notin> set (pending s') \<longrightarrow> w \<le> totalTicks (kstats s'))"
proof -
  have "time_inv s' \<and> time_passes s s'" using assms(1)
  proof (induction rule: runs.induct)
    case runs_refl
    show ?case using assms(2) by (simp add: time_passes_refl)
  next
    case (runs_step tr s1 a k s2)
    obtain s' acts where e: "exec a s1 = Inr (s', acts)" and s2: "s2 = s'\<lparr>conts := (conts s')(running s1 := acts @ k)\<rparr>"
      by (rule stepE [OF runs_step.hyps(3,2)])
    have "time_inv s' \<and> time_passes s1 s'" using runs_step.IH exec_time [OF _ e] by blast
    then have "time_inv s2 \<and> time_passes s1 s2" unfolding s2 by simp
    with runs_step.IH show ?case using time_passes_trans by blast
  qed
  then show ?thesis by (fastforce simp: time_passes_def)
qed

section \<open>A concrete kernel\<close>

text \<open>Two threads, the first running, a lock with its semaphore, and an interrupt pending at time 5.\<close>

definition ex_thread :: "int \<Rightarrow> int \<Rightarrow> Thread" where
  "ex_thread i p = \<lparr>tid = i, uid = 0, priority = p, thread_status = READY, stack = None\<rparr>"

definition ex_kernel :: KState where
  "ex_kernel = \<lparr>level = IntOff, pending = [(5, \<lparr>handler = 0, pi_when = 5, int_type = DiskInt\<rparr>)], inHandler = False, yieldOnReturn = False,
     mstatus = SystemMode, kstats = new_Statistics, timer = \<lparr>randomize = False, timer_handler = 0, timer_code = 0\<rparr>,
     readyList = [], running = 0, threadToBeDestroyed = None, thr = [0 \<mapsto> ex_thread 0 9, 1 \<mapsto> ex_thread 1 5],
     tid_map = [True, True] @ replicate 126 False, MinAvailableTid = 2, PCBList = [(0, 0), (1, 1)],
     sems = (\<lambda>_. \<lparr>sem_value = 1, queue = []\<rparr>), locks = (\<lambda>l. new_Lock l), conds = (\<lambda>_. []), barriers = (\<lambda>_. new_Barrier 1 0 0),
     slists = (\<lambda>_. new_SynchList 0 0), returned = (\<lambda>_. 0),
     conts = (\<lambda>t. if t = 0 then [Sync (Acquire 0), Sync (Release 0), Intr (SetLevel IntOn)] else []),
     code = (\<lambda>_. [Sync (V 1)]), random = (\<lambda>_. 0), randoms_used = 0\<rparr>"

lemma ex_lock_free: "lock_free 0 0 ex_kernel"
  by (simp add: lock_free_def lock_text_def tids_ok_def lock_raw_def ex_kernel_def ex_thread_def new_Lock_def image_iff)

lemma ex_time: "time_inv ex_kernel"
  by (simp add: time_inv_def ex_kernel_def new_Statistics_def)

lemma ex_runs: "\<exists>tr s'. runs ex_kernel tr s' \<and> length tr = 18 \<and> totalTicks (kstats s') = 10 \<and> pending s' = []"
proof -
  have "\<exists>s'. steps 18 ex_kernel = Inr s' \<and> totalTicks (kstats s') = 10 \<and> pending s' = []"
    by (simp add: eval_nat_numeral step_def exec_def int_defs thr_defs syn_defs Let_def ex_kernel_def ex_thread_def new_Lock_def new_Statistics_def)
  then show ?thesis using steps_runs [OF _ runs_refl, of 18 ex_kernel] by fastforce
qed

theorem semaphore_safety_witness:
  "\<exists>tr s'. runs ex_kernel tr s' \<and> length tr = 18 \<and> int (number (passes 0) tr) \<le> 1 + int (number (posts 0) tr)"
proof -
  obtain tr s' where r: "runs ex_kernel tr s'" "length tr = 18" using ex_runs by blast
  have "0 \<le> sem_value (sems ex_kernel 0)" "sem_value (sems ex_kernel 0) = 1" by (simp_all add: ex_kernel_def)
  with semaphore_safety [OF r(1), of 0] r show ?thesis by auto
qed

theorem lock_exclusion_witness:
  "\<exists>tr s'. runs ex_kernel tr s' \<and> length tr = 18 \<and> list_all (\<lambda>e. snd e = Sync (Set_owner 0) \<longrightarrow> OwnerId (locks (fst e) 0) = - 1) tr"
proof -
  obtain tr s' where r: "runs ex_kernel tr s'" "length tr = 18" using ex_runs by blast
  show ?thesis using lock_exclusion [OF r(1) ex_lock_free] r by (auto simp: list_all_iff)
qed

theorem time_invariant_witness:
  "\<exists>tr s'. runs ex_kernel tr s' \<and> pending s' = [] \<and> totalTicks (kstats s') = 10 \<and> time_inv s'"
proof -
  obtain tr s' where r: "runs ex_kernel tr s'" "totalTicks (kstats s') = 10" "pending s' = []" using ex_runs by blast
  show ?thesis using time_invariant [OF r(1) ex_time] r by blast
qed

end
