(* ===== verification/Kernel_Faults.thy ===== *)
theory Kernel_Faults
  imports Kernel_Safety
begin

text \<open>
  Behaviour of the scheduler in particular situations: the rotation of threads of equal priority, and
  three faults, a wake-up that is lost, a thread destroyed while it is on the ready list, and thread
  identifiers that run out.
\<close>

section \<open>Execution of known actions\<close>

lemma step_exec: "conts s (running s) = a # k \<Longrightarrow> exec a s = Inr (s', acts) \<Longrightarrow> step s = Inr (s'\<lparr>conts := (conts s')(running s := acts @ k)\<rparr>)"
  by (simp add: step_def)

lemma steps_add: "steps (i + j) s = bindE (steps i s) (steps j)"
proof (induction i arbitrary: s)
  case (Suc i)
  then have "(\<lambda>x. bindE (steps i x) (steps j)) = steps (i + j)" by auto
  then show ?case by (simp add: fault_simps)
qed simp

definition fenced :: "Thread \<Rightarrow> bool" where
  "fenced th \<longleftrightarrow> stack th = None \<or> stack th = Some STACK_FENCEPOST"

lemma fenced_status [simp]: "fenced (th\<lparr>thread_status := x\<rparr>) = fenced th"
  by (simp add: fenced_def)

lemma fencedD: "fenced th \<Longrightarrow> (case stack th of None \<Rightarrow> Inr () | Some w \<Rightarrow> ASSERT (w = STACK_FENCEPOST) (Inr ())) = Inr ()"
  by (auto simp: fenced_def)

lemmas step_simps = step_def exec_def exec_int_def exec_thr_def exec_syn_def Interrupt_SetLevel_def
  Semaphore_V_def Semaphore_V_inc_def Semaphore_P_loop_def set_sem_def Scheduler_ReadyToRun_def setStatus_def getPriority_def
  thread_at_def Thread_Yield_def Thread_Yield_next_def FindNextToRun_def Scheduler_Run_def Scheduler_Run_end_def CheckOverflow_def
  Thread_Sleep_def Thread_Sleep_loop_def fencedD

text \<open>
  C30. A wake-up can be lost. When \<^verbatim>\<open>V\<close> wakes a thread of higher priority than its own, the woken thread
  runs at once, before the value is incremented, finds it zero and sleeps again; the increment comes
  after that. The semaphore then has a positive value, and the thread that waits for it is neither
  running nor ready.
\<close>

theorem V_lost_wakeup:
  assumes "running s = c" "c \<noteq> w" "conts s c = Sync (V m) # k" "conts s w = Thrd Run_end # Sync (P_loop m) # k'"
    "sems s m = \<lparr>sem_value = 0, queue = [w]\<rparr>" "readyList s = []" "threadToBeDestroyed s = None"
    "thr s c = Some tc" "thr s w = Some tw" "fenced tc" "fenced tw" "priority tw < priority tc"
  shows "\<exists>n s'. steps n s = Inr s' \<and> sem_value (sems s' m) = 1 \<and> queue (sems s' m) = [w] \<and> running s' = c \<and> readyList s' = [] \<and>
    map_option thread_status (thr s' w) = Some BLOCKED \<and> conts s' c = Intr (SetLevel (level s)) # k"
proof -
  have "\<exists>s'. steps 14 s = Inr s' \<and> sem_value (sems s' m) = 1 \<and> queue (sems s' m) = [w] \<and> running s' = c \<and> readyList s' = [] \<and>
    map_option thread_status (thr s' w) = Some BLOCKED \<and> conts s' c = Intr (SetLevel (level s)) # k"
    using assms by (simp add: eval_nat_numeral step_simps Let_def)
  then show ?thesis by blast
qed

text \<open>
  A thread that finishes while another thread of higher priority waits for a device, with no other
  thread ready, makes the kernel use a thread that is freed: the interrupt that ends the wait comes while
  the finished thread idles, wakes the other one, and for its priority makes the finished thread yield,
  which puts it on the ready list; it is destroyed at once and then dispatched.
\<close>

theorem finish_while_idle_faults:
  assumes "running s = c" "c \<noteq> w" "conts s c = Thrd (Finish c) # k" "conts s w = Thrd Run_end # Sync (P_loop m) # k'"
    "sems s m = \<lparr>sem_value = 0, queue = [w]\<rparr>" "readyList s = []"
    "pending s = [(t, p)]" "code s (handler p) = [Sync (V m)]" "int_type p \<noteq> TimerInt"
    "thr s c = Some tc" "thr s w = Some tw" "fenced tc" "fenced tw" "priority tw < priority tc"
    "c \<in> snd ` set (PCBList s)" "0 \<le> tid tc" "tid tc < int (length (tid_map s))" "tid_map s ! nat (tid tc)"
  shows "\<exists>n. steps n s = Inl BadAccess"
proof -
  have "steps 22 s = Inl BadAccess"
    using assms by (simp add: eval_nat_numeral step_simps Thread_Finish_def Interrupt_Idle_def Interrupt_CheckIfDue_def
      delete_Thread_def delete_Thread_end_def list_remove_def tid_at_def Let_def)
  then show ?thesis ..
qed

text \<open>
  A thread that gets an identifier whose successor is in use leaves no identifier for the next thread:
  the search for a free one ends after its first round, so that creating another thread aborts, however
  many identifiers are free.
\<close>

theorem tids_run_out:
  assumes "MinAvailableTid s = i" "0 \<le> i" "i < 127" "length (tid_map s) = 128" "\<not> tid_map s ! nat i" "tid_map s ! nat (i + 1)"
  shows "\<exists>s' acts. new_Thread t prio s = Inr (s', acts) \<and> new_Thread t' prio' s' = Inl AssertFailed \<and>
    number (\<lambda>u. \<not> u) (tid_map s') + 1 = number (\<lambda>u. \<not> u) (tid_map s)"
proof -
  have n: "nat (i + 1) = Suc (nat i)" using assms(2) by simp
  have l: "nat i < length (tid_map s)" using assms(2-4) by simp
  have "number Not (take (nat i) (tid_map s) @ tid_map s ! nat i # drop (Suc (nat i)) (tid_map s)) =
    number Not (take (nat i) (tid_map s)) + 1 + number Not (drop (Suc (nat i)) (tid_map s))" using assms(5) by simp
  then have "number Not (tid_map s) = number Not (take (nat i) (tid_map s)) + 1 + number Not (drop (Suc (nat i)) (tid_map s))"
    unfolding id_take_nth_drop [OF l, symmetric] .
  moreover have "number Not ((tid_map s)[nat i := True]) = number Not (take (nat i) (tid_map s)) + number Not (drop (Suc (nat i)) (tid_map s))"
    using l by (simp add: upd_conv_take_nth_drop)
  ultimately have f: "number (\<lambda>u. \<not> u) ((tid_map s)[nat i := True]) + 1 = number (\<lambda>u. \<not> u) (tid_map s)" by simp
  show ?thesis using assms n f
    by (simp add: new_Thread_def Interrupt_SetLevel_def tid_at_def next_tid_def Let_def)
qed

section \<open>Threads of equal priority take turns\<close>

text \<open>
  The threads \<open>c # ts\<close> have the same priority; \<open>c\<close> runs, the others are ready in this order.
\<close>

definition turn_state :: "int \<Rightarrow> nat \<Rightarrow> nat list \<Rightarrow> KState \<Rightarrow> bool" where
  "turn_state p c ts s \<longleftrightarrow> running s = c \<and> readyList s = map (Pair p) ts \<and>
     (\<forall>t \<in> set (c # ts). \<exists>th. thr s t = Some th \<and> priority th = p \<and> fenced th)"

lemma sorted_insert_last: "\<forall>x \<in> set xs. fst x \<le> k \<Longrightarrow> sorted_insert k x xs = xs @ [(k, x)]"
  by (induction xs) auto

lemma Yield_rotates:
  assumes "turn_state p c ts s" "conts s c = Thrd (Yield c) # k"
  shows "\<exists>s'. steps 4 s = Inr s' \<and> turn_state p (hd (ts @ [c])) (tl (ts @ [c])) s' \<and>
    conts s' = (conts s)(c := Thrd Run_end # Intr (SetLevel (level s)) # k)"
proof -
  obtain tc where c: "thr s c = Some tc" "priority tc = p" "fenced tc" using assms(1) by (auto simp: turn_state_def)
  have s: "running s = c" "readyList s = map (Pair p) ts" using assms(1) by (simp_all add: turn_state_def)
  have ins: "sorted_insert p c (map (Pair p) ts) = map (Pair p) (ts @ [c])" by (subst sorted_insert_last) auto
  obtain t ts' where tt: "ts @ [c] = t # ts'" by (cases ts) auto
  then have "t \<in> set (c # ts)" by (cases ts) auto
  then obtain th where t: "thr s t = Some th" "priority th = p" "fenced th" using assms(1) by (auto simp: turn_state_def)
  let ?thr = "(thr s)(c \<mapsto> tc\<lparr>thread_status := READY\<rparr>)"
  let ?thr' = "?thr(t \<mapsto> (the (?thr t))\<lparr>thread_status := RUNNING\<rparr>)"
  have r: "steps 4 s = Inr (s\<lparr>level := IntOff, running := t, readyList := map (Pair p) ts', thr := ?thr',
     conts := (conts s)(c := Thrd Run_end # Intr (SetLevel (level s)) # k)\<rparr>)"
    using c s assms(2) ins tt t by (cases "t = c") (simp_all add: eval_nat_numeral step_simps Let_def)
  have "\<exists>th. ?thr' u = Some th \<and> priority th = p \<and> fenced th" if "u \<in> set (c # ts)" for u
    using that assms(1) c t by (auto simp: turn_state_def)
  moreover have "set (t # ts') = set (c # ts)" unfolding tt [symmetric] by auto
  ultimately show ?thesis unfolding r tt by (simp add: turn_state_def)
qed

text \<open>Work of the running thread that leaves the ready list and the priorities as they are.\<close>

definition work :: "KState \<Rightarrow> KState \<Rightarrow> bool" where
  "work s s' \<longleftrightarrow> (\<exists>n. steps n s = Inr s') \<and> running s' = running s \<and> readyList s' = readyList s \<and>
     (\<forall>t. map_option (\<lambda>th. (priority th, stack th)) (thr s' t) = map_option (\<lambda>th. (priority th, stack th)) (thr s t))"

text \<open>A turn: the running thread works and then yields.\<close>

inductive turns :: "nat \<Rightarrow> KState \<Rightarrow> KState \<Rightarrow> bool" where
  turns_0: "turns 0 s s"
| turns_Suc: "turns n s s1 \<Longrightarrow> work s1 s2 \<Longrightarrow> conts s2 (running s2) = Thrd (Yield (running s2)) # k \<Longrightarrow> steps 4 s2 = Inr s3 \<Longrightarrow>
    turns (Suc n) s s3"

lemma work_turn_state:
  assumes "work s s'" "turn_state p c ts s"
  shows "turn_state p c ts s'"
proof -
  have "\<exists>th. thr s' t = Some th \<and> priority th = p \<and> fenced th" if t: "t \<in> set (c # ts)" for t
  proof -
    obtain th where "thr s t = Some th" "priority th = p" "fenced th" using assms(2) t by (auto simp: turn_state_def)
    moreover have "map_option (\<lambda>th. (priority th, stack th)) (thr s' t) = map_option (\<lambda>th. (priority th, stack th)) (thr s t)"
      using assms(1) by (simp add: work_def)
    ultimately show ?thesis by (cases "thr s' t") (auto simp: fenced_def)
  qed
  then show ?thesis using assms by (simp add: work_def turn_state_def)
qed

lemma turns_rotate:
  "turns n s s' \<Longrightarrow> xs \<noteq> [] \<Longrightarrow> turn_state p (hd xs) (tl xs) s \<Longrightarrow> turn_state p (hd (rotate n xs)) (tl (rotate n xs)) s'"
proof (induction rule: turns.induct)
  case (turns_0 s)
  then show ?case by simp
next
  case (turns_Suc n s s1 s2 k s3)
  let ?ys = "rotate n xs"
  obtain c ts where ys: "?ys = c # ts" using turns_Suc.prems(1) by (cases ?ys) auto
  have t: "turn_state p c ts s2" using work_turn_state [OF turns_Suc.hyps(2)] turns_Suc ys by simp
  then have "conts s2 c = Thrd (Yield c) # k" using turns_Suc.hyps(3) by (simp add: turn_state_def)
  from Yield_rotates [OF t this] turns_Suc.hyps(4) show ?case by (simp add: ys)
qed

text \<open>
  C29. No starvation among threads of equal priority: when the threads \<open>ts\<close> are ready, in this order, with
  the priority of the running thread \<open>c\<close>, and every thread that gets the processor works and then yields,
  the processor goes round them: after \<open>n\<close> turns it is with the thread at position \<open>n\<close> modulo their number.
\<close>

theorem equal_priority_turns:
  assumes "turn_state p c ts s" "turns n s s'"
  shows "running s' = (c # ts) ! (n mod length (c # ts))"
proof -
  have "turn_state p (hd (rotate n (c # ts))) (tl (rotate n (c # ts))) s'"
    using turns_rotate [OF assms(2), of "c # ts" p] assms(1) by simp
  then show ?thesis by (simp add: turn_state_def hd_rotate_conv_nth)
qed

section \<open>Concrete kernels\<close>

text \<open>Thread 1 waits for the semaphore 1, and thread 0 is going to do \<open>a\<close>.\<close>

definition ex_waiting :: "act \<Rightarrow> KState" where
  "ex_waiting a = ex_kernel\<lparr>conts := (\<lambda>_. [])(0 := [a], 1 := [Thrd Run_end, Sync (P_loop 1)]), sems := (sems ex_kernel)(1 := \<lparr>sem_value = 0, queue = [1]\<rparr>)\<rparr>"

theorem V_lost_wakeup_witness:
  "\<exists>n s'. steps n (ex_waiting (Sync (V 1))) = Inr s' \<and> sem_value (sems s' 1) = 1 \<and> queue (sems s' 1) = [1] \<and> readyList s' = []"
proof -
  let ?s = "ex_waiting (Sync (V 1))"
  have "running ?s = 0" "(0 :: nat) \<noteq> 1" "conts ?s 0 = Sync (V 1) # []" "conts ?s 1 = Thrd Run_end # Sync (P_loop 1) # []"
    "sems ?s 1 = \<lparr>sem_value = 0, queue = [1]\<rparr>" "readyList ?s = []" "threadToBeDestroyed ?s = None"
    "thr ?s 0 = Some (ex_thread 0 9)" "thr ?s 1 = Some (ex_thread 1 5)" "fenced (ex_thread 0 9)" "fenced (ex_thread 1 5)"
    "priority (ex_thread 1 5) < priority (ex_thread 0 9)"
    by (simp_all add: ex_waiting_def ex_kernel_def ex_thread_def fenced_def)
  from V_lost_wakeup [OF this] show ?thesis by blast
qed

theorem finish_while_idle_faults_witness: "\<exists>n. steps n (ex_waiting (Thrd (Finish 0))) = Inl BadAccess"
proof -
  let ?s = "ex_waiting (Thrd (Finish 0))" and ?p = "\<lparr>handler = 0, pi_when = 5, int_type = DiskInt\<rparr>"
  have "running ?s = 0" "(0 :: nat) \<noteq> 1" "conts ?s 0 = Thrd (Finish 0) # []" "conts ?s 1 = Thrd Run_end # Sync (P_loop 1) # []"
    "sems ?s 1 = \<lparr>sem_value = 0, queue = [1]\<rparr>" "readyList ?s = []" "pending ?s = [(5, ?p)]" "code ?s (handler ?p) = [Sync (V 1)]"
    "int_type ?p \<noteq> TimerInt" "thr ?s 0 = Some (ex_thread 0 9)" "thr ?s 1 = Some (ex_thread 1 5)" "fenced (ex_thread 0 9)" "fenced (ex_thread 1 5)"
    "priority (ex_thread 1 5) < priority (ex_thread 0 9)" "0 \<in> snd ` set (PCBList ?s)" "0 \<le> tid (ex_thread 0 9)"
    "tid (ex_thread 0 9) < int (length (tid_map ?s))" "tid_map ?s ! nat (tid (ex_thread 0 9))"
    by (simp_all add: ex_waiting_def ex_kernel_def ex_thread_def fenced_def)
  from finish_while_idle_faults [OF this] show ?thesis .
qed

theorem tids_run_out_witness:
  "\<exists>s' acts. new_Thread 7 127 (ex_kernel\<lparr>tid_map := [True, False, True] @ replicate 125 False, MinAvailableTid := 1\<rparr>) = Inr (s', acts) \<and>
     new_Thread 8 127 s' = Inl AssertFailed \<and> number (\<lambda>u. \<not> u) (tid_map s') = 125"
proof -
  let ?s = "ex_kernel\<lparr>tid_map := [True, False, True] @ replicate 125 False, MinAvailableTid := 1\<rparr>"
  have "number (\<lambda>u. \<not> u) (replicate n False) = n" for n by (induction n) simp_all
  then have n: "number (\<lambda>u. \<not> u) (tid_map ?s) = 126" by simp
  have "MinAvailableTid ?s = 1" "(0 :: int) \<le> 1" "(1 :: int) < 127" "length (tid_map ?s) = 128" "\<not> tid_map ?s ! nat 1" "tid_map ?s ! nat (1 + 1)"
    by simp_all
  from tids_run_out [OF this, of 7 127 8 127] n show ?thesis by auto
qed

text \<open>Two threads of priority 9, the first running.\<close>

definition ex_turns :: KState where
  "ex_turns = ex_kernel\<lparr>readyList := [(9, 1)], thr := [0 \<mapsto> ex_thread 0 9, 1 \<mapsto> ex_thread 1 9],
     conts := (\<lambda>_. [])(0 := [Thrd (Yield 0)], 1 := [Thrd Run_end, Thrd (Yield 1)])\<rparr>"

theorem equal_priority_turns_witness: "\<exists>s'. turns 2 ex_turns s' \<and> running s' = 0"
proof -
  have t: "turn_state 9 0 [1] ex_turns" by (simp add: turn_state_def ex_turns_def ex_kernel_def ex_thread_def fenced_def)
  have "work ex_turns ex_turns" by (auto simp: work_def intro: exI [of _ 0])
  moreover have y: "conts ex_turns 0 = Thrd (Yield 0) # []" "running ex_turns = 0" by (simp_all add: ex_turns_def ex_kernel_def)
  moreover obtain s1 where s1: "steps 4 ex_turns = Inr s1" "running s1 = 1" "threadToBeDestroyed s1 = None" "conts s1 1 = [Thrd Run_end, Thrd (Yield 1)]"
    by (simp add: eval_nat_numeral step_simps Let_def ex_turns_def ex_kernel_def ex_thread_def)
  ultimately have 1: "turns (Suc 0) ex_turns s1" using turns_Suc [OF turns_0] by metis
  let ?s2 = "s1\<lparr>conts := (conts s1)(1 := [Thrd (Yield 1)])\<rparr>"
  have "steps 1 s1 = Inr ?s2" using s1 by (simp add: step_simps)
  then have w: "work s1 ?s2" by (auto simp: work_def simp del: One_nat_def)
  have y2: "conts ?s2 (running ?s2) = Thrd (Yield (running ?s2)) # []" using s1 by simp
  have "turn_state 9 1 [0] s1" using turns_rotate [OF 1, of "[0, 1]" 9] t by simp
  then have "turn_state 9 1 [0] ?s2" by (rule work_turn_state [OF w])
  moreover have "conts ?s2 1 = Thrd (Yield 1) # []" by simp
  ultimately obtain s3 where "steps 4 ?s2 = Inr s3" using Yield_rotates by blast
  then have "turns (Suc (Suc 0)) ex_turns s3" by (rule turns_Suc [OF 1 w y2])
  then have "turns 2 ex_turns s3" by (simp add: numeral_2_eq_2)
  with equal_priority_turns [OF t this] show ?thesis by (intro exI [of _ s3]) (simp add: numeral_2_eq_2)
qed

end
