(* ===== verification/Kernel_Boot.thy ===== *)
theory Kernel_Boot
  imports Kernel_Safety
begin

text \<open>
  Start of the kernel: \<^verbatim>\<open>Initialize\<close> of \<^verbatim>\<open>code/threads/system.cc\<close> in the build with threads only. The
  state it leaves satisfies what \<open>Kernel_Safety\<close> asks of the first state of a run.
\<close>

text \<open>The loop over the arguments after the program name gives whether \<^verbatim>\<open>-rs\<close> asks for random yields.\<close>

function parse_args :: "string list \<Rightarrow> bool \<Rightarrow> bool result" where
  "parse_args [] randomYield = Inr randomYield"
| "parse_args (a # rest) randomYield =
     (if a = ''-d'' then parse_args (drop (if rest = [] then 0 else 1) rest) randomYield
      else if a = ''-rs'' then ASSERT (rest \<noteq> []) (parse_args (drop 1 rest) True)
      else parse_args rest randomYield)"
  by pat_completeness auto

termination parse_args
  by (relation "measure (length o fst)") auto

text \<open>
  The objects before the first thread. \<open>k0\<close> gives what the code does not set: the synchronisation
  objects, the program text and the random numbers.
\<close>

definition new_Interrupt :: "KState \<Rightarrow> KState" where
  "new_Interrupt k = k\<lparr>level := IntOff, pending := [], inHandler := False, yieldOnReturn := False, mstatus := SystemMode\<rparr>"

definition new_Scheduler :: "KState \<Rightarrow> KState" where
  "new_Scheduler k = k\<lparr>readyList := []\<rparr>"

definition new_globals :: "KState \<Rightarrow> KState" where
  "new_globals k = k\<lparr>tid_map := replicate 128 False, MinAvailableTid := 0, PCBList := [], kstats := new_Statistics, thr := Map.empty\<rparr>"

text \<open>
  The main thread is created with interrupts off, so that its constructor runs to its end; \<open>main\<close> is its
  address, \<open>k\<close> what it does after \<^verbatim>\<open>Initialize\<close>, \<open>h\<close> the address of \<^verbatim>\<open>TimerInterruptHandler\<close>, \<open>h'\<close>
  the one of \<^verbatim>\<open>TimerHandler\<close>.
\<close>

definition Initialize :: "string list \<Rightarrow> nat \<Rightarrow> nat \<Rightarrow> nat \<Rightarrow> act list \<Rightarrow> KState \<Rightarrow> KState result" where
  "Initialize args h h' main k k0 =
     bindE (parse_args args False) (\<lambda>randomYield.
     let s = new_Scheduler (new_Interrupt (new_globals k0)) in
     bindE (if randomYield then new_Timer h randomYield h' s else Inr s) (\<lambda>s.
     let s = s\<lparr>threadToBeDestroyed := None\<rparr> in
     bindE (new_Thread main 0 s) (\<lambda>(s, _).
     bindE (new_Thread_end main 0 s) (\<lambda>(s, _).
     bindE (setStatus main RUNNING (s\<lparr>running := main\<rparr>)) (\<lambda>s.
     bindE (Interrupt_SetLevel IntOn s) (\<lambda>(s, _, acts).
     Inr (s\<lparr>conts := (conts s)(main := acts @ k)\<rparr>)))))))"

text \<open>The state after the start: the main thread runs alone, with identifier 0, priority 0 and one tick to do.\<close>

lemma Initialize_state:
  assumes "parse_args args False = Inr r" "\<And>i. 0 \<le> random k0 i"
  shows "\<exists>s. Initialize args h h' main k k0 = Inr s \<and> time_inv s \<and> tids_ok s \<and> running s = main \<and> readyList s = [] \<and>
    thr s = [main \<mapsto> \<lparr>tid = 0, uid = 0, priority = 0, thread_status = RUNNING, stack = None\<rparr>] \<and> MinAvailableTid s = 1 \<and>
    conts s main = Intr OneTick # k"
proof -
  have "0 < 1 + random k0 i mod 160" "c_mod (random k0 i) 160 = random k0 i mod 160" for i
    using assms(2) [of i] pos_mod_sign [of 160 "random k0 i"] by (simp_all add: add_pos_nonneg del: pos_mod_sign)
  then show ?thesis using assms(1)
    by (cases r) (simp_all add: Initialize_def new_globals_def new_Interrupt_def new_Scheduler_def new_Timer_def TimeOfNextInterrupt_def
      Interrupt_Schedule_def new_Thread_def new_Thread_end_def Interrupt_SetLevel_def tid_at_def next_tid_def setStatus_def thread_at_def
      time_inv_def tids_ok_def new_Statistics_def Let_def)
qed

end
