(* ===== verification/Elevator.thy ===== *)
theory Elevator
  imports Linked_List
begin

text \<open>
  The bank of elevators of \<^verbatim>\<open>machine/elevator.cc\<close>. The state of the bank comes with the two parts of the
  kernel it uses: the clock \<^verbatim>\<open>stats->totalTicks\<close> and the times at which the interrupt list will call
  \<^verbatim>\<open>HandleInterrupt\<close>. The lists of riders and of events are lists of what they hold; \<open>rider_Remove_refines\<close>
  ties the one routine that can fail to the pointer level of \<open>Linked_List\<close>.

  Shown: what holds of every elevator whatever the riders and controllers do, and that an elevator in motion
  reaches its floor once the machine is left alone.
\<close>

section \<open>Data\<close>

datatype Direction = Down | Up | Neither

datatype ElevatorEvent = NoEvent | DoorsOpened | UpButtonPressed | DownButtonPressed | FloorButtonPressed | ElevatorArrived

abbreviation (input) MaxRiders :: nat where "MaxRiders \<equiv> 4"
abbreviation (input) DelayPerFloor :: int where "DelayPerFloor \<equiv> 100"

record PendingElevatorEvent =
  pe_event :: ElevatorEvent
  pe_floor :: int
  pe_elevator :: int

record ElevatorInfo =
  display :: Direction
  doorsOpen :: bool
  inMotion :: bool
  lastFloor :: int
  willArrive :: int
  goingTo :: int
  riders :: "nat list"

text \<open>The number of elevators is the length of the array. A handler is a function pointer with its argument.\<close>

type_synonym callback = "nat \<times> int"

record ElevatorBank =
  numFloors :: int
  handlerRiders :: callback
  handlerControllers :: callback
  riderEvents :: "PendingElevatorEvent list"
  controllerEvents :: "PendingElevatorEvent list"
  elevators :: "ElevatorInfo list"
  eb_ticks :: int
  eb_pending :: "int list"

abbreviation numElevators :: "ElevatorBank \<Rightarrow> int" where
  "numElevators b \<equiv> int (length (elevators b))"

section \<open>One elevator\<close>

definition new_ElevatorInfo :: ElevatorInfo where
  "new_ElevatorInfo = \<lparr>display = Neither, doorsOpen = False, inMotion = False, lastFloor = 0, willArrive = 0, goingTo = 0, riders = []\<rparr>"

definition ElevatorInfo_OpenDoors :: "ElevatorInfo \<Rightarrow> (ElevatorInfo \<times> int) result" where
  "ElevatorInfo_OpenDoors e = ASSERT (\<not> doorsOpen e \<and> \<not> inMotion e) (Inr (e\<lparr>doorsOpen := True\<rparr>, lastFloor e))"

definition ElevatorInfo_CloseDoors :: "ElevatorInfo \<Rightarrow> ElevatorInfo result" where
  "ElevatorInfo_CloseDoors e = ASSERT (doorsOpen e) (Inr (e\<lparr>doorsOpen := False\<rparr>))"

definition ElevatorInfo_MoveTo :: "int \<Rightarrow> int \<Rightarrow> ElevatorInfo \<Rightarrow> (ElevatorInfo \<times> bool) result" where
  "ElevatorInfo_MoveTo now goingToFloor e =
     ASSERT (\<not> doorsOpen e \<and> (inMotion e \<or> lastFloor e \<noteq> goingToFloor))
       (let e = e\<lparr>goingTo := goingToFloor\<rparr> in
        if \<not> inMotion e then Inr (e\<lparr>willArrive := now + DelayPerFloor, inMotion := True\<rparr>, True) else Inr (e, False))"

definition Enter :: "nat \<Rightarrow> int \<Rightarrow> ElevatorInfo \<Rightarrow> (ElevatorInfo \<times> bool) result" where
  "Enter thread onFloor e =
     (if \<not> doorsOpen e \<or> lastFloor e \<noteq> onFloor then Inr (e, False)
      else ASSERT (\<not> inMotion e) (ASSERT (length (riders e) < MaxRiders) (Inr (e\<lparr>riders := riders e @ [thread]\<rparr>, True))))"

text \<open>\<^verbatim>\<open>List::Remove(item)\<close>, on the items of the list.\<close>

definition rider_Remove :: "'a \<Rightarrow> 'a list \<Rightarrow> 'a list result" where
  "rider_Remove it xs = (if it \<in> set xs then Inr (remove1 it xs) else Inl (if xs = [] then BadAccess else AssertFailed))"

definition Exit :: "nat \<Rightarrow> int \<Rightarrow> ElevatorInfo \<Rightarrow> (ElevatorInfo \<times> bool) result" where
  "Exit thread onFloor e =
     (if \<not> doorsOpen e \<or> lastFloor e \<noteq> onFloor then Inr (e, False)
      else ASSERT (\<not> inMotion e) (bindE (rider_Remove thread (riders e)) (\<lambda>rs. Inr (e\<lparr>riders := rs\<rparr>, True))))"

definition ReachedNextFloor :: "int \<Rightarrow> ElevatorInfo \<Rightarrow> ElevatorInfo \<times> bool" where
  "ReachedNextFloor now e =
     (if inMotion e \<and> now \<ge> willArrive e
      then (e\<lparr>lastFloor := lastFloor e + (if goingTo e > lastFloor e then 1 else - 1)\<rparr>, True) else (e, False))"

definition CheckArrived :: "ElevatorInfo \<Rightarrow> ElevatorInfo \<times> bool" where
  "CheckArrived e = (if inMotion e \<and> lastFloor e = goingTo e then (e\<lparr>inMotion := False\<rparr>, True) else (e, False))"

section \<open>The bank\<close>

definition new_ElevatorBank :: "int \<Rightarrow> int \<Rightarrow> callback \<Rightarrow> callback \<Rightarrow> int \<Rightarrow> ElevatorBank" where
  "new_ElevatorBank numElvtr numFlr riders_cb controllers_cb now =
     \<lparr>numFloors = numFlr, handlerRiders = riders_cb, handlerControllers = controllers_cb, riderEvents = [], controllerEvents = [],
      elevators = replicate (nat numElvtr) new_ElevatorInfo, eb_ticks = now, eb_pending = []\<rparr>"

text \<open>\<^verbatim>\<open>interrupt->Schedule(ElevatorDone, (int)this, fromNow, ElevatorInt)\<close>.\<close>

definition ElevatorDone_in :: "int \<Rightarrow> ElevatorBank \<Rightarrow> ElevatorBank" where
  "ElevatorDone_in fromNow b = b\<lparr>eb_pending := insort (eb_ticks b + fromNow) (eb_pending b)\<rparr>"

datatype event_list = RiderList | ControllerList

definition PostEvent :: "event_list \<Rightarrow> ElevatorEvent \<Rightarrow> int \<Rightarrow> int \<Rightarrow> bool \<Rightarrow> ElevatorBank \<Rightarrow> ElevatorBank" where
  "PostEvent l ev fl el inHandler b =
     (let event = \<lparr>pe_event = ev, pe_floor = fl, pe_elevator = el\<rparr>;
          b = (case l of RiderList \<Rightarrow> b\<lparr>riderEvents := riderEvents b @ [event]\<rparr>
                       | ControllerList \<Rightarrow> b\<lparr>controllerEvents := controllerEvents b @ [event]\<rparr>) in
      if \<not> inHandler then ElevatorDone_in 1 b else b)"

definition put_elevator :: "nat \<Rightarrow> ElevatorInfo \<Rightarrow> ElevatorBank \<Rightarrow> ElevatorBank" where
  "put_elevator i e b = b\<lparr>elevators := (elevators b)[i := e]\<rparr>"

abbreviation elevator_at :: "ElevatorBank \<Rightarrow> int \<Rightarrow> ElevatorInfo" where
  "elevator_at b elevator \<equiv> elevators b ! nat elevator"

abbreviation is_elevator :: "ElevatorBank \<Rightarrow> int \<Rightarrow> bool" where
  "is_elevator b elevator \<equiv> elevator \<ge> 0 \<and> elevator < numElevators b"

definition ElevatorBank_OpenDoors :: "int \<Rightarrow> ElevatorBank \<Rightarrow> ElevatorBank result" where
  "ElevatorBank_OpenDoors elevator b =
     ASSERT (is_elevator b elevator)
       (bindE (ElevatorInfo_OpenDoors (elevator_at b elevator)) (\<lambda>(e, fl).
        Inr (PostEvent RiderList DoorsOpened fl elevator False (put_elevator (nat elevator) e b))))"

definition ElevatorBank_CloseDoors :: "int \<Rightarrow> ElevatorBank \<Rightarrow> ElevatorBank result" where
  "ElevatorBank_CloseDoors elevator b =
     ASSERT (is_elevator b elevator)
       (bindE (ElevatorInfo_CloseDoors (elevator_at b elevator)) (\<lambda>e. Inr (put_elevator (nat elevator) e b)))"

definition ElevatorBank_MoveTo :: "int \<Rightarrow> int \<Rightarrow> ElevatorBank \<Rightarrow> ElevatorBank result" where
  "ElevatorBank_MoveTo goingToFloor elevator b =
     ASSERT (is_elevator b elevator) (ASSERT (goingToFloor \<ge> 0 \<and> goingToFloor < numFloors b)
       (bindE (ElevatorInfo_MoveTo (eb_ticks b) goingToFloor (elevator_at b elevator)) (\<lambda>(e, started).
        let b = put_elevator (nat elevator) e b in
        Inr (if started then ElevatorDone_in DelayPerFloor b else b))))"

definition WhereIsElevator :: "int \<Rightarrow> ElevatorBank \<Rightarrow> int result" where
  "WhereIsElevator elevator b = ASSERT (is_elevator b elevator) (Inr (lastFloor (elevator_at b elevator)))"

definition MarkDirection :: "int \<Rightarrow> Direction \<Rightarrow> ElevatorBank \<Rightarrow> ElevatorBank result" where
  "MarkDirection elevator dir b =
     ASSERT (is_elevator b elevator) (Inr (put_elevator (nat elevator) ((elevator_at b elevator)\<lparr>display := dir\<rparr>) b))"

definition PressButton :: "int \<Rightarrow> Direction \<Rightarrow> ElevatorBank \<Rightarrow> ElevatorBank result" where
  "PressButton onFloor going b =
     ASSERT (0 \<le> onFloor \<and> onFloor < numFloors b \<and> going \<noteq> Neither)
       (Inr (PostEvent ControllerList (if going = Up then UpButtonPressed else DownButtonPressed) onFloor 0 False b))"

definition getDirection :: "int \<Rightarrow> ElevatorBank \<Rightarrow> Direction result" where
  "getDirection elevator b = ASSERT (is_elevator b elevator) (Inr (display (elevator_at b elevator)))"

definition EnterElevator :: "nat \<Rightarrow> int \<Rightarrow> int \<Rightarrow> ElevatorBank \<Rightarrow> (ElevatorBank \<times> bool) result" where
  "EnterElevator thread onFloor elevator b =
     ASSERT (onFloor \<ge> 0 \<and> onFloor < numFloors b) (ASSERT (is_elevator b elevator)
       (bindE (Enter thread onFloor (elevator_at b elevator)) (\<lambda>(e, r). Inr (put_elevator (nat elevator) e b, r))))"

definition PressFloor :: "int \<Rightarrow> int \<Rightarrow> ElevatorBank \<Rightarrow> ElevatorBank result" where
  "PressFloor goingToFloor elevator b =
     ASSERT (goingToFloor \<ge> 0 \<and> goingToFloor < numFloors b) (ASSERT (is_elevator b elevator)
       (Inr (PostEvent ControllerList FloorButtonPressed goingToFloor elevator False b)))"

definition ExitElevator :: "nat \<Rightarrow> int \<Rightarrow> int \<Rightarrow> ElevatorBank \<Rightarrow> (ElevatorBank \<times> bool) result" where
  "ExitElevator thread onFloor elevator b =
     ASSERT (onFloor \<ge> 0 \<and> onFloor < numFloors b) (ASSERT (is_elevator b elevator)
       (bindE (Exit thread onFloor (elevator_at b elevator)) (\<lambda>(e, r). Inr (put_elevator (nat elevator) e b, r))))"

text \<open>One round of the loop of \<^verbatim>\<open>HandleInterrupt\<close>, with \<^verbatim>\<open>intSched\<close>; then the routine, with the callbacks it makes.\<close>

definition handle_elevator :: "nat \<Rightarrow> ElevatorBank \<times> bool \<Rightarrow> ElevatorBank \<times> bool" where
  "handle_elevator i = (\<lambda>(b, intSched).
     case ReachedNextFloor (eb_ticks b) (elevators b ! i) of (e, reached) \<Rightarrow>
     if reached then
       (case CheckArrived e of (e, arrived) \<Rightarrow>
          if arrived then (PostEvent ControllerList ElevatorArrived (goingTo e) (int i) True (put_elevator i e b), intSched)
          else if \<not> intSched then (ElevatorDone_in DelayPerFloor (put_elevator i (e\<lparr>willArrive := willArrive e + DelayPerFloor\<rparr>) b), True)
          else (put_elevator i e b, intSched))
     else (b, intSched))"

definition ElevatorBank_HandleInterrupt :: "ElevatorBank \<Rightarrow> ElevatorBank \<times> callback list" where
  "ElevatorBank_HandleInterrupt b =
     (let b = fst (fold handle_elevator [0..<length (elevators b)] (b, False)) in
      (b, (if riderEvents b \<noteq> [] then [handlerRiders b] else []) @ (if controllerEvents b \<noteq> [] then [handlerControllers b] else [])))"

text \<open>\<^verbatim>\<open>getNextEvent\<close> writes floor and elevator through its pointers only when there is an event.\<close>

definition getNextEvent :: "event_list \<Rightarrow> ElevatorBank \<Rightarrow> ElevatorBank \<times> ElevatorEvent \<times> (int \<times> int) option" where
  "getNextEvent l b =
     (case (case l of RiderList \<Rightarrow> riderEvents b | ControllerList \<Rightarrow> controllerEvents b) of
        [] \<Rightarrow> (b, NoEvent, None)
      | event # rest \<Rightarrow>
          (case l of RiderList \<Rightarrow> b\<lparr>riderEvents := rest\<rparr> | ControllerList \<Rightarrow> b\<lparr>controllerEvents := rest\<rparr>,
           pe_event event, Some (pe_floor event, pe_elevator event)))"

section \<open>What can happen\<close>

text \<open>The calls of riders and controllers.\<close>

datatype elevator_call =
    CallOpenDoors int
  | CallCloseDoors int
  | CallMoveTo int int
  | CallMarkDirection int Direction
  | CallPressButton int Direction
  | CallEnter nat int int
  | CallPressFloor int int
  | CallExit nat int int
  | CallNextEvent event_list

fun elevator_do :: "elevator_call \<Rightarrow> ElevatorBank \<Rightarrow> ElevatorBank result" where
  "elevator_do (CallOpenDoors el) b = ElevatorBank_OpenDoors el b"
| "elevator_do (CallCloseDoors el) b = ElevatorBank_CloseDoors el b"
| "elevator_do (CallMoveTo fl el) b = ElevatorBank_MoveTo fl el b"
| "elevator_do (CallMarkDirection el d) b = MarkDirection el d b"
| "elevator_do (CallPressButton fl d) b = PressButton fl d b"
| "elevator_do (CallEnter t fl el) b = bindE (EnterElevator t fl el b) (\<lambda>(b, _). Inr b)"
| "elevator_do (CallPressFloor fl el) b = PressFloor fl el b"
| "elevator_do (CallExit t fl el) b = bindE (ExitElevator t fl el b) (\<lambda>(b, _). Inr b)"
| "elevator_do (CallNextEvent l) b = Inr (fst (getNextEvent l b))"

text \<open>An interrupt is taken off the list before its handler runs. Time may pass a pending interrupt, since
  the list is looked at only between instructions.\<close>

definition take_interrupt :: "ElevatorBank \<Rightarrow> ElevatorBank" where
  "take_interrupt b = fst (ElevatorBank_HandleInterrupt (b\<lparr>eb_pending := tl (eb_pending b)\<rparr>))"

inductive elevator_reach :: "int \<Rightarrow> int \<Rightarrow> ElevatorBank \<Rightarrow> bool" for n f where
  start: "elevator_reach n f (new_ElevatorBank n f rs cs now)"
| call: "elevator_reach n f b \<Longrightarrow> elevator_do c b = Inr b' \<Longrightarrow> elevator_reach n f b'"
| pass: "elevator_reach n f b \<Longrightarrow> k > 0 \<Longrightarrow> elevator_reach n f (b\<lparr>eb_ticks := eb_ticks b + k\<rparr>)"
| fire: "elevator_reach n f b \<Longrightarrow> eb_pending b \<noteq> [] \<Longrightarrow> hd (eb_pending b) \<le> eb_ticks b \<Longrightarrow> elevator_reach n f (take_interrupt b)"

text \<open>With nothing else to run the clock jumps to the next interrupt.\<close>

definition idle_interrupt :: "ElevatorBank \<Rightarrow> ElevatorBank" where
  "idle_interrupt b = (if eb_pending b = [] then b else take_interrupt (b\<lparr>eb_ticks := max (eb_ticks b) (hd (eb_pending b))\<rparr>))"

section \<open>The list of riders\<close>

lemma remove_item_items: "it \<in> snd ` set xs \<Longrightarrow> map snd (remove_item it xs) = remove1 it (map snd xs)"
  by (induction it xs rule: remove_item.induct) auto

lemma rider_Remove_refines:
  assumes "rep_at st l as xs"
  shows "case rider_Remove it (map snd xs) of
      Inr ys \<Rightarrow> \<exists>st' l' as' xs'. RemoveItem st l it = Inr (st', l') \<and> rep_at st' l' as' xs' \<and> map snd xs' = ys
    | Inl f \<Rightarrow> RemoveItem st l it = Inl f"
proof (cases "it \<in> snd ` set xs")
  case True
  then show ?thesis using RemoveItem_refines [OF assms True] remove_item_items [OF True] by (auto simp: rider_Remove_def)
next
  case False
  then show ?thesis using RemoveItem_missing [OF assms False] by (auto simp: rider_Remove_def)
qed

section \<open>The interrupt handler\<close>

definition reached :: "int \<Rightarrow> ElevatorInfo \<Rightarrow> bool" where
  "reached now e \<longleftrightarrow> inMotion e \<and> willArrive e \<le> now"

definition next_floor :: "ElevatorInfo \<Rightarrow> int" where
  "next_floor e = lastFloor e + (if goingTo e > lastFloor e then 1 else - 1)"

text \<open>An elevator before and after the handler.\<close>

definition handled :: "int \<Rightarrow> ElevatorInfo \<Rightarrow> ElevatorInfo \<Rightarrow> bool" where
  "handled now e e' \<longleftrightarrow>
     (if reached now e
      then \<exists>t \<le> now + DelayPerFloor. e' = e\<lparr>lastFloor := next_floor e, inMotion := next_floor e \<noteq> goingTo e, willArrive := t\<rparr>
      else e' = e)"

definition arrived_event :: "ElevatorInfo \<Rightarrow> nat \<Rightarrow> PendingElevatorEvent" where
  "arrived_event e i = \<lparr>pe_event = ElevatorArrived, pe_floor = goingTo e, pe_elevator = int i\<rparr>"

text \<open>The bank after the first \<open>k\<close> rounds of the loop.\<close>

definition handled_upto :: "nat \<Rightarrow> ElevatorBank \<Rightarrow> ElevatorBank \<times> bool \<Rightarrow> bool" where
  "handled_upto k b = (\<lambda>(b', fl).
     length (elevators b') = length (elevators b) \<and> eb_ticks b' = eb_ticks b \<and> numFloors b' = numFloors b \<and>
     eb_pending b' = (if fl then insort (eb_ticks b + DelayPerFloor) (eb_pending b) else eb_pending b) \<and>
     (fl \<longleftrightarrow> (\<exists>i < k. reached (eb_ticks b) (elevators b ! i) \<and> inMotion (elevators b' ! i))) \<and>
     (\<forall>i < k. handled (eb_ticks b) (elevators b ! i) (elevators b' ! i)) \<and>
     (\<forall>i \<ge> k. elevators b' ! i = elevators b ! i) \<and>
     (\<forall>i < k. reached (eb_ticks b) (elevators b ! i) \<and> \<not> inMotion (elevators b' ! i) \<longrightarrow>
        arrived_event (elevators b ! i) i \<in> set (controllerEvents b')) \<and>
     set (controllerEvents b) \<subseteq> set (controllerEvents b'))"

lemma handled_upto_Suc:
  assumes h: "handled_upto k b (b', fl)" and k: "k < length (elevators b)"
    and e: "elevators b'' = (elevators b')[k := e']" "handled (eb_ticks b) (elevators b ! k) e'"
    and r: "eb_ticks b'' = eb_ticks b" "numFloors b'' = numFloors b" "set (controllerEvents b') \<subseteq> set (controllerEvents b'')"
    and f: "fl' \<longleftrightarrow> fl \<or> reached (eb_ticks b) (elevators b ! k) \<and> inMotion e'"
    and p: "eb_pending b'' = (if fl' then insort (eb_ticks b + DelayPerFloor) (eb_pending b) else eb_pending b)"
    and a: "reached (eb_ticks b) (elevators b ! k) \<Longrightarrow> \<not> inMotion e' \<Longrightarrow> arrived_event (elevators b ! k) k \<in> set (controllerEvents b'')"
  shows "handled_upto (Suc k) b (b'', fl')"
proof -
  note d = h [unfolded handled_upto_def prod.case]
  have nth: "elevators b'' ! i = (if i = k then e' else elevators b' ! i)" for i
    using d k e(1) by (simp add: nth_list_update)
  show ?thesis unfolding handled_upto_def prod.case
  proof (intro conjI)
    show "length (elevators b'') = length (elevators b)" using d e(1) by simp
    show "fl' \<longleftrightarrow> (\<exists>i < Suc k. reached (eb_ticks b) (elevators b ! i) \<and> inMotion (elevators b'' ! i))"
      using d f by (auto simp: nth less_Suc_eq)
    show "\<forall>i < Suc k. handled (eb_ticks b) (elevators b ! i) (elevators b'' ! i)" using d e(2) by (simp add: nth less_Suc_eq)
    show "\<forall>i \<ge> Suc k. elevators b'' ! i = elevators b ! i" using d by (simp add: nth)
    show "\<forall>i < Suc k. reached (eb_ticks b) (elevators b ! i) \<and> \<not> inMotion (elevators b'' ! i) \<longrightarrow>
        arrived_event (elevators b ! i) i \<in> set (controllerEvents b'')"
      using d a r(3) by (auto simp: nth less_Suc_eq)
    show "set (controllerEvents b) \<subseteq> set (controllerEvents b'')" using d r(3) by blast
  qed (use r p in simp_all)
qed

lemma still_moving:
  "inMotion e \<Longrightarrow> e\<lparr>lastFloor := l, inMotion := True\<rparr> = e\<lparr>lastFloor := l\<rparr>"
  "inMotion e \<Longrightarrow> e\<lparr>lastFloor := l, inMotion := True, willArrive := t\<rparr> = e\<lparr>lastFloor := l, willArrive := t\<rparr>"
  by (cases e, simp)+

lemma handled_upto_step:
  assumes "handled_upto k b s" "k < length (elevators b)"
  shows "handled_upto (Suc k) b (handle_elevator k s)"
proof -
  obtain b' fl where s: "s = (b', fl)" by (cases s)
  let ?e = "elevators b ! k"
  have h: "handled_upto k b (b', fl)" using assms(1) s by simp
  have d: "elevators b' ! k = ?e" "eb_ticks b' = eb_ticks b" "numFloors b' = numFloors b"
    "eb_pending b' = (if fl then insort (eb_ticks b + DelayPerFloor) (eb_pending b) else eb_pending b)"
    using h unfolding handled_upto_def prod.case by blast+
  show ?thesis unfolding s
  proof (cases "reached (eb_ticks b) ?e")
    case False
    then have n: "handle_elevator k (b', fl) = (b', fl)" by (auto simp: handle_elevator_def ReachedNextFloor_def reached_def d)
    have "elevators b' = (elevators b')[k := ?e]" by (metis d(1) list_update_id)
    from handled_upto_Suc [OF h assms(2) this _ d(2,3) subset_refl _ d(4)] False
    show "handled_upto (Suc k) b (handle_elevator k (b', fl))" by (simp add: n handled_def)
  next
    case True
    have m: "inMotion ?e" "willArrive ?e \<le> eb_ticks b" using True by (auto simp: reached_def)
    have R: "ReachedNextFloor (eb_ticks b) ?e = (?e\<lparr>lastFloor := next_floor ?e\<rparr>, True)"
      using m by (simp add: ReachedNextFloor_def next_floor_def)
    define t where "t = willArrive ?e + (if next_floor ?e \<noteq> goingTo ?e \<and> \<not> fl then DelayPerFloor else 0)"
    define e' where "e' = ?e\<lparr>lastFloor := next_floor ?e, inMotion := next_floor ?e \<noteq> goingTo ?e, willArrive := t\<rparr>"
    have hd: "handled (eb_ticks b) ?e e'" unfolding handled_def if_P [OF True]
      by (rule exI [of _ t]) (use m in \<open>simp add: e'_def t_def\<close>)
    show "handled_upto (Suc k) b (handle_elevator k (b', fl))"
    proof (cases "next_floor ?e = goingTo ?e")
      case arr: True
      have "handle_elevator k (b', fl) = (PostEvent ControllerList ElevatorArrived (goingTo ?e) (int k) True (put_elevator k e' b'), fl)"
        using arr m by (simp add: handle_elevator_def d R CheckArrived_def e'_def t_def)
      then show ?thesis using arr
        by (simp, intro handled_upto_Suc [OF h assms(2) _ hd])
          (auto simp: PostEvent_def put_elevator_def d e'_def arrived_event_def)
    next
      case far: False
      have "handle_elevator k (b', fl) = (if fl then put_elevator k e' b' else ElevatorDone_in DelayPerFloor (put_elevator k e' b'), True)"
        using far m by (auto simp: handle_elevator_def d R CheckArrived_def e'_def t_def still_moving)
      then show ?thesis using far True
        by (simp only:, intro handled_upto_Suc [OF h assms(2) _ hd])
          (auto simp: put_elevator_def ElevatorDone_in_def d e'_def)
    qed
  qed
qed

lemma handled_all: "handled_upto (length (elevators b)) b (fold handle_elevator [0..<length (elevators b)] (b, False))"
proof -
  have "k \<le> length (elevators b) \<Longrightarrow> handled_upto k b (fold handle_elevator [0..<k] (b, False))" for k
    by (induction k) (simp_all add: handled_upto_def [of 0] handled_upto_step)
  then show ?thesis by simp
qed

section \<open>What holds of every elevator\<close>

definition elevator_ok :: "int \<Rightarrow> int list \<Rightarrow> ElevatorInfo \<Rightarrow> bool" where
  "elevator_ok f pend e \<longleftrightarrow>
     (doorsOpen e \<longrightarrow> \<not> inMotion e) \<and> length (riders e) \<le> MaxRiders \<and> - 1 \<le> lastFloor e \<and> lastFloor e < f \<and>
     0 \<le> goingTo e \<and> goingTo e < f \<and> (\<not> inMotion e \<longrightarrow> 0 \<le> lastFloor e) \<and>
     (inMotion e \<longrightarrow> (\<exists>p \<in> set pend. willArrive e \<le> p))"

definition bank_ok :: "int \<Rightarrow> int \<Rightarrow> ElevatorBank \<Rightarrow> bool" where
  "bank_ok n f b \<longleftrightarrow> length (elevators b) = nat n \<and> numFloors b = f \<and> (\<forall>e \<in> set (elevators b). elevator_ok f (eb_pending b) e)"

lemma elevator_ok_more: "elevator_ok f pend e \<Longrightarrow> set pend \<subseteq> set pend' \<Longrightarrow> elevator_ok f pend' e"
  by (auto simp: elevator_ok_def)

lemma elevator_ok_handled:
  assumes "elevator_ok f (p # ps) e" "p \<le> now" "handled now e e'"
    and "set ps \<subseteq> set pend" "reached now e \<Longrightarrow> inMotion e' \<Longrightarrow> now + DelayPerFloor \<in> set pend"
  shows "elevator_ok f pend e'"
proof (cases "reached now e")
  case True
  then obtain t where "t \<le> now + DelayPerFloor" "e' = e\<lparr>lastFloor := next_floor e, inMotion := next_floor e \<noteq> goingTo e, willArrive := t\<rparr>"
    using assms(3) by (auto simp: handled_def)
  then show ?thesis using assms(1,5) True by (auto simp: elevator_ok_def reached_def next_floor_def split: if_splits)
next
  case False
  then have "e' = e" using assms(3) by (simp add: handled_def)
  moreover have "inMotion e \<longrightarrow> (\<exists>q \<in> set ps. willArrive e \<le> q)"
    using False assms(1,2) by (auto simp: elevator_ok_def reached_def)
  ultimately show ?thesis using assms(1,4) by (auto simp: elevator_ok_def)
qed

lemma take_interrupt_handled:
  assumes "eb_pending b = p # ps"
  obtains fl where "handled_upto (length (elevators b)) (b\<lparr>eb_pending := ps\<rparr>) (take_interrupt b, fl)"
proof -
  obtain b' fl where f: "fold handle_elevator [0..<length (elevators b)] (b\<lparr>eb_pending := ps\<rparr>, False) = (b', fl)" by fastforce
  then have "take_interrupt b = b'" by (simp add: take_interrupt_def ElevatorBank_HandleInterrupt_def assms)
  then show ?thesis using that [of fl] handled_all [of "b\<lparr>eb_pending := ps\<rparr>"] f by simp
qed

lemma take_interrupt_ok:
  assumes "bank_ok n f b" "eb_pending b = p # ps" "p \<le> eb_ticks b"
  shows "bank_ok n f (take_interrupt b)"
proof -
  let ?b' = "take_interrupt b"
  obtain fl where "handled_upto (length (elevators b)) (b\<lparr>eb_pending := ps\<rparr>) (?b', fl)"
    by (rule take_interrupt_handled [OF assms(2)])
  then have l: "length (elevators ?b') = length (elevators b)" "numFloors ?b' = numFloors b"
    and p: "eb_pending ?b' = (if fl then insort (eb_ticks b + DelayPerFloor) ps else ps)"
    and fl: "i < length (elevators b) \<Longrightarrow> reached (eb_ticks b) (elevators b ! i) \<Longrightarrow> inMotion (elevators ?b' ! i) \<Longrightarrow> fl"
    and h: "i < length (elevators b) \<Longrightarrow> handled (eb_ticks b) (elevators b ! i) (elevators ?b' ! i)" for i
    by (auto simp: handled_upto_def)
  have "elevator_ok f (eb_pending ?b') (elevators ?b' ! i)" if i: "i < length (elevators b)" for i
    by (rule elevator_ok_handled [OF _ assms(3) h [OF i]])
      (use assms(1,2) i fl p in \<open>auto simp: bank_ok_def set_insort_key\<close>)
  then show ?thesis using assms(1) l by (auto simp: bank_ok_def in_set_conv_nth)
qed

lemma bank_ok_put:
  assumes "bank_ok n f b" "elevator_ok f (eb_pending b) e"
  shows "bank_ok n f (put_elevator i e b)"
  using assms set_update_subset_insert [of "elevators b" i e] by (auto simp: bank_ok_def put_elevator_def)

lemma bank_ok_Done: "bank_ok n f b \<Longrightarrow> bank_ok n f (ElevatorDone_in k b)"
  by (auto simp: bank_ok_def ElevatorDone_in_def set_insort_key intro: elevator_ok_more)

lemma bank_ok_Post: "bank_ok n f b \<Longrightarrow> bank_ok n f (PostEvent l ev fl el h b)"
  by (auto simp: PostEvent_def Let_def bank_ok_def ElevatorDone_in_def set_insort_key intro: elevator_ok_more split: event_list.split)

lemma bank_ok_at: "bank_ok n f b \<Longrightarrow> is_elevator b i \<Longrightarrow> elevator_ok f (eb_pending b) (elevator_at b i)"
  using nth_mem [of "nat i" "elevators b"] unfolding bank_ok_def by (metis nat_less_iff)

lemma MoveTo_ok:
  assumes "bank_ok n f b"
  shows "gives (bank_ok n f) (ElevatorBank_MoveTo fl el b)"
proof -
  have "bank_ok n f (ElevatorDone_in DelayPerFloor (put_elevator i e b))"
    if "elevator_ok f (insort (eb_ticks b + DelayPerFloor) (eb_pending b)) e" for e i
  proof -
    have "ElevatorDone_in DelayPerFloor (put_elevator i e b) = put_elevator i e (ElevatorDone_in DelayPerFloor b)"
      by (simp add: ElevatorDone_in_def put_elevator_def)
    then show ?thesis using bank_ok_put [OF bank_ok_Done [OF assms]] that by (simp add: ElevatorDone_in_def)
  qed
  then show ?thesis using bank_ok_at [OF assms, of el] assms
    by (auto simp: ElevatorBank_MoveTo_def ElevatorInfo_MoveTo_def Let_def set_insort_key bank_ok_put
        elevator_ok_def [of f "eb_pending b"] elevator_ok_def [of f "insort _ _"] bank_ok_def [of n f b])
qed

lemma doors_ok:
  assumes "bank_ok n f b"
  shows "gives (bank_ok n f) (ElevatorBank_OpenDoors el b)" "gives (bank_ok n f) (ElevatorBank_CloseDoors el b)"
    "gives (bank_ok n f) (MarkDirection el d b)"
  using bank_ok_at [OF assms, of el]
  by (auto simp: ElevatorBank_OpenDoors_def ElevatorInfo_OpenDoors_def ElevatorBank_CloseDoors_def ElevatorInfo_CloseDoors_def
      MarkDirection_def elevator_ok_def intro!: bank_ok_Post bank_ok_put [OF assms])

lemma riders_ok:
  assumes "bank_ok n f b"
  shows "gives (\<lambda>(b, _). bank_ok n f b) (EnterElevator t fl el b)" "gives (\<lambda>(b, _). bank_ok n f b) (ExitElevator t fl el b)"
  using bank_ok_at [OF assms, of el]
  by (auto simp: EnterElevator_def Enter_def ExitElevator_def Exit_def rider_Remove_def elevator_ok_def length_remove1 le_diff_conv
      intro!: bank_ok_put [OF assms])

lemma elevator_do_ok:
  assumes "bank_ok n f b"
  shows "gives (bank_ok n f) (elevator_do c b)"
  using MoveTo_ok [OF assms] doors_ok [OF assms] riders_ok [OF assms] bank_ok_Post [OF assms]
  by (cases c) (simp_all add: PressButton_def PressFloor_def case_prod_unfold,
      use assms in \<open>simp add: getNextEvent_def bank_ok_def split: list.split event_list.split\<close>)

lemma elevator_reach_ok: "elevator_reach n f b \<Longrightarrow> 0 < f \<Longrightarrow> bank_ok n f b"
proof (induction rule: elevator_reach.induct)
  case (start rs cs now)
  then show ?case by (auto simp: bank_ok_def new_ElevatorBank_def new_ElevatorInfo_def elevator_ok_def)
next
  case (call b c b')
  then show ?case using givesD [OF elevator_do_ok] by blast
next
  case (pass b k)
  then show ?case by (simp add: bank_ok_def)
next
  case (fire b)
  then show ?case using take_interrupt_ok [of n f b "hd (eb_pending b)" "tl (eb_pending b)"] by simp
qed

section \<open>Arrival\<close>

text \<open>How many floors are still to pass; an elevator sent back to the floor it has just left overshoots by one.\<close>

definition floors_left :: "ElevatorInfo \<Rightarrow> nat" where
  "floors_left e = (if \<not> inMotion e then 0 else if lastFloor e = goingTo e then 2 else nat \<bar>goingTo e - lastFloor e\<bar>)"

definition work_left :: "ElevatorBank \<Rightarrow> nat" where
  "work_left b = sum_list (map floors_left (elevators b)) + length (eb_pending b)"

lemma handled_floors:
  assumes "handled now e e'"
  shows "floors_left e' + (if reached now e then 1 else 0) \<le> floors_left e"
  using assms by (auto simp: handled_def floors_left_def reached_def next_floor_def split: if_splits)

text \<open>Elevator \<open>i\<close>, under way to floor \<open>fl\<close> or arrived there with its event posted.\<close>

definition on_its_way :: "int \<Rightarrow> nat \<Rightarrow> ElevatorBank \<Rightarrow> bool" where
  "on_its_way fl i b \<longleftrightarrow> (let e = elevators b ! i in goingTo e = fl \<and>
     (inMotion e \<or> lastFloor e = fl \<and> \<lparr>pe_event = ElevatorArrived, pe_floor = fl, pe_elevator = int i\<rparr> \<in> set (controllerEvents b)))"

lemma take_interrupt_work:
  assumes "eb_pending b = p # ps" "p \<le> eb_ticks b"
  shows "work_left (take_interrupt b) < work_left b"
    and "length (elevators (take_interrupt b)) = length (elevators b)"
    and "i < length (elevators b) \<Longrightarrow> on_its_way fl i b \<Longrightarrow> on_its_way fl i (take_interrupt b)"
proof -
  let ?b' = "take_interrupt b" and ?n = "length (elevators b)"
  obtain flag where hu: "handled_upto ?n (b\<lparr>eb_pending := ps\<rparr>) (?b', flag)"
    by (rule take_interrupt_handled [OF assms(1)])
  from hu show l: "length (elevators ?b') = ?n" by (simp add: handled_upto_def)
  from hu have h: "handled (eb_ticks b) (elevators b ! j) (elevators ?b' ! j)" if "j < ?n" for j
    using that by (simp add: handled_upto_def)
  from hu have pend: "length (eb_pending ?b') = length ps + (if flag then 1 else 0)"
    and fl: "flag \<longleftrightarrow> (\<exists>j < ?n. reached (eb_ticks b) (elevators b ! j) \<and> inMotion (elevators ?b' ! j))"
    by (auto simp: handled_upto_def)
  have le: "floors_left (elevators ?b' ! j) \<le> floors_left (elevators b ! j)" if "j < ?n" for j
    using handled_floors [OF h [OF that]] by simp
  have "(\<Sum>j < ?n. floors_left (elevators ?b' ! j)) + (if flag then 1 else 0) \<le> (\<Sum>j < ?n. floors_left (elevators b ! j))"
  proof (cases flag)
    case True
    then obtain j where j: "j < ?n" "reached (eb_ticks b) (elevators b ! j)" using fl by blast
    then have "floors_left (elevators ?b' ! j) < floors_left (elevators b ! j)" using handled_floors [OF h [OF j(1)]] by simp
    then have "(\<Sum>j < ?n. floors_left (elevators ?b' ! j)) < (\<Sum>j < ?n. floors_left (elevators b ! j))"
      using le j(1) by (intro sum_strict_mono_ex1) auto
    then show ?thesis by simp
  next
    case False
    then show ?thesis using le by (auto intro!: sum_mono)
  qed
  then show "work_left ?b' < work_left b"
    using assms(1) l pend by (simp add: work_left_def sum_list_sum_nth atLeast0LessThan)
  show "on_its_way fl i ?b'" if i: "i < ?n" and w: "on_its_way fl i b"
  proof (cases "reached (eb_ticks b) (elevators b ! i)")
    case True
    then obtain t where "elevators ?b' ! i = (elevators b ! i)\<lparr>lastFloor := next_floor (elevators b ! i),
        inMotion := next_floor (elevators b ! i) \<noteq> goingTo (elevators b ! i), willArrive := t\<rparr>"
      using h [OF i] by (auto simp: handled_def)
    moreover from hu have "\<not> inMotion (elevators ?b' ! i) \<longrightarrow> arrived_event (elevators b ! i) i \<in> set (controllerEvents ?b')"
      using i True by (simp add: handled_upto_def)
    ultimately show ?thesis using w by (auto simp: on_its_way_def Let_def arrived_event_def)
  next
    case False
    then have "elevators ?b' ! i = elevators b ! i" using h [OF i] by (simp add: handled_def)
    moreover from hu have "set (controllerEvents b) \<subseteq> set (controllerEvents ?b')" by (simp add: handled_upto_def)
    ultimately show ?thesis using w by (auto simp: on_its_way_def Let_def)
  qed
qed

lemma idle_interrupt_rest: "eb_pending b = [] \<Longrightarrow> (idle_interrupt ^^ k) b = b"
  by (induction k) (simp_all add: idle_interrupt_def)

lemma idle_interrupts:
  assumes "bank_ok n f b" "work_left b \<le> k" "i < length (elevators b)" "on_its_way fl i b"
  shows "bank_ok n f ((idle_interrupt ^^ k) b) \<and> eb_pending ((idle_interrupt ^^ k) b) = [] \<and> on_its_way fl i ((idle_interrupt ^^ k) b)"
  using assms
proof (induction k arbitrary: b)
  case 0
  then show ?case by (simp add: work_left_def)
next
  case (Suc k)
  show ?case
  proof (cases "eb_pending b")
    case Nil
    then show ?thesis using Suc.prems idle_interrupt_rest [OF Nil, of "Suc k"] by simp
  next
    case (Cons p ps)
    let ?c = "b\<lparr>eb_ticks := max (eb_ticks b) p\<rparr>"
    have b1: "idle_interrupt b = take_interrupt ?c" using Cons by (simp add: idle_interrupt_def)
    have c: "eb_pending ?c = p # ps" "p \<le> eb_ticks ?c" "bank_ok n f ?c" "work_left ?c = work_left b" "on_its_way fl i ?c"
      using Cons Suc.prems by (simp_all add: bank_ok_def work_left_def on_its_way_def)
    note w = take_interrupt_work [OF c(1,2)]
    have "bank_ok n f (idle_interrupt b)" "work_left (idle_interrupt b) \<le> k" "i < length (elevators (idle_interrupt b))"
      "on_its_way fl i (idle_interrupt b)"
      using take_interrupt_ok [OF c(3,1,2)] w(1,2) w(3) [OF _ c(5)] Suc.prems c(4) by (simp_all add: b1)
    then show ?thesis using Suc.IH [of "idle_interrupt b"] by (simp add: funpow_swap1)
  qed
qed

section \<open>Properties\<close>

text \<open>C32. Whatever riders and controllers do and whenever the interrupts come, an elevator with open doors does not
  move, carries at most \<^verbatim>\<open>MaxRiders\<close> riders, stays between one floor below the ground and the top floor, stands
  only at a floor of the building, and while it moves an interrupt is pending that will find it at its next floor.\<close>

theorem elevator_safety:
  assumes "elevator_reach n f b" "0 < f" "e \<in> set (elevators b)"
  shows "\<not> (doorsOpen e \<and> inMotion e) \<and> length (riders e) \<le> MaxRiders \<and> - 1 \<le> lastFloor e \<and> lastFloor e < f \<and>
    (inMotion e \<or> 0 \<le> lastFloor e) \<and> (inMotion e \<longrightarrow> (\<exists>p \<in> set (eb_pending b). willArrive e \<le> p))"
proof -
  have "elevator_ok f (eb_pending b) e" using elevator_reach_ok [OF assms(1,2)] assms(3) by (simp add: bank_ok_def)
  then show ?thesis unfolding elevator_ok_def by blast
qed

text \<open>C33. Left alone, every elevator in motion arrives: from any state that can be reached, \<open>work_left\<close> interrupts
  later no interrupt is pending, and the elevator stands at the floor it was sent to, with its arrival
  posted to the controllers.\<close>

theorem elevators_arrive:
  assumes "elevator_reach n f b" "0 < f" "i < length (elevators b)" "inMotion (elevators b ! i)"
  shows "let b' = (idle_interrupt ^^ work_left b) b; e = elevators b' ! i; fl = goingTo (elevators b ! i) in
    eb_pending b' = [] \<and> \<not> inMotion e \<and> lastFloor e = fl \<and>
    \<lparr>pe_event = ElevatorArrived, pe_floor = fl, pe_elevator = int i\<rparr> \<in> set (controllerEvents b')"
proof -
  let ?b' = "(idle_interrupt ^^ work_left b) b" and ?fl = "goingTo (elevators b ! i)"
  have "on_its_way ?fl i b" using assms(4) by (simp add: on_its_way_def)
  then have r: "bank_ok n f ?b'" "eb_pending ?b' = []" "on_its_way ?fl i ?b'"
    using idle_interrupts [OF elevator_reach_ok [OF assms(1,2)] order_refl assms(3)] by blast+
  have "i < length (elevators ?b')"
    using r(1) elevator_reach_ok [OF assms(1,2)] assms(3) by (simp add: bank_ok_def)
  then have "\<not> inMotion (elevators ?b' ! i)" using r(1,2) nth_mem [of i "elevators ?b'"] by (auto simp: bank_ok_def elevator_ok_def)
  then show ?thesis using r(2,3) by (simp add: on_its_way_def Let_def)
qed

section \<open>Concrete banks\<close>

definition ex_bank :: "int \<Rightarrow> elevator_call list \<Rightarrow> ElevatorBank" where
  "ex_bank n cs = projr (foldE elevator_do cs (new_ElevatorBank n 8 (1, 0) (2, 0) 0))"

lemma calls_reach: "elevator_reach n f b \<Longrightarrow> foldE elevator_do cs b = Inr b' \<Longrightarrow> elevator_reach n f b'"
proof (induction cs arbitrary: b)
  case (Cons c cs)
  then show ?case by (auto elim!: bindE_InrE dest: elevator_reach.call)
qed simp

lemma ex_bank_reach: "foldE elevator_do cs (new_ElevatorBank n 8 (1, 0) (2, 0) 0) = Inr b \<Longrightarrow> elevator_reach n 8 (ex_bank n cs)"
  using calls_reach [OF elevator_reach.start] by (simp add: ex_bank_def)

lemmas elevator_eval = ex_bank_def new_ElevatorBank_def new_ElevatorInfo_def ElevatorBank_MoveTo_def ElevatorInfo_MoveTo_def put_elevator_def
  ElevatorDone_in_def take_interrupt_def ElevatorBank_HandleInterrupt_def handle_elevator_def ReachedNextFloor_def CheckArrived_def
  PostEvent_def eval_nat_numeral Let_def

theorem elevator_safety_witness:
  "let e = elevators (ex_bank 1 [CallMoveTo 2 0]) ! 0 in inMotion e \<and> \<not> doorsOpen e \<and> length (riders e) \<le> MaxRiders"
proof -
  have "elevator_reach 1 8 (ex_bank 1 [CallMoveTo 2 0])" by (rule ex_bank_reach) (simp add: elevator_eval)
  moreover have "elevators (ex_bank 1 [CallMoveTo 2 0]) ! 0 \<in> set (elevators (ex_bank 1 [CallMoveTo 2 0]))"
    "inMotion (elevators (ex_bank 1 [CallMoveTo 2 0]) ! 0)" by (simp_all add: elevator_eval)
  ultimately show ?thesis using elevator_safety [of 1 8 "ex_bank 1 [CallMoveTo 2 0]"] by (auto simp: Let_def)
qed

theorem elevators_arrive_witness:
  "lastFloor (elevators ((idle_interrupt ^^ work_left (ex_bank 1 [CallMoveTo 2 0])) (ex_bank 1 [CallMoveTo 2 0])) ! 0) = 2"
proof -
  let ?b = "ex_bank 1 [CallMoveTo 2 0]"
  have "elevator_reach 1 8 ?b" by (rule ex_bank_reach) (simp add: elevator_eval)
  moreover have "0 < length (elevators ?b)" "inMotion (elevators ?b ! 0)" "goingTo (elevators ?b ! 0) = 2" by (simp_all add: elevator_eval)
  ultimately show ?thesis using elevators_arrive [of 1 8 ?b 0] by (simp add: Let_def)
qed

text \<open>An elevator on its way up that is sent back to the floor it has just left is one floor lower when the next
  interrupt comes, instead of at the floor above: from the ground floor it goes below the building.\<close>

theorem elevator_below_ground: "\<exists>b. elevator_reach 1 8 b \<and> lastFloor (elevators b ! 0) = - 1"
proof -
  let ?b = "ex_bank 1 [CallMoveTo 3 0, CallMoveTo 0 0]"
  have "elevator_reach 1 8 ?b" by (rule ex_bank_reach) (simp add: elevator_eval)
  then have "elevator_reach 1 8 (?b\<lparr>eb_ticks := eb_ticks ?b + 100\<rparr>)" by (rule elevator_reach.pass) simp
  then have "elevator_reach 1 8 (take_interrupt (?b\<lparr>eb_ticks := eb_ticks ?b + 100\<rparr>))"
    by (rule elevator_reach.fire) (simp_all add: elevator_eval)
  moreover have "lastFloor (elevators (take_interrupt (?b\<lparr>eb_ticks := eb_ticks ?b + 100\<rparr>)) ! 0) = - 1" by (simp add: elevator_eval)
  ultimately show ?thesis by blast
qed

text \<open>Two elevators start at the same time. When both have reached the first floor only the first gets a new time of
  arrival, so the interrupt scheduled for the second moves that one a second floor in the same instant.\<close>

theorem second_elevator_too_fast:
  "\<exists>b. elevator_reach 2 8 b \<and> eb_ticks b = DelayPerFloor \<and> map lastFloor (elevators b) = [1, 2]"
proof -
  let ?b = "ex_bank 2 [CallMoveTo 5 0, CallMoveTo 5 1]"
  let ?c = "?b\<lparr>eb_ticks := eb_ticks ?b + 100\<rparr>"
  let ?e = "\<lambda>fl t. \<lparr>display = Neither, doorsOpen = False, inMotion = True, lastFloor = fl, willArrive = t, goingTo = 5, riders = []\<rparr>"
  let ?d = "\<lparr>numFloors = 8, handlerRiders = (1, 0), handlerControllers = (2, 0), riderEvents = [], controllerEvents = [],
    elevators = [?e 1 200, ?e 1 100], eb_ticks = 100, eb_pending = [100, 200]\<rparr>"
  have d: "take_interrupt ?c = ?d" by (simp add: elevator_eval)
  have "elevator_reach 2 8 ?b" by (rule ex_bank_reach) (simp add: elevator_eval)
  then have "elevator_reach 2 8 ?c" by (rule elevator_reach.pass) simp
  then have "elevator_reach 2 8 (take_interrupt ?c)" by (rule elevator_reach.fire) (simp_all add: elevator_eval)
  then have "elevator_reach 2 8 (take_interrupt ?d)" unfolding d by (rule elevator_reach.fire) simp_all
  moreover have "eb_ticks (take_interrupt ?d) = DelayPerFloor" "map lastFloor (elevators (take_interrupt ?d)) = [1, 2]"
    by (simp_all add: elevator_eval)
  ultimately show ?thesis by (intro exI conjI)
qed

end
