(* ===== verification/Context_Switch.thy ===== *)
theory Context_Switch
  imports Nachos_Prelude
begin

text \<open>
  The context switch of \<^verbatim>\<open>threads/switch.c\<close> for the i386: the instructions of \<^verbatim>\<open>SWITCH\<close> and \<^verbatim>\<open>ThreadRoot\<close> as data,
  executed on the registers and on memory, and the part of \<^verbatim>\<open>Thread::StackAllocate\<close> that prepares a stack for them.
  Memory is a map from the addresses of words, which are multiples of four; the cell \<^verbatim>\<open>_eax_save\<close>, a
  variable of its own, is kept apart.

  Shown: a thread that is switched out and later switched back to continues after its call of \<^verbatim>\<open>SWITCH\<close>
  with its registers, and a new thread enables interrupts, calls its function with its argument, and finishes.
\<close>

section \<open>The processor\<close>

datatype reg386 = EAX | EBX | ECX | EDX | EBP | ESI | EDI | ESP

record i386 =
  i_regs :: "reg386 \<Rightarrow> 32 word"
  i_mem :: "32 word \<Rightarrow> 32 word"
  eax_save :: "32 word"
  eip :: "32 word"

datatype operand = R reg386 | M "32 word" reg386 | EaxSave

datatype instr = Movl operand operand | Pushl operand | Popl operand | CallInd operand "32 word" | Ret

fun get_op :: "operand \<Rightarrow> i386 \<Rightarrow> 32 word" where
  "get_op (R r) s = i_regs s r"
| "get_op (M d r) s = i_mem s (i_regs s r + d)"
| "get_op EaxSave s = eax_save s"

fun set_op :: "operand \<Rightarrow> 32 word \<Rightarrow> i386 \<Rightarrow> i386" where
  "set_op (R r) v s = s\<lparr>i_regs := (i_regs s)(r := v)\<rparr>"
| "set_op (M d r) v s = s\<lparr>i_mem := (i_mem s)(i_regs s r + d := v)\<rparr>"
| "set_op EaxSave v s = s\<lparr>eax_save := v\<rparr>"

definition push :: "32 word \<Rightarrow> i386 \<Rightarrow> i386" where
  "push v s = (let s = set_op (R ESP) (i_regs s ESP - 4) s in set_op (M 0 ESP) v s)"

text \<open>
  A called function is given by what it does from its entry, where the return address is on the stack, to the
  instruction after the call; it may not return. The address of that instruction depends on where the
  code is loaded and is part of the call.
\<close>

type_synonym callee = "32 word \<Rightarrow> i386 \<Rightarrow> i386 result"

fun exec386 :: "callee \<Rightarrow> instr \<Rightarrow> i386 \<Rightarrow> i386 result" where
  "exec386 E (Movl src dst) s = Inr (set_op dst (get_op src s) s)"
| "exec386 E (Pushl src) s = Inr (push (get_op src s) s)"
| "exec386 E (Popl dst) s = Inr (let v = i_mem s (i_regs s ESP) in set_op dst v (set_op (R ESP) (i_regs s ESP + 4) s))"
| "exec386 E (CallInd f ra) s = E (get_op f s) (push ra s)"
| "exec386 E Ret s = Inr (set_op (R ESP) (i_regs s ESP + 4) (s\<lparr>eip := i_mem s (i_regs s ESP)\<rparr>))"

definition run386 :: "callee \<Rightarrow> instr list \<Rightarrow> i386 \<Rightarrow> i386 result" where
  "run386 E = foldE (exec386 E)"

section \<open>The routines\<close>

text \<open>The offsets of the registers from the beginning of the thread object.\<close>

abbreviation (input) EAX_off :: "32 word" where "EAX_off \<equiv> 4"
abbreviation (input) ESP_off :: "32 word" where "ESP_off \<equiv> 0"
abbreviation (input) EBX_off :: "32 word" where "EBX_off \<equiv> 8"
abbreviation (input) ECX_off :: "32 word" where "ECX_off \<equiv> 12"
abbreviation (input) EDX_off :: "32 word" where "EDX_off \<equiv> 16"
abbreviation (input) EBP_off :: "32 word" where "EBP_off \<equiv> 20"
abbreviation (input) ESI_off :: "32 word" where "ESI_off \<equiv> 24"
abbreviation (input) EDI_off :: "32 word" where "EDI_off \<equiv> 28"
abbreviation (input) PC_off :: "32 word" where "PC_off \<equiv> 32"

definition SWITCH_save :: "instr list" where
  "SWITCH_save =
    [Movl (R EAX) EaxSave,
     Movl (M 4 ESP) (R EAX),
     Movl (R EBX) (M EBX_off EAX),
     Movl (R ECX) (M ECX_off EAX),
     Movl (R EDX) (M EDX_off EAX),
     Movl (R ESI) (M ESI_off EAX),
     Movl (R EDI) (M EDI_off EAX),
     Movl (R EBP) (M EBP_off EAX),
     Movl (R ESP) (M ESP_off EAX),
     Movl EaxSave (R EBX),
     Movl (R EBX) (M EAX_off EAX),
     Movl (M 0 ESP) (R EBX),
     Movl (R EBX) (M PC_off EAX)]"

definition SWITCH_load :: "instr list" where
  "SWITCH_load =
    [Movl (M 8 ESP) (R EAX),
     Movl (M EAX_off EAX) (R EBX),
     Movl (R EBX) EaxSave,
     Movl (M EBX_off EAX) (R EBX),
     Movl (M ECX_off EAX) (R ECX),
     Movl (M EDX_off EAX) (R EDX),
     Movl (M ESI_off EAX) (R ESI),
     Movl (M EDI_off EAX) (R EDI),
     Movl (M EBP_off EAX) (R EBP),
     Movl (M ESP_off EAX) (R ESP),
     Movl (M PC_off EAX) (R EAX),
     Movl (R EAX) (M 4 ESP),
     Movl EaxSave (R EAX),
     Ret]"

text \<open>No instruction of \<^verbatim>\<open>SWITCH\<close> calls anything.\<close>

definition SWITCH :: "i386 \<Rightarrow> i386 result" where
  "SWITCH = run386 (\<lambda>_ _. Inl Diverges) (SWITCH_save @ SWITCH_load)"

definition ThreadRoot_code :: "32 word \<Rightarrow> 32 word \<Rightarrow> 32 word \<Rightarrow> instr list" where
  "ThreadRoot_code ra1 ra2 ra3 =
    [Pushl (R EBP),
     Movl (R ESP) (R EBP),
     Pushl (R EDX),
     CallInd (R ECX) ra1,
     CallInd (R ESI) ra2,
     CallInd (R EDI) ra3,
     Movl (R EBP) (R ESP),
     Popl (R EBP),
     Ret]"

text \<open>
  \<^verbatim>\<open>Thread::StackAllocate\<close> on memory: \<open>t\<close> is the address of the thread, \<open>stk\<close> the array that
  \<^verbatim>\<open>AllocBoundedArray\<close> returns, and \<open>root\<close>, \<open>enable\<close>, \<open>done\<close> are the addresses of \<^verbatim>\<open>ThreadRoot\<close>,
  \<^verbatim>\<open>InterruptEnable\<close> and \<^verbatim>\<open>ThreadFinish\<close>.
\<close>

abbreviation (input) StackSize386 :: "32 word" where "StackSize386 \<equiv> 4096"
abbreviation (input) STACK_FENCEPOST386 :: "32 word" where "STACK_FENCEPOST386 \<equiv> 0xdeadbeef"

definition first_stackTop :: "32 word \<Rightarrow> 32 word" where
  "first_stackTop stk = stk + 4 * (StackSize386 - 4) - 4"

definition StackAllocate_mem ::
  "32 word \<Rightarrow> 32 word \<Rightarrow> 32 word \<Rightarrow> 32 word \<Rightarrow> 32 word \<Rightarrow> 32 word \<Rightarrow> 32 word \<Rightarrow> (32 word \<Rightarrow> 32 word) \<Rightarrow> 32 word \<Rightarrow> 32 word" where
  "StackAllocate_mem root enable done t stk func arg mem =
     mem(t + ESP_off := first_stackTop stk, first_stackTop stk := root, stk := STACK_FENCEPOST386,
         t + PC_off := root, t + ECX_off := enable, t + ESI_off := func, t + EDX_off := arg, t + EDI_off := done)"

section \<open>What the switch does\<close>

text \<open>The words of a thread object that \<^verbatim>\<open>SWITCH\<close> uses.\<close>

definition save_area :: "32 word \<Rightarrow> 32 word set" where
  "save_area t = {t, t + 4, t + 8, t + 12, t + 16, t + 20, t + 24, t + 28, t + 32}"

text \<open>On entry the stack holds the return address and the two threads.\<close>

definition at_SWITCH :: "32 word \<Rightarrow> 32 word \<Rightarrow> i386 \<Rightarrow> bool" where
  "at_SWITCH t1 t2 s \<longleftrightarrow> i_mem s (i_regs s ESP + 4) = t1 \<and> i_mem s (i_regs s ESP + 8) = t2"

definition saved :: "32 word \<Rightarrow> i386 \<Rightarrow> (32 word \<Rightarrow> 32 word) \<Rightarrow> 32 word \<Rightarrow> 32 word" where
  "saved t s m = m(t + EBX_off := i_regs s EBX, t + ECX_off := i_regs s ECX, t + EDX_off := i_regs s EDX, t + ESI_off := i_regs s ESI,
     t + EDI_off := i_regs s EDI, t + EBP_off := i_regs s EBP, t := i_regs s ESP, t + EAX_off := i_regs s EAX,
     t + PC_off := i_mem s (i_regs s ESP))"

lemma saved_other: "a \<notin> save_area t \<Longrightarrow> saved t s m a = m a"
  by (auto simp: saved_def save_area_def)

lemma saved_words:
  "saved t s m t = i_regs s ESP" "saved t s m (t + 4) = i_regs s EAX" "saved t s m (t + 8) = i_regs s EBX"
  "saved t s m (t + 12) = i_regs s ECX" "saved t s m (t + 16) = i_regs s EDX" "saved t s m (t + 20) = i_regs s EBP"
  "saved t s m (t + 24) = i_regs s ESI" "saved t s m (t + 28) = i_regs s EDI" "saved t s m (t + 32) = i_mem s (i_regs s ESP)"
  by (simp_all add: saved_def)

text \<open>The registers a save area holds.\<close>

definition loaded :: "32 word \<Rightarrow> (32 word \<Rightarrow> 32 word) \<Rightarrow> reg386 \<Rightarrow> 32 word" where
  "loaded t m r = (case r of ESP \<Rightarrow> m t + 4 | EAX \<Rightarrow> m (t + 4) | EBX \<Rightarrow> m (t + 8) | ECX \<Rightarrow> m (t + 12) | EDX \<Rightarrow> m (t + 16)
     | EBP \<Rightarrow> m (t + 20) | ESI \<Rightarrow> m (t + 24) | EDI \<Rightarrow> m (t + 28))"

lemma run386_append: "run386 E (xs @ ys) s = bindE (run386 E xs s) (run386 E ys)"
  by (simp add: run386_def foldE_append)

lemma SWITCH_save_eq:
  assumes "at_SWITCH t1 t2 s" "i_regs s ESP \<notin> save_area t1"
  shows "\<exists>s'. run386 E SWITCH_save s = Inr s' \<and> i_mem s' = saved t1 s (i_mem s) \<and> i_regs s' ESP = i_regs s ESP"
  using assms by (simp add: run386_def SWITCH_save_def at_SWITCH_def save_area_def saved_def)

lemma SWITCH_load_eq:
  assumes "i_mem s (i_regs s ESP + 8) = t2"
  shows "\<exists>s'. run386 E SWITCH_load s = Inr s' \<and> i_regs s' = loaded t2 (i_mem s) \<and> eip s' = i_mem s (i_mem s t2) \<and>
    i_mem s' = (i_mem s)(i_mem s t2 + 4 := i_mem s (t2 + 32))"
proof -
  have "f = loaded t2 m" if "\<And>r. f r = loaded t2 m r" for f m using that by blast
  then show ?thesis using assms by (simp add: run386_def SWITCH_load_def loaded_def fun_eq_iff split: reg386.split)
qed

lemma SWITCH_eq:
  assumes "at_SWITCH t1 t2 s" "i_regs s ESP \<notin> save_area t1" "i_regs s ESP + 8 \<notin> save_area t1"
  obtains s' where "SWITCH s = Inr s'" "i_regs s' = loaded t2 (saved t1 s (i_mem s))"
    "eip s' = saved t1 s (i_mem s) (saved t1 s (i_mem s) t2)"
    "i_mem s' = (saved t1 s (i_mem s))(saved t1 s (i_mem s) t2 + 4 := saved t1 s (i_mem s) (t2 + 32))"
proof -
  obtain s1 where s1: "run386 (\<lambda>_ _. Inl Diverges) SWITCH_save s = Inr s1" "i_mem s1 = saved t1 s (i_mem s)" "i_regs s1 ESP = i_regs s ESP"
    using SWITCH_save_eq [OF assms(1,2)] by blast
  have "i_mem s1 (i_regs s1 ESP + 8) = t2" using assms(1,3) s1 by (simp add: saved_other at_SWITCH_def)
  from SWITCH_load_eq [OF this] show ?thesis using s1 that by (auto simp: SWITCH_def run386_append)
qed

text \<open>A function that follows the calling convention pops its return address and keeps four registers.\<close>

definition cdecl :: "i386 \<Rightarrow> i386 \<Rightarrow> bool" where
  "cdecl s s' \<longleftrightarrow> i_regs s' ESP = i_regs s ESP + 4 \<and> (\<forall>r \<in> {EBX, EBP, ESI, EDI}. i_regs s' r = i_regs s r)"

text \<open>
  The three calls of \<^verbatim>\<open>ThreadRoot\<close>, started in \<open>s0\<close>: each function is entered in one of the states \<open>sa\<close>, \<open>sb\<close>, \<open>sc\<close> with its return address on
  the stack, the first two return, and the rest is what the third does, followed by the instructions after its call should it return.
\<close>

definition calls_in_turn :: "callee \<Rightarrow> 32 word \<Rightarrow> 32 word \<Rightarrow> 32 word \<Rightarrow> 32 word \<Rightarrow> 32 word \<Rightarrow> 32 word \<Rightarrow> 32 word \<Rightarrow> i386 \<Rightarrow> bool" where
  "calls_in_turn E ra1 ra2 ra3 enable func arg fin s0 \<longleftrightarrow> (\<exists>sa sa' sb sb' sc.
     run386 E (take 4 (ThreadRoot_code ra1 ra2 ra3)) s0 = E enable sa \<and> i_mem sa (i_regs sa ESP) = ra1 \<and> E enable sa = Inr sa' \<and>
     run386 E (take 5 (ThreadRoot_code ra1 ra2 ra3)) s0 = E func sb \<and> i_mem sb (i_regs sb ESP) = ra2 \<and> i_mem sb (i_regs sb ESP + 4) = arg \<and>
     E func sb = Inr sb' \<and>
     run386 E (ThreadRoot_code ra1 ra2 ra3) s0 = bindE (E fin sc) (run386 E [Movl (R EBP) (R ESP), Popl (R EBP), Ret]) \<and>
     i_mem sc (i_regs sc ESP) = ra3)"

lemma ThreadRoot_calls:
  assumes "i_regs s ECX = enable" "i_regs s ESI = func" "i_regs s EDX = arg" "i_regs s EDI = fin"
    and en: "\<And>s. \<exists>s'. E enable s = Inr s' \<and> cdecl s s' \<and> i_mem s' (i_regs s ESP + 4) = i_mem s (i_regs s ESP + 4)"
    and fn: "\<And>s. \<exists>s'. E func s = Inr s' \<and> cdecl s s'"
  shows "calls_in_turn E ra1 ra2 ra3 enable func arg fin s"
proof -
  let ?c = "ThreadRoot_code ra1 ra2 ra3" and ?tail = "[Movl (R EBP) (R ESP), Popl (R EBP), Ret]"
  define s3 where "s3 = push arg (set_op (R EBP) (i_regs (push (i_regs s EBP) s) ESP) (push (i_regs s EBP) s))"
  have s3: "run386 E (take 3 ?c) s = Inr s3"
    using assms(1-4) by (simp add: s3_def run386_def ThreadRoot_code_def push_def Let_def eval_nat_numeral)
  have r3: "i_regs s3 ECX = enable" "i_regs s3 ESI = func" "i_regs s3 EDI = fin" "i_mem s3 (i_regs s3 ESP) = arg"
    using assms(1-4) by (simp_all add: s3_def push_def Let_def)
  have p: "i_regs (push v s) ESP = i_regs s ESP - 4" "i_regs (push v s) r = (if r = ESP then i_regs s ESP - 4 else i_regs s r)"
    "i_mem (push v s) (i_regs s ESP) = i_mem s (i_regs s ESP)" "i_mem (push v s) (i_regs s ESP - 4) = v" for v s r
    by (simp_all add: push_def Let_def)
  obtain s4 where s4: "E enable (push ra1 s3) = Inr s4" "cdecl (push ra1 s3) s4"
    "i_mem s4 (i_regs (push ra1 s3) ESP + 4) = i_mem (push ra1 s3) (i_regs (push ra1 s3) ESP + 4)" using en by blast
  obtain s5 where s5: "E func (push ra2 s4) = Inr s5" "cdecl (push ra2 s4) s5" using fn by blast
  have c: "run386 E (take 4 ?c) s = bindE (run386 E (take 3 ?c) s) (run386 E [CallInd (R ECX) ra1])"
    "run386 E (take 5 ?c) s = bindE (run386 E (take 4 ?c) s) (run386 E [CallInd (R ESI) ra2])"
    "run386 E ?c s = bindE (run386 E (take 5 ?c) s) (run386 E (CallInd (R EDI) ra3 # ?tail))"
    by (simp_all add: ThreadRoot_code_def eval_nat_numeral flip: run386_append)
  have r4: "i_regs s4 ESI = func" "i_regs s4 EDI = fin" "i_regs s4 ESP = i_regs s3 ESP" using s4(2) r3 by (simp_all add: cdecl_def p)
  have arg: "i_mem s4 (i_regs s4 ESP) = arg" using s4(3) r3(4) r4(3) by (simp add: p)
  have r5: "i_regs s5 EDI = fin" using s5(2) r4(2) by (simp add: cdecl_def p)
  have run: "run386 E (take 4 ?c) s = Inr s4" "run386 E (take 5 ?c) s = Inr s5" using c(1,2) s3 s4(1) s5(1) r3(1) r4(1) by (simp_all add: run386_def)
  have all: "run386 E ?c s = bindE (E fin (push ra3 s5)) (run386 E ?tail)" using c(3) run(2) r5 by (simp add: run386_def)
  show ?thesis unfolding calls_in_turn_def
    by (rule exI [of _ "push ra1 s3"], rule exI [of _ s4], rule exI [of _ "push ra2 s4"], rule exI [of _ s5], rule exI [of _ "push ra3 s5"])
      (simp add: run all s4(1) s5(1) p arg)
qed

section \<open>Properties\<close>

text \<open>C34. A thread \<open>t1\<close> that calls \<^verbatim>\<open>SWITCH\<close> and is switched back to later, by any thread \<open>u\<close>, returns from its
  call with the registers it had, provided that meanwhile nothing wrote to its thread object and to the return address on its stack,
  and that the objects and stacks are apart.\<close>

theorem SWITCH_resumes:
  assumes out: "at_SWITCH t1 t2 s" "SWITCH s = Inr s1"
    and stack: "{i_regs s ESP, i_regs s ESP + 8} \<inter> save_area t1 = {}" "save_area t2 \<inter> save_area t1 = {}"
      "i_mem s t2 + 4 \<notin> save_area t1 \<union> {i_regs s ESP}"
    and between: "\<forall>a \<in> save_area t1 \<union> {i_regs s ESP}. i_mem s2 a = i_mem s1 a"
    and again: "at_SWITCH u t1 s2" "{i_regs s2 ESP, i_regs s2 ESP + 8} \<inter> save_area u = {}"
      "save_area u \<inter> (save_area t1 \<union> {i_regs s ESP}) = {}"
  shows "\<exists>s3. SWITCH s2 = Inr s3 \<and> eip s3 = i_mem s (i_regs s ESP) \<and> i_regs s3 = (i_regs s)(ESP := i_regs s ESP + 4)"
proof -
  let ?sv = "saved t1 s (i_mem s)"
  have t2: "?sv t2 = i_mem s t2" using stack(2) by (intro saved_other) (auto simp: save_area_def)
  obtain s1' where "SWITCH s = Inr s1'" "i_mem s1' = ?sv(?sv t2 + 4 := ?sv (t2 + 32))"
    by (rule SWITCH_eq [OF out(1)]) (use stack(1) in auto)
  then have m1: "i_mem s1 a = ?sv a" if "a \<in> save_area t1 \<union> {i_regs s ESP}" for a
    using out(2) that stack(3) t2 by auto
  obtain s3 where s3: "SWITCH s2 = Inr s3" "i_regs s3 = loaded t1 (saved u s2 (i_mem s2))"
    "eip s3 = saved u s2 (i_mem s2) (saved u s2 (i_mem s2) t1)"
    by (rule SWITCH_eq [OF again(1)]) (use again(2) in auto)
  have m2: "saved u s2 (i_mem s2) a = ?sv a" if "a \<in> save_area t1 \<union> {i_regs s ESP}" for a
  proof -
    have "a \<notin> save_area u" using that again(3) by blast
    then show ?thesis using bspec [OF between that] m1 [OF that] by (simp add: saved_other)
  qed
  have w: "saved u s2 (i_mem s2) (t1 + d) = ?sv (t1 + d)" if "d \<in> {0, 4, 8, 12, 16, 20, 24, 28, 32}" for d
    by (rule m2) (use that in \<open>auto simp: save_area_def\<close>)
  have "loaded t1 (saved u s2 (i_mem s2)) r = ((i_regs s)(ESP := i_regs s ESP + 4)) r" for r
    using w w [of 0] by (cases r) (simp_all add: loaded_def saved_words)
  moreover have "eip s3 = i_mem s (i_regs s ESP)"
    using s3(3) w [of 0] m2 [of "i_regs s ESP"] stack(1) by (simp add: saved_words saved_other)
  ultimately show ?thesis using s3(1,2) by auto
qed

text \<open>C35. A forked thread whose stack \<^verbatim>\<open>StackAllocate\<close> has prepared and that is switched to for the first time starts at
  \<^verbatim>\<open>ThreadRoot\<close>, which calls \<^verbatim>\<open>InterruptEnable\<close>, then the function with its argument on the stack, and when
  that returns \<^verbatim>\<open>ThreadFinish\<close>, and that is all it does if \<^verbatim>\<open>ThreadFinish\<close> does not return; the functions called keep to the calling convention.\<close>

theorem forked_thread_runs:
  assumes prepared: "\<forall>a \<in> save_area t \<union> {first_stackTop stk}. i_mem s a = StackAllocate_mem root enable fin t stk func arg mem a"
    and apart: "{first_stackTop stk, stk} \<inter> save_area t = {}"
    and switch: "at_SWITCH t1 t s" "{i_regs s ESP, i_regs s ESP + 8} \<inter> save_area t1 = {}"
      "save_area t1 \<inter> (save_area t \<union> {first_stackTop stk}) = {}"
    and enable: "\<forall>s. \<exists>s'. E enable s = Inr s' \<and> cdecl s s' \<and> i_mem s' (i_regs s ESP + 4) = i_mem s (i_regs s ESP + 4)"
    and func: "\<forall>s. \<exists>s'. E func s = Inr s' \<and> cdecl s s'"
  shows "\<exists>s0. SWITCH s = Inr s0 \<and> eip s0 = root \<and> calls_in_turn E ra1 ra2 ra3 enable func arg fin s0"
proof -
  let ?sv = "saved t1 s (i_mem s)" and ?A = "StackAllocate_mem root enable fin t stk func arg mem"
  obtain s0 where s0: "SWITCH s = Inr s0" "i_regs s0 = loaded t ?sv" "eip s0 = ?sv (?sv t)"
    by (rule SWITCH_eq [OF switch(1)]) (use switch(2) in auto)
  have sv: "?sv a = ?A a" if "a \<in> save_area t \<union> {first_stackTop stk}" for a
  proof -
    have "a \<notin> save_area t1" using that switch(3) by blast
    then show ?thesis using bspec [OF prepared that] by (simp add: saved_other)
  qed
  have w: "?sv (t + d) = ?A (t + d)" if "d \<in> {0, 4, 8, 12, 16, 20, 24, 28, 32}" for d
    by (rule sv) (use that in \<open>auto simp: save_area_def\<close>)
  have ne: "first_stackTop stk \<noteq> stk" by (simp add: first_stackTop_def)
  have A: "?A t = first_stackTop stk" "?A (t + 12) = enable" "?A (t + 24) = func" "?A (t + 16) = arg" "?A (t + 28) = fin"
    "?A (first_stackTop stk) = root"
    using apart ne by (auto simp: StackAllocate_mem_def save_area_def)
  have "?sv t = first_stackTop stk" using w [of 0] A(1) by simp
  then have "eip s0 = root" using s0(3) sv [of "first_stackTop stk"] A(6) by simp
  moreover have "i_regs s0 ECX = enable" "i_regs s0 ESI = func" "i_regs s0 EDX = arg" "i_regs s0 EDI = fin"
    using A(2-5) w by (simp_all add: s0(2) loaded_def)
  ultimately show ?thesis using s0(1) ThreadRoot_calls [of s0 enable func arg fin E ra1 ra2 ra3] enable func by blast
qed

text \<open>The store to \<^verbatim>\<open>4(%esp)\<close> lands one word above the return address, in the argument of the resumed call.\<close>

theorem SWITCH_overwrites_argument:
  assumes "at_SWITCH t1 t2 s" "{i_regs s ESP, i_regs s ESP + 8} \<inter> save_area t1 = {}" "save_area t2 \<inter> save_area t1 = {}"
    and "i_mem s t2 \<notin> save_area t1"
  shows "\<exists>s'. SWITCH s = Inr s' \<and> eip s' = i_mem s (i_mem s t2) \<and> i_mem s' (i_mem s t2 + 4) = i_mem s (t2 + 32)"
proof -
  have o: "a \<notin> save_area t1" if "a \<in> save_area t2" for a using that assms(3) by blast
  obtain s' where "SWITCH s = Inr s'" "eip s' = saved t1 s (i_mem s) (saved t1 s (i_mem s) t2)"
    "i_mem s' = (saved t1 s (i_mem s))(saved t1 s (i_mem s) t2 + 4 := saved t1 s (i_mem s) (t2 + 32))"
    by (rule SWITCH_eq [OF assms(1)]) (use assms(2) in auto)
  then show ?thesis using assms(4) o [of t2] o [of "t2 + 32"] by (simp add: saved_other save_area_def)
qed

section \<open>Two threads\<close>

text \<open>Threads at 1000 and 2000; the first calls \<^verbatim>\<open>SWITCH\<close> on a stack at 5000, the second is new, with its stack at 8000.\<close>

definition ex_regs :: "32 word \<Rightarrow> reg386 \<Rightarrow> 32 word" where
  "ex_regs sp r = (case r of ESP \<Rightarrow> sp | EAX \<Rightarrow> 1 | EBX \<Rightarrow> 2 | ECX \<Rightarrow> 3 | EDX \<Rightarrow> 4 | EBP \<Rightarrow> 5 | ESI \<Rightarrow> 6 | EDI \<Rightarrow> 7)"

definition ex_mem :: "32 word \<Rightarrow> 32 word" where
  "ex_mem = (StackAllocate_mem 100 200 300 2000 8000 400 9 (\<lambda>_. 0))(5000 := 77, 5004 := 1000, 5008 := 2000)"

definition ex_cpu :: i386 where
  "ex_cpu = \<lparr>i_regs = ex_regs 5000, i_mem = ex_mem, eax_save = 0, eip = 0\<rparr>"

lemma ex_at: "at_SWITCH 1000 2000 ex_cpu"
  by (simp add: at_SWITCH_def ex_cpu_def ex_regs_def ex_mem_def)

lemma ex_apart: "{i_regs ex_cpu ESP, i_regs ex_cpu ESP + 8} \<inter> save_area 1000 = {}" "save_area 2000 \<inter> save_area 1000 = {}"
    "i_mem ex_cpu 2000 + 4 \<notin> save_area 1000 \<union> {i_regs ex_cpu ESP}"
  by (simp_all add: save_area_def ex_cpu_def ex_regs_def ex_mem_def StackAllocate_mem_def first_stackTop_def)

text \<open>The second thread switches back from its own stack.\<close>

theorem SWITCH_resumes_witness:
  "\<exists>s1 s3. SWITCH ex_cpu = Inr s1 \<and>
     SWITCH (s1\<lparr>i_mem := (i_mem s1)(24000 := 88, 24004 := 2000, 24008 := 1000), i_regs := (i_regs s1)(ESP := 24000)\<rparr>) = Inr s3 \<and>
     eip s3 = 77 \<and> i_regs s3 = (ex_regs 5000)(ESP := 5004)"
proof -
  obtain s1 where s1: "SWITCH ex_cpu = Inr s1"
    by (rule SWITCH_eq [OF ex_at]) (use ex_apart(1) in auto)
  let ?s2 = "s1\<lparr>i_mem := (i_mem s1)(24000 := 88, 24004 := 2000, 24008 := 1000), i_regs := (i_regs s1)(ESP := 24000)\<rparr>"
  have e: "i_regs ex_cpu ESP = 5000" "i_mem ex_cpu 5000 = 77" "i_regs ex_cpu = ex_regs 5000"
    by (simp_all add: ex_cpu_def ex_regs_def ex_mem_def)
  have "\<exists>s3. SWITCH ?s2 = Inr s3 \<and> eip s3 = i_mem ex_cpu (i_regs ex_cpu ESP) \<and> i_regs s3 = (i_regs ex_cpu)(ESP := i_regs ex_cpu ESP + 4)"
    by (rule SWITCH_resumes [OF ex_at s1 ex_apart, of ?s2 2000]) (simp_all add: save_area_def at_SWITCH_def e ex_regs_def)
  then show ?thesis using s1 e by simp
qed

text \<open>The function puts its argument into \<^verbatim>\<open>eax\<close>, and the function called when it is done stops.\<close>

definition ex_callee :: callee where
  "ex_callee f s = (if f = 300 then Inl Exited else Inr (s\<lparr>i_regs := (i_regs s)(ESP := i_regs s ESP + 4, EAX := i_mem s (i_regs s ESP + 4))\<rparr>))"

theorem forked_thread_runs_witness:
  "\<exists>s0 sb. SWITCH ex_cpu = Inr s0 \<and> eip s0 = 100 \<and> run386 ex_callee (take 5 (ThreadRoot_code 110 120 130)) s0 = ex_callee 400 sb \<and>
     i_mem sb (i_regs sb ESP + 4) = 9 \<and> run386 ex_callee (ThreadRoot_code 110 120 130) s0 = Inl Exited"
proof -
  have "\<forall>a \<in> save_area 2000 \<union> {first_stackTop 8000}. i_mem ex_cpu a = StackAllocate_mem 100 200 300 2000 8000 400 9 (\<lambda>_. 0) a"
    by (simp add: save_area_def first_stackTop_def ex_cpu_def ex_mem_def)
  moreover have "{first_stackTop 8000, 8000} \<inter> save_area 2000 = {}" "save_area 1000 \<inter> (save_area 2000 \<union> {first_stackTop 8000}) = {}"
    by (simp_all add: save_area_def first_stackTop_def)
  moreover have "\<forall>s. \<exists>s'. ex_callee 200 s = Inr s' \<and> cdecl s s' \<and> i_mem s' (i_regs s ESP + 4) = i_mem s (i_regs s ESP + 4)"
    "\<forall>s. \<exists>s'. ex_callee 400 s = Inr s' \<and> cdecl s s'" by (simp_all add: ex_callee_def cdecl_def)
  ultimately obtain s0 where "SWITCH ex_cpu = Inr s0" "eip s0 = 100" "calls_in_turn ex_callee 110 120 130 200 400 9 300 s0"
    using ex_at ex_apart(1) forked_thread_runs [of 2000 8000 ex_cpu 100 200 300 400 9 "\<lambda>_. 0" 1000 ex_callee 110 120 130] by blast
  moreover have "ex_callee 300 s = Inl Exited" for s by (simp add: ex_callee_def)
  ultimately show ?thesis unfolding calls_in_turn_def by auto
qed

end
