(* ===== verification/Network_Mail.thy ===== *)
theory Network_Mail
  imports Host_Stub
begin

text \<open>
  The network device of \<^verbatim>\<open>machine/network.cc\<close> and the post office of \<^verbatim>\<open>network/post.cc\<close>, on several machines at
  once. The sockets of the host are a parameter: datagrams to a name arrive there whole and in order. Whether
  a packet is dropped by the device, by a random number against the reliability, is an input of each transmission.

  Shown: what is read from a mailbox is what was sent to it and not dropped, in order and unaltered.
\<close>

section \<open>Sockets\<close>

record 'h Sockets =
  posix :: "'h Posix"
  h_socket :: "'h \<Rightarrow> 'h \<times> int"
  h_bind :: "int \<Rightarrow> byte list \<Rightarrow> 'h \<Rightarrow> 'h \<times> int"
  h_sendto :: "int \<Rightarrow> byte list \<Rightarrow> byte list \<Rightarrow> 'h \<Rightarrow> 'h \<times> int"
  h_recvfrom :: "int \<Rightarrow> int \<Rightarrow> 'h \<Rightarrow> 'h \<times> int \<times> byte list"

definition OpenSocket :: "'h Sockets \<Rightarrow> 'h \<Rightarrow> ('h \<times> int) result" where
  "OpenSocket S h = (let (h, sockID) = h_socket S h in ASSERT (sockID \<ge> 0) (Inr (h, sockID)))"

definition AssignNameToSocket :: "'h Sockets \<Rightarrow> byte list \<Rightarrow> int \<Rightarrow> 'h \<Rightarrow> 'h result" where
  "AssignNameToSocket S socketName sockID h =
     (let h = fst (h_unlink (posix S) socketName h); (h, retVal) = h_bind S sockID socketName h in ASSERT (retVal \<ge> 0) (Inr h))"

definition PollSocket :: "'h Sockets \<Rightarrow> int \<Rightarrow> 'h \<Rightarrow> ('h \<times> bool) result" where
  "PollSocket S sockID h = PollFile (posix S) sockID h"

definition ReadFromSocket :: "'h Sockets \<Rightarrow> int \<Rightarrow> int \<Rightarrow> 'h \<Rightarrow> ('h \<times> byte list) result" where
  "ReadFromSocket S sockID packetSize h =
     (let (h, retVal, buffer) = h_recvfrom S sockID packetSize h in ASSERT (retVal = packetSize) (Inr (h, buffer)))"

definition SendToSocket :: "'h Sockets \<Rightarrow> int \<Rightarrow> byte list \<Rightarrow> byte list \<Rightarrow> 'h \<Rightarrow> 'h result" where
  "SendToSocket S sockID buffer toName h =
     (let (h, retVal) = h_sendto S sockID buffer toName h in ASSERT (retVal = int (length buffer)) (Inr h))"

section \<open>Headers\<close>

text \<open>The addresses of machines and mailboxes are \<^verbatim>\<open>int\<close>s, the lengths \<^verbatim>\<open>unsigned\<close>.\<close>

record PacketHeader =
  ph_to :: "32 word"
  ph_from :: "32 word"
  ph_length :: "32 word"

record MailHeader =
  mh_to :: "32 word"
  mh_from :: "32 word"
  mh_length :: "32 word"

abbreviation (input) MaxWireSize :: nat where "MaxWireSize \<equiv> 64"
abbreviation (input) MaxPacketSize :: nat where "MaxPacketSize \<equiv> 52"
abbreviation (input) MaxMailSize :: nat where "MaxMailSize \<equiv> 40"

definition PacketHeader_bytes :: "PacketHeader \<Rightarrow> byte list" where
  "PacketHeader_bytes p = word_bytes (ph_to p) @ word_bytes (ph_from p) @ word_bytes (ph_length p)"

definition PacketHeader_of :: "byte list \<Rightarrow> PacketHeader" where
  "PacketHeader_of bs = \<lparr>ph_to = bytes_word (slice 0 4 bs), ph_from = bytes_word (slice 4 4 bs), ph_length = bytes_word (slice 8 4 bs)\<rparr>"

definition MailHeader_bytes :: "MailHeader \<Rightarrow> byte list" where
  "MailHeader_bytes m = word_bytes (mh_to m) @ word_bytes (mh_from m) @ word_bytes (mh_length m)"

definition MailHeader_of :: "byte list \<Rightarrow> MailHeader" where
  "MailHeader_of bs = \<lparr>mh_to = bytes_word (slice 0 4 bs), mh_from = bytes_word (slice 4 4 bs), mh_length = bytes_word (slice 8 4 bs)\<rparr>"

text \<open>A message; of its data array only the first \<^verbatim>\<open>mailHdr.length\<close> bytes are ever used, and kept.\<close>

record Mail =
  pktHdr :: PacketHeader
  mailHdr :: MailHeader
  mail_data :: "byte list"

section \<open>The network device\<close>

text \<open>\<^verbatim>\<open>sprintf\<close> of a decimal number, and the name of the socket of a machine.\<close>

fun digits :: "nat \<Rightarrow> byte list" where
  "digits n = (if n < 10 then [] else digits (n div 10)) @ [48 + of_nat (n mod 10)]"

declare digits.simps [simp del]

definition print_d :: "int \<Rightarrow> byte list" where
  "print_d i = (if i < 0 then 45 # digits (nat (- i)) else digits (nat i))"

definition sockName :: "32 word \<Rightarrow> byte list" where
  "sockName addr = [0x53, 0x4F, 0x43, 0x4B, 0x45, 0x54, 0x5F] @ print_d (sint addr)"

text \<open>\<open>net_due\<close> counts the \<^verbatim>\<open>NetworkSendDone\<close> interrupts that are pending; a poll for packets always is.\<close>

record Network =
  ident :: "32 word"
  sock :: int
  sendBusy :: bool
  inHdr :: PacketHeader
  inbox :: "byte list"
  net_due :: nat
  numPacketsRecvd :: nat
  numPacketsSent :: nat

text \<open>The arrays and the addresses of the header are not initialised: \<open>hdr0\<close> and \<open>box0\<close>.\<close>

definition new_Network :: "'h Sockets \<Rightarrow> 32 word \<Rightarrow> PacketHeader \<Rightarrow> byte list \<Rightarrow> 'h \<Rightarrow> ('h \<times> Network) result" where
  "new_Network S addr hdr0 box0 h =
     bindE (OpenSocket S h) (\<lambda>(h, s).
     bindE (AssignNameToSocket S (sockName addr) s h) (\<lambda>h.
     Inr (h, \<lparr>ident = addr, sock = s, sendBusy = False, inHdr = hdr0\<lparr>ph_length := 0\<rparr>, inbox = box0, net_due = 0,
              numPacketsRecvd = 0, numPacketsSent = 0\<rparr>)))"

text \<open>The flag says whether the read handler is called.\<close>

definition CheckPktAvail :: "'h Sockets \<Rightarrow> 'h \<Rightarrow> Network \<Rightarrow> ('h \<times> Network \<times> bool) result" where
  "CheckPktAvail S h n =
     (if ph_length (inHdr n) \<noteq> 0 then Inr (h, n, False)
      else bindE (PollSocket S (sock n) h) (\<lambda>(h, r).
        if \<not> r then Inr (h, n, False)
        else bindE (ReadFromSocket S (sock n) (int MaxWireSize) h) (\<lambda>(h, buffer).
          let hdr = PacketHeader_of buffer in
          ASSERT (ph_to hdr = ident n \<and> unat (ph_length hdr) \<le> MaxPacketSize)
            (Inr (h, n\<lparr>inHdr := hdr, inbox := blit (slice 12 (unat (ph_length hdr)) buffer) (inbox n) 0,
                       numPacketsRecvd := numPacketsRecvd n + 1\<rparr>, True)))))"

definition SendDone :: "Network \<Rightarrow> Network" where
  "SendDone n = n\<lparr>sendBusy := False, numPacketsSent := numPacketsSent n + 1\<rparr>"

text \<open>\<open>lost\<close> is \<^verbatim>\<open>Random() % 100 >= chanceToWork * 100\<close>; \<open>junk\<close> is the content of the fresh buffer.\<close>

definition Network_Send :: "'h Sockets \<Rightarrow> PacketHeader \<Rightarrow> byte list \<Rightarrow> bool \<Rightarrow> byte list \<Rightarrow> 'h \<Rightarrow> Network \<Rightarrow> ('h \<times> Network) result" where
  "Network_Send S hdr dat lost junk h n =
     ASSERT (sendBusy n = False \<and> ph_length hdr > 0 \<and> unat (ph_length hdr) \<le> MaxPacketSize \<and> ph_from hdr = ident n)
       (let n = n\<lparr>net_due := net_due n + 1\<rparr> in
        if lost then Inr (h, n)
        else if length dat < unat (ph_length hdr) then Inl BadAccess
        else bindE (SendToSocket S (sock n) (blit (take (unat (ph_length hdr)) dat) (blit (PacketHeader_bytes hdr) junk 0) 12) (sockName (ph_to hdr)) h)
               (\<lambda>h. Inr (h, n)))"

definition Network_Receive :: "byte list \<Rightarrow> Network \<Rightarrow> Network \<times> PacketHeader \<times> byte list" where
  "Network_Receive dat n =
     (let hdr = inHdr n; n = n\<lparr>inHdr := hdr\<lparr>ph_length := 0\<rparr>\<rparr> in
      (n, hdr, if ph_length hdr \<noteq> 0 then blit (take (unat (ph_length hdr)) (inbox n)) dat 0 else dat))"

section \<open>The post office\<close>

text \<open>
  Where the two kinds of threads that run inside the post office are. The lock and the two semaphores are given by who
  holds the lock and by their values; only the thread that holds the lock is inside \<^verbatim>\<open>Send\<close> past \<^verbatim>\<open>Acquire\<close>.
\<close>

datatype sender =
    AtSend PacketHeader MailHeader "byte list" "byte list"
  | AtWait
  | AtRelease

datatype worker = AtP | AtReceive | AtPut PacketHeader

record PostOffice =
  network :: Network
  netAddr :: "32 word"
  boxes :: "Mail list list"
  messageAvailable :: nat
  messageSent :: nat
  sendLock :: "sender option"
  po_worker :: worker
  po_buffer :: "byte list"

abbreviation numBoxes :: "PostOffice \<Rightarrow> int" where
  "numBoxes po \<equiv> int (length (boxes po))"

text \<open>The postal worker is forked and allocates its buffer, with some content.\<close>

definition new_PostOffice ::
  "'h Sockets \<Rightarrow> 32 word \<Rightarrow> nat \<Rightarrow> PacketHeader \<Rightarrow> byte list \<Rightarrow> byte list \<Rightarrow> 'h \<Rightarrow> ('h \<times> PostOffice) result" where
  "new_PostOffice S addr nBoxes hdr0 box0 buf0 h =
     bindE (new_Network S addr hdr0 box0 h) (\<lambda>(h, n).
     Inr (h, \<lparr>network = n, netAddr = addr, boxes = replicate nBoxes [], messageAvailable = 0, messageSent = 0, sendLock = None,
              po_worker = AtP, po_buffer = buf0\<rparr>))"

definition new_Mail :: "PacketHeader \<Rightarrow> MailHeader \<Rightarrow> byte list \<Rightarrow> Mail result" where
  "new_Mail pktH mailH msgData =
     ASSERT (unat (mh_length mailH) \<le> MaxMailSize)
       (if length msgData < unat (mh_length mailH) then Inl BadAccess
        else Inr \<lparr>pktHdr = pktH, mailHdr = mailH, mail_data = take (unat (mh_length mailH)) msgData\<rparr>)"

definition MailBox_Put :: "PacketHeader \<Rightarrow> MailHeader \<Rightarrow> byte list \<Rightarrow> Mail list \<Rightarrow> Mail list result" where
  "MailBox_Put pktH mailH dat messages = bindE (new_Mail pktH mailH dat) (\<lambda>mail. Inr (messages @ [mail]))"

definition MailBox_Get :: "Mail list \<Rightarrow> (Mail list \<times> Mail) result" where
  "MailBox_Get messages = (case messages of [] \<Rightarrow> Inl Blocked | mail # rest \<Rightarrow> Inr (rest, mail))"

text \<open>One step of the worker: \<^verbatim>\<open>P\<close>, then \<^verbatim>\<open>Receive\<close> into the buffer, then \<^verbatim>\<open>Put\<close>.\<close>

definition PostalDelivery_step :: "PostOffice \<Rightarrow> PostOffice result" where
  "PostalDelivery_step po =
     (case po_worker po of
        AtP \<Rightarrow> if messageAvailable po = 0 then Inl Blocked
               else Inr (po\<lparr>messageAvailable := messageAvailable po - 1, po_worker := AtReceive\<rparr>)
      | AtReceive \<Rightarrow>
          (let (n, hdr, buffer) = Network_Receive (po_buffer po) (network po) in
           Inr (po\<lparr>network := n, po_buffer := buffer, po_worker := AtPut hdr\<rparr>))
      | AtPut hdr \<Rightarrow>
          (let mh = MailHeader_of (po_buffer po) in
           ASSERT (0 \<le> sint (mh_to mh) \<and> sint (mh_to mh) < numBoxes po) (ASSERT (unat (mh_length mh) \<le> MaxMailSize)
             (let i = nat (sint (mh_to mh)) in
              bindE (MailBox_Put hdr mh (drop 12 (po_buffer po)) (boxes po ! i)) (\<lambda>box.
              Inr (po\<lparr>boxes := (boxes po)[i := box], po_worker := AtP\<rparr>))))))"

text \<open>\<^verbatim>\<open>Send\<close> up to the acquisition of the lock.\<close>

definition PostOffice_Send :: "PacketHeader \<Rightarrow> MailHeader \<Rightarrow> byte list \<Rightarrow> byte list \<Rightarrow> PostOffice \<Rightarrow> PostOffice result" where
  "PostOffice_Send pktH mailH dat junk po =
     ASSERT (unat (mh_length mailH) \<le> MaxMailSize) (ASSERT (0 \<le> sint (mh_to mailH) \<and> sint (mh_to mailH) < numBoxes po)
       (if length dat < unat (mh_length mailH) then Inl BadAccess
        else let pktH = pktH\<lparr>ph_from := netAddr po, ph_length := mh_length mailH + 12\<rparr>;
                 buffer = blit (take (unat (mh_length mailH)) dat) (blit (MailHeader_bytes mailH) junk 0) 12 in
             (case sendLock po of None \<Rightarrow> Inr (po\<lparr>sendLock := Some (AtSend pktH mailH dat buffer)\<rparr>) | Some _ \<Rightarrow> Inl Blocked)))"

text \<open>The rest of \<^verbatim>\<open>Send\<close>: the transmission, the wait for the interrupt, the release of the lock.\<close>

definition Send_transmit :: "'h Sockets \<Rightarrow> bool \<Rightarrow> byte list \<Rightarrow> 'h \<Rightarrow> PostOffice \<Rightarrow> ('h \<times> PostOffice) result" where
  "Send_transmit S lost junk h po =
     (case sendLock po of
        Some (AtSend pktH mailH dat buffer) \<Rightarrow>
          bindE (Network_Send S pktH buffer lost junk h (network po)) (\<lambda>(h, n).
          Inr (h, po\<lparr>network := n, sendLock := Some AtWait\<rparr>))
      | _ \<Rightarrow> Inl Blocked)"

definition Send_wait :: "PostOffice \<Rightarrow> PostOffice result" where
  "Send_wait po =
     (if sendLock po = Some AtWait \<and> messageSent po > 0
      then Inr (po\<lparr>messageSent := messageSent po - 1, sendLock := Some AtRelease\<rparr>) else Inl Blocked)"

definition Send_release :: "PostOffice \<Rightarrow> PostOffice result" where
  "Send_release po = (if sendLock po = Some AtRelease then Inr (po\<lparr>sendLock := None\<rparr>) else Inl Blocked)"

definition PostOffice_Receive :: "int \<Rightarrow> PostOffice \<Rightarrow> (PostOffice \<times> Mail) result" where
  "PostOffice_Receive box po =
     ASSERT (box \<ge> 0 \<and> box < numBoxes po)
       (bindE (MailBox_Get (boxes po ! nat box)) (\<lambda>(rest, mail).
        ASSERT (unat (mh_length (mailHdr mail)) \<le> MaxMailSize) (Inr (po\<lparr>boxes := (boxes po)[nat box := rest]\<rparr>, mail))))"

definition IncomingPacket :: "PostOffice \<Rightarrow> PostOffice" where
  "IncomingPacket po = po\<lparr>messageAvailable := messageAvailable po + 1\<rparr>"

definition PacketSent :: "PostOffice \<Rightarrow> PostOffice" where
  "PacketSent po = po\<lparr>messageSent := messageSent po + 1\<rparr>"

text \<open>The interrupts of the device with the handlers of the post office.\<close>

definition NetworkReadPoll :: "'h Sockets \<Rightarrow> 'h \<Rightarrow> PostOffice \<Rightarrow> ('h \<times> PostOffice) result" where
  "NetworkReadPoll S h po =
     bindE (CheckPktAvail S h (network po)) (\<lambda>(h, n, called).
     let po = po\<lparr>network := n\<rparr> in Inr (h, if called then IncomingPacket po else po))"

definition NetworkSendDone :: "PostOffice \<Rightarrow> PostOffice result" where
  "NetworkSendDone po =
     (let n = network po in
      if net_due n = 0 then Inl Blocked else Inr (PacketSent (po\<lparr>network := SendDone (n\<lparr>net_due := net_due n - 1\<rparr>)\<rparr>)))"

section \<open>Machines on a network\<close>

text \<open>Each machine sees the sockets of the host through its own descriptors.\<close>

record 'h Lan =
  lan_host :: 'h
  office :: "32 word \<Rightarrow> PostOffice"

datatype lan_act =
    Call_Send PacketHeader MailHeader "byte list" "byte list"
  | Transmit bool "byte list"
  | Wait_sent
  | Release
  | Poll
  | Send_done
  | Work
  | Call_Receive int

datatype lan_event = Sent "32 word" Mail | Got "32 word" int Mail

fun lan_do :: "'h Sockets \<Rightarrow> lan_act \<Rightarrow> 32 word \<Rightarrow> 'h \<times> PostOffice \<Rightarrow> (('h \<times> PostOffice) \<times> lan_event list) result" where
  "lan_do S (Call_Send p m dat junk) a (h, po) = bindE (PostOffice_Send p m dat junk po) (\<lambda>po. Inr ((h, po), []))"
| "lan_do S (Transmit lost junk) a (h, po) =
     bindE (Send_transmit S lost junk h po) (\<lambda>r. Inr (r, case sendLock po of
       Some (AtSend p m dat _) \<Rightarrow> if lost then [] else [Sent (ph_to p) \<lparr>pktHdr = p, mailHdr = m, mail_data = take (unat (mh_length m)) dat\<rparr>]
     | _ \<Rightarrow> []))"
| "lan_do S Wait_sent a (h, po) = bindE (Send_wait po) (\<lambda>po. Inr ((h, po), []))"
| "lan_do S Release a (h, po) = bindE (Send_release po) (\<lambda>po. Inr ((h, po), []))"
| "lan_do S Poll a (h, po) = bindE (NetworkReadPoll S h po) (\<lambda>r. Inr (r, []))"
| "lan_do S Send_done a (h, po) = bindE (NetworkSendDone po) (\<lambda>po. Inr ((h, po), []))"
| "lan_do S Work a (h, po) = bindE (PostalDelivery_step po) (\<lambda>po. Inr ((h, po), []))"
| "lan_do S (Call_Receive box) a (h, po) = bindE (PostOffice_Receive box po) (\<lambda>(po, mail). Inr ((h, po), [Got a box mail]))"

text \<open>What the machines do, in any order; \<open>A\<close> are the addresses in use. Fresh buffers have the size the code asks for.\<close>

fun act_ok :: "32 word set \<Rightarrow> lan_act \<Rightarrow> bool" where
  "act_ok A (Call_Send p m dat junk) \<longleftrightarrow> ph_to p \<in> A \<and> length junk = MaxPacketSize"
| "act_ok A (Transmit lost junk) \<longleftrightarrow> length junk = MaxWireSize"
| "act_ok A _ \<longleftrightarrow> True"

inductive lan_runs :: "(32 word \<Rightarrow> 'h Sockets) \<Rightarrow> 32 word set \<Rightarrow> 'h Lan \<Rightarrow> lan_event list \<Rightarrow> 'h Lan \<Rightarrow> bool" for S A s0 where
  start: "lan_runs S A s0 [] s0"
| step: "lan_runs S A s0 evs s \<Longrightarrow> a \<in> A \<Longrightarrow> act_ok A act \<Longrightarrow> lan_do (S a) act a (lan_host s, office s a) = Inr ((h', po'), ev) \<Longrightarrow>
    lan_runs S A s0 (evs @ ev) (s\<lparr>lan_host := h', office := (office s)(a := po')\<rparr>)"

fun sents :: "32 word \<Rightarrow> lan_event list \<Rightarrow> Mail list" where
  "sents d [] = []"
| "sents d (Sent t m # evs) = (if t = d then m # sents d evs else sents d evs)"
| "sents d (Got _ _ _ # evs) = sents d evs"

fun gots :: "32 word \<Rightarrow> nat \<Rightarrow> lan_event list \<Rightarrow> Mail list" where
  "gots d k [] = []"
| "gots d k (Got a box m # evs) = (if a = d \<and> box = int k then m # gots d k evs else gots d k evs)"
| "gots d k (Sent _ _ # evs) = gots d k evs"

definition in_box :: "nat \<Rightarrow> Mail \<Rightarrow> bool" where
  "in_box k m \<longleftrightarrow> sint (mh_to (mailHdr m)) = int k"

text \<open>
  What the code relies on: \<open>q h name\<close> are the datagrams that wait at a name in the host state \<open>h\<close>. Sending to a name in
  use appends one, polling tells whether there is one, receiving takes the first.
\<close>

definition datagrams :: "('h \<Rightarrow> byte list \<Rightarrow> byte list list) \<Rightarrow> byte list set \<Rightarrow> 'h Sockets \<Rightarrow> int \<Rightarrow> byte list \<Rightarrow> bool" where
  "datagrams q names S fd own \<longleftrightarrow>
     (\<forall>h b nm. nm \<in> names \<longrightarrow> (case h_sendto S fd b nm h of (h', r) \<Rightarrow> r = int (length b) \<and> q h' = (q h)(nm := q h nm @ [b]))) \<and>
     (\<forall>h. case h_select (posix S) fd h of (h', r) \<Rightarrow> r = (if q h own = [] then 0 else 1) \<and> q h' = q h) \<and>
     (\<forall>h b bs. q h own = b # bs \<longrightarrow> (case h_recvfrom S fd (int (length b)) h of (h', r, d) \<Rightarrow>
        r = int (length b) \<and> d = b \<and> q h' = (q h)(own := bs)))"

section \<open>Names\<close>

fun digits_value :: "byte list \<Rightarrow> nat" where
  "digits_value bs = foldl (\<lambda>v b. 10 * v + (unat b - 48)) 0 bs"

lemma digit_value: "d < 10 \<Longrightarrow> unat (48 + of_nat d :: byte) = 48 + d"
  by (simp add: unat_add_lem [THEN iffD1] unat_of_nat)

lemma digits_value_digits: "digits_value (digits n) = n"
proof (induction n rule: digits.induct)
  case (1 n)
  show ?case
  proof (cases "n < 10")
    case True
    then show ?thesis by (simp add: digits.simps [of n] digit_value)
  next
    case False
    have "n mod 10 < 10" by simp
    then show ?thesis using False 1 by (simp add: digits.simps [of n] digit_value)
  qed
qed

lemma digits_head: "\<exists>b bs. digits n = b # bs \<and> 48 \<le> unat b"
proof (induction n rule: digits.induct)
  case (1 n)
  have "n mod 10 < 10" by simp
  then show ?case using 1 digit_value [of "n mod 10"] by (cases "n < 10") (auto simp: digits.simps [of n] digit_value)
qed

lemma print_d_inj: "print_d i = print_d j \<Longrightarrow> i = j"
proof -
  have h: "digits n \<noteq> 45 # bs" for n bs using digits_head [of n] by auto
  have d: "digits m = digits n \<Longrightarrow> m = n" for m n using digits_value_digits by metis
  show "print_d i = print_d j \<Longrightarrow> i = j"
    using h d [of "nat (- i)" "nat (- j)"] d [of "nat i" "nat j"] h [symmetric] by (auto simp: print_d_def split: if_splits)
qed

lemma sockName_inj: "sockName a = sockName b \<longleftrightarrow> a = b"
  by (auto simp: sockName_def dest!: print_d_inj intro: signed_word_eqI)

section \<open>Headers in buffers\<close>

lemma MailHeader_prefix: "12 \<le> n \<Longrightarrow> MailHeader_of (take n bs) = MailHeader_of bs"
  by (simp add: MailHeader_of_def slice_def drop_take)

lemma header_roundtrip:
  "length p = 12 \<Longrightarrow> 12 \<le> length junk \<Longrightarrow> take 12 (blit src (blit p junk 0) 12) = p"
  by (simp add: blit_def)

lemma PacketHeader_roundtrip: "PacketHeader_of (PacketHeader_bytes p @ bs) = p"
  by (simp add: PacketHeader_of_def PacketHeader_bytes_def slice_def)

lemma MailHeader_roundtrip: "MailHeader_of (MailHeader_bytes m @ bs) = m"
  by (simp add: MailHeader_of_def MailHeader_bytes_def slice_def)

lemma length_headers [simp]: "length (PacketHeader_bytes p) = 12" "length (MailHeader_bytes m) = 12"
  by (simp_all add: PacketHeader_bytes_def MailHeader_bytes_def)

text \<open>A packet: the header and the bytes that follow it, with a mail header and data.\<close>

definition pkt_mail :: "PacketHeader \<Rightarrow> byte list \<Rightarrow> Mail" where
  "pkt_mail hdr buf = (let mh = MailHeader_of buf in \<lparr>pktHdr = hdr, mailHdr = mh, mail_data = take (unat (mh_length mh)) (drop 12 buf)\<rparr>)"

definition pkt_ok :: "nat \<Rightarrow> 32 word \<Rightarrow> PacketHeader \<Rightarrow> byte list \<Rightarrow> bool" where
  "pkt_ok N a hdr buf \<longleftrightarrow> length buf = MaxPacketSize \<and> ph_to hdr = a \<and>
     (let mh = MailHeader_of buf in ph_length hdr = mh_length mh + 12 \<and> unat (mh_length mh) \<le> MaxMailSize \<and>
        0 \<le> sint (mh_to mh) \<and> sint (mh_to mh) < int N)"

lemma pkt_length: "pkt_ok N a hdr buf \<Longrightarrow> unat (ph_length hdr) = unat (mh_length (MailHeader_of buf)) + 12 \<and>
    ph_length hdr \<noteq> 0 \<and> unat (ph_length hdr) \<le> MaxPacketSize"
proof -
  assume a: "pkt_ok N a hdr buf"
  then have l: "unat (mh_length (MailHeader_of buf)) \<le> 40" "ph_length hdr = mh_length (MailHeader_of buf) + 12"
    by (simp_all add: pkt_ok_def Let_def)
  then have "unat (mh_length (MailHeader_of buf) + 12) = unat (mh_length (MailHeader_of buf)) + 12"
    by (subst unat_add_lem [THEN iffD1]) simp_all
  then show ?thesis using l by (auto simp: word_neq_0_conv simp flip: unat_eq_zero)
qed

text \<open>Only the bytes up to the length of the packet count.\<close>

lemma pkt_prefix:
  assumes "pkt_ok N a hdr buf" "length buf' = MaxPacketSize" "take (unat (ph_length hdr)) buf' = take (unat (ph_length hdr)) buf"
  shows "pkt_ok N a hdr buf'" "pkt_mail hdr buf' = pkt_mail hdr buf"
proof -
  note l = pkt_length [OF assms(1)]
  have m: "MailHeader_of buf' = MailHeader_of buf"
    using assms(3) MailHeader_prefix [of "unat (ph_length hdr)"] l by (metis le_add2)
  then show "pkt_ok N a hdr buf'" using assms(1,2) by (simp add: pkt_ok_def)
  have "take k (drop 12 b) = drop 12 (take (k + 12) b)" for k and b :: "byte list" by (simp add: drop_take)
  then show "pkt_mail hdr buf' = pkt_mail hdr buf" using assms(3) l by (simp add: pkt_mail_def m)
qed

section \<open>The state of a post office\<close>

definition sender_inv :: "nat \<Rightarrow> 32 word set \<Rightarrow> 32 word \<Rightarrow> sender option \<Rightarrow> bool" where
  "sender_inv N A a l \<longleftrightarrow> (case l of
     Some (AtSend p m dat buf) \<Rightarrow> ph_to p \<in> A \<and> ph_from p = a \<and> pkt_ok N (ph_to p) p buf \<and>
       pkt_mail p buf = \<lparr>pktHdr = p, mailHdr = m, mail_data = take (unat (mh_length m)) dat\<rparr>
   | _ \<Rightarrow> True)"

text \<open>The semaphore of the worker counts the packet in the inbox, unless the worker is about to fetch it.\<close>

definition worker_inv :: "nat \<Rightarrow> 32 word \<Rightarrow> PostOffice \<Rightarrow> bool" where
  "worker_inv N a po \<longleftrightarrow>
     (case po_worker po of
        AtReceive \<Rightarrow> ph_length (inHdr (network po)) \<noteq> 0 \<and> messageAvailable po = 0
      | w \<Rightarrow> messageAvailable po = (if ph_length (inHdr (network po)) \<noteq> 0 then 1 else 0)) \<and>
     (\<forall>hdr. po_worker po = AtPut hdr \<longrightarrow> pkt_ok N a hdr (po_buffer po)) \<and>
     (ph_length (inHdr (network po)) \<noteq> 0 \<longrightarrow> pkt_ok N a (inHdr (network po)) (inbox (network po)))"

definition po_inv :: "nat \<Rightarrow> 32 word set \<Rightarrow> int \<Rightarrow> 32 word \<Rightarrow> PostOffice \<Rightarrow> bool" where
  "po_inv N A fd a po \<longleftrightarrow>
     ident (network po) = a \<and> sock (network po) = fd \<and> netAddr po = a \<and> \<not> sendBusy (network po) \<and>
     length (boxes po) = N \<and> length (inbox (network po)) = MaxPacketSize \<and> length (po_buffer po) = MaxPacketSize \<and>
     sender_inv N A a (sendLock po) \<and> worker_inv N a po \<and>
     (\<forall>b \<in> set (boxes po). \<forall>m \<in> set b. unat (mh_length (mailHdr m)) \<le> MaxMailSize)"

definition wire_mail :: "byte list \<Rightarrow> Mail" where
  "wire_mail b = pkt_mail (PacketHeader_of b) (drop 12 b)"

definition wire_ok :: "nat \<Rightarrow> 32 word \<Rightarrow> byte list \<Rightarrow> bool" where
  "wire_ok N a b \<longleftrightarrow> length b = MaxWireSize \<and> pkt_ok N a (PacketHeader_of b) (drop 12 b)"

text \<open>The messages under way to a machine, with the datagrams \<open>bs\<close> that wait in its socket.\<close>

definition transit :: "PostOffice \<Rightarrow> byte list list \<Rightarrow> Mail list" where
  "transit po bs =
     (case po_worker po of AtPut hdr \<Rightarrow> [pkt_mail hdr (po_buffer po)] | _ \<Rightarrow> []) @
     (if ph_length (inHdr (network po)) \<noteq> 0 then [pkt_mail (inHdr (network po)) (inbox (network po))] else []) @ map wire_mail bs"

definition flow :: "nat \<Rightarrow> 32 word \<Rightarrow> PostOffice \<Rightarrow> byte list list \<Rightarrow> lan_event list \<Rightarrow> bool" where
  "flow N a po bs evs \<longleftrightarrow> (\<forall>k < N. filter (in_box k) (sents a evs) = gots a k evs @ boxes po ! k @ filter (in_box k) (transit po bs))"

lemma sents_append [simp]: "sents d (xs @ ys) = sents d xs @ sents d ys"
  by (induction d xs rule: sents.induct) simp_all

lemma gots_append [simp]: "gots d k (xs @ ys) = gots d k xs @ gots d k ys"
  by (induction d k xs rule: gots.induct) simp_all

lemma prepared_packet:
  assumes "unat (mh_length m) \<le> MaxMailSize" "unat (mh_length m) \<le> length dat" "length junk = MaxPacketSize"
    and "0 \<le> sint (mh_to m)" "sint (mh_to m) < int N" "ph_to p = t" "ph_length p = mh_length m + 12"
  defines "buf \<equiv> blit (take (unat (mh_length m)) dat) (blit (MailHeader_bytes m) junk 0) 12"
  shows "pkt_ok N t p buf" "pkt_mail p buf = \<lparr>pktHdr = p, mailHdr = m, mail_data = take (unat (mh_length m)) dat\<rparr>"
proof -
  have l: "length (take (unat (mh_length m)) dat) = unat (mh_length m)" using assms(2) by simp
  have b: "buf = MailHeader_bytes m @ take (unat (mh_length m)) dat @ drop (24 + unat (mh_length m)) (MailHeader_bytes m @ junk)"
    using assms(1,3) l unfolding buf_def by (simp add: blit_def add.commute)
  have m: "MailHeader_of buf = m" using MailHeader_roundtrip unfolding b .
  have "length buf = MaxPacketSize" using assms(1,3) l unfolding b by simp
  then show "pkt_ok N t p buf" using assms(1,4-7) m by (simp add: pkt_ok_def)
  show "pkt_mail p buf = \<lparr>pktHdr = p, mailHdr = m, mail_data = take (unat (mh_length m)) dat\<rparr>"
    using l m by (simp add: pkt_mail_def) (simp add: b)
qed

lemma transmitted_packet:
  assumes "pkt_ok N t p buf" "length junk = MaxWireSize"
  defines "b \<equiv> blit (take (unat (ph_length p)) buf) (blit (PacketHeader_bytes p) junk 0) 12"
  shows "wire_ok N t b" "wire_mail b = pkt_mail p buf"
proof -
  let ?L = "unat (ph_length p)"
  note l = pkt_length [OF assms(1)]
  have lb: "length buf = MaxPacketSize" using assms(1) by (simp add: pkt_ok_def)
  have tl: "length (take ?L buf) = ?L" using l lb by simp
  have b: "b = PacketHeader_bytes p @ take ?L buf @ drop (24 + ?L) (PacketHeader_bytes p @ junk)"
    using assms(2) l tl unfolding b_def by (simp add: blit_def)
  have h: "PacketHeader_of b = p" using PacketHeader_roundtrip unfolding b .
  have len: "length b = MaxWireSize" using assms(2) l tl unfolding b by simp
  have "take ?L (drop 12 b) = take ?L buf" using tl unfolding b by simp
  then show "wire_ok N t b" "wire_mail b = pkt_mail p buf"
    using pkt_prefix [OF assms(1), of "drop 12 b"] h len by (simp_all add: wire_ok_def wire_mail_def)
qed

section \<open>One step\<close>

lemmas po_defs = po_inv_def worker_inv_def sender_inv_def

text \<open>The steps that concern neither the wire nor the mailboxes.\<close>

lemma sending_steps:
  assumes "po_inv N A fd a po"
  shows "act_ok A (Call_Send p m dat junk) \<Longrightarrow> gives (\<lambda>po'. po_inv N A fd a po' \<and> boxes po' = boxes po \<and> transit po' = transit po)
      (PostOffice_Send p m dat junk po)"
    and "gives (\<lambda>po'. po_inv N A fd a po' \<and> boxes po' = boxes po \<and> transit po' = transit po) (Send_wait po)"
    and "gives (\<lambda>po'. po_inv N A fd a po' \<and> boxes po' = boxes po \<and> transit po' = transit po) (Send_release po)"
    and "gives (\<lambda>po'. po_inv N A fd a po' \<and> boxes po' = boxes po \<and> transit po' = transit po) (NetworkSendDone po)"
proof -
  have tr: "transit (po\<lparr>sendLock := l\<rparr>) = transit po" "transit (po\<lparr>messageSent := k, sendLock := l\<rparr>) = transit po"
    "transit (PacketSent (po\<lparr>network := SendDone (network po\<lparr>net_due := k\<rparr>)\<rparr>)) = transit po" for l k
    by (simp_all add: fun_eq_iff transit_def PacketSent_def SendDone_def cong: worker.case_cong)
  show "gives (\<lambda>po'. po_inv N A fd a po' \<and> boxes po' = boxes po \<and> transit po' = transit po) (PostOffice_Send p m dat junk po)"
    if "act_ok A (Call_Send p m dat junk)"
    using that assms prepared_packet [of m dat junk N "p\<lparr>ph_from := a, ph_length := mh_length m + 12\<rparr>" "ph_to p"]
    by (auto simp: PostOffice_Send_def tr Let_def po_defs split: option.split cong: worker.case_cong)
  show "gives (\<lambda>po'. po_inv N A fd a po' \<and> boxes po' = boxes po \<and> transit po' = transit po) (Send_wait po)"
    "gives (\<lambda>po'. po_inv N A fd a po' \<and> boxes po' = boxes po \<and> transit po' = transit po) (Send_release po)"
    using assms by (simp_all add: Send_wait_def Send_release_def tr po_defs cong: worker.case_cong)
  show "gives (\<lambda>po'. po_inv N A fd a po' \<and> boxes po' = boxes po \<and> transit po' = transit po) (NetworkSendDone po)"
    using assms by (simp add: NetworkSendDone_def tr Let_def) (simp add: po_defs PacketSent_def SendDone_def cong: worker.case_cong)
qed

lemma in_all_upd:
  assumes "\<forall>b \<in> set bs. \<forall>m \<in> set b. P m" "P m'" "i < length bs"
  shows "\<forall>b \<in> set (bs[i := bs ! i @ [m']]). \<forall>m \<in> set b. P m"
proof -
  have "b \<in> set bs \<or> b = bs ! i @ [m']" if "b \<in> set (bs[i := bs ! i @ [m']])" for b
    using that set_update_subset_insert [of bs i] by blast
  then show ?thesis using assms nth_mem [OF assms(3)] by fastforce
qed

lemma Receive_step:
  assumes "po_inv N A fd a po" "flow N a po bs evs" "PostOffice_Receive box po = Inr (po', mail)"
  shows "po_inv N A fd a po' \<and> flow N a po' bs (evs @ [Got a box mail])"
proof -
  obtain rest where r: "0 \<le> box" "box < int N" "boxes po ! nat box = mail # rest" "po' = po\<lparr>boxes := (boxes po)[nat box := rest]\<rparr>"
    using assms(1,3) by (auto simp: PostOffice_Receive_def MailBox_Get_def ASSERT_eq_Inr bindE_eq_Inr po_inv_def split: list.splits)
  have b: "nat box < length (boxes po)" "length (boxes po) = N" using r assms(1) by (auto simp: po_inv_def)
  have s: "set (boxes po') \<subseteq> insert rest (set (boxes po))" "set rest \<subseteq> set (boxes po ! nat box)" "boxes po ! nat box \<in> set (boxes po)"
    using r b set_update_subset_insert [of "boxes po" "nat box" rest] nth_mem [OF b(1)] by auto
  then have "\<forall>b \<in> set (boxes po'). \<forall>m \<in> set b. unat (mh_length (mailHdr m)) \<le> MaxMailSize"
    using assms(1) unfolding po_inv_def by blast
  then have "po_inv N A fd a po'" using assms(1) r(4) by (simp add: po_defs cong: worker.case_cong)
  moreover have "transit po' bs = transit po bs" using r(4) by (simp add: transit_def cong: worker.case_cong)
  moreover have "boxes po ! k = (if int k = box then mail # boxes po' ! k else boxes po' ! k)" if "k < N" for k
    using that r b by (auto simp: nth_list_update)
  ultimately show ?thesis using assms(2) by (auto simp: flow_def)
qed

lemma Receive_stage:
  assumes "po_inv N A fd a po" "po_worker po = AtReceive"
  shows "\<exists>po'. PostalDelivery_step po = Inr po' \<and> po_inv N A fd a po' \<and> boxes po' = boxes po \<and> transit po' = transit po"
proof -
  let ?h = "inHdr (network po)" and ?i = "inbox (network po)"
  let ?b = "blit (take (unat (ph_length ?h)) ?i) (po_buffer po) 0"
  have ok: "pkt_ok N a ?h ?i" "ph_length ?h \<noteq> 0" using assms by (auto simp: po_defs)
  note l = pkt_length [OF ok(1)]
  have len: "length ?i = MaxPacketSize" "length (po_buffer po) = MaxPacketSize" using assms by (auto simp: po_inv_def)
  have "length ?b = MaxPacketSize" "take (unat (ph_length ?h)) ?b = take (unat (ph_length ?h)) ?i"
    using l len by (simp_all add: blit_def)
  note p = pkt_prefix [OF ok(1) this]
  let ?po = "po\<lparr>network := (network po)\<lparr>inHdr := ?h\<lparr>ph_length := 0\<rparr>\<rparr>, po_buffer := ?b, po_worker := AtPut ?h\<rparr>"
  have "PostalDelivery_step po = Inr ?po" using assms(2) ok(2) by (simp add: PostalDelivery_step_def Network_Receive_def Let_def)
  moreover have "po_inv N A fd a ?po" using assms p(1) \<open>length ?b = MaxPacketSize\<close> by (simp add: po_defs)
  moreover have "transit ?po = transit po" using assms(2) ok(2) p(2) by (simp add: fun_eq_iff transit_def)
  ultimately show ?thesis by (intro exI [of _ ?po]) simp
qed

lemma Put_stage:
  assumes "po_inv N A fd a po" "po_worker po = AtPut hdr" "flow N a po bs evs"
  shows "\<exists>po'. PostalDelivery_step po = Inr po' \<and> po_inv N A fd a po' \<and> flow N a po' bs evs"
proof -
  let ?mh = "MailHeader_of (po_buffer po)" and ?m = "pkt_mail hdr (po_buffer po)"
  let ?i = "nat (sint (mh_to ?mh))"
  let ?po = "po\<lparr>boxes := (boxes po)[?i := boxes po ! ?i @ [?m]], po_worker := AtP\<rparr>"
  have ok: "pkt_ok N a hdr (po_buffer po)" "length (boxes po) = N" using assms(1,2) by (simp_all add: po_defs)
  have i: "0 \<le> sint (mh_to ?mh)" "sint (mh_to ?mh) < int N" "unat (mh_length ?mh) \<le> MaxMailSize" "length (po_buffer po) = MaxPacketSize"
    using ok(1) by (simp_all add: pkt_ok_def Let_def)
  have ii: "?i < length (boxes po)" using i ok(2) by simp
  have "PostalDelivery_step po = Inr ?po" using assms(2) i ok(2)
    by (simp add: PostalDelivery_step_def MailBox_Put_def new_Mail_def pkt_mail_def Let_def)
  moreover have "po_inv N A fd a ?po"
  proof -
    have "unat (mh_length (mailHdr ?m)) \<le> MaxMailSize" using i by (simp add: pkt_mail_def Let_def)
    moreover have "\<forall>b \<in> set (boxes po). \<forall>m \<in> set b. unat (mh_length (mailHdr m)) \<le> MaxMailSize" using assms(1) by (simp add: po_inv_def)
    ultimately have "\<forall>b \<in> set ((boxes po)[?i := boxes po ! ?i @ [?m]]). \<forall>m \<in> set b. unat (mh_length (mailHdr m)) \<le> MaxMailSize"
      using in_all_upd [OF _ _ ii, of "\<lambda>m. unat (mh_length (mailHdr m)) \<le> MaxMailSize"] by blast
    then show ?thesis using assms(1,2) by (simp add: po_defs)
  qed
  moreover have "flow N a ?po bs evs"
  proof -
    have t: "transit po bs = ?m # transit ?po bs" using assms(2) by (simp add: transit_def)
    have ib: "in_box k ?m \<longleftrightarrow> k = ?i" for k using i by (auto simp: in_box_def pkt_mail_def Let_def)
    show ?thesis unfolding flow_def
    proof (intro allI impI)
      fix k assume k: "k < N"
      have "boxes ?po ! k = (if k = ?i then boxes po ! k @ [?m] else boxes po ! k)" using ii by (simp add: nth_list_update)
      then show "filter (in_box k) (sents a evs) = gots a k evs @ boxes ?po ! k @ filter (in_box k) (transit ?po bs)"
        using assms(3) [unfolded flow_def, rule_format, OF k] t ib [of k] by simp
    qed
  qed
  ultimately show ?thesis by blast
qed

lemma Work_step:
  assumes "po_inv N A fd a po" "flow N a po bs evs"
  shows "(\<exists>po'. PostalDelivery_step po = Inr po' \<and> po_inv N A fd a po' \<and> flow N a po' bs evs) \<or> PostalDelivery_step po = Inl Blocked"
proof (cases "po_worker po")
  case AtP
  then show ?thesis using assms
    by (cases "messageAvailable po = 0")
      (auto simp: PostalDelivery_step_def po_defs flow_def transit_def split: if_splits)
next
  case AtReceive
  then show ?thesis using Receive_stage [OF assms(1)] assms(2) by (auto simp: flow_def)
next
  case (AtPut hdr)
  then show ?thesis using Put_stage [OF assms(1) AtPut assms(2)] by blast
qed

lemma datagramsD:
  assumes "datagrams q names S fd own"
  shows "nm \<in> names \<Longrightarrow> h_sendto S fd b nm h = (h', r) \<Longrightarrow> r = int (length b) \<and> q h' = (q h)(nm := q h nm @ [b])"
    and "h_select (posix S) fd h = (h', r) \<Longrightarrow> r = (if q h own = [] then 0 else 1) \<and> q h' = q h"
    and "q h own = b # bs \<Longrightarrow> h_recvfrom S fd (int (length b)) h = (h', r, d) \<Longrightarrow> r = int (length b) \<and> d = b \<and> q h' = (q h)(own := bs)"
proof -
  note d = assms [unfolded datagrams_def]
  show "r = int (length b) \<and> q h' = (q h)(nm := q h nm @ [b])" if "nm \<in> names" "h_sendto S fd b nm h = (h', r)"
    using d [THEN conjunct1, rule_format, OF that(1), of b h] that(2) by simp
  show "r = (if q h own = [] then 0 else 1) \<and> q h' = q h" if "h_select (posix S) fd h = (h', r)"
    using d [THEN conjunct2, THEN conjunct1, rule_format, of h] that by simp
  show "r = int (length b) \<and> d = b \<and> q h' = (q h)(own := bs)"
    if "q h own = b # bs" "h_recvfrom S fd (int (length b)) h = (h', r, d)"
    using d [THEN conjunct2, THEN conjunct2, rule_format, OF that(1)] that(2) by simp
qed

lemma Poll_step:
  assumes "po_inv N A fd a po" "flow N a po (q h (sockName a)) evs" "datagrams q names S fd (sockName a)"
    and wire: "\<forall>b \<in> set (q h (sockName a)). wire_ok N a b"
  shows "\<exists>h' po' bs. NetworkReadPoll S h po = Inr (h', po') \<and> po_inv N A fd a po' \<and> flow N a po' bs evs \<and>
    q h' = (q h)(sockName a := bs) \<and> set bs \<subseteq> set (q h (sockName a))"
proof (cases "ph_length (inHdr (network po)) \<noteq> 0")
  case True
  then show ?thesis using assms(1,2) by (intro exI [of _ h] exI [of _ po] exI [of _ "q h (sockName a)"]) (simp add: NetworkReadPoll_def CheckPktAvail_def)
next
  case False
  let ?n = "network po"
  have fd: "sock ?n = fd" "ident ?n = a" "length (inbox ?n) = MaxPacketSize" using assms(1) by (simp_all add: po_inv_def)
  obtain h1 r where sel: "h_select (posix S) fd h = (h1, r)" by (cases "h_select (posix S) fd h")
  have s: "r = (if q h (sockName a) = [] then 0 else 1)" "q h1 = q h" using datagramsD(2) [OF assms(3) sel] by blast+
  show ?thesis
  proof (cases "q h (sockName a)")
    case Nil
    have "NetworkReadPoll S h po = Inr (h1, po)"
      using False s Nil sel fd by (simp add: NetworkReadPoll_def CheckPktAvail_def PollSocket_def PollFile_def)
    then show ?thesis using assms(1,2) s(2) by (intro exI [of _ h1] exI [of _ po] exI [of _ "q h (sockName a)"]) simp
  next
    case (Cons b bs)
    have w: "length b = MaxWireSize" "pkt_ok N a (PacketHeader_of b) (drop 12 b)" using wire Cons by (simp_all add: wire_ok_def)
    obtain h2 k d where rc: "h_recvfrom S fd (int (length b)) h1 = (h2, k, d)" by (cases "h_recvfrom S fd (int (length b)) h1") auto
    have d: "k = int (length b)" "d = b" "q h2 = (q h1)(sockName a := bs)"
      using datagramsD(3) [OF assms(3) _ rc, of bs] Cons s(2) by simp_all
    let ?p = "PacketHeader_of b"
    let ?L = "unat (ph_length ?p)"
    let ?i = "blit (slice 12 ?L b) (inbox ?n) 0"
    let ?n' = "?n\<lparr>inHdr := ?p, inbox := ?i, numPacketsRecvd := numPacketsRecvd ?n + 1\<rparr>"
    let ?po = "IncomingPacket (po\<lparr>network := ?n'\<rparr>)"
    note l = pkt_length [OF w(2)]
    have i: "length ?i = MaxPacketSize" "take ?L ?i = take ?L (drop 12 b)" using l w(1) fd(3) by (simp_all add: blit_def slice_def)
    note pp = pkt_prefix [OF w(2) i]
    have "ph_to ?p = a" using w(2) by (simp add: pkt_ok_def)
    then have "NetworkReadPoll S h po = Inr (h2, ?po)"
      using False s Cons sel rc d w(1) l fd
      by (simp add: NetworkReadPoll_def CheckPktAvail_def PollSocket_def PollFile_def ReadFromSocket_def Let_def)
    moreover have "po_inv N A fd a ?po" using assms(1) False pp(1) i(1) l
      by (auto simp: po_defs IncomingPacket_def split: worker.split cong: worker.case_cong)
    moreover have "transit ?po bs = transit po (b # bs)" using False l pp(2)
      by (simp add: transit_def IncomingPacket_def wire_mail_def cong: worker.case_cong)
    then have "flow N a ?po bs evs" using assms(2) Cons by (simp add: flow_def IncomingPacket_def)
    ultimately show ?thesis using d(3) s(2) Cons by (intro exI [of _ h2] exI [of _ ?po] exI [of _ bs]) auto
  qed
qed

lemma Transmit_step:
  assumes "po_inv N A fd a po" "datagrams q (sockName ` A) S fd own" "length junk = MaxWireSize"
    and at: "sendLock po = Some (AtSend p m dat buf)"
  shows "\<exists>h' po' b. Send_transmit S lost junk h po = Inr (h', po') \<and> po_inv N A fd a po' \<and> boxes po' = boxes po \<and> transit po' = transit po \<and>
    q h' = (if lost then q h else (q h)(sockName (ph_to p) := q h (sockName (ph_to p)) @ [b])) \<and> wire_ok N (ph_to p) b \<and>
    wire_mail b = \<lparr>pktHdr = p, mailHdr = m, mail_data = take (unat (mh_length m)) dat\<rparr>"
proof -
  let ?n = "network po"
  let ?po = "po\<lparr>network := ?n\<lparr>net_due := net_due ?n + 1\<rparr>, sendLock := Some AtWait\<rparr>"
  define b where "b = blit (take (unat (ph_length p)) buf) (blit (PacketHeader_bytes p) junk 0) 12"
  have at': "ph_to p \<in> A" "ph_from p = a" "pkt_ok N (ph_to p) p buf"
    "pkt_mail p buf = \<lparr>pktHdr = p, mailHdr = m, mail_data = take (unat (mh_length m)) dat\<rparr>"
    and n: "sock ?n = fd" "ident ?n = a" "\<not> sendBusy ?n"
    using assms(1) at by (simp_all add: po_defs)
  note w = transmitted_packet [OF at'(3) assms(3), folded b_def] and l = pkt_length [OF at'(3)]
  have lb: "length buf = MaxPacketSize" using at'(3) by (simp add: pkt_ok_def)
  have inv: "po_inv N A fd a ?po" using assms(1) by (simp add: po_defs cong: worker.case_cong)
  have tr: "transit ?po = transit po" by (simp add: fun_eq_iff transit_def cong: worker.case_cong)
  have l0: "0 < ph_length p" and l1: "unat (ph_length p) \<le> MaxPacketSize" using l by (simp_all add: word_gt_0)
  show ?thesis
  proof (cases lost)
    case True
    then have "Send_transmit S lost junk h po = Inr (h, ?po)"
      using at at'(2) n l1 l0 by (simp add: Send_transmit_def Network_Send_def Let_def)
    then show ?thesis using True inv tr w at'(4) by (intro exI [of _ h] exI [of _ ?po] exI [of _ b]) simp
  next
    case False
    obtain h' r where st: "h_sendto S fd b (sockName (ph_to p)) h = (h', r)" by (cases "h_sendto S fd b (sockName (ph_to p)) h")
    have "sockName (ph_to p) \<in> sockName ` A" using at'(1) by blast
    then have r: "r = int (length b)" "q h' = (q h)(sockName (ph_to p) := q h (sockName (ph_to p)) @ [b])"
      using datagramsD(1) [OF assms(2) _ st] by blast+
    have "Send_transmit S lost junk h po = Inr (h', ?po)"
      using at at'(2) n l1 l0 lb False st r(1) by (simp add: Send_transmit_def Network_Send_def SendToSocket_def Let_def flip: b_def)
    then show ?thesis using False inv tr w at'(4) r(2) by (intro exI [of _ h'] exI [of _ ?po] exI [of _ b]) simp
  qed
qed

section \<open>All machines\<close>

definition lan_inv :: "('h \<Rightarrow> byte list \<Rightarrow> byte list list) \<Rightarrow> nat \<Rightarrow> 32 word set \<Rightarrow> (32 word \<Rightarrow> int) \<Rightarrow> 'h Lan \<Rightarrow> lan_event list \<Rightarrow> bool" where
  "lan_inv q N A fd s evs \<longleftrightarrow> (\<forall>a \<in> A. po_inv N A (fd a) a (office s a) \<and>
     (\<forall>b \<in> set (q (lan_host s) (sockName a)). wire_ok N a b) \<and> flow N a (office s a) (q (lan_host s) (sockName a)) evs)"

lemma lan_invD:
  assumes "lan_inv q N A fd s evs" "a \<in> A"
  shows "po_inv N A (fd a) a (office s a)" "\<forall>b \<in> set (q (lan_host s) (sockName a)). wire_ok N a b"
    "flow N a (office s a) (q (lan_host s) (sockName a)) evs"
  using assms by (simp_all add: lan_inv_def)

lemma flow_same: "flow N a po bs evs \<Longrightarrow> boxes po' = boxes po \<Longrightarrow> transit po' = transit po \<Longrightarrow> flow N a po' bs evs"
  by (simp add: flow_def)

lemma flow_sent:
  assumes "flow N d po bs evs"
  shows "flow N d po (if d = t then bs @ [b] else bs) (evs @ [Sent t (wire_mail b)])"
proof -
  have "transit po (bs @ [b]) = transit po bs @ [wire_mail b]" by (simp add: transit_def)
  then show ?thesis using assms by (simp add: flow_def)
qed

text \<open>A step of machine \<open>a\<close> that does not send leaves the other machines alone.\<close>

lemma lan_inv_own:
  assumes "lan_inv q N A fd s evs" "a \<in> A" "po_inv N A (fd a) a po'" "flow N a po' (q h' (sockName a)) (evs @ ev)"
    and q: "q h' = (q (lan_host s))(sockName a := bs)" "set bs \<subseteq> set (q (lan_host s) (sockName a))"
    and ev: "\<And>d k. d \<noteq> a \<Longrightarrow> sents d ev = [] \<and> gots d k ev = []"
  shows "lan_inv q N A fd (s\<lparr>lan_host := h', office := (office s)(a := po')\<rparr>) (evs @ ev)"
  unfolding lan_inv_def
proof (intro ballI conjI)
  fix d assume d: "d \<in> A"
  note i = lan_invD [OF assms(1) d]
  show "po_inv N A (fd d) d (office (s\<lparr>lan_host := h', office := (office s)(a := po')\<rparr>) d)" using assms(3) i(1) by simp
  show "wire_ok N d b" if "b \<in> set (q (lan_host (s\<lparr>lan_host := h', office := (office s)(a := po')\<rparr>)) (sockName d))" for b
    using that i(2) q by (auto simp: sockName_inj split: if_splits)
  show "flow N d (office (s\<lparr>lan_host := h', office := (office s)(a := po')\<rparr>) d)
      (q (lan_host (s\<lparr>lan_host := h', office := (office s)(a := po')\<rparr>)) (sockName d)) (evs @ ev)"
    using assms(4) i(3) ev [of d] q(1) by (auto simp: sockName_inj flow_def)
qed

lemma lan_inv_transmit:
  assumes inv: "lan_inv q N A fd s evs" "a \<in> A" and ok: "datagrams q (sockName ` A) (S a) (fd a) (sockName a)" "length junk = MaxWireSize"
    and do: "lan_do (S a) (Transmit lost junk) a (lan_host s, office s a) = Inr ((h', po'), ev)"
  shows "lan_inv q N A fd (s\<lparr>lan_host := h', office := (office s)(a := po')\<rparr>) (evs @ ev)"
proof -
  obtain p m dat buf where at: "sendLock (office s a) = Some (AtSend p m dat buf)"
    using do by (auto simp: Send_transmit_def split: option.splits sender.splits)
  obtain b where tr: "Send_transmit (S a) lost junk (lan_host s) (office s a) = Inr (h', po')" "po_inv N A (fd a) a po'"
    "boxes po' = boxes (office s a)" "transit po' = transit (office s a)"
    "q h' = (if lost then q (lan_host s) else (q (lan_host s))(sockName (ph_to p) := q (lan_host s) (sockName (ph_to p)) @ [b]))"
    "wire_ok N (ph_to p) b" "wire_mail b = \<lparr>pktHdr = p, mailHdr = m, mail_data = take (unat (mh_length m)) dat\<rparr>"
    using Transmit_step [OF lan_invD(1) [OF inv] ok at, of lost "lan_host s"] do by auto
  have ev: "ev = (if lost then [] else [Sent (ph_to p) (wire_mail b)])" using do tr(1,7) at by auto
  show ?thesis
  proof (cases lost)
    case True
    show ?thesis
      by (rule lan_inv_own [OF inv tr(2), where bs = "q (lan_host s) (sockName a)"])
        (use True tr(3-5) ev flow_same [OF lan_invD(3) [OF inv]] in simp_all)
  next
    case False
    let ?s = "s\<lparr>lan_host := h', office := (office s)(a := po')\<rparr>"
    show ?thesis unfolding lan_inv_def
    proof (intro ballI conjI)
      fix d assume d: "d \<in> A"
      note i = lan_invD [OF inv(1) d]
      have f: "flow N d (office ?s d) (q (lan_host s) (sockName d)) evs"
        using i(3) flow_same [OF i(3)] tr(3,4) by (cases "d = a") simp_all
      have qd: "q h' (sockName d) = (if d = ph_to p then q (lan_host s) (sockName d) @ [b] else q (lan_host s) (sockName d))"
        using tr(5) False by (simp add: sockName_inj)
      show "po_inv N A (fd d) d (office ?s d)" using i(1) tr(2) by simp
      show "wire_ok N d b'" if "b' \<in> set (q (lan_host ?s) (sockName d))" for b'
        using that i(2) tr(6) qd by (auto split: if_splits)
      show "flow N d (office ?s d) (q (lan_host ?s) (sockName d)) (evs @ ev)"
        using flow_sent [OF f, of "ph_to p" b] qd ev False by simp
    qed
  qed
qed

lemma lan_inv_step:
  assumes inv: "lan_inv q N A fd s evs" "a \<in> A" and ok: "act_ok A act" "datagrams q (sockName ` A) (S a) (fd a) (sockName a)"
    and do: "lan_do (S a) act a (lan_host s, office s a) = Inr ((h', po'), ev)"
  shows "lan_inv q N A fd (s\<lparr>lan_host := h', office := (office s)(a := po')\<rparr>) (evs @ ev)"
proof -
  note i = lan_invD [OF inv]
  have quiet: ?thesis if "h' = lan_host s" "ev = []" "po_inv N A (fd a) a po' \<and> flow N a po' (q (lan_host s) (sockName a)) evs"
    by (rule lan_inv_own [OF inv, where bs = "q (lan_host s) (sockName a)"]) (use that in simp_all)
  have same: ?thesis if "h' = lan_host s" "ev = []" "r = Inr po'"
      "gives (\<lambda>po'. po_inv N A (fd a) a po' \<and> boxes po' = boxes (office s a) \<and> transit po' = transit (office s a)) r" for r
    using quiet [OF that(1,2)] givesD [OF that(4,3)] flow_same [OF i(3), of po'] by simp
  show ?thesis
  proof (cases act)
    case (Call_Send p m dat junk)
    show ?thesis by (rule same [of "PostOffice_Send p m dat junk (office s a)"])
      (use Call_Send do sending_steps(1) [OF i(1), of p m dat junk] ok(1) in \<open>auto simp: bindE_eq_Inr\<close>)
  next
    case (Transmit lost junk)
    then show ?thesis using lan_inv_transmit [where S = S, OF inv ok(2)] ok(1) do by simp
  next
    case Wait_sent
    show ?thesis by (rule same [of "Send_wait (office s a)"]) (use Wait_sent do sending_steps(2) [OF i(1)] in \<open>auto simp: bindE_eq_Inr\<close>)
  next
    case Release
    show ?thesis by (rule same [of "Send_release (office s a)"]) (use Release do sending_steps(3) [OF i(1)] in \<open>auto simp: bindE_eq_Inr\<close>)
  next
    case Send_done
    show ?thesis by (rule same [of "NetworkSendDone (office s a)"]) (use Send_done do sending_steps(4) [OF i(1)] in \<open>auto simp: bindE_eq_Inr\<close>)
  next
    case Poll
    then obtain bs where "po_inv N A (fd a) a po'" "flow N a po' bs evs" "q h' = (q (lan_host s))(sockName a := bs)"
      "set bs \<subseteq> set (q (lan_host s) (sockName a))" "ev = []"
      using do Poll_step [OF i(1,3) ok(2) i(2)] by auto
    then show ?thesis by (intro lan_inv_own [OF inv, where bs = bs]) simp_all
  next
    case Work
    show ?thesis by (rule quiet) (use Work do Work_step [OF i(1,3)] in \<open>auto simp: bindE_eq_Inr\<close>)
  next
    case (Call_Receive box)
    then obtain mail where "PostOffice_Receive box (office s a) = Inr (po', mail)" "ev = [Got a box mail]" "h' = lan_host s"
      using do by (auto simp: bindE_eq_Inr)
    then show ?thesis using Receive_step [OF i(1,3)] by (intro lan_inv_own [OF inv, where bs = "q (lan_host s) (sockName a)"]) auto
  qed
qed

text \<open>A machine as its post office leaves it when it is created.\<close>

definition started :: "'h Sockets \<Rightarrow> nat \<Rightarrow> 32 word \<Rightarrow> PostOffice \<Rightarrow> bool" where
  "started S N a po \<longleftrightarrow> (\<exists>hdr0 box0 buf0 h h'. length box0 = MaxPacketSize \<and> length buf0 = MaxPacketSize \<and>
     new_PostOffice S a N hdr0 box0 buf0 h = Inr (h', po))"

lemma started_inv:
  assumes "started S N a po"
  shows "po_inv N A (sock (network po)) a po" "flow N a po [] []"
proof -
  obtain hdr0 box0 buf0 h h' where st: "length box0 = MaxPacketSize" "length buf0 = MaxPacketSize" "new_PostOffice S a N hdr0 box0 buf0 h = Inr (h', po)"
    using assms unfolding started_def by blast
  then obtain n where "ident n = a" "\<not> sendBusy n" "inHdr n = hdr0\<lparr>ph_length := 0\<rparr>" "inbox n = box0"
      "po = \<lparr>network = n, netAddr = a, boxes = replicate N [], messageAvailable = 0, messageSent = 0, sendLock = None, po_worker = AtP, po_buffer = buf0\<rparr>"
    by (fastforce simp: new_PostOffice_def new_Network_def bindE_eq_Inr)
  then show "po_inv N A (sock (network po)) a po" "flow N a po [] []" using st(1,2) by (auto simp: po_defs flow_def transit_def)
qed

lemma lan_runs_inv:
  assumes "lan_runs S A s0 evs s" "\<forall>a \<in> A. started (S a) N a (office s0 a)" "\<forall>a \<in> A. q (lan_host s0) (sockName a) = []"
    and "\<forall>a \<in> A. datagrams q (sockName ` A) (S a) (sock (network (office s0 a))) (sockName a)"
  shows "lan_inv q N A (\<lambda>a. sock (network (office s0 a))) s evs"
  using assms(1)
proof (induction rule: lan_runs.induct)
  case start
  show ?case using assms(2,3) started_inv by (fastforce simp: lan_inv_def)
next
  case (step evs s a act h' po' ev)
  then show ?case using lan_inv_step [where S = S, OF step.IH] assms(4) by simp
qed

section \<open>Properties\<close>

text \<open>C36. However the threads and interrupts of the machines interleave, and whichever packets are dropped, what has been
  received from a mailbox so far is a beginning of what was sent to it and not dropped, in order and with headers and data unaltered; what
  follows is in the mailbox or under way, and nothing is under way once the worker waits and the socket is empty.\<close>

theorem mail_in_order:
  assumes "\<forall>a \<in> A. started (S a) N a (office s0 a)" "\<forall>a \<in> A. q (lan_host s0) (sockName a) = []"
    and "\<forall>a \<in> A. datagrams q (sockName ` A) (S a) (sock (network (office s0 a))) (sockName a)"
    and "lan_runs S A s0 evs s" "d \<in> A" "k < N"
  shows "\<exists>rest. filter (in_box k) (sents d evs) = gots d k evs @ boxes (office s d) ! k @ rest \<and>
    (po_worker (office s d) = AtP \<and> messageAvailable (office s d) = 0 \<and> q (lan_host s) (sockName d) = [] \<longrightarrow> rest = [])"
proof -
  note i = lan_invD [OF lan_runs_inv [OF assms(4,1-3)] assms(5)]
  have "transit (office s d) (q (lan_host s) (sockName d)) = []"
    if "po_worker (office s d) = AtP" "messageAvailable (office s d) = 0" "q (lan_host s) (sockName d) = []"
    using that i(1) by (auto simp: transit_def po_defs split: if_splits)
  then show ?thesis using i(3) [unfolded flow_def, rule_format, OF assms(6)]
    by (intro exI [of _ "filter (in_box k) (transit (office s d) (q (lan_host s) (sockName d)))"]) simp
qed

text \<open>No check inside the post office and the device fails: apart from the two calls of user threads, a step is
  done or has to wait.\<close>

theorem post_office_never_aborts:
  assumes "\<forall>a \<in> A. started (S a) N a (office s0 a)" "\<forall>a \<in> A. q (lan_host s0) (sockName a) = []"
    and "\<forall>a \<in> A. datagrams q (sockName ` A) (S a) (sock (network (office s0 a))) (sockName a)"
    and "lan_runs S A s0 evs s" "a \<in> A" "act_ok A act" "act \<in> {Transmit lost junk, Wait_sent, Release, Poll, Send_done, Work}"
  shows "done_or_waits (lan_do (S a) act a (lan_host s, office s a))"
proof -
  note i = lan_invD [OF lan_runs_inv [OF assms(4,1-3)] assms(5)] and d = bspec [OF assms(3,5)]
  have "done_or_waits (Send_transmit (S a) lost junk (lan_host s) (office s a))" if "length junk = MaxWireSize"
  proof (cases "\<exists>p m dat buf. sendLock (office s a) = Some (AtSend p m dat buf)")
    case True
    then show ?thesis using Transmit_step [OF i(1) d that, of _ _ _ _ lost "lan_host s"] by auto
  next
    case False
    then show ?thesis by (auto simp: Send_transmit_def split: option.split sender.split)
  qed
  moreover have "done_or_waits (NetworkReadPoll (S a) (lan_host s) (office s a))" using Poll_step [OF i(1,3) d i(2)] by auto
  moreover have "done_or_waits (PostalDelivery_step (office s a))" using Work_step [OF i(1,3)] by auto
  moreover have "done_or_waits (Send_wait (office s a))" "done_or_waits (Send_release (office s a))" "done_or_waits (NetworkSendDone (office s a))"
    by (simp_all add: Send_wait_def Send_release_def NetworkSendDone_def Let_def)
  ultimately show ?thesis using assms(6,7) by auto
qed

text \<open>The flag \<^verbatim>\<open>sendBusy\<close> that \<^verbatim>\<open>Send\<close> tests is never set, so a second transmission before the first is done is not noticed.\<close>

theorem sendBusy_never_set:
  assumes "Network_Send S hdr dat lost junk h n = Inr (h', n')"
  shows "\<not> sendBusy n'"
  using assms by (auto simp: Network_Send_def ASSERT_eq_Inr bindE_eq_Inr Let_def split: if_splits)

section \<open>Two machines\<close>

fun lan_exec :: "(32 word \<Rightarrow> 'h Sockets) \<Rightarrow> (32 word \<times> lan_act) list \<Rightarrow> 'h Lan \<Rightarrow> (lan_event list \<times> 'h Lan) result" where
  "lan_exec S [] s = Inr ([], s)"
| "lan_exec S ((a, act) # acts) s =
     bindE (lan_do (S a) act a (lan_host s, office s a)) (\<lambda>((h, po), ev).
     bindE (lan_exec S acts (s\<lparr>lan_host := h, office := (office s)(a := po)\<rparr>)) (\<lambda>(evs, s). Inr (ev @ evs, s)))"

lemma lan_exec_runs:
  "lan_runs S A s0 evs s \<Longrightarrow> lan_exec S acts s = Inr (evs', s') \<Longrightarrow> list_all (\<lambda>(a, act). a \<in> A \<and> act_ok A act) acts \<Longrightarrow>
    lan_runs S A s0 (evs @ evs') s'"
proof (induction acts arbitrary: s evs evs')
  case (Cons x acts)
  obtain a act where x: "x = (a, act)" by (cases x)
  obtain h po ev e2 where d: "lan_do (S a) act a (lan_host s, office s a) = Inr ((h, po), ev)"
    "lan_exec S acts (s\<lparr>lan_host := h, office := (office s)(a := po)\<rparr>) = Inr (e2, s')" "evs' = ev @ e2"
    using Cons.prems(2) x by (auto simp: bindE_eq_Inr)
  have "lan_runs S A s0 (evs @ ev) (s\<lparr>lan_host := h, office := (office s)(a := po)\<rparr>)"
    using Cons.prems(1,3) x d(1) by (intro lan_runs.step) auto
  from Cons.IH [OF this d(2)] show ?case using Cons.prems(3) d(3) by simp
qed simp

type_synonym ex_host = "byte list \<Rightarrow> byte list list"

text \<open>A host that keeps the queues of datagrams, as a machine sees it that has the name \<open>own\<close>.\<close>

definition ex_sockets :: "32 word \<Rightarrow> ex_host Sockets" where
  "ex_sockets a =
     \<lparr>posix = \<lparr>h_open = \<lambda>_ _ h. (h, - 1), h_read = \<lambda>_ _ h. (h, - 1, []), h_write = \<lambda>_ _ h. (h, - 1), h_lseek = \<lambda>_ _ _ h. (h, - 1),
        h_close = \<lambda>_ h. (h, 0), h_unlink = \<lambda>_ h. (h, - 1), h_select = \<lambda>_ h. (h, if h (sockName a) = [] then 0 else 1),
        h_mkdir = \<lambda>_ h. h, h_rmdir = \<lambda>_ h. h, h_chdir = \<lambda>_ h. h, h_system = \<lambda>_ h. h, h_putchar = \<lambda>_ h. h, h_getchar = \<lambda>h. (h, 0)\<rparr>,
      h_socket = \<lambda>h. (h, 3), h_bind = \<lambda>_ _ h. (h, 0), h_sendto = \<lambda>_ b nm h. (h(nm := h nm @ [b]), int (length b)),
      h_recvfrom = \<lambda>_ _ h. (case h (sockName a) of [] \<Rightarrow> (h, - 1, []) | b # bs \<Rightarrow> (h(sockName a := bs), int (length b), b))\<rparr>"

definition ex_office :: "32 word \<Rightarrow> PostOffice" where
  "ex_office a = snd (projr (new_PostOffice (ex_sockets a) a 2 \<lparr>ph_to = 0, ph_from = 0, ph_length = 9\<rparr> (replicate 52 0) (replicate 52 0) (\<lambda>_. [])))"

definition ex_lan :: "ex_host Lan" where
  "ex_lan = \<lparr>lan_host = \<lambda>_. [], office = ex_office\<rparr>"

definition ex_mail :: Mail where
  "ex_mail = \<lparr>pktHdr = \<lparr>ph_to = 1, ph_from = 0, ph_length = 14\<rparr>, mailHdr = \<lparr>mh_to = 1, mh_from = 0, mh_length = 2\<rparr>, mail_data = [104, 105]\<rparr>"

definition ex_acts :: "(32 word \<times> lan_act) list" where
  "ex_acts = [(0, Call_Send (pktHdr ex_mail) (mailHdr ex_mail) [104, 105, 33] (replicate 52 0)), (0, Transmit False (replicate 64 0)), (1, Poll),
     (1, Work), (1, Work), (1, Work), (1, Call_Receive 1)]"

lemma ex_started: "started (ex_sockets a) 2 a (ex_office a)"
  unfolding started_def
  by (rule exI [of _ "\<lparr>ph_to = 0, ph_from = 0, ph_length = 9\<rparr>"], rule exI [of _ "replicate 52 0"], rule exI [of _ "replicate 52 0"],
      rule exI [of _ "\<lambda>_. []"], rule exI [of _ "\<lambda>_. []"])
    (simp add: ex_office_def new_PostOffice_def new_Network_def OpenSocket_def AssignNameToSocket_def ex_sockets_def)

lemma ex_datagrams: "datagrams id names (ex_sockets a) fd (sockName a)"
  by (simp add: datagrams_def ex_sockets_def)

lemma ex_events: "(case lan_exec ex_sockets ex_acts ex_lan of Inr (evs, s) \<Rightarrow> evs | Inl f \<Rightarrow> []) = [Sent 1 ex_mail, Got 1 1 ex_mail]"
  by code_simp

theorem mail_in_order_witness:
  "\<exists>evs s rest. lan_exec ex_sockets ex_acts ex_lan = Inr (evs, s) \<and> gots 1 1 evs = [ex_mail] \<and>
     filter (in_box 1) (sents 1 evs) = gots 1 1 evs @ boxes (office s 1) ! 1 @ rest"
proof -
  obtain evs s where e: "lan_exec ex_sockets ex_acts ex_lan = Inr (evs, s)" "evs = [Sent 1 ex_mail, Got 1 1 ex_mail]"
    using ex_events by (cases "lan_exec ex_sockets ex_acts ex_lan") auto
  have "lan_runs ex_sockets {0, 1} ex_lan ([] @ evs) s"
    by (rule lan_exec_runs [OF lan_runs.start e(1)]) (simp add: ex_acts_def ex_mail_def)
  then have "\<exists>rest. filter (in_box 1) (sents 1 evs) = gots 1 1 evs @ boxes (office s 1) ! 1 @ rest"
    using mail_in_order [of "{0, 1}" ex_sockets 2 ex_lan id evs s 1 1] by (auto simp: ex_started ex_datagrams ex_lan_def)
  then show ?thesis using e by auto
qed

end
