(* ===== verification/Console_Dev.thy ===== *)
theory Console_Dev
  imports Host_Stub
begin

text \<open>
  The console device and the synchronous console of \<^verbatim>\<open>machine/console.cc\<close>. Keyboard and display are files of the host,
  a parameter of the model. Threads that call \<^verbatim>\<open>getChar\<close> and \<^verbatim>\<open>putChar\<close> and the two interrupts of the device interleave in any
  order; a lock is given by where the thread is that holds it, a semaphore by its value.

  Shown: with no character equal to \<^verbatim>\<open>EOF\<close> the input is read in order and without loss, and the display shows what
  was put, in order; a character equal to \<^verbatim>\<open>EOF\<close> is overwritten, and the end of a keyboard file stops Nachos.
\<close>

section \<open>The device\<close>

text \<open>\<^verbatim>\<open>EOF\<close> is \<^verbatim>\<open>-1\<close>, and a \<^verbatim>\<open>char\<close> is signed. \<open>con_due\<close> counts the \<^verbatim>\<open>ConsoleWriteDone\<close> interrupts that are pending.\<close>

abbreviation (input) EOF :: byte where "EOF \<equiv> 255"

record Console =
  readFileNo :: int
  writeFileNo :: int
  putBusy :: bool
  incoming :: byte
  con_due :: nat
  numConsoleCharsRead :: nat
  numConsoleCharsWritten :: nat

definition new_Console :: "'h Posix \<Rightarrow> byte list option \<Rightarrow> byte list option \<Rightarrow> 'h \<Rightarrow> ('h \<times> Console) result" where
  "new_Console P readFile writeFile h =
     bindE (case readFile of None \<Rightarrow> Inr (h, 0) | Some name \<Rightarrow> OpenForReadWrite P name True h) (\<lambda>(h, rfd).
     bindE (case writeFile of None \<Rightarrow> Inr (h, 1) | Some name \<Rightarrow> OpenForWrite P name h) (\<lambda>(h, wfd).
     Inr (h, \<lparr>readFileNo = rfd, writeFileNo = wfd, putBusy = False, incoming = EOF, con_due = 0,
              numConsoleCharsRead = 0, numConsoleCharsWritten = 0\<rparr>)))"

definition delete_Console :: "'h Posix \<Rightarrow> Console \<Rightarrow> 'h \<Rightarrow> 'h result" where
  "delete_Console P c h =
     bindE (if readFileNo c \<noteq> 0 then Close P (readFileNo c) h else Inr h) (\<lambda>h.
     if writeFileNo c \<noteq> 1 then Close P (writeFileNo c) h else Inr h)"

text \<open>\<^verbatim>\<open>Read\<close> of \<^verbatim>\<open>machine/sysdep.cc\<close>.\<close>

definition Host_Read :: "'h Posix \<Rightarrow> int \<Rightarrow> int \<Rightarrow> 'h \<Rightarrow> ('h \<times> byte list) result" where
  "Host_Read P fd nBytes h = (let (h, retVal, buffer) = h_read P fd nBytes h in ASSERT (retVal = nBytes) (Inr (h, buffer)))"

text \<open>The flag says whether the read handler is called; a poll is always pending.\<close>

definition CheckCharAvail :: "'h Posix \<Rightarrow> 'h \<Rightarrow> Console \<Rightarrow> ('h \<times> Console \<times> bool) result" where
  "CheckCharAvail P h c =
     (if incoming c \<noteq> EOF then Inr (h, c, False)
      else bindE (PollFile P (readFileNo c) h) (\<lambda>(h, r).
        if \<not> r then Inr (h, c, False)
        else bindE (Host_Read P (readFileNo c) 1 h) (\<lambda>(h, bs).
          Inr (h, c\<lparr>incoming := bs ! 0, numConsoleCharsRead := numConsoleCharsRead c + 1\<rparr>, True))))"

definition WriteDone :: "Console \<Rightarrow> Console" where
  "WriteDone c = c\<lparr>putBusy := False, numConsoleCharsWritten := numConsoleCharsWritten c + 1\<rparr>"

definition GetChar :: "Console \<Rightarrow> Console \<times> byte" where
  "GetChar c = (c\<lparr>incoming := EOF\<rparr>, incoming c)"

definition PutChar :: "'h Posix \<Rightarrow> byte \<Rightarrow> 'h \<Rightarrow> Console \<Rightarrow> ('h \<times> Console) result" where
  "PutChar P ch h c =
     ASSERT (putBusy c = False) (bindE (WriteFile P (writeFileNo c) [ch] h) (\<lambda>h.
       Inr (h, c\<lparr>putBusy := True, con_due := con_due c + 1\<rparr>)))"

section \<open>The synchronous console\<close>

datatype get_stage = GetAtP | GetAtGet | GetAtRelease

datatype put_stage = PutAtPut byte | PutAtP | PutAtRelease

record SynchConsole =
  console :: Console
  readAvail :: nat
  writeDone :: nat
  readLock :: "get_stage option"
  writeLock :: "put_stage option"

definition new_SynchConsole :: "'h Posix \<Rightarrow> byte list option \<Rightarrow> byte list option \<Rightarrow> 'h \<Rightarrow> ('h \<times> SynchConsole) result" where
  "new_SynchConsole P readFile writeFile h =
     bindE (new_Console P readFile writeFile h) (\<lambda>(h, c).
     Inr (h, \<lparr>console = c, readAvail = 0, writeDone = 0, readLock = None, writeLock = None\<rparr>))"

definition ConsoleReadPoll :: "'h Posix \<Rightarrow> 'h \<Rightarrow> SynchConsole \<Rightarrow> ('h \<times> SynchConsole) result" where
  "ConsoleReadPoll P h sc =
     bindE (CheckCharAvail P h (console sc)) (\<lambda>(h, c, called).
     Inr (h, sc\<lparr>console := c, readAvail := readAvail sc + (if called then 1 else 0)\<rparr>))"

definition ConsoleWriteDone :: "SynchConsole \<Rightarrow> SynchConsole result" where
  "ConsoleWriteDone sc =
     (let c = console sc in
      if con_due c = 0 then Inl Blocked
      else Inr (sc\<lparr>console := WriteDone (c\<lparr>con_due := con_due c - 1\<rparr>), writeDone := writeDone sc + 1\<rparr>))"

datatype console_event = GotChar byte | PutDone byte

text \<open>The next step inside \<^verbatim>\<open>getChar\<close> of the thread that holds the lock, or the acquisition of the lock.\<close>

definition getChar_step :: "SynchConsole \<Rightarrow> (SynchConsole \<times> console_event list) result" where
  "getChar_step sc =
     (case readLock sc of
        None \<Rightarrow> Inr (sc\<lparr>readLock := Some GetAtP\<rparr>, [])
      | Some GetAtP \<Rightarrow>
          if readAvail sc = 0 then Inl Blocked else Inr (sc\<lparr>readAvail := readAvail sc - 1, readLock := Some GetAtGet\<rparr>, [])
      | Some GetAtGet \<Rightarrow>
          (let (c, ch) = GetChar (console sc) in Inr (sc\<lparr>console := c, readLock := Some GetAtRelease\<rparr>, [GotChar ch]))
      | Some GetAtRelease \<Rightarrow> Inr (sc\<lparr>readLock := None\<rparr>, []))"

text \<open>Likewise for \<^verbatim>\<open>putChar\<close>; \<open>ch\<close> is the argument of the call that gets the lock.\<close>

definition putChar_step :: "'h Posix \<Rightarrow> byte \<Rightarrow> 'h \<Rightarrow> SynchConsole \<Rightarrow> (('h \<times> SynchConsole) \<times> console_event list) result" where
  "putChar_step P ch h sc =
     (case writeLock sc of
        None \<Rightarrow> Inr ((h, sc\<lparr>writeLock := Some (PutAtPut ch)\<rparr>), [])
      | Some (PutAtPut c1) \<Rightarrow>
          bindE (PutChar P c1 h (console sc)) (\<lambda>(h, c). Inr ((h, sc\<lparr>console := c, writeLock := Some PutAtP\<rparr>), [PutDone c1]))
      | Some PutAtP \<Rightarrow>
          if writeDone sc = 0 then Inl Blocked else Inr ((h, sc\<lparr>writeDone := writeDone sc - 1, writeLock := Some PutAtRelease\<rparr>), [])
      | Some PutAtRelease \<Rightarrow> Inr ((h, sc\<lparr>writeLock := None\<rparr>), []))"

datatype console_act = ReadPoll | WriteDoneInt | GetStep | PutStep byte

fun console_do :: "'h Posix \<Rightarrow> console_act \<Rightarrow> 'h \<times> SynchConsole \<Rightarrow> (('h \<times> SynchConsole) \<times> console_event list) result" where
  "console_do P ReadPoll (h, sc) = bindE (ConsoleReadPoll P h sc) (\<lambda>r. Inr (r, []))"
| "console_do P WriteDoneInt (h, sc) = bindE (ConsoleWriteDone sc) (\<lambda>sc. Inr ((h, sc), []))"
| "console_do P GetStep (h, sc) = bindE (getChar_step sc) (\<lambda>(sc, ev). Inr ((h, sc), ev))"
| "console_do P (PutStep ch) (h, sc) = putChar_step P ch h sc"

fun console_run :: "'h Posix \<Rightarrow> console_act list \<Rightarrow> 'h \<times> SynchConsole \<Rightarrow> (('h \<times> SynchConsole) \<times> console_event list) result" where
  "console_run P [] s = Inr (s, [])"
| "console_run P (a # as) s =
     bindE (console_do P a s) (\<lambda>(s, ev). bindE (console_run P as s) (\<lambda>(s, evs). Inr (s, ev @ evs)))"

fun got_chars :: "console_event list \<Rightarrow> byte list" where
  "got_chars [] = []"
| "got_chars (GotChar ch # evs) = ch # got_chars evs"
| "got_chars (PutDone _ # evs) = got_chars evs"

fun put_chars :: "console_event list \<Rightarrow> byte list" where
  "put_chars [] = []"
| "put_chars (PutDone ch # evs) = ch # put_chars evs"
| "put_chars (GotChar _ # evs) = put_chars evs"

text \<open>
  What the code relies on: \<open>keys h\<close> is the input that is still to be read, typed already or not, \<open>shown h\<close> what the display file holds. Polling says
  at some time that there is input, and only when a byte of it can be read; then a read of one byte takes the first. A write of one byte appends it. A
  terminal behaves like this as long as its input does not end; at the end of a file of the host there is nothing to read although polling says so.
\<close>

definition terminal :: "'h Posix \<Rightarrow> int \<Rightarrow> int \<Rightarrow> ('h \<Rightarrow> byte list) \<Rightarrow> ('h \<Rightarrow> byte list) \<Rightarrow> bool" where
  "terminal P rfd wfd keys shown \<longleftrightarrow>
     (\<forall>h. case h_select P rfd h of (h', r) \<Rightarrow> keys h' = keys h \<and> shown h' = shown h \<and>
        (r = 0 \<or> r = 1 \<and> (case h_read P rfd 1 h' of (h'', n, d) \<Rightarrow> n = 1 \<and> (\<exists>b. d = [b] \<and> keys h = b # keys h'') \<and> shown h'' = shown h))) \<and>
     (\<forall>h b. case h_write P wfd [b] h of (h', r) \<Rightarrow> r = 1 \<and> shown h' = shown h @ [b] \<and> keys h' = keys h)"

section \<open>What holds in every state\<close>

definition read_inv :: "SynchConsole \<Rightarrow> bool" where
  "read_inv sc \<longleftrightarrow> readAvail sc + (if readLock sc = Some GetAtGet then 1 else 0) = (if incoming (console sc) = EOF then 0 else 1)"

definition write_inv :: "SynchConsole \<Rightarrow> bool" where
  "write_inv sc \<longleftrightarrow> (let c = console sc in
     if writeLock sc = Some PutAtP
     then (if putBusy c then con_due c = 1 \<and> writeDone sc = 0 else con_due c = 0 \<and> writeDone sc = 1)
     else \<not> putBusy c \<and> con_due c = 0 \<and> writeDone sc = 0)"

text \<open>The typed characters that are still to come, the one in the device first.\<close>

definition to_come :: "('h \<Rightarrow> byte list) \<Rightarrow> 'h \<times> SynchConsole \<Rightarrow> byte list" where
  "to_come keys s = (if incoming (console (snd s)) = EOF then [] else [incoming (console (snd s))]) @ keys (fst s)"

definition console_inv :: "int \<Rightarrow> int \<Rightarrow> ('h \<Rightarrow> byte list) \<Rightarrow> 'h \<times> SynchConsole \<Rightarrow> bool" where
  "console_inv rfd wfd keys s \<longleftrightarrow> read_inv (snd s) \<and> write_inv (snd s) \<and> EOF \<notin> set (keys (fst s)) \<and>
     readFileNo (console (snd s)) = rfd \<and> writeFileNo (console (snd s)) = wfd"

lemma terminalD:
  assumes "terminal P rfd wfd keys shown"
  shows "h_select P rfd h = (h', r) \<Longrightarrow> keys h' = keys h \<and> shown h' = shown h \<and> (r = 0 \<or> r = 1)"
    and "h_select P rfd h = (h', 1) \<Longrightarrow> h_read P rfd 1 h' = (h'', n, d) \<Longrightarrow> n = 1 \<and> (\<exists>b. d = [b] \<and> keys h = b # keys h'') \<and> shown h'' = shown h"
    and "h_write P wfd [b] h = (h', r) \<Longrightarrow> r = 1 \<and> shown h' = shown h @ [b] \<and> keys h' = keys h"
proof -
  note d = assms [unfolded terminal_def]
  show "keys h' = keys h \<and> shown h' = shown h \<and> (r = 0 \<or> r = 1)" if "h_select P rfd h = (h', r)"
    using d [THEN conjunct1, rule_format, of h] that by auto
  show "n = 1 \<and> (\<exists>b. d = [b] \<and> keys h = b # keys h'') \<and> shown h'' = shown h" if "h_select P rfd h = (h', 1)" "h_read P rfd 1 h' = (h'', n, d)"
    using d [THEN conjunct1, rule_format, of h] that by auto
  show "r = 1 \<and> shown h' = shown h @ [b] \<and> keys h' = keys h" if "h_write P wfd [b] h = (h', r)"
    using d [THEN conjunct2, rule_format, of h b] that by simp
qed

text \<open>One step: it is done or has to wait, and if it is done the characters are accounted for.\<close>

definition step_ok :: "int \<Rightarrow> int \<Rightarrow> ('h \<Rightarrow> byte list) \<Rightarrow> ('h \<Rightarrow> byte list) \<Rightarrow> 'h \<times> SynchConsole \<Rightarrow> ('h \<times> SynchConsole) \<times> console_event list \<Rightarrow> bool" where
  "step_ok rfd wfd keys shown s = (\<lambda>(s', ev). console_inv rfd wfd keys s' \<and> to_come keys s = got_chars ev @ to_come keys s' \<and>
     shown (fst s') = shown (fst s) @ put_chars ev)"

lemma poll_ok:
  assumes t: "terminal P rfd wfd keys shown" and inv: "console_inv rfd wfd keys (h, sc)"
  shows "gives (step_ok rfd wfd keys shown (h, sc)) (console_do P ReadPoll (h, sc)) \<and> done_or_waits (console_do P ReadPoll (h, sc))"
proof (cases "incoming (console sc) = EOF")
  case False
  then show ?thesis using inv by (simp add: ConsoleReadPoll_def CheckCharAvail_def step_ok_def to_come_def)
next
  case True
  obtain h1 r where sel: "h_select P rfd h = (h1, r)" by (cases "h_select P rfd h")
  note s = terminalD(1) [OF t sel]
  have fd: "readFileNo (console sc) = rfd" using inv by (simp add: console_inv_def)
  consider "r = 0" | "r = 1" using s by blast
  then show ?thesis
  proof cases
    case 1
    then show ?thesis using True inv s sel fd
      by (simp add: ConsoleReadPoll_def CheckCharAvail_def PollFile_def step_ok_def to_come_def console_inv_def)
  next
    case 2
    obtain h2 n d where rd: "h_read P rfd 1 h1 = (h2, n, d)" by (cases "h_read P rfd 1 h1") auto
    obtain b where w: "n = 1" "d = [b]" "keys h = b # keys h2" "shown h2 = shown h" using terminalD(2) [OF t sel [unfolded 2] rd] by blast
    have "b \<noteq> EOF" "EOF \<notin> set (keys h2)" using inv w(3) by (auto simp: console_inv_def)
    then show ?thesis using 2 True inv s sel fd rd w
      by (simp add: ConsoleReadPoll_def CheckCharAvail_def PollFile_def Host_Read_def step_ok_def to_come_def console_inv_def
          read_inv_def write_inv_def Let_def)
  qed
qed

lemma get_ok:
  assumes "console_inv rfd wfd keys (h, sc)"
  shows "gives (step_ok rfd wfd keys shown (h, sc)) (console_do P GetStep (h, sc)) \<and> done_or_waits (console_do P GetStep (h, sc))"
  using assms by (auto simp: getChar_step_def GetChar_def step_ok_def to_come_def console_inv_def read_inv_def write_inv_def Let_def
      split: option.split get_stage.split if_splits)

lemma write_ok:
  assumes "console_inv rfd wfd keys (h, sc)"
  shows "gives (step_ok rfd wfd keys shown (h, sc)) (console_do P WriteDoneInt (h, sc)) \<and> done_or_waits (console_do P WriteDoneInt (h, sc))"
  using assms by (auto simp: ConsoleWriteDone_def WriteDone_def step_ok_def to_come_def console_inv_def read_inv_def write_inv_def Let_def split: if_splits)

lemma put_ok:
  assumes t: "terminal P rfd wfd keys shown" and inv: "console_inv rfd wfd keys (h, sc)"
  shows "gives (step_ok rfd wfd keys shown (h, sc)) (console_do P (PutStep ch) (h, sc)) \<and> done_or_waits (console_do P (PutStep ch) (h, sc))"
proof (cases "\<exists>c1. writeLock sc = Some (PutAtPut c1)")
  case True
  then obtain c1 where c1: "writeLock sc = Some (PutAtPut c1)" by blast
  obtain h1 r where wr: "h_write P wfd [c1] h = (h1, r)" by (cases "h_write P wfd [c1] h")
  show ?thesis using c1 terminalD(3) [OF t wr] wr inv
    by (simp add: putChar_step_def PutChar_def WriteFile_def step_ok_def to_come_def console_inv_def read_inv_def write_inv_def Let_def)
next
  case False
  then show ?thesis using inv by (auto simp: putChar_step_def step_ok_def to_come_def console_inv_def read_inv_def write_inv_def Let_def
      split: option.split put_stage.split if_splits)
qed

lemma console_do_ok:
  assumes "terminal P rfd wfd keys shown" "console_inv rfd wfd keys s"
  shows "gives (step_ok rfd wfd keys shown s) (console_do P a s) \<and> done_or_waits (console_do P a s)"
proof -
  obtain h sc where s: "s = (h, sc)" by (cases s)
  note i = assms(2) [unfolded s]
  show ?thesis unfolding s using poll_ok [OF assms(1) i] get_ok [OF i] write_ok [OF i] put_ok [OF assms(1) i] by (cases a) (simp_all only:)
qed

lemma chars_append [simp]: "got_chars (xs @ ys) = got_chars xs @ got_chars ys" "put_chars (xs @ ys) = put_chars xs @ put_chars ys"
  by (induction xs rule: got_chars.induct) simp_all

lemma console_run_ok:
  assumes "terminal P rfd wfd keys shown"
  shows "console_inv rfd wfd keys s \<Longrightarrow> gives (step_ok rfd wfd keys shown s) (console_run P as s)"
proof (induction as arbitrary: s)
  case Nil
  then show ?case by (simp add: step_ok_def)
next
  case (Cons a as)
  have "gives (\<lambda>(s', ev). gives (\<lambda>(s'', evs). step_ok rfd wfd keys shown s (s'', ev @ evs)) (console_run P as s')) (console_do P a s)"
    using conjunct1 [OF console_do_ok [OF assms Cons.prems]]
  proof (rule gives_mono)
    fix x
    assume x: "step_ok rfd wfd keys shown s x"
    then have "gives (step_ok rfd wfd keys shown (fst x)) (console_run P as (fst x))" by (intro Cons.IH) (auto simp: step_ok_def)
    then show "case x of (s', ev) \<Rightarrow> gives (\<lambda>(s'', evs). step_ok rfd wfd keys shown s (s'', ev @ evs)) (console_run P as s')"
      using x by (auto simp: step_ok_def gives_def)
  qed
  then show ?case by (simp add: case_prod_unfold)
qed

lemma new_SynchConsole_inv:
  assumes "new_SynchConsole P readFile writeFile h0 = Inr (h, sc)" "EOF \<notin> set (keys h)"
  shows "console_inv (readFileNo (console sc)) (writeFileNo (console sc)) keys (h, sc)" "to_come keys (h, sc) = keys h"
  using assms by (auto simp: new_SynchConsole_def new_Console_def bindE_eq_Inr console_inv_def read_inv_def write_inv_def to_come_def Let_def)

section \<open>Properties\<close>

text \<open>C39. On a new synchronous console at a terminal whose input does not end and has no byte 255, however the threads and interrupts interleave: the characters that \<^verbatim>\<open>getChar\<close> has returned
  are a beginning of the input, in order and without loss; the display shows what \<^verbatim>\<open>putChar\<close> was called with, in
  order; and the next step of any thread or interrupt is done or has to wait, so that no check fails.\<close>

theorem console_in_order:
  assumes "new_SynchConsole P readFile writeFile h0 = Inr (h, sc)"
    and "terminal P (readFileNo (console sc)) (writeFileNo (console sc)) keys shown" "EOF \<notin> set (keys h)"
    and "console_run P as (h, sc) = Inr ((h', sc'), evs)"
  shows "\<exists>rest. keys h = got_chars evs @ rest \<and> shown h' = shown h @ put_chars evs \<and> done_or_waits (console_do P a (h', sc'))"
proof -
  note n = new_SynchConsole_inv [where keys = keys, OF assms(1,3)]
  have "step_ok (readFileNo (console sc)) (writeFileNo (console sc)) keys shown (h, sc) ((h', sc'), evs)"
    by (rule givesD [OF console_run_ok [OF assms(2) n(1)] assms(4)])
  then show ?thesis using n(2) console_do_ok [OF assms(2), of "(h', sc')" a] by (auto simp: step_ok_def)
qed

section \<open>A concrete terminal\<close>

type_synonym ex_term = "byte list \<times> byte list"

definition ex_term :: "ex_term Posix" where
  "ex_term = \<lparr>h_open = \<lambda>_ _ h. (h, - 1),
     h_read = \<lambda>_ _ h. (case fst h of [] \<Rightarrow> (h, 0, []) | b # bs \<Rightarrow> ((bs, snd h), 1, [b])),
     h_write = \<lambda>_ bs h. ((fst h, snd h @ bs), int (length bs)), h_lseek = \<lambda>_ _ _ h. (h, - 1),
     h_close = \<lambda>_ h. (h, 0), h_unlink = \<lambda>_ h. (h, - 1), h_select = \<lambda>_ h. (h, if fst h = [] then 0 else 1),
     h_mkdir = \<lambda>_ h. h, h_rmdir = \<lambda>_ h. h, h_chdir = \<lambda>_ h. h, h_system = \<lambda>_ h. h, h_putchar = \<lambda>_ h. h, h_getchar = \<lambda>h. (h, 0)\<rparr>"

definition ex_console :: SynchConsole where
  "ex_console = snd (projr (new_SynchConsole ex_term None None ([], [])))"

lemma ex_terminal: "terminal ex_term rfd wfd fst snd"
  by (auto simp: terminal_def ex_term_def split: list.split)

lemma ex_console_new: "new_SynchConsole ex_term None None h = Inr (h, ex_console)"
  by (simp add: ex_console_def new_SynchConsole_def new_Console_def)

lemmas console_eval = ex_console_def new_SynchConsole_def new_Console_def ConsoleReadPoll_def CheckCharAvail_def PollFile_def Host_Read_def
  getChar_step_def GetChar_def putChar_step_def PutChar_def WriteFile_def ConsoleWriteDone_def WriteDone_def ex_term_def Let_def

text \<open>An echo: a character is read and written.\<close>

definition ex_echo :: "console_act list" where
  "ex_echo = [ReadPoll, GetStep, GetStep, GetStep, GetStep, PutStep 104, PutStep 104, WriteDoneInt, PutStep 104]"

lemma ex_echo_run: "\<exists>s. console_run ex_term ex_echo (([104, 105], []), ex_console) = Inr (s, [GotChar 104, PutDone 104])"
  by (simp add: ex_echo_def console_eval)

theorem console_in_order_witness:
  "\<exists>h' sc' evs rest. console_run ex_term ex_echo (([104, 105], []), ex_console) = Inr ((h', sc'), evs) \<and>
     [104, 105] = got_chars evs @ rest \<and> snd h' = put_chars evs \<and> put_chars evs = [104]"
proof -
  obtain h' sc' where r: "console_run ex_term ex_echo (([104, 105], []), ex_console) = Inr ((h', sc'), [GotChar 104, PutDone 104])"
    using ex_echo_run by auto
  have "EOF \<notin> set (fst ([104, 105], []))" by simp
  from console_in_order [OF ex_console_new ex_terminal this r] show ?thesis using r by auto
qed

text \<open>A typed character equal to \<^verbatim>\<open>EOF\<close> does not count as buffered: the next poll overwrites it, and both calls of
  \<^verbatim>\<open>getChar\<close> return something else.\<close>

theorem console_EOF_lost:
  "\<exists>s evs. console_run ex_term ([ReadPoll, ReadPoll] @ concat (replicate 2 [GetStep, GetStep, GetStep, GetStep])) (([255, 104], []), ex_console) =
     Inr (s, evs) \<and> got_chars evs = [104, 255]"
  by (simp add: console_eval eval_nat_numeral)

text \<open>At the end of a keyboard file polling says that it can be read, the read gives no byte, and the check in \<^verbatim>\<open>Read\<close> stops Nachos.\<close>

theorem console_end_of_file:
  assumes "incoming c = EOF" "h_select P (readFileNo c) h = (h', 1)" "h_read P (readFileNo c) 1 h' = (h'', 0, d)"
  shows "CheckCharAvail P h c = Inl AssertFailed"
  using assms by (simp add: CheckCharAvail_def PollFile_def Host_Read_def)

end
