(* ===== verification/Coff_Noff.thy ===== *)
theory Coff_Noff
  imports Process_Image
begin

text \<open>
  The converter \<^verbatim>\<open>bin/coff2noff.c\<close>, which makes the executables of the kernel from object files of the compiler. The input
  is the content of a regular file, the output the content of the file written. \<open>Exited\<close>: the converter
  has removed its output and ended with \<^verbatim>\<open>exit(1)\<close>.

  Shown: the output is an object file whose segments are the sections of the input; with the loader of \<open>Process_Image\<close>, a program
  that is linked as usual finds its code and data in memory.
\<close>

section \<open>The input format\<close>

text \<open>On the host \<^verbatim>\<open>long\<close> has four bytes, so that the headers have 20, 56 and 40 bytes; only the fields that are used
  are kept.\<close>

abbreviation (input) MIPSELMAGIC :: "16 word" where "MIPSELMAGIC \<equiv> 0x0162"
abbreviation (input) OMAGIC :: "16 word" where "OMAGIC \<equiv> 0x107"

definition bytes_short :: "byte list \<Rightarrow> 16 word" where
  "bytes_short bs = ucast (bs ! 0) OR push_bit 8 (ucast (bs ! 1))"

definition ShortToHost :: "16 word \<Rightarrow> 16 word" where
  "ShortToHost w = w"

record scnhdr =
  s_name :: "byte list"
  s_paddr :: "32 word"
  s_size :: "32 word"
  s_scnptr :: "32 word"

definition scnhdr_of :: "byte list \<Rightarrow> scnhdr" where
  "scnhdr_of bs = \<lparr>s_name = slice 0 8 bs, s_paddr = WordToHost (bytes_word (slice 8 4 bs)), s_size = WordToHost (bytes_word (slice 16 4 bs)),
     s_scnptr = WordToHost (bytes_word (slice 20 4 bs))\<rparr>"

text \<open>\<^verbatim>\<open>!strcmp(s_name, lit)\<close>; the names compared with are shorter than the field.\<close>

definition is_name :: "byte list \<Rightarrow> scnhdr \<Rightarrow> bool" where
  "is_name lit s \<longleftrightarrow> take (length lit + 1) (s_name s) = lit @ [0]"

definition is_text :: "scnhdr \<Rightarrow> bool" where
  "is_text s \<longleftrightarrow> is_name [0x2E, 0x74, 0x65, 0x78, 0x74] s"

definition is_data :: "scnhdr \<Rightarrow> bool" where
  "is_data s \<longleftrightarrow> is_name [0x2E, 0x64, 0x61, 0x74, 0x61] s \<or> is_name [0x2E, 0x72, 0x64, 0x61, 0x74, 0x61] s"

definition is_bss :: "scnhdr \<Rightarrow> bool" where
  "is_bss s \<longleftrightarrow> is_name [0x2E, 0x62, 0x73, 0x73] s \<or> is_name [0x2E, 0x73, 0x62, 0x73, 0x73] s"

section \<open>The converter\<close>

record Converter =
  in_pos :: nat
  out_file :: "byte list"
  out_pos :: nat
  noffH :: NoffHeader
  inNoffFile :: "32 word"

definition Coff_Read :: "byte list \<Rightarrow> nat \<Rightarrow> Converter \<Rightarrow> (Converter \<times> byte list) result" where
  "Coff_Read coff nBytes s =
     (if in_pos s + nBytes \<le> length coff then Inr (s\<lparr>in_pos := in_pos s + nBytes\<rparr>, slice (in_pos s) nBytes coff) else Inl Exited)"

text \<open>A write past the end of a file leaves zeros in between.\<close>

definition file_put :: "nat \<Rightarrow> byte list \<Rightarrow> byte list \<Rightarrow> byte list" where
  "file_put pos bs f = take pos (f @ replicate (pos - length f) 0) @ bs @ drop (pos + length bs) f"

definition Coff_Write :: "byte list \<Rightarrow> Converter \<Rightarrow> Converter" where
  "Coff_Write bs s = s\<lparr>out_file := file_put (out_pos s) bs (out_file s), out_pos := out_pos s + length bs\<rparr>"

text \<open>A seek to a negative position fails and its result is not looked at.\<close>

definition seek_in :: "32 word \<Rightarrow> Converter \<Rightarrow> Converter" where
  "seek_in p s = (if 0 \<le> sint p then s\<lparr>in_pos := unat p\<rparr> else s)"

text \<open>The copy of a section; no memory for a negative size.\<close>

definition copy_section :: "byte list \<Rightarrow> scnhdr \<Rightarrow> Converter \<Rightarrow> Converter result" where
  "copy_section coff sec s =
     (if sint (s_size sec) < 0 then Inl BadAccess
      else bindE (Coff_Read coff (unat (s_size sec)) (seek_in (s_scnptr sec) s)) (\<lambda>(s, buffer).
           let s = Coff_Write buffer s in Inr (s\<lparr>inNoffFile := inNoffFile s + s_size sec\<rparr>)))"

definition put_segment :: "scnhdr \<Rightarrow> Converter \<Rightarrow> Segment" where
  "put_segment sec s = \<lparr>virtualAddr = s_paddr sec, inFileAddr = inNoffFile s, seg_size = s_size sec\<rparr>"

definition convert_section :: "byte list \<Rightarrow> scnhdr \<Rightarrow> Converter \<Rightarrow> Converter result" where
  "convert_section coff sec s =
     (if s_size sec = 0 then Inr s
      else if is_text sec then copy_section coff sec (s\<lparr>noffH := (noffH s)\<lparr>code := put_segment sec s\<rparr>\<rparr>)
      else if is_data sec then
        (if seg_size (initData (noffH s)) \<noteq> 0 then Inl Exited
         else copy_section coff sec (s\<lparr>noffH := (noffH s)\<lparr>initData := put_segment sec s\<rparr>\<rparr>))
      else if is_bss sec then
        (let u = uninitData (noffH s) in
         if seg_size u \<noteq> 0 then
           (if s_paddr sec = virtualAddr u + seg_size u then Inl Exited
            else Inr (s\<lparr>noffH := (noffH s)\<lparr>uninitData := u\<lparr>seg_size := seg_size u + s_size sec\<rparr>\<rparr>\<rparr>))
         else Inr (s\<lparr>noffH := (noffH s)\<lparr>uninitData := u\<lparr>virtualAddr := s_paddr sec, seg_size := s_size sec\<rparr>\<rparr>\<rparr>))
      else Inl Exited)"

definition Segment_bytes :: "Segment \<Rightarrow> byte list" where
  "Segment_bytes s = word_bytes (virtualAddr s) @ word_bytes (inFileAddr s) @ word_bytes (seg_size s)"

definition NoffHeader_bytes :: "NoffHeader \<Rightarrow> byte list" where
  "NoffHeader_bytes n = word_bytes (noffMagic n) @ Segment_bytes (code n) @ Segment_bytes (initData n) @ Segment_bytes (uninitData n)"

text \<open>\<open>junk\<close> is the header variable before anything is assigned to it.\<close>

definition coff_sections :: "byte list \<Rightarrow> scnhdr list" where
  "coff_sections coff = map (\<lambda>i. scnhdr_of (slice (76 + 40 * i) 40 coff)) [0..<unat (ShortToHost (bytes_short (slice 2 2 coff)))]"

definition coff2noff :: "NoffHeader \<Rightarrow> byte list \<Rightarrow> byte list result" where
  "coff2noff junk coff =
     (let s = \<lparr>in_pos = 0, out_file = [], out_pos = 0, noffH = junk, inNoffFile = 0\<rparr> in
      bindE (Coff_Read coff 20 s) (\<lambda>(s, fileh).
      if ShortToHost (bytes_short fileh) \<noteq> MIPSELMAGIC then Inl Exited
      else bindE (Coff_Read coff 56 s) (\<lambda>(s, systemh).
      if ShortToHost (bytes_short systemh) \<noteq> OMAGIC then Inl Exited
      else let numsections = unat (ShortToHost (bytes_short (slice 2 2 fileh))) in
      bindE (Coff_Read coff (numsections * 40) s) (\<lambda>(s, hdrs).
      let sections = map (\<lambda>i. scnhdr_of (slice (40 * i) 40 hdrs)) [0..<numsections];
          n = noffH s;
          n = n\<lparr>noffMagic := NOFFMAGIC, code := (code n)\<lparr>seg_size := 0\<rparr>, initData := (initData n)\<lparr>seg_size := 0\<rparr>,
                uninitData := (uninitData n)\<lparr>seg_size := 0\<rparr>\<rparr> in
      bindE (foldE (convert_section coff) sections (s\<lparr>noffH := n, inNoffFile := 40, out_pos := 40\<rparr>)) (\<lambda>s.
      let s = Coff_Write (NoffHeader_bytes (noffH s)) (s\<lparr>out_pos := 0\<rparr>) in Inr (out_file s))))))"

section \<open>The sections are copied\<close>

text \<open>What is written so far ends at the output position, after the space for the header.\<close>

definition out_ok :: "Converter \<Rightarrow> bool" where
  "out_ok s \<longleftrightarrow> 40 \<le> out_pos s \<and> inNoffFile s = of_nat (out_pos s) \<and> (out_file s = [] \<and> out_pos s = 40 \<or> length (out_file s) = out_pos s)"

text \<open>A segment of the output that holds a section of the input.\<close>

definition holds :: "byte list \<Rightarrow> scnhdr \<Rightarrow> Segment \<Rightarrow> byte list \<Rightarrow> bool" where
  "holds coff sec seg out \<longleftrightarrow> (\<exists>k \<ge> 40. seg = \<lparr>virtualAddr = s_paddr sec, inFileAddr = of_nat k, seg_size = s_size sec\<rparr> \<and>
     k + unat (s_size sec) \<le> length out \<and> unat (s_scnptr sec) + unat (s_size sec) \<le> length coff \<and>
     slice k (unat (s_size sec)) out = slice (unat (s_scnptr sec)) (unat (s_size sec)) coff)"

lemma slice_append: "k + n \<le> length xs \<Longrightarrow> slice k n (xs @ ys) = slice k n xs"
  by (simp add: slice_def)

lemma holds_append: "holds coff sec seg out \<Longrightarrow> holds coff sec seg (out @ ys)"
  unfolding holds_def by (auto simp: slice_append)

lemma copy_section_ok:
  assumes "out_ok s" "0 \<le> sint (s_scnptr sec)" "copy_section coff sec s = Inr s'"
  shows "out_ok s' \<and> noffH s' = noffH s \<and> (\<exists>ys. out_file s' = out_file s @ ys) \<and> holds coff sec (put_segment sec s) (out_file s')"
proof -
  let ?n = "unat (s_size sec)" and ?p = "unat (s_scnptr sec)"
  let ?b = "slice ?p ?n coff"
  have r: "?p + ?n \<le> length coff" "s' = (Coff_Write ?b (s\<lparr>in_pos := ?p + ?n\<rparr>))\<lparr>inNoffFile := inNoffFile s + s_size sec\<rparr>"
    using assms(2,3) by (auto simp: copy_section_def seek_in_def Coff_Read_def Coff_Write_def Let_def split: if_splits)
  have lb: "length ?b = ?n" using r(1) by simp
  have f: "file_put (out_pos s) ?b (out_file s) = (out_file s @ replicate (out_pos s - length (out_file s)) 0) @ ?b"
    using assms(1) by (auto simp: file_put_def out_ok_def)
  let ?f = "out_file s @ replicate (out_pos s - length (out_file s)) 0"
  have lf: "length ?f = out_pos s" using assms(1) by (auto simp: out_ok_def)
  have o: "out_file s' = ?f @ ?b" "out_pos s' = out_pos s + ?n" "noffH s' = noffH s" "inNoffFile s' = inNoffFile s + s_size sec"
    using r(2) f lb by (simp_all add: Coff_Write_def)
  have "inNoffFile s' = of_nat (out_pos s + ?n)" using o(4) assms(1) by (simp add: out_ok_def)
  then have "out_ok s'" using assms(1) o lb lf by (simp add: out_ok_def)
  moreover have "holds coff sec (put_segment sec s) (out_file s')" unfolding holds_def
  proof (intro exI [of _ "out_pos s"] conjI)
    show "slice (out_pos s) ?n (out_file s') = ?b" unfolding o(1) slice_def using lb lf by (simp add: slice_def)
  qed (use assms(1) r(1) o(1) lb lf in \<open>simp_all add: out_ok_def put_segment_def\<close>)
  ultimately show ?thesis using o(1,3) by simp
qed

text \<open>The nonempty sections of each kind.\<close>

definition texts :: "scnhdr list \<Rightarrow> scnhdr list" where
  "texts ss = filter (\<lambda>s. s_size s \<noteq> 0 \<and> is_text s) ss"

definition datas :: "scnhdr list \<Rightarrow> scnhdr list" where
  "datas ss = filter (\<lambda>s. s_size s \<noteq> 0 \<and> \<not> is_text s \<and> is_data s) ss"

definition bsss :: "scnhdr list \<Rightarrow> scnhdr list" where
  "bsss ss = filter (\<lambda>s. s_size s \<noteq> 0 \<and> \<not> is_text s \<and> \<not> is_data s) ss"

definition segments_ok :: "byte list \<Rightarrow> scnhdr list \<Rightarrow> NoffHeader \<Rightarrow> byte list \<Rightarrow> bool" where
  "segments_ok coff ss n out \<longleftrightarrow> noffMagic n = NOFFMAGIC \<and>
     (if texts ss = [] then seg_size (code n) = 0 else holds coff (last (texts ss)) (code n) out) \<and>
     (case datas ss of [] \<Rightarrow> seg_size (initData n) = 0 | [d] \<Rightarrow> holds coff d (initData n) out | _ \<Rightarrow> False) \<and>
     seg_size (uninitData n) = sum_list (map s_size (bsss ss))"

lemma segments_ok_append: "segments_ok coff ss n out \<Longrightarrow> segments_ok coff ss n (out @ ys)"
  by (auto simp: segments_ok_def holds_append split: list.splits)

lemma kinds_snoc:
  "texts (ss @ [x]) = texts ss @ (if s_size x \<noteq> 0 \<and> is_text x then [x] else [])"
  "datas (ss @ [x]) = datas ss @ (if s_size x \<noteq> 0 \<and> \<not> is_text x \<and> is_data x then [x] else [])"
  "bsss (ss @ [x]) = bsss ss @ (if s_size x \<noteq> 0 \<and> \<not> is_text x \<and> \<not> is_data x then [x] else [])"
  by (simp_all add: texts_def datas_def bsss_def)

lemma convert_section_ok:
  assumes "out_ok s" "segments_ok coff ss (noffH s) (out_file s)" "0 \<le> sint (s_scnptr sec)" "convert_section coff sec s = Inr s'"
  shows "out_ok s' \<and> segments_ok coff (ss @ [sec]) (noffH s') (out_file s')"
proof -
  have copy: ?thesis if c: "copy_section coff sec (s\<lparr>noffH := n\<rparr>) = Inr s'"
    and k: "\<And>out. holds coff sec (put_segment sec s) out \<Longrightarrow> segments_ok coff ss (noffH s) out \<Longrightarrow> segments_ok coff (ss @ [sec]) n out" for n
  proof -
    have "out_ok (s\<lparr>noffH := n\<rparr>)" using assms(1) by (simp add: out_ok_def)
    from copy_section_ok [OF this assms(3) c] obtain ys where c': "out_ok s'" "noffH s' = n" "out_file s' = out_file s @ ys"
      "holds coff sec (put_segment sec s) (out_file s')" by (auto simp: put_segment_def)
    then show ?thesis using k segments_ok_append [OF assms(2)] by simp
  qed
  consider "s_size sec = 0" | "s_size sec \<noteq> 0" "is_text sec" | "s_size sec \<noteq> 0" "\<not> is_text sec" "is_data sec"
    | "s_size sec \<noteq> 0" "\<not> is_text sec" "\<not> is_data sec" by blast
  then show ?thesis
  proof cases
    case 1
    then show ?thesis using assms(1,2,4) by (auto simp: convert_section_def segments_ok_def kinds_snoc)
  next
    case 2
    show ?thesis by (rule copy [of "(noffH s)\<lparr>code := put_segment sec s\<rparr>"])
      (use 2 assms(4) in \<open>auto simp: convert_section_def segments_ok_def kinds_snoc cong: list.case_cong\<close>)
  next
    case 3
    then have z: "seg_size (initData (noffH s)) = 0" using assms(4) by (auto simp: convert_section_def split: if_splits)
    have "datas ss = []"
      using assms(2) z by (auto simp: segments_ok_def holds_def datas_def filter_eq_Cons_iff split: list.splits)
    then show ?thesis by (intro copy [of "(noffH s)\<lparr>initData := put_segment sec s\<rparr>"])
      (use 3 z assms(4) in \<open>auto simp: convert_section_def segments_ok_def kinds_snoc\<close>)
  next
    case 4
    then show ?thesis using assms(1,2,4)
      by (auto simp: convert_section_def segments_ok_def kinds_snoc out_ok_def Let_def split: if_splits cong: list.case_cong)
  qed
qed

lemma convert_sections_ok:
  assumes "out_ok s" "segments_ok coff rs (noffH s) (out_file s)" "\<forall>sec \<in> set ss. 0 \<le> sint (s_scnptr sec)"
    and "foldE (convert_section coff) ss s = Inr s'"
  shows "out_ok s' \<and> segments_ok coff (rs @ ss) (noffH s') (out_file s')"
  using assms
proof (induction ss arbitrary: s rs)
  case (Cons x ss)
  obtain s1 where s1: "convert_section coff x s = Inr s1" "foldE (convert_section coff) ss s1 = Inr s'"
    using Cons.prems(4) by (auto elim: bindE_InrE)
  have "out_ok s1 \<and> segments_ok coff (rs @ [x]) (noffH s1) (out_file s1)"
    by (rule convert_section_ok [OF Cons.prems(1,2) _ s1(1)]) (use Cons.prems(3) in simp)
  then show ?case using Cons.IH [of s1 "rs @ [x]"] Cons.prems(3) s1(2) by simp
qed simp

text \<open>The section headers, read at once and then taken apart.\<close>

lemma slice_slice: "j + m \<le> n \<Longrightarrow> slice j m (slice k n xs) = slice (k + j) m xs"
  by (simp add: slice_def drop_take add.commute min.absorb1)

lemma coff2noff_sections:
  assumes "coff2noff junk coff = Inr out"
  obtains p s where
    "foldE (convert_section coff) (coff_sections coff) \<lparr>in_pos = p, out_file = [], out_pos = 40,
       noffH = junk\<lparr>noffMagic := NOFFMAGIC, code := (code junk)\<lparr>seg_size := 0\<rparr>, initData := (initData junk)\<lparr>seg_size := 0\<rparr>,
         uninitData := (uninitData junk)\<lparr>seg_size := 0\<rparr>\<rparr>, inNoffFile = 40\<rparr> = Inr s"
    "out = file_put 0 (NoffHeader_bytes (noffH s)) (out_file s)"
proof -
  let ?n = "unat (ShortToHost (bytes_short (slice 2 2 coff)))"
  let ?s0 = "\<lambda>p. \<lparr>in_pos = p, out_file = [], out_pos = 40,
       noffH = junk\<lparr>noffMagic := NOFFMAGIC, code := (code junk)\<lparr>seg_size := 0\<rparr>, initData := (initData junk)\<lparr>seg_size := 0\<rparr>,
         uninitData := (uninitData junk)\<lparr>seg_size := 0\<rparr>\<rparr>, inNoffFile = 40\<rparr>"
  have h: "slice 2 2 (slice 0 20 coff) = slice 2 2 coff" by (simp add: slice_def drop_take)
  have m: "map (\<lambda>i. scnhdr_of (slice (40 * i) 40 (slice 76 (?n * 40) coff))) [0..<?n] = coff_sections coff"
    unfolding coff_sections_def by (intro map_cong refl) (simp add: slice_slice)
  have c1: "20 \<le> length coff" by (rule ccontr) (use assms in \<open>simp add: coff2noff_def Coff_Read_def Let_def\<close>)
  have c2: "ShortToHost (bytes_short (slice 0 20 coff)) = MIPSELMAGIC"
    by (rule ccontr) (use assms c1 in \<open>simp add: coff2noff_def Coff_Read_def Let_def\<close>)
  have c3: "76 \<le> length coff" by (rule ccontr) (use assms c1 c2 in \<open>simp add: coff2noff_def Coff_Read_def Let_def\<close>)
  have c4: "ShortToHost (bytes_short (slice 20 56 coff)) = OMAGIC"
    by (rule ccontr) (use assms c1 c2 c3 in \<open>simp add: coff2noff_def Coff_Read_def Let_def\<close>)
  have c5: "76 + ?n * 40 \<le> length coff"
    by (rule ccontr) (use assms c1 c2 c3 c4 h in \<open>simp add: coff2noff_def Coff_Read_def Let_def\<close>)
  have "bindE (foldE (convert_section coff) (coff_sections coff) (?s0 (76 + ?n * 40)))
      (\<lambda>s. Inr (file_put 0 (NoffHeader_bytes (noffH s)) (out_file s))) = Inr out"
    using assms c1 c2 c3 c4 c5 h m by (simp add: coff2noff_def Coff_Read_def Coff_Write_def Let_def)
  then show ?thesis using that by (elim bindE_InrE) simp
qed

lemma length_NoffHeader_bytes [simp]: "length (NoffHeader_bytes n) = 40"
  by (simp add: NoffHeader_bytes_def Segment_bytes_def)

lemma NoffHeader_roundtrip: "NoffHeader_of (NoffHeader_bytes n) = n"
  by (simp add: NoffHeader_of_def Segment_of_def NoffHeader_bytes_def Segment_bytes_def slice_def)

text \<open>Writing the header in front keeps the segments.\<close>

lemma holds_header:
  assumes "holds coff sec seg f" "length h = 40"
  shows "holds coff sec seg (file_put 0 h f)"
proof -
  have "slice k n (h @ drop 40 f) = slice k n f" if "40 \<le> k" for k n using that assms(2) by (simp add: slice_def)
  moreover have "length f \<le> length (h @ drop 40 f)" using assms(2) by simp
  ultimately show ?thesis using assms by (auto simp: holds_def file_put_def intro: order_trans)
qed

lemma coff2noff_segments:
  assumes "coff2noff junk coff = Inr out" "\<forall>sec \<in> set (coff_sections coff). 0 \<le> sint (s_scnptr sec)"
  shows "40 \<le> length out" "segments_ok coff (coff_sections coff) (NoffHeader_of (take 40 out)) out"
proof -
  obtain p s where s: "foldE (convert_section coff) (coff_sections coff) \<lparr>in_pos = p, out_file = [], out_pos = 40,
       noffH = junk\<lparr>noffMagic := NOFFMAGIC, code := (code junk)\<lparr>seg_size := 0\<rparr>, initData := (initData junk)\<lparr>seg_size := 0\<rparr>,
         uninitData := (uninitData junk)\<lparr>seg_size := 0\<rparr>\<rparr>, inNoffFile = 40\<rparr> = Inr s" (is "foldE _ _ ?s0 = _")
    "out = file_put 0 (NoffHeader_bytes (noffH s)) (out_file s)"
    by (rule coff2noff_sections [OF assms(1)])
  have "out_ok ?s0" "segments_ok coff [] (noffH ?s0) (out_file ?s0)"
    by (simp_all add: out_ok_def segments_ok_def texts_def datas_def bsss_def)
  from convert_sections_ok [OF this assms(2) s(1)] have "segments_ok coff (coff_sections coff) (noffH s) (out_file s)" by simp
  then have "segments_ok coff (coff_sections coff) (noffH s) out"
    unfolding s(2) by (auto simp: segments_ok_def holds_header split: list.splits)
  moreover have "take 40 out = NoffHeader_bytes (noffH s)" "40 \<le> length out" unfolding s(2) by (simp_all add: file_put_def)
  ultimately show "40 \<le> length out" "segments_ok coff (coff_sections coff) (NoffHeader_of (take 40 out)) out"
    by (simp_all add: NoffHeader_roundtrip)
qed

lemma holds_file:
  assumes "holds coff sec seg out" "length out < 2 ^ 31"
  shows "virtualAddr seg = s_paddr sec" "seg_size seg = s_size sec" "unat (inFileAddr seg) + unat (s_size sec) \<le> length out"
    "segment_bytes out seg = slice (unat (s_scnptr sec)) (unat (s_size sec)) coff" "unat (s_scnptr sec) + unat (s_size sec) \<le> length coff"
proof -
  obtain k where k: "seg = \<lparr>virtualAddr = s_paddr sec, inFileAddr = of_nat k, seg_size = s_size sec\<rparr>"
    "k + unat (s_size sec) \<le> length out" "unat (s_scnptr sec) + unat (s_size sec) \<le> length coff"
    "slice k (unat (s_size sec)) out = slice (unat (s_scnptr sec)) (unat (s_size sec)) coff"
    using assms(1) unfolding holds_def by blast
  have "unat (of_nat k :: 32 word) = k" using k(2) assms(2) by (simp add: unat_of_nat)
  then show "virtualAddr seg = s_paddr sec" "seg_size seg = s_size sec" "unat (inFileAddr seg) + unat (s_size sec) \<le> length out"
    "segment_bytes out seg = slice (unat (s_scnptr sec)) (unat (s_size sec)) coff" "unat (s_scnptr sec) + unat (s_size sec) \<le> length coff"
    using k by (simp_all add: segment_bytes_def)
qed

section \<open>Properties\<close>

text \<open>C37. From the compiler's object file to the memory of the process: when the converter accepts a file with one section of
  code, at address 0, and one of data, behind it and inside the space the loader provides, \<^verbatim>\<open>StartProcess\<close> on its output
  leaves a process that finds the bytes of both sections at their addresses.\<close>

theorem coff_program_loads:
  assumes conv: "coff2noff junk coff = Inr out" "\<forall>sec \<in> set (coff_sections coff). 0 \<le> sint (s_scnptr sec)" "length out < 2 ^ 31"
    and kinds: "texts (coff_sections coff) = [t]" "datas (coff_sections coff) = [d]" "sum_list (map s_size (bsss (coff_sections coff))) = b"
    and layout: "s_paddr t = 0" "unat (s_size t) \<le> unat (s_paddr d)" "unat (s_paddr d) + unat (s_size d) \<le> unat (s_size t) + unat (s_size d) + unat b + 1024"
      "unat (s_size t) + unat (s_size d) + unat b + 1024 < 2 ^ 31"
    and host: "unused m" "h_open P name False h = (h0, fd)" "0 \<le> fd" "serves P fd out I" "I h0" "\<forall>h. I h \<longrightarrow> 0 \<le> snd (h_close P fd h)"
      "length jh = 40"
  shows "\<exists>h' m' sp. StartProcess P jp jb jh s name h m = Inr (h', Some m') \<and> vm_inv s sp m' \<and>
    (\<forall>j < unat (s_size t). mem_of sp m' ! (unat (s_paddr t) + j) = coff ! (unat (s_scnptr t) + j)) \<and>
    (\<forall>j < unat (s_size d). mem_of sp m' ! (unat (s_paddr d) + j) = coff ! (unat (s_scnptr d) + j))"
proof -
  define n where "n = NoffHeader_of (take 40 out)"
  have so: "segments_ok coff (coff_sections coff) n out" "40 \<le> length out"
    using coff2noff_segments [OF conv(1,2)] by (simp_all add: n_def)
  have c: "holds coff t (code n) out" "holds coff d (initData n) out" "seg_size (uninitData n) = b" "noffMagic n = NOFFMAGIC"
    using so(1) kinds by (simp_all add: segments_ok_def)
  note t = holds_file [OF c(1) conv(3)] and d = holds_file [OF c(2) conv(3)]
  have ts: "total_size n = unat (s_size t) + unat (s_size d) + unat b + 1024" using t(2) d(2) c(3) by (simp add: total_size_def)
  have ok: "noff_fits out n" using so(2) c(4) t d layout(2-) conv(3) ts by (simp add: noff_fits_def n_def [symmetric])
  obtain h' m' sp where r: "StartProcess P jp jb jh s name h m = Inr (h', Some m')" "vm_inv s sp m'" "total_size n \<le> 128 * unat (numPages sp)"
    "mem_of sp m' = map (loaded_bytes out n jb) [0..<128 * unat (numPages sp)]"
    using StartProcess_image [OF host(1-6) ok host(7), of jp jb s] by (elim exE conjE) (rule that)
  have mem: "mem_of sp m' ! j = loaded_bytes out n jb j" if "j < total_size n" for j using that r(3,4) by simp
  have "mem_of sp m' ! (unat (s_paddr t) + j) = coff ! (unat (s_scnptr t) + j)" if "j < unat (s_size t)" for j
    using that mem [of j] ts t layout(1) by (simp add: loaded_bytes_def nth_slice)
  moreover have "mem_of sp m' ! (unat (s_paddr d) + j) = coff ! (unat (s_scnptr d) + j)" if "j < unat (s_size d)" for j
    using that mem [of "unat (s_paddr d) + j"] ts t(2) d layout by (simp add: loaded_bytes_def nth_slice)
  ultimately show ?thesis using r(1,2) by blast
qed

text \<open>The test for \<^verbatim>\<open>.bss\<close> and \<^verbatim>\<open>.sbss\<close> is the wrong way round: contiguous ones are refused, and with a gap the
  converter goes on with a size that does not reach the end of the second.\<close>

theorem bss_test_inverted:
  assumes "is_bss sec" "\<not> is_text sec" "\<not> is_data sec" "s_size sec \<noteq> 0" "seg_size (uninitData (noffH s)) \<noteq> 0"
  shows "convert_section coff sec s =
    (if s_paddr sec = virtualAddr (uninitData (noffH s)) + seg_size (uninitData (noffH s)) then Inl Exited
     else Inr (s\<lparr>noffH := (noffH s)\<lparr>uninitData := (uninitData (noffH s))\<lparr>seg_size := seg_size (uninitData (noffH s)) + s_size sec\<rparr>\<rparr>\<rparr>))"
  using assms by (simp add: convert_section_def Let_def)

section \<open>A small program\<close>

definition ex_section :: "byte list \<Rightarrow> 32 word \<Rightarrow> 32 word \<Rightarrow> 32 word \<Rightarrow> byte list" where
  "ex_section nm pa sz ptr = nm @ word_bytes pa @ word_bytes pa @ word_bytes sz @ word_bytes ptr @ replicate 16 0"

definition ex_coff :: "byte list" where
  "ex_coff = [0x62, 1, 2, 0] @ replicate 16 0 @ [7, 1] @ replicate 54 0 @
     ex_section [0x2E, 0x74, 0x65, 0x78, 0x74, 0, 0, 0] 0 4 156 @ ex_section [0x2E, 0x64, 0x61, 0x74, 0x61, 0, 0, 0] 128 2 160 @ [1, 2, 3, 4, 5, 6]"

definition ex_header :: NoffHeader where
  "ex_header = (let g = \<lparr>virtualAddr = 0, inFileAddr = 0, seg_size = 0\<rparr> in \<lparr>noffMagic = 0, code = g, initData = g, uninitData = g\<rparr>)"

lemma ex_sections: "coff_sections ex_coff =
    [\<lparr>s_name = [0x2E, 0x74, 0x65, 0x78, 0x74, 0, 0, 0], s_paddr = 0, s_size = 4, s_scnptr = 156\<rparr>,
     \<lparr>s_name = [0x2E, 0x64, 0x61, 0x74, 0x61, 0, 0, 0], s_paddr = 128, s_size = 2, s_scnptr = 160\<rparr>]"
  by code_simp

definition ex_out :: "byte list" where
  "ex_out = [0xad, 0xdf, 0xba, 0,  0, 0, 0, 0,  40, 0, 0, 0,  4, 0, 0, 0,
     128, 0, 0, 0,  44, 0, 0, 0,  2, 0, 0, 0,  0, 0, 0, 0,  0, 0, 0, 0,  0, 0, 0, 0,  1, 2, 3, 4, 5, 6]"

lemma ex_converted: "coff2noff ex_header ex_coff = Inr ex_out"
  by code_simp

definition ex_disk :: "nat Posix" where
  "ex_disk = ex_posix\<lparr>h_read := \<lambda>_ n h. let bs = take (nat n) (drop h ex_out) in (h + length bs, int (length bs), bs)\<rparr>"

lemma ex_disk_serves: "serves ex_disk 3 ex_out (\<lambda>_. True)"
  by (simp add: serves_def ex_disk_def ex_posix_def Let_def)

lemma ex_kinds:
  "texts (coff_sections ex_coff) = [\<lparr>s_name = [0x2E, 0x74, 0x65, 0x78, 0x74, 0, 0, 0], s_paddr = 0, s_size = 4, s_scnptr = 156\<rparr>]"
  "datas (coff_sections ex_coff) = [\<lparr>s_name = [0x2E, 0x64, 0x61, 0x74, 0x61, 0, 0, 0], s_paddr = 128, s_size = 2, s_scnptr = 160\<rparr>]"
  "sum_list (map s_size (bsss (coff_sections ex_coff))) = 0"
  by (simp_all add: ex_sections texts_def datas_def bsss_def is_text_def is_data_def is_name_def)

theorem coff_program_loads_witness:
  "\<exists>h' m' sp. StartProcess ex_disk (\<lambda>_. ex_pte) (\<lambda>_. 0) (replicate 40 0) 0 [] 0 ex_fresh = Inr (h', Some m') \<and> vm_inv 0 sp m' \<and>
     mem_of sp m' ! 0 = ex_coff ! 156 \<and> mem_of sp m' ! 129 = ex_coff ! 161"
proof -
  have ptr: "\<forall>sec \<in> set (coff_sections ex_coff). 0 \<le> sint (s_scnptr sec)" by (simp add: ex_sections)
  have len: "length ex_out < 2 ^ 31" by (simp add: ex_out_def)
  have host: "h_open ex_disk [] False 0 = (0, 3)" "(0 :: int) \<le> 3" "\<forall>h. True \<longrightarrow> 0 \<le> snd (h_close ex_disk 3 h)"
    by (simp_all add: ex_disk_def ex_posix_def)
  obtain h' m' sp where r: "StartProcess ex_disk (\<lambda>_. ex_pte) (\<lambda>_. 0) (replicate 40 0) 0 [] 0 ex_fresh = Inr (h', Some m')" "vm_inv 0 sp m'"
    "\<forall>j < 4. mem_of sp m' ! j = ex_coff ! (156 + j)" "\<forall>j < 2. mem_of sp m' ! (128 + j) = ex_coff ! (160 + j)"
    using coff_program_loads [OF ex_converted ptr len ex_kinds _ _ _ _ ex_unused host(1,2) ex_disk_serves TrueI host(3) length_replicate,
        of "\<lambda>_. ex_pte" "\<lambda>_. 0" 0 0] by auto
  have "mem_of sp m' ! (128 + 1) = ex_coff ! (160 + 1)" using r(4) by (rule allE [of _ 1]) simp
  then show ?thesis using r(1,2) r(3) [rule_format, of 0] by (intro exI conjI) simp_all
qed

end
