(* ===== verification/Reader_Writer.thy ===== *)
theory Reader_Writer
  imports Nachos_Prelude
begin

text \<open>
  The two solutions of the readers and writers problem in \<^verbatim>\<open>threads/threadtest.cc\<close>, with semaphores and with a lock and condition
  variables, for any number of threads. A step is the work of one thread between two points where it can be
  preempted or has to wait; the synchronisation objects are used by what their specification says, as \<open>Kernel_Safety\<close> shows for
  semaphores and locks.

  Shown: the first solution keeps writers apart from everybody else; the second lets two writers write at once, and
  a reader read meanwhile.
\<close>

section \<open>With semaphores\<close>

text \<open>
  The next thing a thread does: a reader \<^verbatim>\<open>mutex.P()\<close>, the increment, the test with \<^verbatim>\<open>db.P()\<close>, \<^verbatim>\<open>mutex.V()\<close>, after reading
  \<^verbatim>\<open>mutex.P()\<close>, the decrement, the test with \<^verbatim>\<open>db.V()\<close>, \<^verbatim>\<open>mutex.V()\<close>; a writer \<^verbatim>\<open>db.P()\<close> and after writing \<^verbatim>\<open>db.V()\<close>.
\<close>

datatype rw_pc =
    R_mutexP | R_inc | R_dbP | R_mutexV | Reading | R_dec | R_dbV | R_mutexV2
  | W_dbP | Writing

record RW =
  mutex :: nat
  db :: nat
  ReaderCnt :: int
  pcs :: "nat \<Rightarrow> rw_pc"

abbreviation goto :: "nat \<Rightarrow> rw_pc \<Rightarrow> RW \<Rightarrow> RW" where
  "goto t p s \<equiv> s\<lparr>pcs := (pcs s)(t := p)\<rparr>"

text \<open>\<open>None\<close>: the thread waits in \<^verbatim>\<open>P\<close>.\<close>

definition reader_step :: "nat \<Rightarrow> RW \<Rightarrow> RW option" where
  "reader_step t s =
     (case pcs s t of
        R_mutexP \<Rightarrow> if mutex s > 0 then Some (goto t R_inc (s\<lparr>mutex := mutex s - 1\<rparr>)) else None
      | R_inc \<Rightarrow> Some (goto t R_dbP (s\<lparr>ReaderCnt := ReaderCnt s + 1\<rparr>))
      | R_dbP \<Rightarrow>
          if ReaderCnt s = 1 then (if db s > 0 then Some (goto t R_mutexV (s\<lparr>db := db s - 1\<rparr>)) else None)
          else Some (goto t R_mutexV s)
      | R_mutexV \<Rightarrow> Some (goto t Reading (s\<lparr>mutex := mutex s + 1\<rparr>))
      | Reading \<Rightarrow> if mutex s > 0 then Some (goto t R_dec (s\<lparr>mutex := mutex s - 1\<rparr>)) else None
      | R_dec \<Rightarrow> Some (goto t R_dbV (s\<lparr>ReaderCnt := ReaderCnt s - 1\<rparr>))
      | R_dbV \<Rightarrow> Some (goto t R_mutexV2 (if ReaderCnt s = 0 then s\<lparr>db := db s + 1\<rparr> else s))
      | R_mutexV2 \<Rightarrow> Some (goto t R_mutexP (s\<lparr>mutex := mutex s + 1\<rparr>))
      | _ \<Rightarrow> None)"

definition writer_step :: "nat \<Rightarrow> RW \<Rightarrow> RW option" where
  "writer_step t s =
     (case pcs s t of
        W_dbP \<Rightarrow> if db s > 0 then Some (goto t Writing (s\<lparr>db := db s - 1\<rparr>)) else None
      | Writing \<Rightarrow> Some (goto t W_dbP (s\<lparr>db := db s + 1\<rparr>))
      | _ \<Rightarrow> None)"

text \<open>The readers \<open>rs\<close> and the writers \<open>ws\<close> start; \<^verbatim>\<open>mutex\<close> and \<^verbatim>\<open>db\<close> are created with value 1.\<close>

inductive rw_reach :: "nat set \<Rightarrow> nat set \<Rightarrow> RW \<Rightarrow> bool" for rs ws where
  start: "(\<And>t. t \<in> rs \<Longrightarrow> pc t = R_mutexP) \<Longrightarrow> (\<And>t. t \<in> ws \<Longrightarrow> pc t = W_dbP) \<Longrightarrow>
    rw_reach rs ws \<lparr>mutex = 1, db = 1, ReaderCnt = 0, pcs = pc\<rparr>"
| reader: "rw_reach rs ws s \<Longrightarrow> t \<in> rs \<Longrightarrow> reader_step t s = Some s' \<Longrightarrow> rw_reach rs ws s'"
| writer: "rw_reach rs ws s \<Longrightarrow> t \<in> ws \<Longrightarrow> writer_step t s = Some s' \<Longrightarrow> rw_reach rs ws s'"

text \<open>
  \<^verbatim>\<open>mutex\<close> is held by at most one reader, \<^verbatim>\<open>ReaderCnt\<close> counts the readers that are in, and \<^verbatim>\<open>db\<close> is held by one writer or by
  the readers together: first as a relation of numbers, with what each step does to them.
\<close>

definition rw_nums :: "int \<Rightarrow> int \<Rightarrow> int \<Rightarrow> int \<Rightarrow> int \<Rightarrow> int \<Rightarrow> int \<Rightarrow> int \<Rightarrow> int \<Rightarrow> int \<Rightarrow> bool" where
  "rw_nums m c w out dbp cin dbv rd wr dec \<longleftrightarrow>
     0 \<le> m \<and> 0 \<le> w \<and> 0 \<le> out \<and> 0 \<le> dbp \<and> 0 \<le> cin \<and> 0 \<le> dbv \<and> 0 \<le> rd \<and> 0 \<le> wr \<and> 0 \<le> dec \<and>
     m + out + dbp + cin + dec + dbv = 1 \<and> c = dbp + cin + rd + dec \<and>
     w + wr + (if cin + rd + dec + dbv = 0 then 0 else 1) = 1"

lemma rw_nums_step:
  assumes "rw_nums m c w out dbp cin dbv rd wr dec"
  shows "m \<noteq> 0 \<Longrightarrow> rw_nums (m - 1) c w (out + 1) dbp cin dbv rd wr dec"
    and "1 \<le> out \<Longrightarrow> rw_nums m (c + 1) w (out - 1) (dbp + 1) cin dbv rd wr dec"
    and "1 \<le> dbp \<Longrightarrow> c = 1 \<Longrightarrow> w \<noteq> 0 \<Longrightarrow> rw_nums m c (w - 1) out (dbp - 1) (cin + 1) dbv rd wr dec"
    and "1 \<le> dbp \<Longrightarrow> c \<noteq> 1 \<Longrightarrow> rw_nums m c w out (dbp - 1) (cin + 1) dbv rd wr dec"
    and "1 \<le> cin \<Longrightarrow> rw_nums (m + 1) c w out dbp (cin - 1) dbv (rd + 1) wr dec"
    and "1 \<le> rd \<Longrightarrow> m \<noteq> 0 \<Longrightarrow> rw_nums (m - 1) c w out dbp cin dbv (rd - 1) wr (dec + 1)"
    and "1 \<le> dec \<Longrightarrow> rw_nums m (c - 1) w out dbp cin (dbv + 1) rd wr (dec - 1)"
    and "1 \<le> dbv \<Longrightarrow> c = 0 \<Longrightarrow> rw_nums m c (w + 1) (out + 1) dbp cin (dbv - 1) rd wr dec"
    and "1 \<le> dbv \<Longrightarrow> c \<noteq> 0 \<Longrightarrow> rw_nums m c w (out + 1) dbp cin (dbv - 1) rd wr dec"
    and "1 \<le> out \<Longrightarrow> rw_nums (m + 1) c w (out - 1) dbp cin dbv rd wr dec"
    and "w \<noteq> 0 \<Longrightarrow> rw_nums m c (w - 1) out dbp cin dbv rd (wr + 1) dec"
    and "1 \<le> wr \<Longrightarrow> rw_nums m c (w + 1) out dbp cin dbv rd (wr - 1) dec"
  using assms by (auto simp: rw_nums_def split: if_splits)

definition rw_counts :: "nat set \<Rightarrow> nat set \<Rightarrow> RW \<Rightarrow> bool" where
  "rw_counts rs ws s \<longleftrightarrow>
     rw_nums (int (mutex s)) (ReaderCnt s) (int (db s)) (int (count_at rs (pcs s) {R_inc, R_mutexV2})) (int (count_at rs (pcs s) {R_dbP}))
       (int (count_at rs (pcs s) {R_mutexV})) (int (count_at rs (pcs s) {R_dbV})) (int (count_at rs (pcs s) {Reading}))
       (int (count_at ws (pcs s) {Writing})) (int (count_at rs (pcs s) {R_dec}))"

definition rw_ok :: "nat set \<Rightarrow> nat set \<Rightarrow> RW \<Rightarrow> bool" where
  "rw_ok rs ws s \<longleftrightarrow> rw_counts rs ws s \<and> (\<forall>t \<in> rs. pcs s t \<notin> {W_dbP, Writing}) \<and> (\<forall>t \<in> ws. pcs s t \<in> {W_dbP, Writing})"

lemma rw_ok_reader:
  assumes "finite rs" "rs \<inter> ws = {}" "rw_ok rs ws s" "t \<in> rs" "reader_step t s = Some s'"
  shows "rw_ok rs ws s'"
proof -
  have nw: "t \<notin> ws" using assms(2,4) by blast
  have pos: "1 \<le> int (count_at rs (pcs s) P)" if "pcs s t \<in> P" for P
    using count_at_pos [of rs t "pcs s" P] assms(1,4) that by simp
  note n = rw_nums_step [OF assms(3) [unfolded rw_ok_def, THEN conjunct1, unfolded rw_counts_def]]
  note u = int_count_at_upd [OF assms(1,4)] count_at_other [OF nw] and d = reader_step_def rw_counts_def
  have p: "\<forall>t \<in> rs. pcs s t \<notin> {W_dbP, Writing}" "\<forall>t \<in> ws. pcs s t \<in> {W_dbP, Writing}" using assms(3) by (auto simp: rw_ok_def)
  have p': "\<forall>v \<in> rs. pcs s' v \<notin> {W_dbP, Writing}" "\<forall>v \<in> ws. pcs s' v \<in> {W_dbP, Writing}"
    using assms(5) p nw by (auto simp: d split: rw_pc.splits if_splits)
  have "rw_counts rs ws s'"
  proof (cases "pcs s t")
    case R_mutexP
    then show ?thesis using n(1) assms(5) by (auto simp: d u of_nat_diff split: if_splits)
  next
    case R_inc
    then show ?thesis using n(2) assms(5) pos [of "{R_inc, R_mutexV2}"] by (auto simp: d u)
  next
    case R_dbP
    then show ?thesis using n(3,4) assms(5) pos [of "{R_dbP}"] by (auto simp: d u of_nat_diff split: if_splits)
  next
    case R_mutexV
    then show ?thesis using n(5) assms(5) pos [of "{R_mutexV}"] by (auto simp: d u add.commute)
  next
    case Reading
    then show ?thesis using n(6) assms(5) pos [of "{Reading}"] by (auto simp: d u of_nat_diff split: if_splits)
  next
    case R_dec
    then show ?thesis using n(7) assms(5) pos [of "{R_dec}"] by (auto simp: d u)
  next
    case R_dbV
    then show ?thesis using n(8,9) assms(5) pos [of "{R_dbV}"] by (auto simp: d u add.commute)
  next
    case R_mutexV2
    then show ?thesis using n(10) assms(5) pos [of "{R_inc, R_mutexV2}"] by (auto simp: d u add.commute)
  qed (use p(1) assms(4) in auto)
  then show ?thesis using p' by (simp add: rw_ok_def)
qed

lemma rw_ok_writer:
  assumes "finite ws" "rs \<inter> ws = {}" "rw_ok rs ws s" "t \<in> ws" "writer_step t s = Some s'"
  shows "rw_ok rs ws s'"
proof -
  have nr: "t \<notin> rs" using assms(2,4) by blast
  have pos: "1 \<le> int (count_at ws (pcs s) P)" if "pcs s t \<in> P" for P
    using count_at_pos [of ws t "pcs s" P] assms(1,4) that by simp
  note n = rw_nums_step [OF assms(3) [unfolded rw_ok_def, THEN conjunct1, unfolded rw_counts_def]]
  note u = int_count_at_upd [OF assms(1,4)] count_at_other [OF nr] and d = writer_step_def rw_counts_def
  have p: "\<forall>t \<in> rs. pcs s t \<notin> {W_dbP, Writing}" "\<forall>t \<in> ws. pcs s t \<in> {W_dbP, Writing}" using assms(3) by (auto simp: rw_ok_def)
  have p': "\<forall>v \<in> rs. pcs s' v \<notin> {W_dbP, Writing}" "\<forall>v \<in> ws. pcs s' v \<in> {W_dbP, Writing}"
    using assms(5) p nr by (auto simp: d split: rw_pc.splits if_splits)
  have "rw_counts rs ws s'"
  proof (cases "pcs s t")
    case W_dbP
    then show ?thesis using n(11) assms(5) by (auto simp: d u of_nat_diff split: if_splits)
  next
    case Writing
    then show ?thesis using n(12) assms(5) pos [of "{Writing}"] by (auto simp: d u add.commute)
  qed (use p(2) assms(4) in auto)
  then show ?thesis using p' by (simp add: rw_ok_def)
qed

lemma rw_reach_ok:
  assumes "rw_reach rs ws s" "finite rs" "finite ws" "rs \<inter> ws = {}"
  shows "rw_ok rs ws s"
  using assms(1)
proof (induction rule: rw_reach.induct)
  case (start pc)
  have "count_at rs pc P = 0" if "R_mutexP \<notin> P" for P using start(1) that by (intro count_at_none) auto
  moreover have "count_at ws pc P = 0" if "W_dbP \<notin> P" for P using start(2) that by (intro count_at_none) auto
  ultimately show ?case using start by (simp add: rw_ok_def rw_counts_def rw_nums_def)
next
  case (reader s t s')
  then show ?case using rw_ok_reader assms(2,4) by blast
next
  case (writer s t s')
  then show ?case using rw_ok_writer assms(3,4) by blast
qed

lemma rw_no_deadlock:
  assumes "rw_ok rs ws s" "t \<in> rs \<union> ws"
  shows "(\<exists>t \<in> rs. reader_step t s \<noteq> None) \<or> (\<exists>t \<in> ws. writer_step t s \<noteq> None)"
proof (rule ccontr)
  assume no: "\<not> ?thesis"
  have r: "pcs s u \<in> {R_mutexP, Reading} \<and> mutex s = 0 \<or> pcs s u = R_dbP \<and> db s = 0 \<and> ReaderCnt s = 1" if "u \<in> rs" for u
  proof -
    have "reader_step u s = None" "pcs s u \<notin> {W_dbP, Writing}" using no that assms(1) by (auto simp: rw_ok_def)
    then show ?thesis by (auto simp: reader_step_def split: rw_pc.splits if_splits)
  qed
  have w: "pcs s u = W_dbP \<and> db s = 0" if "u \<in> ws" for u
  proof -
    have "writer_step u s = None" "pcs s u \<in> {W_dbP, Writing}" using no that assms(1) by (auto simp: rw_ok_def)
    then show ?thesis by (auto simp: writer_step_def split: if_splits)
  qed
  have z: "count_at rs (pcs s) P = 0" if "P \<inter> {R_mutexP, Reading, R_dbP} = {}" for P
    by (rule count_at_none) (use r that in blast)
  have "count_at ws (pcs s) {Writing} = 0" by (rule count_at_none) (use w in auto)
  then have n: "rw_nums (int (mutex s)) (ReaderCnt s) (int (db s)) 0 (int (count_at rs (pcs s) {R_dbP})) 0 0 (int (count_at rs (pcs s) {Reading})) 0 0"
    using assms(1) by (simp add: rw_ok_def rw_counts_def z)
  show False
  proof (cases "mutex s = 0")
    case True
    then have "0 < count_at rs (pcs s) {R_dbP}" using n by (simp add: rw_nums_def)
    then obtain u where "u \<in> rs" "pcs s u = R_dbP" using count_at_ex [of rs "pcs s" "{R_dbP}"] by auto
    then have "db s = 0" "ReaderCnt s = 1" using r [of u] by simp_all
    then show False using n True by (auto simp: rw_nums_def split: if_splits)
  next
    case False
    then have "count_at rs (pcs s) {Reading} = 0" by (intro count_at_none) (use r in auto)
    then have "db s \<noteq> 0" using n by (auto simp: rw_nums_def)
    then show False using assms(2) r w False by fastforce
  qed
qed

section \<open>With condition variables\<close>

text \<open>
  A step is what a thread does from one point where the lock is free for others to the next: the acquisition of the lock, the
  rest up to its release. The two conditions hold the threads that sleep in \<^verbatim>\<open>Wait\<close>; a thread that is not among
  them any more needs the lock to go on.
\<close>

datatype cv_pc =
    CW_Acquire | CW_Test | CW_Sleep | CW_Writing | CW_Leave
  | CR_Acquire | CR_Test | CR_Sleep | CR_Enter | CR_Reading | CR_Leave

record CV =
  ActiveWriter :: int
  ActiveReader :: int
  WaitingWriter :: int
  WaitingReader :: int
  CntLock :: "nat option"
  ReadCV :: "nat list"
  WriteCV :: "nat list"
  cpcs :: "nat \<Rightarrow> cv_pc"

abbreviation cgoto :: "nat \<Rightarrow> cv_pc \<Rightarrow> CV \<Rightarrow> CV" where
  "cgoto t p s \<equiv> s\<lparr>cpcs := (cpcs s)(t := p)\<rparr>"

definition locked :: "nat \<Rightarrow> cv_pc \<Rightarrow> CV \<Rightarrow> CV option" where
  "locked t p s = (if CntLock s = None then Some (cgoto t p (s\<lparr>CntLock := Some t\<rparr>)) else None)"

definition unlocked :: "nat \<Rightarrow> cv_pc \<Rightarrow> CV \<Rightarrow> CV option" where
  "unlocked t p s = Some (cgoto t p (s\<lparr>CntLock := None\<rparr>))"

text \<open>What both do on leaving: wake all waiting readers, or else one writer.\<close>

definition wake_others :: "CV \<Rightarrow> CV" where
  "wake_others s =
     (if WaitingReader s > 0 then s\<lparr>ReadCV := []\<rparr>
      else if ActiveReader s = 0 \<and> WaitingWriter s > 0 then s\<lparr>WriteCV := tl (WriteCV s)\<rparr> else s)"

definition CWriter_step :: "nat \<Rightarrow> CV \<Rightarrow> CV option" where
  "CWriter_step t s =
     (case cpcs s t of
        CW_Acquire \<Rightarrow> locked t CW_Test s
      | CW_Test \<Rightarrow>
          if ActiveReader s > 0 \<or> WaitingReader s > 0
          then unlocked t CW_Sleep (s\<lparr>WaitingWriter := WaitingWriter s + 1, WriteCV := WriteCV s @ [t]\<rparr>)
          else unlocked t CW_Writing (s\<lparr>ActiveWriter := ActiveWriter s + 1\<rparr>)
      | CW_Sleep \<Rightarrow> if t \<in> set (WriteCV s) then None else locked t CW_Test (s\<lparr>WaitingWriter := WaitingWriter s - 1\<rparr>)
      | CW_Writing \<Rightarrow> locked t CW_Leave s
      | CW_Leave \<Rightarrow> unlocked t CW_Acquire (wake_others (s\<lparr>ActiveWriter := ActiveWriter s - 1\<rparr>))
      | _ \<Rightarrow> None)"

definition CReader_step :: "nat \<Rightarrow> CV \<Rightarrow> CV option" where
  "CReader_step t s =
     (case cpcs s t of
        CR_Acquire \<Rightarrow> locked t CR_Test s
      | CR_Test \<Rightarrow>
          if ActiveWriter s > 0
          then unlocked t CR_Sleep (s\<lparr>WaitingReader := WaitingReader s + 1, ReadCV := ReadCV s @ [t]\<rparr>)
          else unlocked t CR_Reading (s\<lparr>ActiveReader := ActiveReader s + 1\<rparr>)
      | CR_Sleep \<Rightarrow> if t \<in> set (ReadCV s) then None else locked t CR_Enter (s\<lparr>WaitingReader := WaitingReader s - 1\<rparr>)
      | CR_Enter \<Rightarrow> unlocked t CR_Reading (s\<lparr>ActiveReader := ActiveReader s + 1\<rparr>)
      | CR_Reading \<Rightarrow> locked t CR_Leave s
      | CR_Leave \<Rightarrow> unlocked t CR_Acquire (wake_others (s\<lparr>ActiveReader := ActiveReader s - 1\<rparr>))
      | _ \<Rightarrow> None)"

inductive cv_reach :: "nat set \<Rightarrow> nat set \<Rightarrow> CV \<Rightarrow> bool" for rs ws where
  start: "(\<And>t. t \<in> rs \<Longrightarrow> pc t = CR_Acquire) \<Longrightarrow> (\<And>t. t \<in> ws \<Longrightarrow> pc t = CW_Acquire) \<Longrightarrow>
    cv_reach rs ws \<lparr>ActiveWriter = 0, ActiveReader = 0, WaitingWriter = 0, WaitingReader = 0, CntLock = None, ReadCV = [], WriteCV = [], cpcs = pc\<rparr>"
| reader: "cv_reach rs ws s \<Longrightarrow> t \<in> rs \<Longrightarrow> CReader_step t s = Some s' \<Longrightarrow> cv_reach rs ws s'"
| writer: "cv_reach rs ws s \<Longrightarrow> t \<in> ws \<Longrightarrow> CWriter_step t s = Some s' \<Longrightarrow> cv_reach rs ws s'"

section \<open>Properties\<close>

text \<open>C38. With semaphores, for any number of readers and writers and any interleaving, at most one thread writes, nobody reads
  while a thread writes, and some thread can always take its next step.\<close>

theorem readers_writers_semaphores:
  assumes "rw_reach rs ws s" "finite rs" "finite ws" "rs \<inter> ws = {}" "rs \<union> ws \<noteq> {}"
  shows "(\<forall>w \<in> ws. pcs s w = Writing \<longrightarrow> (\<forall>v \<in> ws. pcs s v = Writing \<longrightarrow> v = w) \<and> (\<forall>r \<in> rs. pcs s r \<noteq> Reading)) \<and>
    ((\<exists>t \<in> rs. reader_step t s \<noteq> None) \<or> (\<exists>t \<in> ws. writer_step t s \<noteq> None))"
proof (intro conjI ballI impI)
  note ok = rw_reach_ok [OF assms(1-4)]
  fix w assume w: "w \<in> ws" "pcs s w = Writing"
  then have "1 \<le> int (count_at ws (pcs s) {Writing})" using count_at_pos [OF assms(3) w(1), of "pcs s" "{Writing}"] by simp
  then have one: "count_at ws (pcs s) {Writing} \<le> 1" "count_at rs (pcs s) {Reading} = 0"
    using ok by (auto simp: rw_ok_def rw_counts_def rw_nums_def split: if_splits)
  show "v = w" if "v \<in> ws" "pcs s v = Writing" for v using count_at_one [OF assms(3) one(1) that(1) _ w(1)] that(2) w(2) by simp
  show "pcs s r \<noteq> Reading" if "r \<in> rs" for r using count_at_pos [OF assms(2) that, of "pcs s" "{Reading}"] one(2) by auto
next
  obtain t where "t \<in> rs \<union> ws" using assms(5) by blast
  then show "(\<exists>t \<in> rs. reader_step t s \<noteq> None) \<or> (\<exists>t \<in> ws. writer_step t s \<noteq> None)" by (rule rw_no_deadlock [OF rw_reach_ok [OF assms(1-4)]])
qed

definition ex_rw :: "nat \<Rightarrow> RW" where
  "ex_rw n = \<lparr>mutex = 1, db = n, ReaderCnt = 0, pcs = (\<lambda>t. if t < 2 then R_mutexP else if n = 0 \<and> t = 2 then Writing else W_dbP)\<rparr>"

theorem readers_writers_semaphores_witness:
  "pcs (ex_rw 0) 2 = Writing \<and> rw_reach {0, 1} {2, 3} (ex_rw 0) \<and> pcs (ex_rw 0) 0 \<noteq> Reading \<and> pcs (ex_rw 0) 3 \<noteq> Writing"
proof -
  have s: "rw_reach {0, 1} {2, 3} (ex_rw 1)" unfolding ex_rw_def by (rule rw_reach.start) auto
  have st: "writer_step 2 (ex_rw 1) = Some (ex_rw 0)" by (auto simp: writer_step_def ex_rw_def fun_eq_iff)
  have r: "rw_reach {0, 1} {2, 3} (ex_rw 0)" by (rule rw_reach.writer [OF s _ st]) simp
  have w: "pcs (ex_rw 0) 2 = Writing" by (simp add: ex_rw_def)
  have f: "finite {0 :: nat, 1}" "finite {2 :: nat, 3}" "{0 :: nat, 1} \<inter> {2, 3} = {}" "{0 :: nat, 1} \<union> {2, 3} \<noteq> {}" by auto
  show ?thesis using readers_writers_semaphores [OF r f] r w by simp
qed

text \<open>With condition variables a writer does not look for other writers, and a reader that is woken does not look again.\<close>

definition ex_cv :: CV where
  "ex_cv = \<lparr>ActiveWriter = 0, ActiveReader = 0, WaitingWriter = 0, WaitingReader = 0, CntLock = None, ReadCV = [], WriteCV = [],
     cpcs = (\<lambda>t. if t = 2 then CR_Acquire else CW_Acquire)\<rparr>"

fun cv_run :: "nat list \<Rightarrow> CV \<Rightarrow> CV option" where
  "cv_run [] s = Some s"
| "cv_run (t # ts) s = (case (if t = 2 then CReader_step t s else CWriter_step t s) of None \<Rightarrow> None | Some s \<Rightarrow> cv_run ts s)"

lemma cv_run_reach: "cv_reach {2} {0, 1} s \<Longrightarrow> set ts \<subseteq> {0, 1, 2} \<Longrightarrow> cv_run ts s = Some s' \<Longrightarrow> cv_reach {2} {0, 1} s'"
proof (induction ts arbitrary: s)
  case (Cons t ts)
  obtain s1 where s1: "(if t = 2 then CReader_step t s else CWriter_step t s) = Some s1" "cv_run ts s1 = Some s'"
    using Cons.prems(3) by (auto split: option.splits)
  have "cv_reach {2} {0, 1} s1"
  proof (cases "t = 2")
    case True
    then show ?thesis using s1(1) cv_reach.reader [OF Cons.prems(1), of t s1] by simp
  next
    case False
    then show ?thesis using s1(1) Cons.prems(2) cv_reach.writer [OF Cons.prems(1), of t s1] by auto
  qed
  then show ?case using Cons.IH s1(2) Cons.prems(2) by simp
qed simp

lemmas cv_eval = ex_cv_def CReader_step_def CWriter_step_def locked_def unlocked_def wake_others_def

theorem condition_version_fails:
  "(\<exists>s. cv_reach {2} {0, 1} s \<and> cpcs s 0 = CW_Writing \<and> cpcs s 1 = CW_Writing) \<and>
   (\<exists>s. cv_reach {2} {0, 1} s \<and> cpcs s 2 = CR_Reading \<and> cpcs s 1 = CW_Writing)"
proof -
  have s: "cv_reach {2} {0, 1} ex_cv" unfolding ex_cv_def by (rule cv_reach.start) auto
  obtain a where a: "cv_run [0, 0, 1, 1] ex_cv = Some a" "cpcs a 0 = CW_Writing" "cpcs a 1 = CW_Writing" by (simp add: cv_eval)
  obtain b where b: "cv_run [0, 0, 1, 1, 2, 2, 0, 0, 2, 2] ex_cv = Some b" "cpcs b 2 = CR_Reading" "cpcs b 1 = CW_Writing"
    by (simp add: cv_eval)
  have "cv_reach {2} {0, 1} a" by (rule cv_run_reach [OF s _ a(1)]) simp
  moreover have "cv_reach {2} {0, 1} b" by (rule cv_run_reach [OF s _ b(1)]) simp
  ultimately show ?thesis using a b by blast
qed

end
