(* ===== verification/Stack_Classes.thy ===== *)
theory Stack_Classes
  imports Nachos_Prelude
begin

text \<open>
  The stacks of \<^verbatim>\<open>c++example\<close>: the abstract class of \<^verbatim>\<open>inheritstack.h\<close> with its two implementations, an array and a linked list
  with its cells in a store, and the template of \<^verbatim>\<open>templatestack.cc\<close>. The locale \<open>stack_class\<close> is the contract of the abstract
  class; its self test is verified once, and \<open>array_stack\<close> and \<open>list_stack\<close> show that the implementations meet it.
\<close>

section \<open>The array\<close>

record 'a ArrayStack =
  size_of :: int
  top_of :: int
  stack_of :: "'a list"

definition ArrayStack_Full :: "'a ArrayStack \<Rightarrow> bool" where
  "ArrayStack_Full s \<longleftrightarrow> top_of s = size_of s"

definition ArrayStack_Empty :: "'a ArrayStack \<Rightarrow> bool" where
  "ArrayStack_Empty s \<longleftrightarrow> top_of s = 0"

text \<open>\<open>junk\<close> is the content of the new array.\<close>

definition new_ArrayStack :: "(nat \<Rightarrow> 'a) \<Rightarrow> int \<Rightarrow> 'a ArrayStack result" where
  "new_ArrayStack junk sz = ASSERT (sz \<ge> 1) (Inr \<lparr>size_of = sz, top_of = 0, stack_of = map junk [0..<nat sz]\<rparr>)"

definition ArrayStack_Push :: "'a \<Rightarrow> 'a ArrayStack \<Rightarrow> 'a ArrayStack result" where
  "ArrayStack_Push v s =
     ASSERT (\<not> ArrayStack_Full s)
       (if 0 \<le> top_of s \<and> nat (top_of s) < length (stack_of s)
        then Inr (s\<lparr>stack_of := (stack_of s)[nat (top_of s) := v], top_of := top_of s + 1\<rparr>) else Inl BadAccess)"

definition ArrayStack_Pop :: "'a ArrayStack \<Rightarrow> ('a ArrayStack \<times> 'a) result" where
  "ArrayStack_Pop s =
     ASSERT (\<not> ArrayStack_Empty s)
       (let t = top_of s - 1 in
        if 0 \<le> t \<and> nat t < length (stack_of s) then Inr (s\<lparr>top_of := t\<rparr>, stack_of s ! nat t) else Inl BadAccess)"

section \<open>The list\<close>

text \<open>Cells have a value and a link; \<open>il_next\<close> is the next address \<^verbatim>\<open>new\<close> gives out.\<close>

record IntList =
  il_first :: "nat option"
  il_last :: "nat option"
  il_cells :: "nat \<rightharpoonup> int \<times> nat option"
  il_next :: nat

definition new_IntList :: IntList where
  "new_IntList = \<lparr>il_first = None, il_last = None, il_cells = Map.empty, il_next = 0\<rparr>"

definition IntList_Empty :: "IntList \<Rightarrow> bool" where
  "IntList_Empty l \<longleftrightarrow> il_first l = None"

definition IntList_Prepend :: "int \<Rightarrow> IntList \<Rightarrow> IntList" where
  "IntList_Prepend v l =
     (let e = il_next l; l = l\<lparr>il_next := e + 1\<rparr> in
      if IntList_Empty l then l\<lparr>il_cells := (il_cells l)(e \<mapsto> (v, None)), il_first := Some e, il_last := Some e\<rparr>
      else l\<lparr>il_cells := (il_cells l)(e \<mapsto> (v, il_first l)), il_first := Some e\<rparr>)"

definition IntList_Remove :: "IntList \<Rightarrow> (IntList \<times> int) result" where
  "IntList_Remove l =
     ASSERT (\<not> IntList_Empty l)
       (case il_first l of None \<Rightarrow> Inl BadAccess | Some e \<Rightarrow>
        (case il_cells l e of None \<Rightarrow> Inl BadAccess | Some (v, nx) \<Rightarrow>
         let l1 = (if il_first l = il_last l then l\<lparr>il_first := None, il_last := None\<rparr> else l\<lparr>il_first := nx\<rparr>) in
         Inr (l1\<lparr>il_cells := (il_cells l1)(e := None)\<rparr>, v)))"

definition ListStack_Push :: "int \<Rightarrow> IntList \<Rightarrow> IntList result" where
  "ListStack_Push v l = Inr (IntList_Prepend v l)"

definition ListStack_Pop :: "IntList \<Rightarrow> (IntList \<times> int) result" where
  "ListStack_Pop l = ASSERT (\<not> IntList_Empty l) (IntList_Remove l)"

definition ListStack_Full :: "IntList \<Rightarrow> bool" where
  "ListStack_Full l = False"

section \<open>The self test of the abstract class\<close>

datatype printed = Pushing int | Popping int

text \<open>The virtual functions are arguments. The second loop has fuel.\<close>

fun push_loop :: "(int \<Rightarrow> 's \<Rightarrow> 's result) \<Rightarrow> ('s \<Rightarrow> bool) \<Rightarrow> nat \<Rightarrow> int \<Rightarrow> 's \<Rightarrow> ('s \<times> printed list) result" where
  "push_loop push full 0 count s = Inr (s, [])"
| "push_loop push full (Suc n) count s =
     ASSERT (\<not> full s) (bindE (push count s) (\<lambda>s. bindE (push_loop push full n (count + 1) s) (\<lambda>(s, out). Inr (s, Pushing count # out))))"

fun pop_loop :: "('s \<Rightarrow> ('s \<times> int) result) \<Rightarrow> ('s \<Rightarrow> bool) \<Rightarrow> nat \<Rightarrow> 's \<Rightarrow> ('s \<times> printed list) result" where
  "pop_loop pop isempty fuel s =
     (if isempty s then Inr (s, [])
      else case fuel of 0 \<Rightarrow> Inl Diverges | Suc f \<Rightarrow>
        bindE (pop s) (\<lambda>(s, v). bindE (pop_loop pop isempty f s) (\<lambda>(s, out). Inr (s, Popping v # out))))"

declare pop_loop.simps [simp del]

definition SelfTest :: "(int \<Rightarrow> 's \<Rightarrow> 's result) \<Rightarrow> ('s \<Rightarrow> ('s \<times> int) result) \<Rightarrow> ('s \<Rightarrow> bool) \<Rightarrow> ('s \<Rightarrow> bool) \<Rightarrow> nat \<Rightarrow> nat \<Rightarrow> 's \<Rightarrow> printed list result" where
  "SelfTest push pop full isempty fuel numToPush s =
     bindE (push_loop push full numToPush 17 s) (\<lambda>(s, out1).
     bindE (pop_loop pop isempty fuel s) (\<lambda>(s, out2). Inr (out1 @ out2)))"

section \<open>The contract\<close>

text \<open>\<open>rep s xs\<close>: the stack \<open>s\<close> holds \<open>xs\<close>, the top first; \<open>limit\<close> is how many fit.\<close>

locale stack_class =
  fixes push :: "'a \<Rightarrow> 's \<Rightarrow> 's result" and pop :: "'s \<Rightarrow> ('s \<times> 'a) result" and full :: "'s \<Rightarrow> bool" and isempty :: "'s \<Rightarrow> bool"
    and rep :: "'s \<Rightarrow> 'a list \<Rightarrow> bool" and limit :: "'s \<Rightarrow> nat option"
  assumes empty_iff: "rep s xs \<Longrightarrow> isempty s \<longleftrightarrow> xs = []"
    and full_iff: "rep s xs \<Longrightarrow> full s \<longleftrightarrow> limit s = Some (length xs)"
    and push_ok: "rep s xs \<Longrightarrow> \<not> full s \<Longrightarrow> \<exists>s'. push v s = Inr s' \<and> rep s' (v # xs) \<and> limit s' = limit s"
    and pop_ok: "rep s (x # xs) \<Longrightarrow> \<exists>s'. pop s = Inr (s', x) \<and> rep s' xs \<and> limit s' = limit s"
    and pop_empty: "rep s [] \<Longrightarrow> pop s = Inl AssertFailed"
begin

lemma push_pop:
  assumes "rep s xs" "\<not> full s"
  shows "\<exists>s1 s2. push v s = Inr s1 \<and> pop s1 = Inr (s2, v) \<and> rep s2 xs"
proof -
  obtain s1 where s1: "push v s = Inr s1" "rep s1 (v # xs)" using push_ok [OF assms] by blast
  show ?thesis using pop_ok [OF s1(2)] s1(1) by blast
qed

end

text \<open>For stacks of numbers, the self test.\<close>

locale int_stack_class = stack_class push pop full isempty rep limit
  for push :: "int \<Rightarrow> 's \<Rightarrow> 's result" and pop full isempty rep limit
begin

lemma push_loop_ok:
  assumes "rep s xs" "case limit s of None \<Rightarrow> True | Some k \<Rightarrow> length xs + n \<le> k"
  shows "\<exists>s'. push_loop push full n c s = Inr (s', map (\<lambda>i. Pushing (c + int i)) [0..<n]) \<and> rep s' (rev (map (\<lambda>i. c + int i) [0..<n]) @ xs)"
  using assms
proof (induction n arbitrary: c s xs)
  case (Suc n)
  have "\<not> full s" using full_iff [OF Suc.prems(1)] Suc.prems(2) by auto
  then obtain s1 where s1: "push c s = Inr s1" "rep s1 (c # xs)" "limit s1 = limit s" using push_ok [OF Suc.prems(1)] by blast
  obtain s' where s': "push_loop push full n (c + 1) s1 = Inr (s', map (\<lambda>i. Pushing (c + 1 + int i)) [0..<n])"
    "rep s' (rev (map (\<lambda>i. c + 1 + int i) [0..<n]) @ c # xs)"
    using Suc.IH [OF s1(2), of "c + 1"] s1(3) Suc.prems(2) by (auto split: option.splits)
  have u: "map f [0..<Suc n] = f 0 # map (\<lambda>i. f (Suc i)) [0..<n]" for f :: "nat \<Rightarrow> 'z"
    by (simp add: upt_conv_Cons map_Suc_upt [symmetric] del: upt_Suc)
  show ?case using \<open>\<not> full s\<close> s1(1) s' by (simp add: u add.assoc add.commute [of 1] del: upt_Suc)
qed simp

lemma pop_loop_ok:
  assumes "rep s xs" "length xs \<le> fuel"
  shows "\<exists>s'. pop_loop pop isempty fuel s = Inr (s', map Popping xs) \<and> rep s' []"
  using assms
proof (induction xs arbitrary: s fuel)
  case Nil
  then show ?case using empty_iff [OF Nil.prems(1)] by (simp add: pop_loop.simps)
next
  case (Cons x xs)
  obtain f where f: "fuel = Suc f" using Cons.prems(2) by (cases fuel) auto
  obtain s1 where s1: "pop s = Inr (s1, x)" "rep s1 xs" using pop_ok [OF Cons.prems(1)] by blast
  show ?case using Cons.IH [OF s1(2), of f] Cons.prems(2) f s1(1) empty_iff [OF Cons.prems(1)] by (auto simp: pop_loop.simps [of _ _ "Suc f"])
qed

lemma SelfTest_ok:
  assumes "rep s []" "case limit s of None \<Rightarrow> True | Some k \<Rightarrow> n \<le> k" "n \<le> fuel"
  shows "SelfTest push pop full isempty fuel n s =
    Inr (map (\<lambda>i. Pushing (17 + int i)) [0..<n] @ map (\<lambda>i. Popping (17 + int i)) (rev [0..<n]))"
proof -
  obtain s1 where s1: "push_loop push full n 17 s = Inr (s1, map (\<lambda>i. Pushing (17 + int i)) [0..<n])"
    "rep s1 (rev (map (\<lambda>i. 17 + int i) [0..<n]))" using push_loop_ok [of s "[]" n 17] assms by (auto split: option.splits)
  obtain s2 where "pop_loop pop isempty fuel s1 = Inr (s2, map Popping (rev (map (\<lambda>i. 17 + int i) [0..<n])))"
    using pop_loop_ok [OF s1(2), of fuel] assms(3) by auto
  then show ?thesis using s1(1) by (simp add: SelfTest_def rev_map comp_def)
qed

end

section \<open>The implementations\<close>

definition array_rep :: "'a ArrayStack \<Rightarrow> 'a list \<Rightarrow> bool" where
  "array_rep s xs \<longleftrightarrow> length (stack_of s) = nat (size_of s) \<and> 0 \<le> top_of s \<and> top_of s \<le> size_of s \<and>
     xs = rev (take (nat (top_of s)) (stack_of s))"

lemma array_rep_length: "array_rep s xs \<Longrightarrow> int (length xs) = top_of s"
  by (auto simp: array_rep_def min_def)

lemma array_push:
  assumes "array_rep s xs" "\<not> ArrayStack_Full s"
  shows "\<exists>s'. ArrayStack_Push v s = Inr s' \<and> array_rep s' (v # xs) \<and> size_of s' = size_of s"
proof -
  have t: "0 \<le> top_of s" "nat (top_of s) < length (stack_of s)" "nat (top_of s + 1) = Suc (nat (top_of s))"
    using assms by (auto simp: array_rep_def ArrayStack_Full_def)
  then show ?thesis using assms by (auto simp: ArrayStack_Push_def array_rep_def ArrayStack_Full_def take_Suc_conv_app_nth)
qed

lemma array_pop:
  assumes "array_rep s (x # xs)"
  shows "\<exists>s'. ArrayStack_Pop s = Inr (s', x) \<and> array_rep s' xs \<and> size_of s' = size_of s"
proof -
  let ?t = "nat (top_of s - 1)"
  have l: "top_of s = int (length xs) + 1" using array_rep_length [OF assms] by simp
  have t: "nat (top_of s) = Suc ?t" "?t < length (stack_of s)" "0 < top_of s" using assms l by (auto simp: array_rep_def)
  then have "x # xs = stack_of s ! ?t # rev (take ?t (stack_of s))" using assms by (simp add: array_rep_def take_Suc_conv_app_nth)
  then show ?thesis using t assms by (auto simp: ArrayStack_Pop_def array_rep_def ArrayStack_Empty_def Let_def)
qed

interpretation array_stack: stack_class ArrayStack_Push ArrayStack_Pop ArrayStack_Full ArrayStack_Empty array_rep "\<lambda>s. Some (nat (size_of s))"
proof
  fix s :: "'a ArrayStack" and xs x v
  show "ArrayStack_Empty s = (xs = [])" if "array_rep s xs"
    using array_rep_length [OF that] by (auto simp: ArrayStack_Empty_def)
  show "ArrayStack_Full s = (Some (nat (size_of s)) = Some (length xs))" if "array_rep s xs"
    using array_rep_length [OF that] that by (auto simp: ArrayStack_Full_def array_rep_def simp del: length_rev length_take)
  show "\<exists>s'. ArrayStack_Push v s = Inr s' \<and> array_rep s' (v # xs) \<and> Some (nat (size_of s')) = Some (nat (size_of s))"
    if "array_rep s xs" "\<not> ArrayStack_Full s" using array_push [OF that, of v] by auto
  show "\<exists>s'. ArrayStack_Pop s = Inr (s', x) \<and> array_rep s' xs \<and> Some (nat (size_of s')) = Some (nat (size_of s))"
    if "array_rep s (x # xs)" using array_pop [OF that] by auto
  show "ArrayStack_Pop s = Inl AssertFailed" if "array_rep s []"
    using array_rep_length [OF that] by (simp add: ArrayStack_Pop_def ArrayStack_Empty_def)
qed

interpretation int_array_stack: int_stack_class ArrayStack_Push ArrayStack_Pop ArrayStack_Full ArrayStack_Empty array_rep "\<lambda>s. Some (nat (size_of s))"
  by unfold_locales

fun chain :: "(nat \<rightharpoonup> int \<times> nat option) \<Rightarrow> nat option \<Rightarrow> nat list \<Rightarrow> int list \<Rightarrow> bool" where
  "chain c p [] [] \<longleftrightarrow> p = None"
| "chain c p (a # as) (x # xs) \<longleftrightarrow> p = Some a \<and> (\<exists>nx. c a = Some (x, nx) \<and> chain c nx as xs)"
| "chain c p _ _ \<longleftrightarrow> False"

definition list_rep :: "IntList \<Rightarrow> int list \<Rightarrow> bool" where
  "list_rep l xs \<longleftrightarrow> (\<exists>as. chain (il_cells l) (il_first l) as xs \<and> distinct as \<and> (\<forall>a \<in> set as. a < il_next l) \<and>
     il_last l = (if as = [] then None else Some (last as)))"

lemma chain_upd: "a \<notin> set as \<Longrightarrow> chain (c(a := v)) p as xs = chain c p as xs"
  by (induction c p as xs rule: chain.induct) auto

lemma list_Empty: "list_rep l xs \<Longrightarrow> IntList_Empty l \<longleftrightarrow> xs = []"
  by (auto simp: list_rep_def IntList_Empty_def elim: chain.elims)

lemma list_push:
  assumes "list_rep l xs"
  shows "list_rep (IntList_Prepend v l) (v # xs)"
proof -
  obtain as where as: "chain (il_cells l) (il_first l) as xs" "distinct as" "\<forall>a \<in> set as. a < il_next l"
    "il_last l = (if as = [] then None else Some (last as))"
    using assms by (auto simp: list_rep_def)
  have n: "il_next l \<notin> set as" using as(3) by auto
  then show ?thesis unfolding list_rep_def
    by (intro exI [of _ "il_next l # as"]) (use as in \<open>cases as; cases xs; auto simp: IntList_Prepend_def IntList_Empty_def Let_def chain_upd\<close>)
qed

lemma list_pop:
  assumes "list_rep l (x # xs)"
  shows "\<exists>l'. ListStack_Pop l = Inr (l', x) \<and> list_rep l' xs"
proof -
  obtain a as nx where as: "il_first l = Some a" "il_cells l a = Some (x, nx)" "chain (il_cells l) nx as xs" "distinct (a # as)"
    "\<forall>b \<in> set (a # as). b < il_next l" "il_last l = Some (last (a # as))"
    using assms by (auto simp: list_rep_def elim: chain.elims split: if_splits)
  have e: "(il_first l = il_last l) = (as = [])" using as(1,4,6) by (cases as rule: rev_cases) auto
  let ?l1 = "if as = [] then l\<lparr>il_first := None, il_last := None\<rparr> else l\<lparr>il_first := nx\<rparr>"
  have "ListStack_Pop l = Inr (?l1\<lparr>il_cells := (il_cells ?l1)(a := None)\<rparr>, x)"
    using as(1,2) e by (simp add: ListStack_Pop_def IntList_Remove_def IntList_Empty_def Let_def)
  moreover have "list_rep (?l1\<lparr>il_cells := (il_cells ?l1)(a := None)\<rparr>) xs" unfolding list_rep_def
    by (intro exI [of _ as]) (use as in \<open>cases as; cases xs; auto simp: chain_upd\<close>)
  ultimately show ?thesis by blast
qed

lemma list_pop_empty: "list_rep l [] \<Longrightarrow> ListStack_Pop l = Inl AssertFailed"
  by (simp add: ListStack_Pop_def list_Empty)

interpretation list_stack: int_stack_class ListStack_Push ListStack_Pop ListStack_Full IntList_Empty list_rep "\<lambda>_. None"
  by unfold_locales (auto simp: list_Empty ListStack_Full_def ListStack_Push_def list_push list_pop list_pop_empty)

section \<open>Properties\<close>

text \<open>C40. The self test cannot tell the two implementations apart: with room for the numbers in the array, both print the same, the
  numbers in order as they are pushed and in reverse order as they are popped, and the loop that pops ends.\<close>

theorem SelfTest_same:
  assumes "new_ArrayStack junk sz = Inr s" "int n \<le> sz" "n \<le> fuel"
  shows "SelfTest ArrayStack_Push ArrayStack_Pop ArrayStack_Full ArrayStack_Empty fuel n s =
      SelfTest ListStack_Push ListStack_Pop ListStack_Full IntList_Empty fuel n new_IntList \<and>
    SelfTest ListStack_Push ListStack_Pop ListStack_Full IntList_Empty fuel n new_IntList =
      Inr (map (\<lambda>i. Pushing (17 + int i)) [0..<n] @ map (\<lambda>i. Popping (17 + int i)) (rev [0..<n]))"
proof -
  have a: "array_rep s ([] :: int list)" "n \<le> nat (size_of s)" using assms(1,2) by (auto simp: new_ArrayStack_def ASSERT_eq_Inr array_rep_def)
  have l: "list_rep new_IntList []" unfolding list_rep_def by (rule exI [of _ "[]"]) (simp add: new_IntList_def)
  show ?thesis using int_array_stack.SelfTest_ok [OF a(1), of n fuel] list_stack.SelfTest_ok [OF l, of n fuel] a(2) assms(3) by simp
qed

theorem SelfTest_same_witness:
  "SelfTest ListStack_Push ListStack_Pop ListStack_Full IntList_Empty 2 2 new_IntList = Inr [Pushing 17, Pushing 18, Popping 18, Popping 17]"
proof -
  have "new_ArrayStack (\<lambda>_. 0) 10 = Inr \<lparr>size_of = 10, top_of = 0, stack_of = map (\<lambda>_. 0) [0..<10]\<rparr>" by (simp add: new_ArrayStack_def)
  from SelfTest_same [OF this, of 2 2] show ?thesis by (simp add: numeral_2_eq_2)
qed

end
