(* ===== verification/Spec2Isabelle.thy ===== *)
theory Spec2Isabelle
  imports File_System User_Threads Disk_Readers Kernel_Faults Kernel_Boot Elevator Context_Switch Network_Mail
    Console_Dev Coff_Noff Reader_Writer Stack_Classes
begin

text \<open>
  A verification library for the Nachos kernel in \<^verbatim>\<open>code/\<close> and the stack classes in \<^verbatim>\<open>c++example/\<close>.

  \<^bold>\<open>Configuration.\<close> The code is read for the host it is built for, a 32-bit little-endian machine with
  signed \<^verbatim>\<open>char\<close>, with \<^verbatim>\<open>SCHED_PRIO\<close> and \<^verbatim>\<open>CacheEnabled\<close> defined. The file system is the one of
  the \<^verbatim>\<open>FILESYS\<close> build; user programs run in the build of \<^verbatim>\<open>userprog/Makefile\<close>, with a translation
  buffer and pages swapped to \<^verbatim>\<open>vSpace\<close>.

  \<^bold>\<open>Conventions\<close> (\<open>Nachos_Prelude\<close>). State is passed explicitly. Code that can stop returns
  \<open>fault + 'a\<close>: a failed \<^verbatim>\<open>ASSERT\<close>, an access out of bounds or through a null or dangling
  pointer (also arithmetic that C++ leaves undefined), a wait that nothing in the modelled sequence
  of calls would end, exhausted fuel, and the end of the simulator. Memory that C++ leaves
  indeterminate, and the clock, are inputs of the model. \<open>int\<close> variables whose values stay small are
  \<open>int\<close>; bit patterns and registers are words. So the counters of the statistics and the ticks do not wrap, and sums such as
  \<^verbatim>\<open>position + numBytes\<close> in \<^verbatim>\<open>ReadAt\<close> and \<^verbatim>\<open>WriteAt\<close> are exact: what is shown of them is about runs and arguments for which they fit into 32 bits.

  \<^bold>\<open>Parts.\<close>
  \<^item> \<open>Linked_List\<close>: \<^verbatim>\<open>threads/list.cc\<close> at pointer level, in a store of cells. The locale
    \<open>keyed_list\<close> is the interface of a list ordered by key; \<open>heap_list\<close> interprets it.
    Insertion and removal give a stable sort; \<^verbatim>\<open>Remove(item)\<close> unlinks the first occurrence.
  \<^item> \<open>Bit_Map\<close>: \<^verbatim>\<open>userprog/bitmap.cc\<close> over words. \<open>bit_allocator\<close> is the interface the file headers
    rely on, \<open>free_map\<close> its interpretation.
  \<^item> \<open>Machine_Stats\<close>, \<open>Disk_Device\<close>: \<^verbatim>\<open>machine/stats.h\<close>, \<^verbatim>\<open>machine/disk.cc\<close>: the image file,
    requests, the latency of a request with its track buffer.
  \<^item> \<open>Synch_Disk\<close>: \<^verbatim>\<open>filesys/synchdisk.cc\<close>: the write-back cache, the counters of readers, writers and
    openers. \<open>sector_store\<close> is the interface of a disk of sectors, \<open>cached_disk\<close> shows that the cached
    disk meets it. \<open>Disk_Readers\<close> has the readers and writers of a file as threads that interleave statement by statement: exclusion, the
    meaning of the counter, and no deadlock.
  \<^item> \<open>File_Header\<close>, \<open>Dir_Table\<close>, \<open>Open_File\<close>, \<open>File_System\<close>: the headers with direct and indirect
    sectors, directories, open files, and the operations on paths, composed the way the code
    composes them. A file refines an array of bytes, and a directory written to its file comes back from it.
  \<^item> \<open>Virt_Mem\<close>, \<open>Paging\<close>: registers, address translation, the translation buffer, page replacement,
    swapping and context switches of \<^verbatim>\<open>machine/translate.cc\<close>, \<^verbatim>\<open>machine.cc\<close> and
    \<^verbatim>\<open>userprog/addrspace.cc\<close>. \<open>paging_kernel\<close> is what address translation relies on in the kernel that
    handles its faults; in it, reads and writes of user memory are shown to act on an array of bytes.
  \<^item> \<open>Mips_Sim\<close>: the instruction interpreter of \<^verbatim>\<open>machine/mipssim.cc\<close>: decoding, every instruction,
    64-bit multiplication, the run loop. Decoding inverts encoding, multiplication and the overflow
    traps are exact, and \<^verbatim>\<open>OR\<close> and \<^verbatim>\<open>SRL\<close> are not what they should be.
  \<^item> \<open>Host_Stub\<close>, \<open>Process_Image\<close>: the host files of \<^verbatim>\<open>machine/sysdep.cc\<close>, the stub file system over
    them, and the loading of an executable into a new address space. The loader puts the code at address 0, whatever address the header gives.
  \<^item> \<open>Syscalls\<close>: \<^verbatim>\<open>userprog/exception.cc\<close>: every system call, over the machine, the stub file system and
    the thread operations of the kernel, which are arguments of the model. It interprets \<open>paging_kernel\<close>
    on the exception handler, so that demand paging is transparent to user programs, and shows
    which string a system call gets from user memory.
  \<^item> \<open>Cpu_Type\<close>, \<open>User_Threads\<close>: the type of a machine state, kept by every instruction, fault and system call. \<open>cpu_kernel\<close> is
    what the interpreter relies on in the kernel above it, interpreted on the exception handler. \<open>User_Threads\<close> has several user
    processes as a step relation: the system calls up to the thread operation they call, what \<^verbatim>\<open>Scheduler::Run\<close> saves and restores of the machine,
    the start of forked threads and the end of threads, without the timer. The types hold in every reachable state, and of the saved registers.
  \<^item> \<open>Kernel_State\<close>, \<open>Interrupts\<close>, \<open>Thread_Sched\<close>, \<open>Synch_Prims\<close>, \<open>Kernel_Boot\<close>: interrupts and the timer,
    threads and the scheduler with priorities, semaphores, locks, condition variables, barriers and
    synchronised lists, and \<^verbatim>\<open>Initialize\<close>. Each thread has the list of actions it still has to do;
    a step executes the next action of the running thread, so that context switches happen where the
    code calls \<^verbatim>\<open>SWITCH\<close>, in interrupt handlers too. \<open>Kernel_Safety\<close> shows what holds of every run (semaphore
    values, mutual exclusion, time), \<open>Kernel_Faults\<close> the rotation among equal priorities and three faults.
  \<^item> \<open>Context_Switch\<close>: the i386 instructions of \<^verbatim>\<open>threads/switch.c\<close>, executed on registers and memory. A thread
    resumes where it called \<^verbatim>\<open>SWITCH\<close>, and a new one enables interrupts, runs its function and finishes.
  \<^item> \<open>Network_Mail\<close>: \<^verbatim>\<open>machine/network.cc\<close> and \<^verbatim>\<open>network/post.cc\<close> on several machines, whose threads and interrupts
    interleave in any way; the sockets of the host are an argument. Mail arrives in order and unaltered.
  \<^item> \<open>Elevator\<close>: \<^verbatim>\<open>machine/elevator.cc\<close>, with the calls of riders and controllers and the interrupts in any order: what
    always holds of an elevator, and that it arrives.
  \<^item> \<open>Console_Dev\<close>: \<^verbatim>\<open>machine/console.cc\<close>, the device and the synchronous console over the host's files, with its readers,
    writers and interrupts in any order. At a terminal, characters are neither lost nor reordered, unless one equals \<^verbatim>\<open>EOF\<close>; the end of a keyboard
    file stops Nachos.
  \<^item> \<open>Coff_Noff\<close>: \<^verbatim>\<open>bin/coff2noff.c\<close> on the bytes of its files, composed with \<open>Process_Image\<close>: the sections of the object file reach the
    memory of the process.
  \<^item> \<open>Reader_Writer\<close>: the two solutions of the readers and writers problem in \<^verbatim>\<open>threads/threadtest.cc\<close>, as step relations. The one
    with semaphores is correct for any number of threads and never gets stuck; in the one with condition variables two writers can write at once.
  \<^item> \<open>Stack_Classes\<close>: the abstract stack of \<^verbatim>\<open>c++example/inheritstack.cc\<close> as the locale \<open>stack_class\<close>, interpreted on the array
    (\<open>array_stack\<close>) and on the linked list with its cells (\<open>list_stack\<close>).

  \<^bold>\<open>Fuel.\<close> \<open>WriteAt\<close> and \<open>ExtendWrapper\<close> call each other through the file of the free map; the depth
  is bounded by \<open>write_depth\<close>, which is shown to be enough. The loop that looks for the end of a string
  in user memory has the bound \<open>rounds\<close>, and ends within it when the string is shorter; the run loop
  of the processor ends only with the simulator and takes the number of instructions. \<open>FileSystem_Remove\<close> recurses on the entries of a
  directory by name and takes its depth as an argument. The self test of the stacks pops until
  the stack is empty; as much fuel as there are elements is shown to be enough. The other loops are structural or have a
  termination proof.

  \<^bold>\<open>Not modelled.\<close> Output (\<^verbatim>\<open>Print\<close>, \<^verbatim>\<open>DEBUG\<close>), and the calls of the host in \<^verbatim>\<open>machine/sysdep.cc\<close> that do not
  concern files or sockets. \<^verbatim>\<open>stack.cc\<close> and \<^verbatim>\<open>templatestack.cc\<close> repeat the array stack. The other tools in \<^verbatim>\<open>bin/\<close> are not part of any
  build; the programs in \<^verbatim>\<open>test/\<close> are inputs of the simulated machine. The other test drivers only fork threads and print.
\<close>

end
